(* ===== verification/Prelude.thy ===== *)
theory Prelude
  imports Main "HOL-Library.Word"
begin

unbundle bit_operations_syntax

text \<open>
  Shared material of the development: the names of the machine types of
  \<^verbatim>\<open>eagine.core.types\<close> (\<^verbatim>\<open>byte\<close>, \<^verbatim>\<open>identifier_t\<close>, ...), the reading of a
  machine word as a list of bits, most significant bit first, and the generic lemmas on
  words, lists and options that the component theories use.
\<close>

type_synonym byte = "8 word"
type_synonym u16 = "16 word"
type_synonym u32 = "32 word"
type_synonym u64 = "64 word"
type_synonym u128 = "128 word"

named_theorems wbits_simps \<open>rewriting the bit list of a word\<close>

section \<open>Words as bit lists\<close>

text \<open>\<open>wbits n x\<close> lists the \<open>n\<close> low bits of \<open>x\<close>, the most significant of them first.\<close>

definition wbits :: "nat \<Rightarrow> 'a::len word \<Rightarrow> bool list" where
  "wbits n x = map (bit x) (rev [0..<n])"

lemma length_wbits [simp]: "length (wbits n x) = n"
  by (simp add: wbits_def)

lemma wbits_0 [simp]: "wbits 0 x = []"
  by (simp add: wbits_def)

lemma nth_wbits [simp]: "i < n \<Longrightarrow> wbits n x ! i = bit x (n - Suc i)"
  by (simp add: wbits_def rev_nth)

lemma wbits_eq_iff: "wbits n x = wbits n y \<longleftrightarrow> (\<forall>k < n. bit x k = bit y k)"
  by (auto simp: wbits_def)

lemma wbits_append:
  "wbits m (drop_bit n x) @ wbits n x = wbits (m + n) x"
  by (rule nth_equalityI) (auto simp: nth_append bit_simps intro!: arg_cong [where f = "bit x"])

lemma wbits_inject:
  fixes x y :: "'a::len word"
  shows "wbits LENGTH('a) x = wbits LENGTH('a) y \<longleftrightarrow> x = y"
  by (auto simp: wbits_eq_iff intro!: bit_word_eqI)

lemma wbits_take_bit_inject: "wbits n x = wbits n y \<longleftrightarrow> take_bit n x = take_bit n y"
  by (auto simp: wbits_eq_iff bit_eq_iff bit_simps dest: bit_imp_le_length)

lemma byte_bits_inject: "wbits 8 x = wbits 8 (y :: byte) \<longleftrightarrow> x = y"
  using wbits_inject [of x y] by simp

lemma concat_wbits_inject:
  "concat (map (wbits 8) xs) = concat (map (wbits 8) ys) \<longleftrightarrow> xs = (ys :: byte list)"
proof
  assume eq: "concat (map (wbits 8) xs) = concat (map (wbits 8) ys)"
  have "length (concat (map (wbits 8) zs)) = 8 * length zs" for zs :: "byte list"
    by (induction zs) auto
  with eq have "length xs = length ys"
    by (metis mult_cancel1 zero_neq_numeral)
  then show "xs = ys"
    using eq by (induction xs ys rule: list_induct2) (auto simp: byte_bits_inject)
qed simp

lemma length_concat_wbits [simp]: "length (concat (map (wbits n) xs)) = n * length xs"
  by (induction xs) auto

text \<open>The masks the code computes as \<^verbatim>\<open>(1U << n) - 1U\<close>.\<close>

lemma low_mask_eq: "n \<le> 32 \<Longrightarrow> ucast ((2 ^ n :: 32 word) - 1) = (mask n :: 'a::len word)"
  by (auto intro!: bit_word_eqI simp: bit_simps mask_eq_exp_minus_1 [symmetric])

lemma wbits_and_mask [wbits_simps]: "n \<le> k \<Longrightarrow> wbits n (x AND mask k) = wbits n x"
  by (auto simp: wbits_eq_iff bit_simps dest: bit_imp_le_length)

lemma wbits_shift_in [wbits_simps]:
  fixes w :: "'w::len word" and y :: "'b::len word"
  assumes "m + n \<le> LENGTH('w)" and "n \<le> LENGTH('b)"
  shows "wbits (m + n) (push_bit n w OR (ucast y AND mask n)) = wbits m w @ wbits n y"
proof (rule nth_equalityI)
  fix i assume "i < length (wbits (m + n) (push_bit n w OR (ucast y AND mask n)))"
  with assms show "wbits (m + n) (push_bit n w OR (ucast y AND mask n)) ! i = (wbits m w @ wbits n y) ! i"
    by (cases "i < m") (auto simp: nth_append bit_simps add.commute [of m n])
qed simp

lemma wbits_top [wbits_simps]:
  fixes w :: "'w::len word"
  assumes "n \<le> r" and "n \<le> 8"
  shows "wbits n (ucast (drop_bit (r - n) w) :: byte) @ wbits (r - n) w = wbits r w"
proof (rule nth_equalityI)
  fix i assume "i < length (wbits n (ucast (drop_bit (r - n) w) :: byte) @ wbits (r - n) w)"
  with assms show "(wbits n (ucast (drop_bit (r - n) w) :: byte) @ wbits (r - n) w) ! i = wbits r w ! i"
    by (cases "i < n") (auto simp: nth_append bit_simps intro!: arg_cong [where f = "bit w"])
qed (use assms in simp)

lemma wbits_pad [wbits_simps]:
  fixes w :: "'w::len word"
  assumes "r \<le> n" and "n \<le> 8" and "n \<le> LENGTH('w)"
  shows "wbits n (ucast (push_bit (n - r) w) :: byte) = wbits r w @ replicate (n - r) False"
proof (rule nth_equalityI)
  fix i assume "i < length (wbits n (ucast (push_bit (n - r) w) :: byte))"
  with assms show "wbits n (ucast (push_bit (n - r) w) :: byte) ! i = (wbits r w @ replicate (n - r) False) ! i"
    by (cases "i < r") (auto simp: nth_append bit_simps intro!: arg_cong [where f = "bit w"])
qed (use assms in simp)

lemma ucast_byte_and_mask: "(ucast (y :: byte) :: 'w::len word) AND mask 8 = ucast y"
proof (rule bit_word_eqI)
  have "bit y k \<Longrightarrow> k < 8" for k
    using bit_imp_le_length [of y k] by simp
  then show "bit ((ucast y :: 'w word) AND mask 8) k = bit (ucast y :: 'w word) k"
    if "k < LENGTH('w)" for k
    by (auto simp: bit_simps)
qed

lemma and_0xFF: "x AND 0xFF = take_bit 8 x" for x :: "'a::len word"
  by (simp add: take_bit_eq_mask mask_eq_exp_minus_1)

lemma take_bit_and_mask [simp]: "take_bit n x AND mask n = x AND mask n" for x :: "'a::len word"
  by (simp add: take_bit_eq_mask and.assoc)

section \<open>Loops with failure\<close>

text \<open>A loop over a list whose body may fail.\<close>

fun for_each_opt :: "('i \<Rightarrow> 's \<Rightarrow> 's option) \<Rightarrow> 'i list \<Rightarrow> 's \<Rightarrow> 's option" where
  "for_each_opt f [] s = Some s"
| "for_each_opt f (i # is) s = Option.bind (f i s) (for_each_opt f is)"

lemma for_each_opt_append:
  "for_each_opt f (is @ js) s = Option.bind (for_each_opt f is s) (for_each_opt f js)"
  by (induction "is" arbitrary: s) (auto split: bind_splits)

end
