(* ===== verification/Span_Algorithm.thy ===== *)
theory Span_Algorithm
  imports Prelude "HOL-Library.Sublist"
begin

text \<open>
  The algorithms on contiguous spans of \<^verbatim>\<open>source/modules/eagine/memory/span_algorithm.cpp\<close>.
  A \<^verbatim>\<open>basic_span\<close> is the list of the elements it covers; sizes and positions given by a
  caller are signed (\<^verbatim>\<open>span_size_t\<close> is \<^verbatim>\<open>std::ptrdiff_t\<close>), hence \<open>int\<close>. An algorithm
  that writes through its span returns the new contents. Loops that the caller's arguments can
  make endless are \<open>partial_function (option)\<close>, where \<open>None\<close> is not returning.
\<close>

section \<open>Sub-spans\<close>

abbreviation size_of :: "'a list \<Rightarrow> int" where
  "size_of s \<equiv> int (length s)"

text \<open>\<^verbatim>\<open>std::clamp\<close>.\<close>

definition clamp :: "int \<Rightarrow> int \<Rightarrow> int \<Rightarrow> int" where
  "clamp v lo hi = (if v < lo then lo else if hi < v then hi else v)"

text \<open>
  The span constructor from a pair of iterators into \<open>s\<close>. The size is
  \<^verbatim>\<open>std::distance(b, e)\<close>; where it is negative the span still starts at \<open>b\<close> and
  \<^verbatim>\<open>size()\<close> is its absolute value, so the span covers the elements after \<open>b\<close>, and is
  \<open>None\<close> here where these do not all belong to \<open>s\<close>.
\<close>

definition iter_span :: "'a list \<Rightarrow> nat \<Rightarrow> nat \<Rightarrow> 'a list option" where
  "iter_span s b e =
     (if b \<le> e then Some (take (e - b) (drop b s))
      else if b + (b - e) \<le> length s then Some (take (b - e) (drop b s))
      else None)"

definition subspan :: "'a list \<Rightarrow> int \<Rightarrow> int \<Rightarrow> 'a list option" where
  "subspan s b e =
     iter_span s (nat (clamp b 0 (size_of s))) (nat (clamp e 0 (size_of s)))"

definition slice :: "'a list \<Rightarrow> int \<Rightarrow> int \<Rightarrow> 'a list option" where
  "slice s i l =
     iter_span s (nat (clamp i 0 (size_of s))) (nat (clamp (i + l) 0 (size_of s)))"

definition skip :: "'a list \<Rightarrow> int \<Rightarrow> 'a list" where
  "skip s l = drop (nat (clamp l 0 (size_of s))) s"

definition head :: "'a list \<Rightarrow> int \<Rightarrow> 'a list" where
  "head s l = take (nat (clamp l 0 (size_of s))) s"

definition snip :: "'a list \<Rightarrow> int \<Rightarrow> 'a list" where
  "snip s l = head s (size_of s - l)"

definition shrink :: "'a list \<Rightarrow> int \<Rightarrow> 'a list" where
  "shrink s l = snip (skip s l) l"

definition head_like :: "'a list \<Rightarrow> 'b list \<Rightarrow> 'a list" where
  "head_like s l = head s (size_of l)"

definition tail :: "'a list \<Rightarrow> int \<Rightarrow> 'a list" where
  "tail s l = skip s (size_of s - l)"

definition tail_like :: "'a list \<Rightarrow> 'b list \<Rightarrow> 'a list" where
  "tail_like s l = tail s (size_of l)"

section \<open>Prefixes, suffixes and searching\<close>

definition starts_with :: "'a list \<Rightarrow> 'a list \<Rightarrow> bool" where
  "starts_with spn wth = (head spn (size_of wth) = wth)"

definition ends_with :: "'a list \<Rightarrow> 'a list \<Rightarrow> bool" where
  "ends_with spn wth = (tail spn (size_of wth) = wth)"

definition strip_prefix :: "'a list \<Rightarrow> 'a list \<Rightarrow> 'a list" where
  "strip_prefix spn pre = (if starts_with spn pre then skip spn (size_of pre) else spn)"

definition strip_suffix :: "'a list \<Rightarrow> 'a list \<Rightarrow> 'a list" where
  "strip_suffix spn suf = (if ends_with spn suf then snip spn (size_of suf) else spn)"

text \<open>
  The loop \<^verbatim>\<open>while(pos < n) { if(P(pos)) return {pos}; ++pos; } return {};\<close> that the
  searching algorithms share.
\<close>

function scan_from :: "(nat \<Rightarrow> bool) \<Rightarrow> nat \<Rightarrow> nat \<Rightarrow> nat option" where
  "scan_from P pos n =
     (if pos < n then if P pos then Some pos else scan_from P (Suc pos) n else None)"
  by pat_completeness auto
termination
  by (relation "measure (\<lambda>(P, pos, n). n - pos)") auto

declare scan_from.simps [simp del]

definition contains :: "'a list \<Rightarrow> 'a list \<Rightarrow> bool" where
  "contains spn what =
     (scan_from (\<lambda>i. starts_with (skip spn (int i)) what) 0 (length spn) \<noteq> None)"

definition find_position :: "'a list \<Rightarrow> 'a list \<Rightarrow> nat option" where
  "find_position spn what =
     scan_from (\<lambda>pos. starts_with (skip spn (int pos)) what) 0 (length spn)"

definition has_element :: "'a list \<Rightarrow> 'a \<Rightarrow> bool" where
  "has_element spn what = (scan_from (\<lambda>pos. spn ! pos = what) 0 (length spn) \<noteq> None)"

definition find_element :: "'a list \<Rightarrow> 'a \<Rightarrow> nat option" where
  "find_element spn what = scan_from (\<lambda>pos. spn ! pos = what) 0 (length spn)"

definition find_element_if :: "'a list \<Rightarrow> ('a \<Rightarrow> bool) \<Rightarrow> nat option" where
  "find_element_if spn predicate = scan_from (\<lambda>pos. predicate (spn ! pos)) 0 (length spn)"

definition skip_until :: "'a list \<Rightarrow> ('a \<Rightarrow> bool) \<Rightarrow> 'a list" where
  "skip_until spn predicate =
     (case find_element_if spn predicate of Some found \<Rightarrow> skip spn (int found) | None \<Rightarrow> spn)"

definition take_until :: "'a list \<Rightarrow> ('a \<Rightarrow> bool) \<Rightarrow> 'a list" where
  "take_until spn predicate =
     (case find_element_if spn predicate of Some found \<Rightarrow> head spn (int found) | None \<Rightarrow> spn)"

text \<open>\<^verbatim>\<open>skip_to\<close> takes an iterator into the span; its assertion is the \<open>None\<close> branch.\<close>

definition skip_to :: "'a list \<Rightarrow> int \<Rightarrow> 'a list option" where
  "skip_to spn pos =
     (if 0 \<le> pos \<and> pos \<le> size_of spn then Some (drop (nat pos) spn) else None)"

text \<open>The backward loop \<^verbatim>\<open>while(pos > 0) { --pos; if(P(pos)) return {pos}; } return {};\<close>.\<close>

primrec rscan :: "(nat \<Rightarrow> bool) \<Rightarrow> nat \<Rightarrow> nat option" where
  "rscan P 0 = None"
| "rscan P (Suc pos) = (if P pos then Some pos else rscan P pos)"

definition reverse_find_position :: "'a list \<Rightarrow> 'a list \<Rightarrow> nat option" where
  "reverse_find_position spn what =
     rscan (\<lambda>pos. starts_with (skip spn (int pos)) what) (length spn)"

definition span_find :: "'a list \<Rightarrow> 'a list \<Rightarrow> 'a list" where
  "span_find whr what =
     (case find_position whr what of Some pos \<Rightarrow> skip whr (int pos) | None \<Rightarrow> [])"

text \<open>\<^verbatim>\<open>std::optional::value_or\<close>.\<close>

definition value_or :: "'a option \<Rightarrow> 'a \<Rightarrow> 'a" where
  "value_or x d = (case x of Some v \<Rightarrow> v | None \<Rightarrow> d)"

definition slice_before :: "'a list \<Rightarrow> 'a list \<Rightarrow> 'a list" where
  "slice_before spn what = head spn (int (value_or (find_position spn what) (length spn)))"

definition slice_after :: "'a list \<Rightarrow> 'a list \<Rightarrow> 'a list" where
  "slice_after spn what =
     skip spn (int (value_or (find_position spn what) (length spn)) + size_of what)"

definition split_by_first :: "'a list \<Rightarrow> 'a list \<Rightarrow> 'a list \<times> 'a list" where
  "split_by_first spn what =
     (let pos = int (value_or (find_position spn what) (length spn))
      in (head spn pos, skip spn (pos + size_of what)))"

definition split_by_first_element :: "'a list \<Rightarrow> 'a \<Rightarrow> 'a list \<times> 'a list" where
  "split_by_first_element spn what =
     (let pos = int (value_or (find_element spn what) (length spn))
      in (head spn pos, skip spn (pos + 1)))"

definition slice_before_last :: "'a list \<Rightarrow> 'a list \<Rightarrow> 'a list" where
  "slice_before_last spn what =
     head spn (int (value_or (reverse_find_position spn what) (length spn)))"

definition slice_after_last :: "'a list \<Rightarrow> 'a list \<Rightarrow> 'a list" where
  "slice_after_last spn what =
     skip spn (int (value_or (reverse_find_position spn what) (length spn)) + size_of what)"

definition split_by_last :: "'a list \<Rightarrow> 'a list \<Rightarrow> 'a list \<times> 'a list" where
  "split_by_last spn what =
     (let pos = int (value_or (reverse_find_position spn what) (length spn))
      in (head spn pos, skip spn (pos + size_of what)))"

text \<open>The loop of \<^verbatim>\<open>slice_inside_brackets\<close>, from the position after the left bracket.\<close>

function bracket_end :: "'a list \<Rightarrow> 'a \<Rightarrow> 'a \<Rightarrow> int \<Rightarrow> nat \<Rightarrow> nat" where
  "bracket_end spn left right depth pos =
     (if pos < length spn \<and> depth > 0
      then bracket_end spn left right
             (if spn ! pos = left then depth + 1
              else if spn ! pos = right then depth - 1 else depth) (Suc pos)
      else pos)"
  by pat_completeness auto
termination
  by (relation "measure (\<lambda>(spn, l, r, d, pos). length spn - pos)") auto

declare bracket_end.simps [simp del]

definition slice_inside_brackets :: "'a list \<Rightarrow> 'a \<Rightarrow> 'a \<Rightarrow> 'a list" where
  "slice_inside_brackets spn left right =
     (case find_element spn left of
        Some found \<Rightarrow>
          (let spn' = skip spn (int found)
           in shrink (head spn' (int (bracket_end spn' left right 1 1))) 1)
      | None \<Rightarrow> [])"

section \<open>Algorithms that write through a span\<close>

text \<open>
  \<^verbatim>\<open>copy\<close> returns the new contents of the target and the returned span; its assertion
  that the source fits is the \<open>None\<close> branch.
\<close>

definition span_copy :: "'a list \<Rightarrow> 'a list \<Rightarrow> ('a list \<times> 'a list) option" where
  "span_copy frm tgt =
     (if length frm \<le> length tgt
      then (let tgt' = frm @ drop (length frm) tgt in Some (tgt', head tgt' (size_of frm)))
      else None)"

text \<open>
  The loop of \<^verbatim>\<open>scramble\<close>: \<open>fi\<close> and \<open>ri\<close> run over the source forwards and
  backwards, \<open>xr\<close> is the previous source element.
\<close>

fun scramble_loop :: "byte list \<Rightarrow> byte list \<Rightarrow> byte \<Rightarrow> byte list" where
  "scramble_loop (f # fi) (r # ri) xr = (f XOR (r XOR xr)) # scramble_loop fi ri f"
| "scramble_loop _ _ xr = []"

definition scramble :: "byte list \<Rightarrow> byte list \<Rightarrow> (byte list \<times> byte list) option" where
  "scramble frm tgt =
     (if length frm \<le> length tgt
      then (let out = (if frm = [] then []
                       else scramble_loop frm (rev frm) (0xA5 XOR last frm));
                tgt' = out @ drop (length out) tgt
            in Some (tgt', head tgt' (size_of frm)))
      else None)"

definition span_fill :: "'a list \<Rightarrow> 'a \<Rightarrow> 'a list" where
  "span_fill spn v = map (\<lambda>_. v) spn"

definition span_zero :: "'a::zero list \<Rightarrow> 'a list" where
  "span_zero spn = span_fill spn 0"

definition span_reverse :: "'a list \<Rightarrow> 'a list" where
  "span_reverse spn = rev spn"

definition span_transform :: "'a list \<Rightarrow> ('a \<Rightarrow> 'a) \<Rightarrow> 'a list" where
  "span_transform spn f = map f spn"

text \<open>\<^verbatim>\<open>generate\<close> calls the generator, a callable with a state of its own, once per element.\<close>

primrec span_generate :: "'a list \<Rightarrow> ('g \<Rightarrow> 'a \<times> 'g) \<Rightarrow> 'g \<Rightarrow> 'a list" where
  "span_generate [] gen g = []"
| "span_generate (x # spn) gen g =
     (case gen g of (v, g') \<Rightarrow> v # span_generate spn gen g')"

section \<open>Predicates over the elements\<close>

text \<open>\<^verbatim>\<open>std::is_sorted\<close>: no element is less than the one before it.\<close>

fun is_sorted :: "('a \<Rightarrow> 'a \<Rightarrow> bool) \<Rightarrow> 'a list \<Rightarrow> bool" where
  "is_sorted compare (x # y # spn) = (\<not> compare y x \<and> is_sorted compare (y # spn))"
| "is_sorted compare _ = True"

definition all_of :: "'a list \<Rightarrow> ('a \<Rightarrow> bool) \<Rightarrow> bool" where
  "all_of spn predicate = list_all predicate spn"

definition any_of :: "'a list \<Rightarrow> ('a \<Rightarrow> bool) \<Rightarrow> bool" where
  "any_of spn predicate = list_ex predicate spn"

definition none_of :: "'a list \<Rightarrow> ('a \<Rightarrow> bool) \<Rightarrow> bool" where
  "none_of spn predicate = (\<not> list_ex predicate spn)"

section \<open>Splitting a span into parts\<close>

text \<open>
  \<^verbatim>\<open>for_each_delimited\<close> and \<^verbatim>\<open>for_each_chunk\<close> call their operation once per part;
  the model returns the list of the parts in the order of the calls. With an empty delimiter or
  a chunk length of zero the loops do not advance.
\<close>

partial_function (option) for_each_delimited :: "'a list \<Rightarrow> 'a list \<Rightarrow> 'a list list option" where
  "for_each_delimited tmp delim =
     (case find_position tmp delim of
        Some pos \<Rightarrow>
          Option.bind (for_each_delimited (skip tmp (int pos + size_of delim)) delim)
            (\<lambda>parts. Some (head tmp (int pos) # parts))
      | None \<Rightarrow> Some [tmp])"

partial_function (option) for_each_chunk_from ::
    "'a list \<Rightarrow> int \<Rightarrow> int \<Rightarrow> 'a list option list option" where
  "for_each_chunk_from spn len pos =
     (if pos < size_of spn
      then Option.bind (for_each_chunk_from spn len (pos + len))
             (\<lambda>parts. Some (slice spn pos len # parts))
      else Some [])"

definition for_each_chunk :: "'a list \<Rightarrow> int \<Rightarrow> 'a list option list option" where
  "for_each_chunk spn len = for_each_chunk_from spn len 0"

text \<open>\<^verbatim>\<open>list_to_stream\<close>, with the printer of an element as a parameter.\<close>

fun list_to_stream_elems :: "('a \<Rightarrow> string) \<Rightarrow> bool \<Rightarrow> 'a list \<Rightarrow> string" where
  "list_to_stream_elems show_elem first [] = []"
| "list_to_stream_elems show_elem first (e # s) =
     (if first then [] else '','') @ show_elem e @ list_to_stream_elems show_elem False s"

definition list_to_stream :: "('a \<Rightarrow> string) \<Rightarrow> 'a list \<Rightarrow> string" where
  "list_to_stream show_elem s = ''['' @ list_to_stream_elems show_elem True s @ '']''"

section \<open>Getters and putters\<close>

text \<open>
  The callables of \<^verbatim>\<open>make_span_getter\<close> and \<^verbatim>\<open>make_span_putter\<close>. A getter's state is
  the index \<open>i\<close> captured by reference; a putter's is the index and the covered contents.
\<close>

type_synonym ('g, 'a) getter = "'g \<Rightarrow> 'a option \<times> 'g"
type_synonym ('p, 'b) putter = "'b \<Rightarrow> 'p \<Rightarrow> bool \<times> 'p"

definition make_span_getter :: "'a list \<Rightarrow> (nat, 'a) getter" where
  "make_span_getter spn i =
     (if i < length spn then (Some (spn ! i), Suc i) else (None, i))"

definition make_span_getter_with :: "'a list \<Rightarrow> ('a \<Rightarrow> 'b option) \<Rightarrow> (nat, 'b) getter" where
  "make_span_getter_with spn transform i =
     (if i < length spn then (transform (spn ! i), Suc i) else (None, i))"

definition make_span_putter :: "(nat \<times> 'a list, 'a) putter" where
  "make_span_putter value p =
     (case p of (i, spn) \<Rightarrow>
        if i < length spn then (True, (Suc i, spn[i := value])) else (False, (i, spn)))"

definition make_span_putter_with :: "('b \<Rightarrow> 'a option) \<Rightarrow> (nat \<times> 'a list, 'b) putter" where
  "make_span_putter_with transform value p =
     (case p of (i, spn) \<Rightarrow>
        if i < length spn
        then (case transform value of
                Some transformed \<Rightarrow> (True, (Suc i, spn[i := transformed]))
              | None \<Rightarrow> (False, (i, spn)))
        else (False, (i, spn)))"

section \<open>Interfaces\<close>

text \<open>
  What a consumer of elements relies on: a getter yields the elements of \<open>rest g\<close> one by
  one and then nothing.
\<close>

locale element_getter =
  fixes get :: "('g, 'a) getter"
    and rest :: "'g \<Rightarrow> 'a list"
  assumes get_None: "rest g = [] \<Longrightarrow> fst (get g) = None"
    and get_Some: "rest g = x # xs \<Longrightarrow> fst (get g) = Some x \<and> rest (snd (get g)) = xs"

text \<open>
  What a producer relies on: a putter accepts the values that \<open>conv\<close> converts, as long as
  there is room, and appends the converted values to its output in order; without room it
  refuses and changes nothing. \<open>wf\<close> is what every call keeps of the state.
\<close>

locale element_putter =
  fixes put :: "('p, 'b) putter"
    and conv :: "'b \<Rightarrow> 'c option"
    and room :: "'p \<Rightarrow> nat"
    and out :: "'p \<Rightarrow> 'c list"
    and wf :: "'p \<Rightarrow> bool"
  assumes put_ok: "0 < room p \<Longrightarrow> conv v = Some c \<Longrightarrow>
      fst (put v p) \<and> out (snd (put v p)) = out p @ [c] \<and> room (snd (put v p)) = room p - 1"
    and put_wf: "wf p \<Longrightarrow> wf (snd (put v p))"
    and put_full: "room p = 0 \<Longrightarrow> put v p = (False, p)"

text \<open>The getter and the putters over a span implement the interfaces.\<close>

definition valid_prefix :: "('a \<Rightarrow> 'b option) \<Rightarrow> 'a list \<Rightarrow> 'b list" where
  "valid_prefix transform xs = map (the \<circ> transform) (takeWhile (\<lambda>x. transform x \<noteq> None) xs)"

lemma valid_prefix_simps [simp]:
  "valid_prefix transform [] = []"
  "valid_prefix transform (x # xs) =
     (case transform x of Some y \<Rightarrow> y # valid_prefix transform xs | None \<Rightarrow> [])"
  by (auto simp: valid_prefix_def split: option.splits)

lemma valid_prefix_map_Some:
  "(\<And>x. x \<in> set xs \<Longrightarrow> transform (f x) = Some x) \<Longrightarrow> valid_prefix transform (map f xs) = xs"
  by (induction xs) auto

lemma valid_prefix_stop:
  "transform x = None \<Longrightarrow> valid_prefix transform (xs @ x # ys) = valid_prefix transform xs"
  by (induction xs) (auto split: option.splits)

lemma length_valid_prefix: "length (valid_prefix transform xs) \<le> length xs"
  by (simp add: valid_prefix_def length_takeWhile_le)

interpretation span_getter: element_getter "make_span_getter spn" "\<lambda>i. drop i spn" for spn
proof unfold_locales
  show "drop i spn = [] \<Longrightarrow> fst (make_span_getter spn i) = None" for i
    by (simp add: make_span_getter_def)
  show "drop i spn = x # xs \<Longrightarrow>
      fst (make_span_getter spn i) = Some x \<and> drop (snd (make_span_getter spn i)) spn = xs" for i x xs
    by (cases "i < length spn") (auto simp: make_span_getter_def Cons_nth_drop_Suc [symmetric])
qed

interpretation span_getter_with:
  element_getter "make_span_getter_with spn transform" "\<lambda>i. valid_prefix transform (drop i spn)"
  for spn transform
proof unfold_locales
  show "valid_prefix transform (drop i spn) = [] \<Longrightarrow>
      fst (make_span_getter_with spn transform i) = None" for i
    by (cases "i < length spn")
      (auto simp: make_span_getter_with_def Cons_nth_drop_Suc [symmetric] split: option.splits)
  show "valid_prefix transform (drop i spn) = x # xs \<Longrightarrow>
      fst (make_span_getter_with spn transform i) = Some x \<and>
      valid_prefix transform (drop (snd (make_span_getter_with spn transform i)) spn) = xs" for i x xs
    by (cases "i < length spn")
      (auto simp: make_span_getter_with_def Cons_nth_drop_Suc [symmetric] split: option.splits)
qed

abbreviation span_room :: "nat \<times> 'a list \<Rightarrow> nat" where
  "span_room p \<equiv> length (snd p) - fst p"

abbreviation span_out :: "nat \<times> 'a list \<Rightarrow> 'a list" where
  "span_out p \<equiv> take (fst p) (snd p)"

abbreviation span_wf :: "nat \<times> 'a list \<Rightarrow> bool" where
  "span_wf p \<equiv> fst p \<le> length (snd p)"

interpretation span_putter: element_putter make_span_putter Some span_room span_out span_wf
  by unfold_locales (auto simp: make_span_putter_def take_Suc_conv_app_nth split: prod.splits)

interpretation span_putter_with:
  element_putter "make_span_putter_with transform" transform span_room span_out span_wf for transform
  by unfold_locales
    (auto simp: make_span_putter_with_def take_Suc_conv_app_nth split: prod.splits option.splits)


section \<open>Lemmas on sub-spans\<close>

lemma nat_clamp [simp]: "nat (clamp v 0 (int n)) = min (nat v) n"
  by (auto simp: clamp_def)

lemma head_eq_take: "head s l = take (nat l) s"
  by (simp add: head_def min_def)

lemma skip_eq_drop: "skip s l = drop (nat l) s"
  by (simp add: skip_def min_def)

lemma snip_eq_take: "0 \<le> l \<Longrightarrow> snip s l = take (length s - nat l) s"
  by (simp add: snip_def head_eq_take nat_diff_distrib')

lemma tail_eq_drop: "0 \<le> l \<Longrightarrow> tail s l = drop (length s - nat l) s"
  by (simp add: tail_def skip_eq_drop nat_diff_distrib')

lemma iter_span_clamped:
  assumes "b \<le> e"
  shows "iter_span s (min b (length s)) (min e (length s)) = Some (take (e - b) (drop b s))"
proof (cases "b \<le> length s")
  case True
  then have "take (min e (length s) - b) (drop b s) = take (e - b) (drop b s)"
    by (cases "e \<le> length s") (simp_all add: min_def)
  with True assms show ?thesis by (simp add: iter_span_def)
next
  case False
  with assms show ?thesis by (simp add: iter_span_def)
qed

lemma slice_eq:
  "0 \<le> i \<Longrightarrow> 0 \<le> l \<Longrightarrow> slice s i l = Some (take (nat l) (drop (nat i) s))"
  by (simp add: slice_def nat_add_distrib iter_span_clamped)

lemma subspan_eq:
  "0 \<le> b \<Longrightarrow> b \<le> e \<Longrightarrow> subspan s b e = Some (take (nat (e - b)) (drop (nat b) s))"
  by (simp add: subspan_def nat_diff_distrib nat_mono iter_span_clamped)

lemmas span_list_simps = head_eq_take skip_eq_drop snip_eq_take tail_eq_drop slice_eq subspan_eq

lemma shrink_middle: "shrink (x # xs @ [y]) 1 = xs"
  by (simp add: shrink_def span_list_simps)

lemma starts_with_iff: "starts_with spn w \<longleftrightarrow> prefix w spn"
  unfolding starts_with_def head_eq_take nat_int by (metis append_eq_conv_conj prefix_def take_is_prefix)

lemma ends_with_iff: "ends_with spn w \<longleftrightarrow> suffix w spn"
proof
  assume "ends_with spn w"
  then have "w = drop (length spn - length w) spn"
    by (simp add: ends_with_def tail_eq_drop)
  then show "suffix w spn" by (metis suffix_drop)
qed (auto simp: ends_with_def tail_eq_drop suffix_def)

lemma le_cases_Suc: "m \<le> (k::nat) \<longleftrightarrow> k = m \<or> Suc m \<le> k"
  by auto

lemma scan_from_Some_iff:
  "scan_from P pos n = Some k \<longleftrightarrow> pos \<le> k \<and> k < n \<and> P k \<and> (\<forall>j. pos \<le> j \<longrightarrow> j < k \<longrightarrow> \<not> P j)"
proof (induction P pos n rule: scan_from.induct)
  case (1 P pos n)
  consider "pos < n" "P pos" | "pos < n" "\<not> P pos" | "\<not> pos < n" by blast
  then show ?case
  proof cases
    case 1
    then have "scan_from P pos n = Some pos" by (simp add: scan_from.simps)
    with 1 show ?thesis by (cases "k = pos") (auto dest: le_neq_implies_less)
  next
    case 2
    then have "scan_from P pos n = scan_from P (Suc pos) n"
      by (simp add: scan_from.simps [of P pos])
    with 1 2 show ?thesis
      by (metis le_cases_Suc)
  next
    case 3
    then show ?thesis by (simp add: scan_from.simps)
  qed
qed

lemma scan_from_None_iff:
  "scan_from P pos n = None \<longleftrightarrow> (\<forall>k. pos \<le> k \<longrightarrow> k < n \<longrightarrow> \<not> P k)"
proof (induction P pos n rule: scan_from.induct)
  case (1 P pos n)
  show ?case
  proof (cases "pos < n \<and> \<not> P pos")
    case True
    with 1 show ?thesis
      by (simp add: scan_from.simps [of P pos]) (metis le_cases_Suc)
  next
    case False
    then show ?thesis by (auto simp: scan_from.simps [of P pos])
  qed
qed

lemma rscan_Some_iff:
  "rscan P n = Some k \<longleftrightarrow> k < n \<and> P k \<and> (\<forall>j. k < j \<and> j < n \<longrightarrow> \<not> P j)"
  by (induction n) (auto simp: less_Suc_eq)

lemma rscan_None_iff: "rscan P n = None \<longleftrightarrow> (\<forall>k < n. \<not> P k)"
  by (induction n) (auto simp: less_Suc_eq)

lemma find_position_Some_iff:
  "find_position spn what = Some k \<longleftrightarrow>
     k < length spn \<and> prefix what (drop k spn) \<and> (\<forall>j < k. \<not> prefix what (drop j spn))"
  by (simp add: find_position_def scan_from_Some_iff starts_with_iff skip_eq_drop)

lemma find_position_None_iff:
  "find_position spn what = None \<longleftrightarrow> (\<forall>k < length spn. \<not> prefix what (drop k spn))"
  by (simp add: find_position_def scan_from_None_iff starts_with_iff skip_eq_drop)

lemma prefix_drop_split:
  assumes "prefix what (drop k spn)"
  shows "spn = take k spn @ what @ drop (k + length what) spn"
proof -
  from assms obtain zs where "drop k spn = what @ zs" by (auto simp: prefix_def)
  moreover from this have "zs = drop (k + length what) spn"
    by (metis append_eq_conv_conj add.commute drop_drop)
  ultimately show ?thesis by (metis append_take_drop_id)
qed

lemma find_position_split:
  "find_position spn what = Some k \<Longrightarrow> spn = take k spn @ what @ drop (k + length what) spn"
  by (rule prefix_drop_split) (simp add: find_position_Some_iff)

lemma find_element_Some_iff:
  "find_element spn x = Some k \<longleftrightarrow> k < length spn \<and> spn ! k = x \<and> (\<forall>j < k. spn ! j \<noteq> x)"
  by (simp add: find_element_def scan_from_Some_iff)

lemma find_element_None_iff: "find_element spn x = None \<longleftrightarrow> x \<notin> set spn"
  by (auto simp: find_element_def scan_from_None_iff in_set_conv_nth)

lemma find_element_append:
  "x \<notin> set pre \<Longrightarrow> find_element (pre @ x # post) x = Some (length pre)"
  by (auto simp: find_element_Some_iff nth_append in_set_conv_nth)

lemma has_element_iff [simp]: "has_element spn x \<longleftrightarrow> x \<in> set spn"
  using find_element_None_iff [of spn x] by (auto simp: has_element_def find_element_def)

section \<open>Splitting\<close>

lemma split_by_first_found:
  assumes "find_position spn what = Some k"
  shows "split_by_first spn what = (take k spn, drop (k + length what) spn)"
  using assms
  by (simp add: split_by_first_def value_or_def span_list_simps nat_add_distrib)

text \<open>
  One round of the loop of \<open>for_each_delimited\<close> with a non-empty delimiter: the part before
  the first occurrence, then the rest behind it, which is shorter.
\<close>

lemma find_position_progress:
  "find_position spn delim = Some k \<Longrightarrow> delim \<noteq> [] \<Longrightarrow>
     length (drop (k + length delim) spn) < length spn"
  by (cases delim) (auto simp: find_position_Some_iff)

lemma find_position_before:
  assumes "find_position spn delim = Some k" and "delim \<noteq> []"
  shows "find_position (take k spn) delim = None"
proof -
  have "prefix delim (drop j (take k spn)) \<Longrightarrow> prefix delim (drop j spn)" for j
    by (metis drop_take prefix_order.trans take_is_prefix)
  with assms show ?thesis
    by (auto simp: find_position_Some_iff find_position_None_iff)
qed

lemma for_each_delimited_returns:
  assumes "delim \<noteq> []"
  shows "\<exists>parts. for_each_delimited spn delim = Some parts \<and> parts \<noteq> [] \<and>
           spn = concat (map (\<lambda>p. p @ delim) (butlast parts)) @ last parts \<and>
           (\<forall>p \<in> set parts. find_position p delim = None)"
proof (induction "length spn" arbitrary: spn rule: less_induct)
  case less
  show ?case
  proof (cases "find_position spn delim")
    case None
    then show ?thesis by (subst for_each_delimited.simps) simp
  next
    case (Some k)
    let ?rest = "drop (k + length delim) spn"
    from less [OF find_position_progress [OF Some assms]] obtain parts
      where parts: "for_each_delimited ?rest delim = Some parts" "parts \<noteq> []"
        "?rest = concat (map (\<lambda>p. p @ delim) (butlast parts)) @ last parts"
        "\<forall>p \<in> set parts. find_position p delim = None"
      by blast
    from Some parts(1) have "for_each_delimited spn delim = Some (take k spn # parts)"
      by (subst for_each_delimited.simps)
        (simp add: span_list_simps nat_add_distrib)
    moreover have "spn = concat (map (\<lambda>p. p @ delim) (butlast (take k spn # parts)))
        @ last (take k spn # parts)"
      using find_position_split [OF Some] parts(2,3) by simp
    ultimately show ?thesis
      using parts(4) find_position_before [OF Some assms] by auto
  qed
qed

lemma find_position_empty: "spn \<noteq> [] \<Longrightarrow> find_position spn [] = Some 0"
  by (simp add: find_position_Some_iff)

lemma for_each_delimited_Some:
  assumes "for_each_delimited spn delim = Some parts"
  shows "spn = [] \<or> delim \<noteq> []"
proof (rule for_each_delimited.raw_induct [OF _ assms])
  fix f and spn delim :: "'a list" and parts
  assume IH: "\<And>spn delim parts. f spn delim = Some parts \<Longrightarrow> spn = [] \<or> delim \<noteq> []"
    and body: "(case find_position spn delim of
        Some pos \<Rightarrow> Option.bind (f (skip spn (int pos + size_of delim)) delim)
            (\<lambda>parts. Some (head spn (int pos) # parts))
      | None \<Rightarrow> Some [spn]) = Some parts"
  show "spn = [] \<or> delim \<noteq> []"
  proof (rule ccontr)
    assume "\<not> (spn = [] \<or> delim \<noteq> [])"
    with body IH show False
      by (auto simp: find_position_empty skip_eq_drop split: bind_splits)
  qed
qed

lemma for_each_delimited_diverges: "spn \<noteq> [] \<Longrightarrow> for_each_delimited spn [] = None"
  using for_each_delimited_Some [of spn "[]"] by (cases "for_each_delimited spn []") auto

section \<open>Brackets\<close>

text \<open>
  \<open>inside l r d xs\<close>: reading \<open>xs\<close> from nesting depth \<open>d\<close>, the depth stays positive and
  is one again at the end.
\<close>

fun inside :: "'a \<Rightarrow> 'a \<Rightarrow> int \<Rightarrow> 'a list \<Rightarrow> bool" where
  "inside l r d [] = (d = 1)"
| "inside l r d (x # xs) =
     (let d' = (if x = l then d + 1 else if x = r then d - 1 else d) in 0 < d' \<and> inside l r d' xs)"

lemma bracket_end_inside:
  assumes "drop pos spn = inner @ r # post" and "inside l r d inner" and "l \<noteq> r" and "0 < d"
  shows "bracket_end spn l r d pos = pos + length inner + 1"
  using assms
proof (induction inner arbitrary: pos d)
  case Nil
  then have "pos < length spn" and "spn ! pos = r"
    by (auto simp: nth_via_drop intro: ccontr)
  with Nil show ?case by (simp add: bracket_end.simps [of spn] bracket_end.simps [of _ _ _ 0])
next
  case (Cons x inner)
  then have pos: "pos < length spn" "spn ! pos = x" "drop (Suc pos) spn = inner @ r # post"
    by (auto simp: nth_via_drop drop_Suc tl_drop [symmetric] intro: ccontr)
  let ?d = "if x = l then d + 1 else if x = r then d - 1 else d"
  from Cons.prems have "0 < ?d" "inside l r ?d inner" by (simp_all add: Let_def)
  with Cons.IH [OF pos(3)] Cons.prems(3)
  have "bracket_end spn l r ?d (Suc pos) = Suc pos + length inner + 1" by blast
  with pos Cons.prems(3,4) show ?case
    by (simp add: bracket_end.simps [of spn l r d pos] split: if_splits)
qed

lemma slice_inside_brackets_balanced:
  assumes "l \<notin> set pre" and "l \<noteq> r" and "inside l r 1 inner"
  shows "slice_inside_brackets (pre @ l # inner @ r # post) l r = inner"
proof -
  have "bracket_end (l # inner @ r # post) l r 1 1 = 1 + length inner + 1"
    using assms by (intro bracket_end_inside) auto
  then have "head (l # inner @ r # post) (int (bracket_end (l # inner @ r # post) l r 1 1))
      = l # inner @ [r]"
    by (simp add: head_eq_take nat_add_distrib)
  then show ?thesis
    using assms(1) by (simp add: slice_inside_brackets_def find_element_append skip_eq_drop
        shrink_middle Let_def)
qed

text \<open>Without a closing bracket the loop runs to the end and the last element is lost.\<close>

lemma bracket_end_open:
  assumes "pos \<le> length spn" and "r \<notin> set (drop pos spn)" and "0 < d"
  shows "bracket_end spn l r d pos = length spn"
  using assms
proof (induction "length spn - pos" arbitrary: pos d)
  case 0
  then show ?case by (simp add: bracket_end.simps)
next
  case (Suc n)
  then have pos: "pos < length spn" by simp
  then have nth: "spn ! pos \<noteq> r" "r \<notin> set (drop (Suc pos) spn)"
    using Suc.prems(2) by (auto simp: Cons_nth_drop_Suc [symmetric])
  from Suc(2) have "n = length spn - Suc pos" by simp
  from Suc.hyps(1) [OF this _ nth(2)] pos Suc.prems(3)
  have "bracket_end spn l r (if spn ! pos = l then d + 1 else d) (Suc pos) = length spn"
    by (simp split: if_splits)
  with pos nth(1) Suc.prems(3) show ?case
    by (simp add: bracket_end.simps [of spn l r d pos] split: if_splits)
qed

lemma slice_inside_brackets_open:
  assumes "l \<notin> set pre" and "r \<notin> set (inner @ [x])"
  shows "slice_inside_brackets (pre @ l # inner @ [x]) l r = inner"
proof -
  have "bracket_end (l # inner @ [x]) l r 1 1 = length (l # inner @ [x])"
    using assms(2) by (intro bracket_end_open) auto
  then show ?thesis
    using assms(1) by (simp add: slice_inside_brackets_def find_element_append skip_eq_drop
        head_eq_take shrink_middle Let_def)
qed

section \<open>Chunks\<close>

lemma for_each_chunk_from_step:
  "0 < len \<Longrightarrow> 0 \<le> pos \<Longrightarrow>
     \<exists>parts. for_each_chunk_from spn len pos = Some (map Some parts) \<and>
             concat parts = drop (nat pos) spn \<and>
             (\<forall>i. Suc i < length parts \<longrightarrow> length (parts ! i) = nat len) \<and>
             (\<forall>p \<in> set parts. p \<noteq> [] \<and> length p \<le> nat len)"
proof (induction "length spn - nat pos" arbitrary: pos rule: less_induct)
  case less
  show ?case
  proof (cases "pos < size_of spn")
    case False
    then show ?thesis
      by (subst for_each_chunk_from.simps) (auto intro!: exI [of _ "[]"])
  next
    case True
    then have "length spn - nat (pos + len) < length spn - nat pos"
      using less.prems by linarith
    from less.hyps [OF this] less.prems obtain parts where
      parts: "for_each_chunk_from spn len (pos + len) = Some (map Some parts)"
        "concat parts = drop (nat (pos + len)) spn"
        "\<forall>i. Suc i < length parts \<longrightarrow> length (parts ! i) = nat len"
        "\<forall>p \<in> set parts. p \<noteq> [] \<and> length p \<le> nat len"
      by (metis add_nonneg_nonneg less_imp_le)
    let ?p = "take (nat len) (drop (nat pos) spn)"
    have "for_each_chunk_from spn len pos = Some (map Some (?p # parts))"
      using True parts(1) less.prems by (subst for_each_chunk_from.simps) (simp add: slice_eq)
    moreover have "concat (?p # parts) = drop (nat pos) spn"
      using parts(2) less.prems
      by (simp add: nat_add_distrib) (metis add.commute append_take_drop_id drop_drop)
    moreover have "length ?p = nat len" if "parts \<noteq> []"
    proof -
      from that parts(2,4) have "drop (nat (pos + len)) spn \<noteq> []"
        by (cases parts) auto
      then show ?thesis using less.prems by (auto simp: nat_add_distrib)
    qed
    moreover have "?p \<noteq> []" using True less.prems by auto
    ultimately show ?thesis
      using parts(3,4)
      by (intro exI [of _ "?p # parts"]) (auto simp: nth_Cons split: nat.splits)
  qed
qed


section \<open>Properties\<close>

text \<open>
  C33. \<^verbatim>\<open>find_position\<close> and \<^verbatim>\<open>reverse_find_position\<close> return the first and the last
  position below the size of the span at which the searched span starts, \<^verbatim>\<open>contains\<close> holds
  exactly where the searches succeed, and they fail exactly where the searched span starts at no
  position.
\<close>

theorem span_search_spec:
  "(find_position spn what = Some k \<longleftrightarrow>
      k < length spn \<and> prefix what (drop k spn) \<and> (\<forall>j < k. \<not> prefix what (drop j spn))) \<and>
   (reverse_find_position spn what = Some k \<longleftrightarrow>
      k < length spn \<and> prefix what (drop k spn) \<and>
      (\<forall>j. k < j \<and> j < length spn \<longrightarrow> \<not> prefix what (drop j spn))) \<and>
   (contains spn what \<longleftrightarrow> (\<exists>k < length spn. prefix what (drop k spn))) \<and>
   (contains spn what \<longleftrightarrow> find_position spn what \<noteq> None) \<and>
   (contains spn what \<longleftrightarrow> reverse_find_position spn what \<noteq> None)"
  unfolding find_position_Some_iff reverse_find_position_def rscan_Some_iff
  by (auto simp: contains_def find_position_def scan_from_None_iff rscan_None_iff starts_with_iff
      skip_eq_drop)

theorem span_search_spec_witness:
  "find_position ''abcabd'' ''ab'' = Some 0 \<and> prefix ''ab'' (drop 0 ''abcabd'')"
proof -
  have "find_position ''abcabd'' ''ab'' = Some 0" by code_simp
  with span_search_spec [of "''abcabd''" "''ab''" 0] show ?thesis by blast
qed

text \<open>
  \<^verbatim>\<open>split_by_first\<close> and \<^verbatim>\<open>split_by_last\<close> cut a span that contains the delimiter
  into the part before and the part behind an occurrence of it, the first or the last one; where
  it does not occur the first part is the whole span and the second is empty.
\<close>

theorem split_by_first_last_spec:
  "(\<forall>a b. contains spn what \<longrightarrow> split_by_first spn what = (a, b) \<longrightarrow>
      spn = a @ what @ b \<and> find_position spn what = Some (length a)) \<and>
   (\<forall>a b. contains spn what \<longrightarrow> split_by_last spn what = (a, b) \<longrightarrow>
      spn = a @ what @ b \<and> reverse_find_position spn what = Some (length a)) \<and>
   (\<not> contains spn what \<longrightarrow> split_by_first spn what = (spn, []) \<and>
      split_by_last spn what = (spn, []))"
proof (cases "contains spn what")
  case True
  then obtain k where k: "find_position spn what = Some k"
    by (auto simp: contains_def find_position_def)
  from True have "reverse_find_position spn what \<noteq> None"
    by (auto simp: contains_def reverse_find_position_def scan_from_None_iff rscan_None_iff
        simp del: not_None_eq)
  then obtain l where l: "reverse_find_position spn what = Some l" by blast
  have "k < length spn" "l < length spn" "prefix what (drop l spn)"
    using k l by (auto simp: find_position_Some_iff reverse_find_position_def rscan_Some_iff
        starts_with_iff skip_eq_drop)
  with True k l find_position_split [OF k] prefix_drop_split [of what l spn] show ?thesis
    by (simp add: split_by_first_def split_by_last_def value_or_def span_list_simps nat_add_distrib)
next
  case False
  then have "find_position spn what = None" "reverse_find_position spn what = None"
    by (auto simp: contains_def find_position_def reverse_find_position_def scan_from_None_iff
        rscan_None_iff)
  with False show ?thesis
    by (simp add: split_by_first_def split_by_last_def value_or_def span_list_simps nat_add_distrib)
qed

theorem split_by_first_last_spec_witness:
  "(contains ''a=b=c'' ''='' \<and> split_by_first ''a=b=c'' ''='' = (''a'', ''b=c'')) \<and>
   ''a=b=c'' = ''a'' @ ''='' @ ''b=c''"
proof -
  have "contains ''a=b=c'' ''='' \<and> split_by_first ''a=b=c'' ''='' = (''a'', ''b=c'')"
    by code_simp
  with split_by_first_last_spec [of "''a=b=c''" "''=''"] show ?thesis by blast
qed

text \<open>
  C32. With a non-empty delimiter \<^verbatim>\<open>for_each_delimited\<close> returns and passes the maximal
  delimiter-free parts, in order: there is at least one, none contains the delimiter, and joined
  by the delimiter they are the span.
\<close>

theorem for_each_delimited_parts:
  assumes "delim \<noteq> []"
  shows "\<exists>parts. for_each_delimited spn delim = Some parts \<and> parts \<noteq> [] \<and>
           spn = concat (map (\<lambda>p. p @ delim) (butlast parts)) @ last parts \<and>
           (\<forall>p \<in> set parts. \<not> contains p delim)"
  using for_each_delimited_returns [OF assms, of spn]
  by (simp add: contains_def find_position_def)

theorem for_each_delimited_parts_witness:
  "\<exists>parts. for_each_delimited ''a,b,,c'' '','' = Some parts \<and> parts \<noteq> [] \<and>
     ''a,b,,c'' = concat (map (\<lambda>p. p @ '','') (butlast parts)) @ last parts \<and>
     (\<forall>p \<in> set parts. \<not> contains p '','')"
  using for_each_delimited_parts [of "'',''" "''a,b,,c''"] by simp

text \<open>
  With an empty delimiter \<^verbatim>\<open>for_each_delimited\<close> does not return on any non-empty
  span: it finds the delimiter at the start again and again.
\<close>

theorem for_each_delimited_empty_delimiter:
  assumes "spn \<noteq> []"
  shows "for_each_delimited spn [] = None"
  using assms by (rule for_each_delimited_diverges)

theorem for_each_delimited_empty_delimiter_witness:
  "for_each_delimited ''abc'' '''' = None"
  using for_each_delimited_empty_delimiter [of "''abc''"] by simp

text \<open>
  With a positive length \<^verbatim>\<open>for_each_chunk\<close> returns and passes non-empty chunks that
  joined are the span, each of the given length but the last, which may be shorter.
\<close>

theorem for_each_chunk_parts:
  assumes "0 < len"
  shows "\<exists>parts. for_each_chunk spn len = Some (map Some parts) \<and> concat parts = spn \<and>
           (\<forall>i. Suc i < length parts \<longrightarrow> length (parts ! i) = nat len) \<and>
           (\<forall>p \<in> set parts. p \<noteq> [] \<and> length p \<le> nat len)"
  using for_each_chunk_from_step [OF assms, of 0 spn] by (simp add: for_each_chunk_def)

theorem for_each_chunk_parts_witness:
  "\<exists>parts. for_each_chunk ''abcde'' 2 = Some (map Some parts) \<and> concat parts = ''abcde'' \<and>
     (\<forall>i. Suc i < length parts \<longrightarrow> length (parts ! i) = 2) \<and>
     (\<forall>p \<in> set parts. p \<noteq> [] \<and> length p \<le> 2)"
  using for_each_chunk_parts [of 2 "''abcde''"] by simp

text \<open>
  \<^verbatim>\<open>slice_inside_brackets\<close> returns exactly what stands between the first left
  bracket and the right bracket that matches it.
\<close>

theorem slice_inside_brackets_matching:
  assumes "l \<notin> set pre" and "l \<noteq> r" and "inside l r 1 inner"
  shows "slice_inside_brackets (pre @ l # inner @ r # post) l r = inner"
  by (rule slice_inside_brackets_balanced [OF assms])

theorem slice_inside_brackets_matching_witness:
  "slice_inside_brackets (''f'' @ CHR ''('' # ''a(b)c'' @ CHR '')'' # ''d)'') (CHR ''('') (CHR '')'')
     = ''a(b)c''"
  by (rule slice_inside_brackets_matching) simp_all

end
