(* ===== verification/Bit_Density.thy ===== *)
theory Bit_Density
  imports Span_Algorithm
begin

text \<open>
  \<^verbatim>\<open>source/modules/eagine/memory/bit_density.cpp\<close>: dissolving bytes into groups of fewer
  bits and concentrating such groups back into bytes. The working register \<open>w\<close> has the type
  \<^verbatim>\<open>double_byte\<close> (\<^verbatim>\<open>std::uint_fast16_t\<close>), whose width depends on the platform; the
  definitions take it as the type \<open>'w\<close> and the lemmas hold for every width of at least 16 bits.
  \<open>get\<close> and \<open>put\<close> are the template's callables with their captured state. The loops return
  \<open>None\<close> where the code would not return.
\<close>

definition byte_bits :: nat where
  "byte_bits = 8"

text \<open>The result is \<open>None\<close> where the assertion on \<open>bits\<close> fails.\<close>

definition dissolved_bits_length :: "nat \<Rightarrow> nat \<Rightarrow> nat option" where
  "dissolved_bits_length original_length bits =
     (if 1 \<le> bits \<and> bits \<le> byte_bits
      then Some ((original_length * byte_bits) div bits
             + (if (original_length * byte_bits) mod bits \<noteq> 0 then 1 else 0))
      else None)"

definition concentrated_bits_length :: "nat \<Rightarrow> nat \<Rightarrow> nat option" where
  "concentrated_bits_length original_length bits =
     (if 1 \<le> bits \<and> bits \<le> byte_bits
      then Some ((original_length * bits) div byte_bits
             + (if (original_length * bits) mod byte_bits \<noteq> 0 then 1 else 0))
      else None)"

text \<open>The lambda \<^verbatim>\<open>push\<close>: the result, the remaining \<open>r\<close> and the state of \<open>put\<close>.\<close>

partial_function (option) dissolve_push ::
    "('p, byte) putter \<Rightarrow> nat \<Rightarrow> byte \<Rightarrow> 'w::len word \<Rightarrow> nat \<Rightarrow> 'p \<Rightarrow> (bool \<times> nat \<times> 'p) option" where
  "dissolve_push put bits m w r p =
     (if r \<ge> bits
      then (case put (ucast (drop_bit (r - bits) w) AND m) p of (ok, p') \<Rightarrow>
              if ok then dissolve_push put bits m w (r - bits) p' else Some (False, r, p'))
      else Some (True, r, p))"

partial_function (option) dissolve_loop ::
    "('g, byte) getter \<Rightarrow> ('p, byte) putter \<Rightarrow> nat \<Rightarrow> byte \<Rightarrow> 'w::len word \<Rightarrow> nat \<Rightarrow> 'g \<Rightarrow> 'p
       \<Rightarrow> (bool \<times> 'p) option" where
  "dissolve_loop get put bits m w r g p =
     (if r < bits
      then (case get g of
              (Some src, g') \<Rightarrow>
                (let w' = push_bit byte_bits w OR ucast src
                 in Option.bind (dissolve_push put bits m w' (r + byte_bits) p)
                      (\<lambda>(ok, r', p'). if ok then dissolve_loop get put bits m w' r' g' p'
                                      else Some (False, p')))
            | (None, g') \<Rightarrow>
                if r > 0 then Some (put (ucast (push_bit (bits - r) w) AND m) p)
                else Some (True, p))
      else Option.bind (dissolve_push put bits m w r p)
             (\<lambda>(ok, r', p'). if ok then dissolve_loop get put bits m w r' g p'
                             else Some (False, p')))"

text \<open>\<open>None\<close> also where the assertions on \<open>bits\<close> fail.\<close>

definition do_dissolve_bits ::
    "'w::len itself \<Rightarrow> ('g, byte) getter \<Rightarrow> ('p, byte) putter \<Rightarrow> nat \<Rightarrow> 'g \<Rightarrow> 'p
       \<Rightarrow> (bool \<times> 'p) option" where
  "do_dissolve_bits _ get put bits g p =
     (if 1 \<le> bits \<and> bits \<le> byte_bits
      then dissolve_loop get put bits (ucast ((push_bit bits 1 :: u32) - 1)) (0 :: 'w word) 0 g p
      else None)"

text \<open>The inner loop \<^verbatim>\<open>while(r < byte_bits())\<close>: the flag \<open>done\<close>, \<open>w\<close>, \<open>r\<close>, state of \<open>get\<close>.\<close>

partial_function (option) concentrate_fill ::
    "('g, byte) getter \<Rightarrow> nat \<Rightarrow> 'w::len word \<Rightarrow> 'w word \<Rightarrow> nat \<Rightarrow> 'g
       \<Rightarrow> (bool \<times> 'w word \<times> nat \<times> 'g) option" where
  "concentrate_fill get bits m w r g =
     (if r < byte_bits
      then (case get g of
              (Some src, g') \<Rightarrow>
                concentrate_fill get bits m
                  ((push_bit bits w AND NOT m) OR (ucast src AND m)) (r + bits) g'
            | (None, g') \<Rightarrow> Some (True, w, r, g'))
      else Some (False, w, r, g))"

partial_function (option) concentrate_loop ::
    "('g, byte) getter \<Rightarrow> ('p, byte) putter \<Rightarrow> nat \<Rightarrow> 'w::len word \<Rightarrow> 'w word \<Rightarrow> nat \<Rightarrow> 'g \<Rightarrow> 'p
       \<Rightarrow> (bool \<times> 'p) option" where
  "concentrate_loop get put bits m w r g p =
     Option.bind (concentrate_fill get bits m w r g)
       (\<lambda>(fin, w', r', g').
          if r' \<ge> byte_bits
          then (case put (ucast (drop_bit (r' - byte_bits) w')) p of (ok, p') \<Rightarrow>
                  if ok
                  then if fin then Some (True, p')
                       else concentrate_loop get put bits m w' (r' - byte_bits) g' p'
                  else Some (False, p'))
          else if fin then Some (True, p)
          else concentrate_loop get put bits m w' r' g' p)"

definition do_concentrate_bits ::
    "'w::len itself \<Rightarrow> ('g, byte) getter \<Rightarrow> ('p, byte) putter \<Rightarrow> nat \<Rightarrow> 'g \<Rightarrow> 'p
       \<Rightarrow> (bool \<times> 'p) option" where
  "do_concentrate_bits _ get put bits g p =
     (if 1 \<le> bits \<and> bits \<le> byte_bits
      then concentrate_loop get put bits (ucast ((push_bit bits 1 :: u32) - 1)) (0 :: 'w word) 0 g p
      else None)"


section \<open>What the loops transport\<close>

text \<open>
  The client side of the getter and putter interfaces: the input of a pump is \<open>rest g\<close>, its
  output the values appended to \<open>out p\<close>, converted by \<open>f\<close>.
\<close>

locale bit_pump =
  element_getter get rest + element_putter put "\<lambda>v. Some (f v)" room out wf
  for get :: "('g, byte) getter" and rest :: "'g \<Rightarrow> byte list"
    and put :: "('p, byte) putter" and f :: "byte \<Rightarrow> 'c" and room :: "'p \<Rightarrow> nat" and out :: "'p \<Rightarrow> 'c list"
    and wf :: "'p \<Rightarrow> bool"
begin

lemma put_cases:
  obtains (full) "room p = 0" "put v p = (False, p)"
  | (ok) p' where "0 < room p" "put v p = (True, p')" "out p' = out p @ [f v]" "room p' = room p - 1"
      "wf p \<Longrightarrow> wf p'"
  using put_ok [of p v "f v"] put_full [of p v] put_wf [of p v] by (cases "put v p"; cases "room p") auto

lemma get_cases:
  obtains (none) g' where "rest g = []" "get g = (None, g')"
  | (some) x g' where "rest g = x # rest g'" "get g = (Some x, g')"
  using get_None [of g] get_Some [of g] by (cases "get g"; cases "rest g") auto

lemma dissolve_push_enough:
  fixes w :: "'w::len word"
  assumes "1 \<le> bits" "bits \<le> 8"
  shows "r div bits \<le> room p \<Longrightarrow>
    \<exists>vs p'. dissolve_push put bits (mask bits) w r p = Some (True, r mod bits, p') \<and>
      (wf p \<longrightarrow> wf p') \<and>
      out p' = out p @ map f vs \<and> room p' = room p - length vs \<and> length vs = r div bits \<and>
      concat (map (wbits bits) vs) @ wbits (r mod bits) w = wbits r w \<and>
      (\<forall>v \<in> set vs. take_bit bits v = v)"
proof (induction r arbitrary: p rule: less_induct)
  case (less r)
  show ?case
  proof (cases "bits \<le> r")
    case False
    then show ?thesis by (subst dissolve_push.simps) auto
  next
    case True
    let ?v = "ucast (drop_bit (r - bits) w) AND mask bits :: byte"
    from True assms less.prems have dm: "r div bits = Suc ((r - bits) div bits)"
      "r mod bits = (r - bits) mod bits" "r - bits < r"
      by (simp_all add: div_if le_mod_geq)
    with less.prems obtain p' where p': "put ?v p = (True, p')" "out p' = out p @ [f ?v]"
      "room p' = room p - 1" "wf p \<Longrightarrow> wf p'"
      by (cases rule: put_cases [of p ?v]) auto
    with less.prems dm have "(r - bits) div bits \<le> room p'" by simp
    from less.IH [OF dm(3) this] obtain vs p'' where IH:
      "dissolve_push put bits (mask bits) w (r - bits) p' = Some (True, (r - bits) mod bits, p'')"
      "wf p' \<longrightarrow> wf p''" "out p'' = out p' @ map f vs" "room p'' = room p' - length vs" "length vs = (r - bits) div bits"
      "concat (map (wbits bits) vs) @ wbits ((r - bits) mod bits) w = wbits (r - bits) w"
      "\<forall>v \<in> set vs. take_bit bits v = v"
      by blast
    have "wbits bits ?v @ wbits (r - bits) w = wbits r w"
      using True assms by (simp add: wbits_simps)
    with IH(6) dm(2) have "concat (map (wbits bits) (?v # vs)) @ wbits (r mod bits) w = wbits r w"
      by simp
    moreover have "dissolve_push put bits (mask bits) w r p = Some (True, r mod bits, p'')"
      using True p' IH(1) dm by (subst dissolve_push.simps) simp
    ultimately show ?thesis
      using p' IH dm by (intro exI [of _ "?v # vs"] exI [of _ p'']) auto
  qed
qed

lemma dissolve_push_full:
  fixes w :: "'w::len word"
  assumes "1 \<le> bits" "bits \<le> 8"
  shows "room p < r div bits \<Longrightarrow> \<exists>r' p'. dissolve_push put bits m w r p = Some (False, r', p')"
proof (induction r arbitrary: p rule: less_induct)
  case (less r)
  then have r: "bits \<le> r" by (metis div_less not_le not_less_zero)
  show ?case
  proof (cases rule: put_cases [of p "ucast (drop_bit (r - bits) w) AND m"])
    case full
    with r show ?thesis by (subst dissolve_push.simps) simp
  next
    case (ok p')
    with less.prems r assms have "room p' < (r - bits) div bits" "r - bits < r"
      by (simp_all add: div_if)
    from less.IH [OF this(2,1)] ok r show ?thesis by (subst dissolve_push.simps) simp
  qed
qed

text \<open>
  Dissolving: with room for every group, the output is the input's bit string cut into groups of
  \<open>bits\<close> bits, the last one filled up with zero bits; without it the function reports failure.
\<close>

lemma dissolve_loop_enough:
  fixes w :: "'w::len word"
  assumes bits: "1 \<le> bits" "bits \<le> 8" and width: "16 \<le> LENGTH('w)"
  shows "r < bits \<Longrightarrow> r + 8 * length (rest g) \<le> bits * room p \<Longrightarrow>
    \<exists>vs p' pad. dissolve_loop get put bits (mask bits) w r g p = Some (True, p') \<and>
      (wf p \<longrightarrow> wf p') \<and> out p' = out p @ map f vs \<and> pad < bits \<and>
      concat (map (wbits bits) vs) =
        wbits r w @ concat (map (wbits 8) (rest g)) @ replicate pad False \<and>
      (\<forall>v \<in> set vs. take_bit bits v = v)"
proof (induction "rest g" arbitrary: g w r p)
  case Nil
  then obtain g' where g': "get g = (None, g')"
    by (cases rule: get_cases [of g]) auto
  show ?case
  proof (cases "r = 0")
    case True
    with Nil g' show ?thesis
      by (subst dissolve_loop.simps) (auto intro!: exI [of _ "[]"] exI [of _ 0])
  next
    case False
    let ?v = "ucast (push_bit (bits - r) w) AND mask bits :: byte"
    from False Nil obtain p' where "put ?v p = (True, p')" "out p' = out p @ [f ?v]" "wf p \<Longrightarrow> wf p'"
      by (cases rule: put_cases [of p ?v]) auto
    moreover have "wbits bits ?v = wbits r w @ replicate (bits - r) False"
      using Nil.prems bits width by (simp add: wbits_simps)
    ultimately show ?thesis
      using False Nil g' bits
      by (subst dissolve_loop.simps) (auto intro!: exI [of _ "[?v]"] exI [of _ "bits - r"])
  qed
next
  case (Cons x xs)
  then obtain g' where g': "get g = (Some x, g')" "rest g' = xs"
    by (cases rule: get_cases [of g]) auto
  let ?w = "push_bit 8 w OR ucast x" and ?r = "(r + 8) mod bits"
  from Cons(2) [symmetric] Cons.prems(2) have room: "r + 8 + 8 * length xs \<le> bits * room p" by simp
  then have "r + 8 \<le> room p * bits" by (simp add: mult.commute)
  then have "(r + 8) div bits \<le> room p"
    using bits by (metis div_le_mono div_mult_self_is_m less_le_trans zero_less_one)
  from dissolve_push_enough [OF bits this, of ?w] obtain us q where
    push: "dissolve_push put bits (mask bits) ?w (r + 8) p = Some (True, ?r, q)"
      "wf p \<longrightarrow> wf q"
      "out q = out p @ map f us" "room q = room p - length us" "length us = (r + 8) div bits"
      "concat (map (wbits bits) us) @ wbits ?r ?w = wbits (r + 8) ?w"
      "\<forall>v \<in> set us. take_bit bits v = v"
    by blast
  have rem: "?r < bits" using bits by simp
  have "r + 8 = bits * length us + ?r" using push(5) by simp
  with room push(4) have "?r + 8 * length (rest g') \<le> bits * room q"
    using g'(2) by (simp add: diff_mult_distrib2)
  from Cons.hyps(1) [OF g'(2) [symmetric] rem this, of ?w] obtain vs p' pad where
    IH: "dissolve_loop get put bits (mask bits) ?w ?r g' q = Some (True, p')"
      "wf q \<longrightarrow> wf p'" "out p' = out q @ map f vs" "pad < bits"
      "concat (map (wbits bits) vs) = wbits ?r ?w @ concat (map (wbits 8) xs) @ replicate pad False"
      "\<forall>v \<in> set vs. take_bit bits v = v"
    unfolding g'(2) by blast
  have shift: "wbits (r + 8) ?w = wbits r w @ wbits 8 x"
    using wbits_shift_in [of r 8 w x] Cons.prems(1) bits width by (simp add: ucast_byte_and_mask)
  have "concat (map (wbits bits) (us @ vs)) =
      (concat (map (wbits bits) us) @ wbits ?r ?w) @ concat (map (wbits 8) xs) @ replicate pad False"
    using IH(5) by simp
  also have "\<dots> = wbits r w @ concat (map (wbits 8) (rest g)) @ replicate pad False"
    unfolding push(6) shift Cons(2) [symmetric] by simp
  finally have "concat (map (wbits bits) (us @ vs)) =
      wbits r w @ concat (map (wbits 8) (rest g)) @ replicate pad False" .
  moreover have "dissolve_loop get put bits (mask bits) w r g p = Some (True, p')"
    using Cons.prems(1) g' push(1) IH(1)
    by (subst dissolve_loop.simps) (simp add: byte_bits_def Let_def)
  moreover have "out p' = out p @ map f (us @ vs)" "\<forall>v \<in> set (us @ vs). take_bit bits v = v"
    using push(3,7) IH(3,6) by auto
  moreover have "wf p \<longrightarrow> wf p'" using push(2) IH(2) by blast
  ultimately show ?case
    using IH(4) by blast
qed

lemma dissolve_loop_full:
  fixes w :: "'w::len word"
  assumes bits: "1 \<le> bits" "bits \<le> 8"
  shows "r < bits \<Longrightarrow> bits * room p < r + 8 * length (rest g) \<Longrightarrow>
    \<exists>p'. dissolve_loop get put bits (mask bits) w r g p = Some (False, p')"
proof (induction "rest g" arbitrary: g w r p)
  case Nil
  then obtain g' where g': "get g = (None, g')"
    by (cases rule: get_cases [of g]) auto
  from Nil have lt: "bits * room p < r" by simp
  with Nil.prems(1) have "room p = 0" by (cases "room p") auto
  moreover from lt have "0 < r" by simp
  ultimately
  show ?case using Nil g' put_full by (subst dissolve_loop.simps) simp
next
  case (Cons x xs)
  then obtain g' where g': "get g = (Some x, g')" "rest g' = xs"
    by (cases rule: get_cases [of g]) auto
  let ?w = "push_bit 8 w OR ucast x" and ?r = "(r + 8) mod bits"
  show ?case
  proof (cases "(r + 8) div bits \<le> room p")
    case True
    from dissolve_push_enough [OF bits this, of ?w] obtain us :: "byte list" and q where
      push: "dissolve_push put bits (mask bits) ?w (r + 8) p = Some (True, ?r, q)"
        "room q = room p - length us" "length us = (r + 8) div bits"
      by blast
    have "r + 8 = bits * length us + ?r" using push(3) by simp
    moreover have "bits * room p = bits * room q + bits * length us"
      using True push(2,3) by (simp flip: distrib_left)
    moreover have "bits * room p < r + 8 + 8 * length (rest g')"
      using Cons(2) [symmetric] Cons.prems(2) g'(2) by simp
    ultimately have "bits * room q < ?r + 8 * length (rest g')" by linarith
    moreover have "?r < bits" using bits by simp
    ultimately obtain p' where
      "dissolve_loop get put bits (mask bits) ?w ?r g' q = Some (False, p')"
      using Cons.hyps(1) [OF g'(2) [symmetric], of ?r q ?w] by blast
    then show ?thesis
      using Cons.prems(1) g' push(1)
      by (subst dissolve_loop.simps) (simp add: byte_bits_def Let_def)
  next
    case False
    with dissolve_push_full [OF bits, of p "r + 8" "mask bits" ?w] obtain r' p' where
      "dissolve_push put bits (mask bits) ?w (r + 8) p = Some (False, r', p')"
      by auto
    then show ?thesis
      using Cons.prems(1) g' by (subst dissolve_loop.simps) (simp add: byte_bits_def Let_def)
  qed
qed

text \<open>
  Concentrating: the output bytes are the input's bit string cut into groups of eight, a last
  incomplete group being dropped.
\<close>

lemma concentrate_fill_returns:
  fixes w :: "'w::len word"
  assumes bits: "1 \<le> bits" "bits \<le> 8" and width: "16 \<le> LENGTH('w)"
  shows "r < 8 + bits \<Longrightarrow>
    \<exists>fin w' r' g' ys. concentrate_fill get bits (mask bits) w r g = Some (fin, w', r', g') \<and>
      wbits r' w' = wbits r w @ concat (map (wbits bits) ys) \<and>
      (if fin then r' < 8 \<and> rest g = ys else 8 \<le> r' \<and> r' < 8 + bits \<and> rest g = ys @ rest g')"
proof (induction "rest g" arbitrary: g w r)
  case Nil
  then obtain g' where "get g = (None, g')"
    by (cases rule: get_cases [of g]) auto
  then have "concentrate_fill get bits (mask bits) w r g =
      (if r < 8 then Some (True, w, r, g') else Some (False, w, r, g))"
    by (subst concentrate_fill.simps) (simp add: byte_bits_def)
  with Nil(1) [symmetric] Nil.prems show ?case
    by (intro exI [of _ "r < 8"] exI [of _ w] exI [of _ r] exI [of _ "if r < 8 then g' else g"]
        exI [of _ "[]"]) simp
next
  case (Cons x xs)
  then obtain g' where g': "get g = (Some x, g')" "rest g' = xs"
    by (cases rule: get_cases [of g]) auto
  show ?case
  proof (cases "r < 8")
    case False
    then have "concentrate_fill get bits (mask bits) w r g = Some (False, w, r, g)"
      by (subst concentrate_fill.simps) (simp add: byte_bits_def)
    with False Cons.prems show ?thesis
      by (intro exI [of _ "False"] exI [of _ w] exI [of _ r] exI [of _ g] exI [of _ "[]"]) simp
  next
    case True
    let ?w = "(push_bit bits w AND NOT (mask bits)) OR (ucast x AND mask bits)"
    have "?w = push_bit bits w OR (ucast x AND mask bits)"
      by (auto intro!: bit_word_eqI simp: bit_simps)
    with True bits width have shift: "wbits (r + bits) ?w = wbits r w @ wbits bits x"
      by (simp add: wbits_simps)
    from Cons.hyps(1) [OF g'(2) [symmetric], of "r + bits" ?w] True obtain fin w' r' g'' ys where
      IH: "concentrate_fill get bits (mask bits) ?w (r + bits) g' = Some (fin, w', r', g'')"
        "wbits r' w' = wbits (r + bits) ?w @ concat (map (wbits bits) ys)"
        "if fin then r' < 8 \<and> rest g' = ys else 8 \<le> r' \<and> r' < 8 + bits \<and> rest g' = ys @ rest g''"
      by auto
    have "concentrate_fill get bits (mask bits) w r g = Some (fin, w', r', g'')"
      using True g' IH(1) by (subst concentrate_fill.simps) (simp add: byte_bits_def)
    moreover have "wbits r' w' = wbits r w @ concat (map (wbits bits) (x # ys))"
      using IH(2) shift by simp
    moreover have "if fin then r' < 8 \<and> rest g = x # ys
        else 8 \<le> r' \<and> r' < 8 + bits \<and> rest g = (x # ys) @ rest g''"
      using IH(3) Cons(2) [symmetric] g'(2) by (auto split: if_splits)
    ultimately show ?thesis by blast
  qed
qed

lemma concentrate_loop_returns:
  fixes w :: "'w::len word"
  assumes bits: "1 \<le> bits" "bits \<le> 8" and width: "16 \<le> LENGTH('w)"
  shows "r < 8 \<Longrightarrow>
    (if (r + bits * length (rest g)) div 8 \<le> room p
     then \<exists>vs p'. concentrate_loop get put bits (mask bits) w r g p = Some (True, p') \<and>
       (wf p \<longrightarrow> wf p') \<and>
       out p' = out p @ map f vs \<and> length vs = (r + bits * length (rest g)) div 8 \<and>
       concat (map (wbits 8) vs) =
         take (8 * length vs) (wbits r w @ concat (map (wbits bits) (rest g)))
     else \<exists>p'. concentrate_loop get put bits (mask bits) w r g p = Some (False, p'))"
proof (induction "length (rest g)" arbitrary: g w r p rule: less_induct)
  case less
  then have "r < 8 + bits" by simp
  from concentrate_fill_returns [OF bits width this, of w g] obtain fin w' r' g' ys where
    fill: "concentrate_fill get bits (mask bits) w r g = Some (fin, w', r', g')"
      "wbits r' w' = wbits r w @ concat (map (wbits bits) ys)"
      "if fin then r' < 8 \<and> rest g = ys else 8 \<le> r' \<and> r' < 8 + bits \<and> rest g = ys @ rest g'"
    by blast
  from arg_cong [OF fill(2), of length] have r': "r' = r + bits * length ys" by simp
  show ?case
  proof (cases fin)
    case True
    with fill r' have "r + bits * length (rest g) < 8" by simp
    moreover have "concentrate_loop get put bits (mask bits) w r g p = Some (True, p)"
      using True fill by (subst concentrate_loop.simps) (simp add: byte_bits_def)
    ultimately show ?thesis by simp
  next
    case False
    with fill(3) have r'_range: "8 \<le> r'" "r' < 8 + bits" and rest: "rest g = ys @ rest g'"
      by simp_all
    with r' less.prems have "ys \<noteq> []" by auto
    then have dec: "length (rest g') < length (rest g)" using rest by simp
    let ?v = "ucast (drop_bit (r' - 8) w') :: byte"
    have step: "concentrate_loop get put bits (mask bits) w r g p =
        (case put ?v p of (ok, p') \<Rightarrow>
           if ok then concentrate_loop get put bits (mask bits) w' (r' - 8) g' p' else Some (False, p'))"
      using False fill(1) r'_range
      by (subst concentrate_loop.simps) (simp add: byte_bits_def split: prod.split)
    have "r + bits * length (rest g) = 8 + (r' - 8 + bits * length (rest g'))"
      using r' r'_range rest by (simp add: distrib_left)
    then have total: "(r + bits * length (rest g)) div 8 = Suc ((r' - 8 + bits * length (rest g')) div 8)"
      by simp
    show ?thesis
    proof (cases rule: put_cases [of p ?v])
      case full
      then show ?thesis using step total by simp
    next
      case (ok q)
      have "r' - 8 < 8" using r'_range bits by linarith
      note IH = less.hyps [OF dec this, of q w']
      show ?thesis
      proof (cases "(r' - 8 + bits * length (rest g')) div 8 \<le> room q")
        case False
        then show ?thesis using IH step ok total by auto
      next
        case True
        with IH obtain vs p' where IH':
          "concentrate_loop get put bits (mask bits) w' (r' - 8) g' q = Some (True, p')"
          "wf q \<longrightarrow> wf p'" "out p' = out q @ map f vs" "length vs = (r' - 8 + bits * length (rest g')) div 8"
          "concat (map (wbits 8) vs) =
             take (8 * length vs) (wbits (r' - 8) w' @ concat (map (wbits bits) (rest g')))"
          by auto
        have le: "(r + bits * length (rest g)) div 8 \<le> room p"
          using True ok total by simp
        have "wbits r w @ concat (map (wbits bits) (rest g)) =
            (wbits 8 ?v @ wbits (r' - 8) w') @ concat (map (wbits bits) (rest g'))"
          using r'_range fill(2) rest by (simp add: wbits_simps)
        then have "concat (map (wbits 8) (?v # vs)) =
            take (8 * length (?v # vs)) (wbits r w @ concat (map (wbits bits) (rest g)))"
          using IH'(5) by simp
        moreover have "concentrate_loop get put bits (mask bits) w r g p = Some (True, p')"
          using step ok IH'(1) by simp
        moreover have "out p' = out p @ map f (?v # vs)"
          "length (?v # vs) = (r + bits * length (rest g)) div 8"
          using ok IH'(3,4) total by simp_all
        moreover have "wf p \<longrightarrow> wf p'" using ok IH'(2) by blast
        ultimately show ?thesis unfolding if_P [OF le] by blast
      qed
    qed
  qed
qed

lemma do_dissolve_bits_enough:
  assumes "1 \<le> bits" "bits \<le> 8" "16 \<le> LENGTH('w::len)" "8 * length (rest g) \<le> bits * room p"
  shows "\<exists>vs p' pad. do_dissolve_bits TYPE('w) get put bits g p = Some (True, p') \<and>
      (wf p \<longrightarrow> wf p') \<and> out p' = out p @ map f vs \<and> pad < bits \<and>
      concat (map (wbits bits) vs) = concat (map (wbits 8) (rest g)) @ replicate pad False \<and>
      (\<forall>v \<in> set vs. take_bit bits v = v)"
  using dissolve_loop_enough [OF assms(1-3), of 0 g p 0] assms
  by (simp add: do_dissolve_bits_def byte_bits_def low_mask_eq)

lemma do_dissolve_bits_full:
  assumes "1 \<le> bits" "bits \<le> 8" "bits * room p < 8 * length (rest g)"
  shows "\<exists>p'. do_dissolve_bits TYPE('w::len) get put bits g p = Some (False, p')"
  using dissolve_loop_full [OF assms(1,2), of 0 p g "0 :: 'w word"] assms
  by (simp add: do_dissolve_bits_def byte_bits_def low_mask_eq)

lemma do_concentrate_bits_enough:
  assumes "1 \<le> bits" "bits \<le> 8" "16 \<le> LENGTH('w::len)" "bits * length (rest g) div 8 \<le> room p"
  shows "\<exists>vs p'. do_concentrate_bits TYPE('w) get put bits g p = Some (True, p') \<and>
      (wf p \<longrightarrow> wf p') \<and> out p' = out p @ map f vs \<and> length vs = bits * length (rest g) div 8 \<and>
      concat (map (wbits 8) vs) = take (8 * length vs) (concat (map (wbits bits) (rest g)))"
  using concentrate_loop_returns [OF assms(1-3), of 0 g p 0] assms
  by (simp add: do_concentrate_bits_def byte_bits_def low_mask_eq)

lemma do_concentrate_bits_full:
  assumes "1 \<le> bits" "bits \<le> 8" "16 \<le> LENGTH('w::len)" "room p < bits * length (rest g) div 8"
  shows "\<exists>p'. do_concentrate_bits TYPE('w) get put bits g p = Some (False, p')"
  using concentrate_loop_returns [OF assms(1-3), of 0 g p 0] assms
  by (simp add: do_concentrate_bits_def byte_bits_def low_mask_eq)

end

section \<open>Lengths and the round trip\<close>

lemma dissolved_bits_length_enough:
  "dissolved_bits_length n bits = Some l \<Longrightarrow> 8 * n \<le> bits * l"
proof -
  assume l: "dissolved_bits_length n bits = Some l"
  then have bits: "0 < bits" by (auto simp: dissolved_bits_length_def split: if_splits)
  define q m where "q = n * 8 div bits" and "m = n * 8 mod bits"
  have "8 * n = bits * q + m" by (simp add: q_def m_def)
  moreover have "m < bits" using bits by (simp add: m_def)
  moreover have "l = q + (if m \<noteq> 0 then 1 else 0)"
    using l by (simp add: dissolved_bits_length_def byte_bits_def q_def m_def split: if_splits)
  ultimately show ?thesis by (simp add: distrib_left)
qed

lemma concentrated_bits_length_enough:
  "concentrated_bits_length n bits = Some l \<Longrightarrow> bits * n div 8 \<le> l"
  by (auto simp: concentrated_bits_length_def byte_bits_def mult.commute split: if_splits)

text \<open>Concentrating what dissolving produced gives the dissolved bytes back.\<close>

lemma bits_roundtrip:
  fixes src vs us :: "byte list"
  assumes vs: "concat (map (wbits bits) vs) = concat (map (wbits 8) src) @ replicate pad False"
    and pad: "pad < bits" "bits \<le> 8"
    and us: "length us = bits * length vs div 8"
      "concat (map (wbits 8) us) = take (8 * length us) (concat (map (wbits bits) vs))"
  shows "us = src"
proof -
  from arg_cong [OF vs, of length] have "bits * length vs = 8 * length src + pad" by simp
  with pad us(1) have "length us = length src" by simp
  with us(2) vs have "concat (map (wbits 8) us) = concat (map (wbits 8) src)" by simp
  then show ?thesis by (simp add: concat_wbits_inject)
qed

interpretation span_pump:
  bit_pump "make_span_getter spn" "\<lambda>i. drop i spn" make_span_putter "\<lambda>v. v" span_room span_out span_wf
  for spn
  using span_putter.element_putter_axioms by unfold_locales

end

