(* ===== verification/Base64.thy ===== *)
theory Base64
  imports Bit_Density
begin

text \<open>
  \<^verbatim>\<open>source/modules/eagine/string/base64.cpp\<close>: base64 text without padding, as the bit
  pumps of \<^verbatim>\<open>bit_density.cpp\<close> run with six bits between a span of bytes and a span of
  characters. A \<open>char\<close> indexes the tables by its code 0 to 255, as an unsigned \<^verbatim>\<open>char\<close>
  does (a negative signed one violates the precondition of \<^verbatim>\<open>std_size\<close>). The functions
  take the width of \<^verbatim>\<open>double_byte\<close> as a type argument, see \<^verbatim>\<open>Bit_Density\<close>.
\<close>

definition base64_table :: string where
  "base64_table = ''ABCDEFGHIJKLMNOPQRSTUVWXYZabcdefghijklmnopqrstuvwxyz0123456789+/=''"

definition make_base64_encode_transform :: "byte \<Rightarrow> char option" where
  "make_base64_encode_transform b = Some ((base64_table @ [CHR 0x00]) ! min (unat b) 64)"

text \<open>
  The table of the decoder: filled with 0xFF, then one entry per character of
  \<^verbatim>\<open>invtable[66]\<close>, its two terminating zeros included, then the zero's entry reset.
\<close>

definition base64_invtable :: string where
  "base64_invtable =
     ''ABCDEFGHIJKLMNOPQRSTUVWXYZabcdefghijklmnopqrstuvwxyz0123456789+/'' @ [CHR 0x00, CHR 0x00]"

definition base64_decode_table :: "byte list" where
  "base64_decode_table =
     (foldl (\<lambda>result (b, x). result[of_char x := word_of_nat b]) (replicate 256 0xFF)
        (enumerate 0 base64_invtable)) [0 := 0xFF]"

definition make_base64_decode_transform :: "char \<Rightarrow> byte option" where
  "make_base64_decode_transform c =
     (let r = base64_decode_table ! of_char c in if r AND 0x80 \<noteq> 0x80 then Some r else None)"

definition base64_encoded_length :: "nat \<Rightarrow> nat option" where
  "base64_encoded_length orig_size = dissolved_bits_length orig_size 6"

definition base64_decoded_length :: "nat \<Rightarrow> nat option" where
  "base64_decoded_length orig_size = concentrated_bits_length orig_size 6"

text \<open>
  The overloads on a destination span: its new contents and the returned span, which is empty
  where the destination is too small.
\<close>

definition base64_encode_span ::
    "'w::len itself \<Rightarrow> byte list \<Rightarrow> string \<Rightarrow> (string \<times> string) option" where
  "base64_encode_span w src dst =
     Option.bind
       (do_dissolve_bits w (make_span_getter src)
          (make_span_putter_with make_base64_encode_transform) 6 0 (0, dst))
       (\<lambda>(ok, (o', dst')). Some (dst', if ok then head dst' (int o') else []))"

definition base64_decode_span ::
    "'w::len itself \<Rightarrow> string \<Rightarrow> byte list \<Rightarrow> (byte list \<times> byte list) option" where
  "base64_decode_span w src dst =
     Option.bind
       (do_concentrate_bits w (make_span_getter_with src make_base64_decode_transform)
          make_span_putter 6 0 (0, dst))
       (\<lambda>(ok, (o', dst')). Some (dst', if ok then head dst' (int o') else []))"

text \<open>The member \<^verbatim>\<open>resize\<close> of a destination container, with the element it appends.\<close>

definition resize :: "'a \<Rightarrow> 'a list \<Rightarrow> nat \<Rightarrow> 'a list" where
  "resize d xs n = take n xs @ replicate (n - length xs) d"

text \<open>
  The overloads on a container: its new contents and whether the returned
  \<^verbatim>\<open>optional_reference\<close> has a value.
\<close>

definition base64_encode :: "'w::len itself \<Rightarrow> byte list \<Rightarrow> string \<Rightarrow> (string \<times> bool) option" where
  "base64_encode w src dst =
     Option.bind (base64_encoded_length (length src)) (\<lambda>l.
     Option.bind
       (do_dissolve_bits w (make_span_getter src)
          (make_span_putter_with make_base64_encode_transform) 6 0 (0, resize (CHR 0x00) dst l))
       (\<lambda>(ok, (o', dst')). Some (if ok then (resize (CHR 0x00) dst' o', True) else (dst', False))))"

definition base64_decode :: "'w::len itself \<Rightarrow> string \<Rightarrow> byte list \<Rightarrow> (byte list \<times> bool) option" where
  "base64_decode w src dst =
     Option.bind (base64_decoded_length (length src)) (\<lambda>l.
     Option.bind
       (do_concentrate_bits w (make_span_getter_with src make_base64_decode_transform)
          make_span_putter 6 0 (0, resize 0 dst l))
       (\<lambda>(ok, (o', dst')). Some (if ok then (resize 0 dst' o', True) else (dst', False))))"

text \<open>\<^verbatim>\<open>assign_if_fits(string_view, memory::buffer&)\<close>: the new buffer and the result.\<close>

definition base64_assign_if_fits ::
    "'w::len itself \<Rightarrow> string \<Rightarrow> byte list \<Rightarrow> (byte list \<times> bool) option" where
  "base64_assign_if_fits w src dst =
     Option.bind (base64_decode w src dst)
       (\<lambda>(decoded, ok). Some (decoded, ok \<and> ((decoded = []) = (src = []))))"

section \<open>The alphabet\<close>

definition base64_char :: "byte \<Rightarrow> char" where
  "base64_char b = (base64_table @ [CHR 0x00]) ! min (unat b) 64"

lemma encode_transform_eq: "make_base64_encode_transform = (\<lambda>b. Some (base64_char b))"
  by (auto simp: make_base64_encode_transform_def base64_char_def)

text \<open>The table after the initialising loop, for a loop over distinct characters.\<close>

lemma foldl_table_other:
  "k \<notin> of_char ` set xs \<Longrightarrow>
     foldl (\<lambda>t (b, x). t[of_char x := h b]) t (enumerate n xs) ! k = t ! k"
  by (induction xs arbitrary: t n) auto

lemma foldl_table_length [simp]:
  "length (foldl (\<lambda>t (b, x). t[of_char x := h b]) t (enumerate n xs)) = length t"
  by (induction xs arbitrary: t n) auto

lemma foldl_table_nth:
  assumes "distinct xs" and "i < length xs" and "\<forall>x \<in> set xs. of_char x < length t"
  shows "foldl (\<lambda>t (b, x). t[of_char x := h b]) t (enumerate n xs) ! of_char (xs ! i) = h (n + i)"
  using assms
proof (induction xs arbitrary: t n i)
  case (Cons x xs)
  show ?case
  proof (cases i)
    case 0
    have "of_char x \<notin> (of_char ` set xs :: nat set)" using Cons.prems(1) by auto
    with 0 Cons.prems show ?thesis by (simp add: foldl_table_other)
  next
    case (Suc j)
    with Cons show ?thesis by simp
  qed
qed simp

definition base64_alphabet :: string where
  "base64_alphabet = ''ABCDEFGHIJKLMNOPQRSTUVWXYZabcdefghijklmnopqrstuvwxyz0123456789+/''"

lemma alphabet_facts:
  "base64_table = base64_alphabet @ ''=''"
  "base64_invtable = base64_alphabet @ [CHR 0x00, CHR 0x00]"
  "length base64_alphabet = 64" "distinct base64_alphabet" "CHR 0x00 \<notin> set base64_alphabet"
  by (simp_all add: base64_table_def base64_invtable_def base64_alphabet_def)

lemma of_char_less_256 [simp]: "of_char c < (256 :: nat)"
  by (cases c) (simp add: of_char_def horner_sum_simps)

lemma decode_table_nth:
  assumes "n < 64"
  shows "base64_decode_table ! of_char (base64_alphabet ! n) = word_of_nat n"
proof -
  have "base64_alphabet ! n \<noteq> CHR 0x00"
    using assms alphabet_facts(3,5) by (metis nth_mem)
  then have "(of_char (base64_alphabet ! n) :: nat) \<noteq> of_char (CHR 0x00)"
    by (simp only: of_char_eq_iff) simp
  then show ?thesis
    using assms alphabet_facts(3,4)
    by (simp add: base64_decode_table_def alphabet_facts(2) enumerate_append_eq foldl_table_nth)
qed

lemma decode_invalid_char:
  assumes "c \<notin> set base64_alphabet"
  shows "make_base64_decode_transform c = None"
proof (cases "c = CHR 0x00")
  case True
  then show ?thesis
    by (simp add: make_base64_decode_transform_def base64_decode_table_def)
next
  case False
  then have "(of_char c :: nat) \<noteq> of_char (CHR 0x00)" by (simp only: of_char_eq_iff) simp
  moreover have "(of_char c :: nat) \<notin> of_char ` set base64_invtable"
    using assms calculation by (auto simp: alphabet_facts(2))
  ultimately have "base64_decode_table ! of_char c = 0xFF"
    by (simp add: base64_decode_table_def foldl_table_other)
  then show ?thesis by (simp add: make_base64_decode_transform_def)
qed

lemma base64_char_eq: "unat b < 64 \<Longrightarrow> base64_char b = base64_alphabet ! unat b"
  by (simp add: base64_char_def alphabet_facts(1,3) nth_append)

lemma decode_encode_char:
  assumes "take_bit 6 b = (b :: byte)"
  shows "make_base64_decode_transform (base64_char b) = Some b"
proof -
  from assms have "unat b = take_bit 6 (unat b)"
    by (metis unsigned_take_bit_eq)
  also have "\<dots> < 2 ^ 6" by (rule take_bit_nat_less_exp)
  finally have "unat b < 64" by simp
  moreover have "b AND 0x80 \<noteq> 0x80"
  proof
    assume "b AND 0x80 = 0x80"
    then have "bit (b AND 0x80) 7 = bit (0x80 :: byte) 7" by simp
    then have "bit b 7" by (simp add: bit_simps)
    then have "bit (take_bit 6 b) 7" using assms by simp
    then show False by (simp add: bit_simps)
  qed
  ultimately show ?thesis
    by (simp add: make_base64_decode_transform_def base64_char_eq decode_table_nth)
qed


section \<open>Encoding and decoding\<close>

interpretation encode_pump:
  bit_pump "make_span_getter spn" "\<lambda>i. drop i spn"
    "make_span_putter_with make_base64_encode_transform" base64_char span_room span_out span_wf
  for spn
  using span_putter_with.element_putter_axioms [of make_base64_encode_transform]
  unfolding encode_transform_eq by unfold_locales

interpretation decode_pump:
  bit_pump "make_span_getter_with spn make_base64_decode_transform"
    "\<lambda>i. valid_prefix make_base64_decode_transform (drop i spn)"
    make_span_putter "\<lambda>v. v" span_room span_out span_wf
  for spn
  using span_putter.element_putter_axioms by unfold_locales

text \<open>The text of \<open>src\<close>: what both encoders produce where the destination has the room.\<close>

lemma encode_pump_result:
  assumes "16 \<le> LENGTH('w::len)" and "8 * length src \<le> 6 * length dst"
  shows "\<exists>vs o' dst' pad. do_dissolve_bits TYPE('w) (make_span_getter src)
        (make_span_putter_with make_base64_encode_transform) 6 0 (0, dst) = Some (True, (o', dst')) \<and>
      o' \<le> length dst' \<and> take o' dst' = map base64_char vs \<and> pad < 6 \<and>
      concat (map (wbits 6) vs) = concat (map (wbits 8) src) @ replicate pad False \<and>
      (\<forall>v \<in> set vs. take_bit 6 v = v)"
  using encode_pump.do_dissolve_bits_enough
    [where spn = src and bits = 6 and g = 0 and p = "(0, dst)", OF _ _ assms(1)] assms(2) by auto

lemma decode_pump_result:
  assumes "16 \<le> LENGTH('w::len)"
    and "6 * length (valid_prefix make_base64_decode_transform src) div 8 \<le> length dst"
  shows "\<exists>us o' dst'. do_concentrate_bits TYPE('w)
        (make_span_getter_with src make_base64_decode_transform) make_span_putter 6 0 (0, dst) =
          Some (True, (o', dst')) \<and>
      o' \<le> length dst' \<and> take o' dst' = us \<and>
      length us = 6 * length (valid_prefix make_base64_decode_transform src) div 8 \<and>
      concat (map (wbits 8) us) = take (8 * length us)
        (concat (map (wbits 6) (valid_prefix make_base64_decode_transform src)))"
  using decode_pump.do_concentrate_bits_enough
    [where spn = src and bits = 6 and g = 0 and p = "(0, dst)", OF _ _ assms(1)] assms(2) by auto

lemma length_resize [simp]: "length (resize d xs n) = n"
  by (simp add: resize_def)

lemma resize_shrink: "n \<le> length xs \<Longrightarrow> resize d xs n = take n xs"
  by (simp add: resize_def)


lemma base64_encode_result:
  assumes "16 \<le> LENGTH('w::len)"
  shows "\<exists>vs pad. base64_encode TYPE('w) src dst = Some (map base64_char vs, True) \<and> pad < 6 \<and>
      concat (map (wbits 6) vs) = concat (map (wbits 8) src) @ replicate pad False \<and>
      (\<forall>v \<in> set vs. take_bit 6 v = v)"
proof -
  obtain l where l: "base64_encoded_length (length src) = Some l" "8 * length src \<le> 6 * l"
    using dissolved_bits_length_enough [of "length src" 6]
    by (auto simp: base64_encoded_length_def dissolved_bits_length_def byte_bits_def)
  then have "8 * length src \<le> 6 * length (resize (CHR 0x00) dst l)" by simp
  from encode_pump_result [OF assms this] l(1) show ?thesis
    by (force simp: base64_encode_def resize_shrink)
qed

lemma base64_decode_result:
  assumes "16 \<le> LENGTH('w::len)"
  shows "\<exists>us. base64_decode TYPE('w) src dst = Some (us, True) \<and>
      length us = 6 * length (valid_prefix make_base64_decode_transform src) div 8 \<and>
      concat (map (wbits 8) us) = take (8 * length us)
        (concat (map (wbits 6) (valid_prefix make_base64_decode_transform src)))"
proof -
  let ?vp = "valid_prefix make_base64_decode_transform src"
  obtain l where l: "base64_decoded_length (length src) = Some l" "6 * length src div 8 \<le> l"
    using concentrated_bits_length_enough [of "length src" 6]
    by (auto simp: base64_decoded_length_def concentrated_bits_length_def byte_bits_def)
  have "length ?vp \<le> length src"
    by (simp add: valid_prefix_def length_takeWhile_le)
  then have "6 * length ?vp div 8 \<le> 6 * length src div 8"
    by (intro div_le_mono mult_le_mono2)
  with l(2) have "6 * length ?vp div 8 \<le> length (resize 0 dst l)" by simp
  from decode_pump_result [OF assms this] l(1) show ?thesis
    by (force simp: base64_decode_def resize_shrink)
qed

lemma base64_roundtrip_aux:
  assumes "16 \<le> LENGTH('w::len)"
  shows "\<exists>txt. base64_encode TYPE('w) src dst = Some (txt, True) \<and>
               base64_decode TYPE('w) txt dst' = Some (src, True) \<and>
               set txt \<subseteq> set base64_alphabet \<and> length txt = (8 * length src + 5) div 6"
proof -
  from base64_encode_result [OF assms] obtain vs pad where
    enc: "base64_encode TYPE('w) src dst = Some (map base64_char vs, True)" "pad < 6"
      "concat (map (wbits 6) vs) = concat (map (wbits 8) src) @ replicate pad False"
      "\<forall>v \<in> set vs. take_bit 6 v = v"
    by blast
  have vp: "valid_prefix make_base64_decode_transform (map base64_char vs) = vs"
    using enc(4) by (intro valid_prefix_map_Some decode_encode_char) blast
  from base64_decode_result [OF assms, of "map base64_char vs" dst'] obtain us where
    dec: "base64_decode TYPE('w) (map base64_char vs) dst' = Some (us, True)"
      "length us = 6 * length vs div 8"
      "concat (map (wbits 8) us) = take (8 * length us) (concat (map (wbits 6) vs))"
    unfolding vp by blast
  have "us = src"
    using bits_roundtrip [OF enc(3) enc(2) _ dec(2,3)] by simp
  moreover have "base64_char v \<in> set base64_alphabet" if "v \<in> set vs" for v
  proof -
    have "unat v = take_bit 6 (unat v)" using enc(4) that by (metis unsigned_take_bit_eq)
    also have "\<dots> < 2 ^ 6" by (rule take_bit_nat_less_exp)
    finally have "unat v < 64" by simp
    then show ?thesis by (simp add: base64_char_eq alphabet_facts(3))
  qed
  moreover from arg_cong [OF enc(3), of length] enc(2) have "length vs = (8 * length src + 5) div 6"
    by simp
  ultimately show ?thesis using enc(1) dec(1) by auto
qed


text \<open>The groups of six bits are determined by the bits of the source.\<close>

lemma encoded_groups_unique:
  fixes vs vs' :: "byte list"
  assumes "concat (map (wbits 6) vs) = bs @ replicate pad False" "pad < 6"
    and "concat (map (wbits 6) vs') = bs @ replicate pad' False" "pad' < 6"
    and "\<forall>v \<in> set vs. take_bit 6 v = v" "\<forall>v \<in> set vs'. take_bit 6 v = v"
  shows "vs = vs'"
proof -
  have ls: "6 * length vs = length bs + pad" "6 * length vs' = length bs + pad'"
    using arg_cong [OF assms(1), of length] arg_cong [OF assms(3), of length] by simp_all
  with assms(2,4) have len: "length vs = length vs'" by linarith
  with ls have "pad = pad'" by simp
  with assms(1,3) have "concat (map (wbits 6) vs) = concat (map (wbits 6) vs')" by simp
  with len assms(5,6) show ?thesis
  proof (induction vs vs' rule: list_induct2)
    case (Cons v vs v' vs')
    from Cons.prems have "wbits 6 v = wbits 6 v'" "take_bit 6 v = v" "take_bit 6 v' = v'"
      by simp_all
    then have "v = v'" by (metis wbits_take_bit_inject)
    with Cons show ?case by simp
  qed simp
qed

section \<open>Properties\<close>

text \<open>
  C22. For every sequence of bytes, \<^verbatim>\<open>base64_encode\<close> into a container succeeds with a
  text of the alphabet of 64 characters, of the minimal length, and
  \<^verbatim>\<open>base64_decode\<close> of that text into a container succeeds and gives the bytes back, on
  every platform whose \<^verbatim>\<open>uint_fast16_t\<close> has its 16 bits.
\<close>

theorem base64_roundtrip:
  assumes "16 \<le> LENGTH('w::len)"
  shows "\<exists>txt. base64_encode TYPE('w) src dst = Some (txt, True) \<and>
               base64_decode TYPE('w) txt dst' = Some (src, True) \<and>
               set txt \<subseteq> set base64_alphabet \<and> length txt = (8 * length src + 5) div 6"
  using assms by (rule base64_roundtrip_aux)

theorem base64_roundtrip_witness:
  "\<exists>txt. base64_encode TYPE(16) [77, 97] [] = Some (txt, True) \<and>
         base64_decode TYPE(16) txt [] = Some ([77, 97], True) \<and>
         set txt \<subseteq> set base64_alphabet \<and> length txt = 3"
  using base64_roundtrip [where 'w = 16, of "[77, 97]" "[]" "[]"] by simp


text \<open>
  The overload of \<^verbatim>\<open>base64_encode\<close> that writes into a span agrees with the one
  that fills a container: it returns the container's text where the span has the room for it,
  and the empty span where it has not.
\<close>

theorem base64_encode_span_agrees:
  assumes "16 \<le> LENGTH('w::len)" and "base64_encode TYPE('w) src buf = Some (txt, ok)"
  shows "\<exists>dst'. base64_encode_span TYPE('w) src dst =
           Some (dst', if length txt \<le> length dst then txt else [])"
proof -
  from base64_encode_result [OF assms(1), of src buf] assms(2) obtain vs pad where
    enc: "txt = map base64_char vs" "pad < 6"
      "concat (map (wbits 6) vs) = concat (map (wbits 8) src) @ replicate pad False"
      "\<forall>v \<in> set vs. take_bit 6 v = v"
    by auto
  have len: "6 * length txt = 8 * length src + pad"
    using arg_cong [OF enc(3), of length] enc(1) by simp
  show ?thesis
  proof (cases "length txt \<le> length dst")
    case True
    with len have "8 * length src \<le> 6 * length dst" by linarith
    from encode_pump_result [OF assms(1) this] obtain us o' dst' pad' where
      run: "do_dissolve_bits TYPE('w) (make_span_getter src)
          (make_span_putter_with make_base64_encode_transform) 6 0 (0, dst) = Some (True, (o', dst'))"
        "take o' dst' = map base64_char us" "pad' < 6"
        "concat (map (wbits 6) us) = concat (map (wbits 8) src) @ replicate pad' False"
        "\<forall>v \<in> set us. take_bit 6 v = v"
      by blast
    have "us = vs"
      by (rule encoded_groups_unique [OF run(4,3) enc(3,2) run(5) enc(4)])
    with run(1,2) True enc(1) show ?thesis
      by (simp add: base64_encode_span_def head_eq_take)
  next
    case False
    with len enc(2) have "6 * span_room (0, dst) < 8 * length (drop 0 src)" by simp
    then have "\<exists>p'. do_dissolve_bits TYPE('w) (make_span_getter src)
        (make_span_putter_with make_base64_encode_transform) 6 0 (0, dst) = Some (False, p')"
      by (intro encode_pump.do_dissolve_bits_full) simp_all
    with False show ?thesis by (auto simp: base64_encode_span_def)
  qed
qed

theorem base64_encode_span_agrees_witness:
  "\<exists>txt dst'. base64_encode TYPE(16) [77, 97] [] = Some (txt, True) \<and>
     base64_encode_span TYPE(16) [77, 97] ''--'' = Some (dst', if length txt \<le> 2 then txt else [])"
proof -
  obtain t where t: "base64_encode TYPE(16) [77, 97] [] = Some (t, True)"
    using base64_encode_result [where 'w = 16, of "[77, 97]" "[]"] by auto
  with base64_encode_span_agrees [where 'w = 16, OF _ t, of "''--''"] show ?thesis by auto
qed

text \<open>
  \<^verbatim>\<open>base64_decode\<close> succeeds on every text: it decodes the characters before the
  first one outside the alphabet (the padding character \<^verbatim>\<open>=\<close> is such a one) and ignores
  the rest, a last group of fewer than eight bits included.
\<close>

theorem base64_decode_ignores_tail:
  assumes "16 \<le> LENGTH('w::len)" and "c \<notin> set base64_alphabet"
  shows "base64_decode TYPE('w) (txt @ c # rest) dst = base64_decode TYPE('w) (txt @ [c]) dst' \<and>
         (\<exists>us. base64_decode TYPE('w) (txt @ c # rest) dst = Some (us, True) \<and>
               length us \<le> 6 * length txt div 8)"
proof -
  have "valid_prefix make_base64_decode_transform (txt @ c # more) =
      valid_prefix make_base64_decode_transform txt" for more
    using decode_invalid_char [OF assms(2)] by (simp add: valid_prefix_stop)
  note vp = this
  obtain us where us: "base64_decode TYPE('w) (txt @ c # rest) dst = Some (us, True)"
      "length us = 6 * length (valid_prefix make_base64_decode_transform txt) div 8"
      "concat (map (wbits 8) us) = take (8 * length us)
        (concat (map (wbits 6) (valid_prefix make_base64_decode_transform txt)))"
    using base64_decode_result [OF assms(1), of "txt @ c # rest" dst] unfolding vp by blast
  obtain us' where us': "base64_decode TYPE('w) (txt @ [c]) dst' = Some (us', True)"
      "length us' = 6 * length (valid_prefix make_base64_decode_transform txt) div 8"
      "concat (map (wbits 8) us') = take (8 * length us')
        (concat (map (wbits 6) (valid_prefix make_base64_decode_transform txt)))"
    using base64_decode_result [OF assms(1), of "txt @ [c]" dst'] unfolding vp by blast
  from us(2,3) us'(2,3) have "us = us'" by (simp add: concat_wbits_inject [symmetric])
  moreover have "length us \<le> 6 * length txt div 8"
    unfolding us(2) by (intro div_le_mono mult_le_mono2 length_valid_prefix)
  ultimately show ?thesis using us(1) us'(1) by simp
qed

theorem base64_decode_ignores_tail_witness:
  "base64_decode TYPE(16) ''TWE='' [] = base64_decode TYPE(16) ''TWE='' [1] \<and>
   (\<exists>us. base64_decode TYPE(16) ''TWE='' [] = Some (us, True) \<and> length us \<le> 2)"
  using base64_decode_ignores_tail [where 'w = 16, of "CHR ''=''" "''TWE''" "[]" "[]" "[1]"]
  by (simp add: base64_alphabet_def) metis

end
