(* ===== verification/Byteset.thy ===== *)
theory Byteset
  imports Prelude
begin

text \<open>
  \<^verbatim>\<open>source/modules/eagine/memory/byteset.cpp\<close>: a sequence of \<open>N\<close> bytes that converts to
  and from an unsigned integer, the most significant byte first. The sequence is the list of its
  bytes; the integer type \<^verbatim>\<open>UInt\<close> is \<open>'u word\<close>, of at least \<open>8 * N\<close> bits as the
  code's constraint demands. The comparisons are those of \<^verbatim>\<open>types/simd_data.cpp\<close>, whose
  loop over a vector register is also what the comparison of a plain array computes.
\<close>

section \<open>Operations\<close>

text \<open>Construction from an unsigned integer.\<close>

definition byteset_of :: "nat \<Rightarrow> 'u::len word \<Rightarrow> byte list" where
  "byteset_of N init = map (\<lambda>I. ucast (drop_bit (8 * (N - I - 1)) init AND 0xFF)) [0..<N]"

definition byteset_set :: "byte list \<Rightarrow> nat \<Rightarrow> byte \<Rightarrow> byte list" where
  "byteset_set bytes i v = bytes[i := v]"

definition byteset_get :: "byte list \<Rightarrow> nat \<Rightarrow> byte" where
  "byteset_get bytes i = bytes ! i"

text \<open>The fold over \<^verbatim>\<open>|\<close> of \<^verbatim>\<open>_as\<close>; \<open>N\<close> is positive.\<close>

definition byteset_as :: "byte list \<Rightarrow> 'u::len word" where
  "byteset_as bytes =
     (let N = length bytes;
          parts = map (\<lambda>I. push_bit (8 * (N - I - 1)) (ucast (bytes ! I))) [0..<N]
      in foldl (OR) (hd parts) (tl parts))"

datatype strong_ordering = Less | Equal | Greater

fun vector_compare :: "byte list \<Rightarrow> byte list \<Rightarrow> strong_ordering" where
  "vector_compare (l # ls) (r # rs) =
     (if l < r then Less else if l > r then Greater else vector_compare ls rs)"
| "vector_compare _ _ = Equal"

definition vector_equal :: "byte list \<Rightarrow> byte list \<Rightarrow> bool" where
  "vector_equal l r = list_all (\<lambda>d. d = 0) (map2 (-) l r)"

definition vector_less :: "byte list \<Rightarrow> byte list \<Rightarrow> bool" where
  "vector_less l r = (vector_compare l r = Less)"

section \<open>The bits of a byte sequence\<close>

text \<open>\<open>bs_bit bytes p\<close> is the bit at position \<open>p\<close>, counted from the most significant bit of
  the first byte.\<close>

definition bs_bit :: "byte list \<Rightarrow> nat \<Rightarrow> bool" where
  "bs_bit bytes p = bit (bytes ! (p div 8)) (7 - p mod 8)"

lemma bs_bit_split: "r < 8 \<Longrightarrow> bs_bit bytes (8 * q + r) = bit (bytes ! q) (7 - r)"
  by (simp add: bs_bit_def)

lemma byte_position:
  fixes p :: nat
  obtains q r where "p = 8 * q + r" "r < 8"
  by (rule that [of "p div 8" "p mod 8"]) simp_all

lemma bs_bit_zeros: "p < 8 * n \<Longrightarrow> \<not> bs_bit (replicate n 0) p"
  by (simp add: bs_bit_def less_mult_imp_div_less mult.commute)

lemma bytes_eqI:
  assumes "length xs = length ys" and "\<And>p. p < 8 * length xs \<Longrightarrow> bs_bit xs p = bs_bit ys p"
  shows "xs = ys"
proof (rule nth_equalityI [OF assms(1)])
  fix i assume i: "i < length xs"
  show "xs ! i = ys ! i"
  proof (rule bit_word_eqI)
    fix k :: nat assume "k < LENGTH(8)"
    with i assms(2) [of "8 * i + (7 - k)"] show "bit (xs ! i) k = bit (ys ! i) k"
      by (simp add: bs_bit_split del: add_diff_assoc)
  qed
qed

lemma length_byteset_of [simp]: "length (byteset_of N init) = N"
  by (simp add: byteset_of_def)

lemma bs_bit_byteset_of:
  fixes init :: "'u::len word"
  assumes "p < 8 * N"
  shows "bs_bit (byteset_of N init) p = bit init (8 * N - 1 - p)"
proof -
  obtain q r where p: "p = 8 * q + r" "r < 8" by (rule byte_position)
  with assms have "q < N" "8 * (N - q - 1) + (7 - r) = 8 * N - 1 - p" by linarith+
  with p show ?thesis
    by (auto simp: bs_bit_split byteset_of_def and_0xFF bit_simps dest: bit_imp_le_length)
qed

lemma bit_foldl_OR:
  "bit (foldl (OR) a xs) k \<longleftrightarrow> bit a k \<or> (\<exists>x \<in> set xs. bit x k)" for a :: "'u::len word"
  by (induction xs arbitrary: a) (auto simp: bit_simps)

lemma bit_foldl_OR_nonempty:
  "xs \<noteq> [] \<Longrightarrow> bit (foldl (OR) (hd xs) (tl xs)) k \<longleftrightarrow> (\<exists>x \<in> set xs. bit x k)"
  for xs :: "'u::len word list"
  by (cases xs) (auto simp: bit_foldl_OR)

lemma bit_byteset_as:
  assumes "bytes \<noteq> []" and "8 * length bytes \<le> LENGTH('u::len)"
  shows "bit (byteset_as bytes :: 'u word) k \<longleftrightarrow>
           k < 8 * length bytes \<and> bs_bit bytes (8 * length bytes - 1 - k)"
proof -
  let ?N = "length bytes"
  let ?part = "\<lambda>I. push_bit (8 * (?N - I - 1)) (ucast (bytes ! I)) :: 'u word"
  have "bit (byteset_as bytes :: 'u word) k \<longleftrightarrow> (\<exists>I < ?N. bit (?part I) k)"
    using assms(1)
    by (simp add: byteset_as_def bit_foldl_OR_nonempty Let_def Bex_def image_iff) blast
  also have "\<dots> \<longleftrightarrow> k < 8 * ?N \<and> bs_bit bytes (8 * ?N - 1 - k)"
  proof
    assume "\<exists>I < ?N. bit (?part I) k"
    then obtain I where I: "I < ?N" "8 * (?N - I - 1) \<le> k" "bit (bytes ! I) (k - 8 * (?N - I - 1))"
      by (auto simp: bit_simps)
    then have "k - 8 * (?N - I - 1) < 8"
      by (auto dest: bit_imp_le_length)
    with I(1,2) have "k < 8 * ?N" and k: "8 * ?N - 1 - k = 8 * I + (7 - (k - 8 * (?N - I - 1)))"
      "7 - (7 - (k - 8 * (?N - I - 1))) = k - 8 * (?N - I - 1)" by linarith+
    with I(3) show "k < 8 * ?N \<and> bs_bit bytes (8 * ?N - 1 - k)"
      unfolding k(1) by (subst bs_bit_split) (simp_all only: k(2), simp_all)
  next
    assume *: "k < 8 * ?N \<and> bs_bit bytes (8 * ?N - 1 - k)"
    obtain I r where I: "8 * ?N - 1 - k = 8 * I + r" "r < 8" by (rule byte_position)
    with * have "I < ?N" "8 * (?N - I - 1) \<le> k" "7 - r = k - 8 * (?N - I - 1)" by linarith+
    with * assms(2) show "\<exists>I < ?N. bit (?part I) k"
      unfolding I(1) by (intro exI [of _ I]) (simp add: bit_simps bs_bit_split [OF I(2)])
  qed
  finally show ?thesis .
qed


section \<open>The integer value\<close>

fun bs_value :: "byte list \<Rightarrow> nat" where
  "bs_value [] = 0"
| "bs_value (b # bytes) = unat b * 2 ^ (8 * length bytes) + bs_value bytes"

lemma bs_value_less: "bs_value bytes < 2 ^ (8 * length bytes)"
proof (induction bytes)
  case (Cons b bytes)
  have "unat b * 2 ^ (8 * length bytes) \<le> 255 * (2 ^ (8 * length bytes) :: nat)"
    using unsigned_less [of b, where 'a = nat] by (intro mult_le_mono1) simp
  moreover have "2 ^ (8 * length (b # bytes)) = 256 * (2 ^ (8 * length bytes) :: nat)"
    by (simp add: power_add)
  ultimately show ?case using Cons unfolding bs_value.simps by linarith
qed simp

lemma bit_shift_add:
  fixes a c :: nat
  assumes "c < 2 ^ n"
  shows "bit (a * 2 ^ n + c) k = (if k < n then bit c k else bit a (k - n))"
proof -
  have "take_bit n (a * 2 ^ n + c) = c" "drop_bit n (a * 2 ^ n + c) = a"
    using assms by (simp_all add: take_bit_eq_mod drop_bit_eq_div)
  then show ?thesis
    by (metis add_diff_inverse_nat bit_drop_bit_eq bit_take_bit_iff comp_apply)
qed

lemma bs_bit_Cons:
  "bs_bit (b # bytes) p = (if p < 8 then bit b (7 - p) else bs_bit bytes (p - 8))"
  by (auto simp: bs_bit_def nth_Cons' le_div_geq le_mod_geq)

lemma bit_bs_value:
  "bit (bs_value bytes) k \<longleftrightarrow> k < 8 * length bytes \<and> bs_bit bytes (8 * length bytes - 1 - k)"
proof (induction bytes)
  case (Cons b bytes)
  let ?n = "8 * length bytes"
  have high: "\<not> bit b j" if "8 \<le> j" for j using that bit_imp_le_length [of b j] by auto
  consider "k < ?n" | "?n \<le> k" "k < ?n + 8" | "?n + 8 \<le> k" by linarith
  then show ?case
  proof cases
    case 1
    then have "\<not> 7 + ?n - k < 8" "7 + ?n - k - 8 = ?n - 1 - k" by linarith+
    with 1 Cons show ?thesis by (simp add: bit_shift_add [OF bs_value_less] bs_bit_Cons)
  next
    case 2
    then have "7 + ?n - k < 8" "7 - (7 + ?n - k) = k - ?n" by linarith+
    with 2 show ?thesis
      by (simp add: bit_shift_add [OF bs_value_less] bs_bit_Cons bit_unsigned_iff)
  next
    case 3
    then show ?thesis
      by (simp add: bit_shift_add [OF bs_value_less] bit_unsigned_iff high)
  qed
qed simp

lemma unat_byteset_as:
  assumes "bytes \<noteq> []" and "8 * length bytes \<le> LENGTH('u::len)"
  shows "unat (byteset_as bytes :: 'u word) = bs_value bytes"
  using bit_byteset_as [OF assms]
  by (auto simp: bit_eq_iff bit_bs_value bit_unsigned_iff)

lemma vector_compare_value:
  "length l = length r \<Longrightarrow>
     vector_compare l r =
       (if bs_value l < bs_value r then Less else if bs_value l > bs_value r then Greater else Equal)"
proof (induction l r rule: vector_compare.induct)
  case (1 l ls r rs)
  let ?n = "2 ^ (8 * length ls) :: nat"
  have less: "bs_value (x # xs) < bs_value (y # ys)"
    if "x < y" "length xs = length ys" for x y xs ys
  proof -
    have "(unat x + 1) * 2 ^ (8 * length xs) \<le> unat y * 2 ^ (8 * length xs)"
      using that(1) by (intro mult_le_mono1) (simp add: word_less_nat_alt)
    with that(2) bs_value_less [of xs] show ?thesis by (simp add: algebra_simps)
  qed
  consider "l < r" | "r < l" | "l = r" by (metis linorder_less_linear)
  then show ?case
    using 1 less [of l r ls rs] less [of r l rs ls] by cases (auto simp: not_less_iff_gr_or_eq)
qed simp_all

lemma vector_equal_iff: "length l = length r \<Longrightarrow> vector_equal l r \<longleftrightarrow> l = r"
  unfolding vector_equal_def by (induction l r rule: list_induct2) simp_all

section \<open>Properties\<close>

text \<open>
  C31. A byteset of \<open>N\<close> bytes and an unsigned integer type of at least as many bytes convert
  into each other without loss: the bytes of an integer give its low \<open>8 * N\<close> bits back, and the
  integer of a byteset gives its bytes back.
\<close>

theorem byteset_roundtrip:
  assumes "0 < N" and "8 * N \<le> LENGTH('u::len)"
  shows "byteset_as (byteset_of N init) = take_bit (8 * N) (init :: 'u word) \<and>
         (\<forall>bytes. length bytes = N \<longrightarrow> byteset_of N (byteset_as bytes :: 'u word) = bytes)"
proof (intro conjI allI impI)
  show "byteset_as (byteset_of N init) = take_bit (8 * N) init"
    using assms
    by (intro bit_word_eqI)
      (auto simp: bit_byteset_as bs_bit_byteset_of bit_simps simp flip: length_greater_0_conv)
  show "byteset_of N (byteset_as bytes :: 'u word) = bytes" if "length bytes = N" for bytes
    using assms that
    by (intro bytes_eqI)
      (auto simp: bit_byteset_as bs_bit_byteset_of simp flip: length_greater_0_conv)
qed

theorem byteset_roundtrip_witness:
  "byteset_as (byteset_of 2 (0x12345 :: u32)) = (take_bit 16 0x12345 :: u32) \<and>
   byteset_of 2 (byteset_as [1, 2] :: u32) = [1, 2]"
proof -
  have "length [1, 2 :: byte] = 2" by simp
  with byteset_roundtrip [where 'u = 32, of 2 "0x12345"] show ?thesis by auto
qed

text \<open>
  The comparisons of bytesets of one size are those of the unsigned integers they convert
  to: \<^verbatim>\<open><=>\<close>, \<^verbatim>\<open><\<close> and \<^verbatim>\<open>==\<close> agree with the order of the values.
\<close>

theorem byteset_compare_value:
  assumes "length l = length r" and "l \<noteq> []" and "8 * length l \<le> LENGTH('u::len)"
  shows "vector_compare l r =
           (if (byteset_as l :: 'u word) < byteset_as r then Less
            else if (byteset_as l :: 'u word) > byteset_as r then Greater else Equal) \<and>
         (vector_less l r \<longleftrightarrow> (byteset_as l :: 'u word) < byteset_as r) \<and>
         (vector_equal l r \<longleftrightarrow> (byteset_as l :: 'u word) = byteset_as r)"
proof -
  from assms have r: "r \<noteq> []" "8 * length r \<le> LENGTH('u)" by auto
  note val = unat_byteset_as [where 'u = 'u]
  have "l = r" if "bs_value l = bs_value r"
  proof (rule bytes_eqI [OF assms(1)])
    fix p assume p: "p < 8 * length l"
    then have "8 * length l - 1 - p < 8 * length l" by linarith
    with p bit_bs_value [of l "8 * length l - 1 - p"] bit_bs_value [of r "8 * length l - 1 - p"] that
      assms(1)
    show "bs_bit l p = bs_bit r p" by simp
  qed
  then show ?thesis
    using assms r
    by (auto simp: word_less_nat_alt word_unat_eq_iff val vector_less_def vector_equal_iff
        vector_compare_value)
qed

theorem byteset_compare_value_witness:
  "vector_compare [1, 0] [0, 255] = Greater \<and> (byteset_as [0, 255] :: u16) < byteset_as [1, 0]"
proof -
  have "vector_compare [1, 0] [0, 255] = Greater" by code_simp
  with byteset_compare_value [where 'u = 16, of "[1, 0]" "[0, 255]"] show ?thesis
    by (auto split: if_splits)
qed

end
