(* ===== verification/Biteset.thy ===== *)
theory Biteset
  imports Byteset
begin

text \<open>
  \<^verbatim>\<open>source/modules/eagine/memory/biteset.cpp\<close>: \<open>N\<close> elements of \<open>B\<close> bits each, packed
  without gaps into a byteset. The state of a \<^verbatim>\<open>biteset<N, B, T>\<close> is its list of bytes;
  \<open>N\<close> and \<open>B\<close> are arguments and the element type \<^verbatim>\<open>T\<close> is \<open>'t word\<close>, an unsigned
  integer. The recursions over \<^verbatim>\<open>size_constant<L>\<close> start with \<open>L = 1\<close> and stop in the
  overload for \<open>L = 8\<close> whatever is left to do, which the definitions keep: a loop makes at most
  seven steps. The argument \<^verbatim>\<open>ce\<close> of these recursions is never used and left out.
\<close>

section \<open>Storage\<close>

definition store_size :: "nat \<Rightarrow> nat \<Rightarrow> nat" where
  "store_size N B = (N * B) div 8 + (if (N * B) mod 8 \<noteq> 0 then 1 else 0)"

subsection \<open>Construction from element values\<close>

definition extract_init_bits :: "nat \<Rightarrow> 't::len word \<Rightarrow> nat \<Rightarrow> nat \<Rightarrow> byte" where
  "extract_init_bits B init ofs len =
     ucast (drop_bit (B - ofs - len) init) AND ucast (push_bit len 1 - (1 :: u32))"

function get_byte_bits :: "nat \<Rightarrow> 't::len word list \<Rightarrow> nat \<Rightarrow> byte \<Rightarrow> nat \<Rightarrow> nat \<Rightarrow> nat \<Rightarrow> byte" where
  "get_byte_bits B init L state bb be cb =
     (if L < 8 \<and> bb < be
      then (let bo = bb - cb * B;
                bl = min (be - bb) (B - bo)
            in get_byte_bits B init (L + 1)
                 (push_bit bl state OR
                  extract_init_bits B (if cb < length init then init ! cb else 0) bo bl)
                 (bb + bl) be (cb + 1))
      else state)"
  by pat_completeness auto
termination
  by (relation "measure (\<lambda>(B, init, L, state, bb, be, cb). 8 - L)") auto

declare get_byte_bits.simps [simp del]

definition get_byte :: "nat \<Rightarrow> 't::len word list \<Rightarrow> nat \<Rightarrow> byte" where
  "get_byte B init i =
     (if B = 8 then ucast (init ! i)
      else get_byte_bits B init 1 0 (i * 8) ((i + 1) * 8) (i * 8 div B))"

definition make_bytes :: "nat \<Rightarrow> 't::len word list \<Rightarrow> byte list" where
  "make_bytes B init = map (get_byte B init) [0..<store_size (length init) B]"

definition biteset_from_value :: "nat \<Rightarrow> nat \<Rightarrow> 'u::len word \<Rightarrow> byte list" where
  "biteset_from_value N B init = byteset_of (store_size N B) init"

subsection \<open>Reading an element\<close>

definition extract_cell_bits :: "byte \<Rightarrow> nat \<Rightarrow> nat \<Rightarrow> 't::len word" where
  "extract_cell_bits by ofs len =
     ucast (drop_bit (8 - ofs - len) by) AND ucast (push_bit len 1 - (1 :: u32))"

function get_cell_bits :: "byte list \<Rightarrow> nat \<Rightarrow> 't::len word \<Rightarrow> nat \<Rightarrow> nat \<Rightarrow> nat \<Rightarrow> 't word" where
  "get_cell_bits bytes L state bb be cb =
     (if L < 8 \<and> bb < be
      then (let bo = bb - cb * 8;
                bl = min (be - bb) (8 - bo)
            in get_cell_bits bytes (L + 1)
                 (push_bit bl state OR extract_cell_bits (byteset_get bytes cb) bo bl)
                 (bb + bl) be (cb + 1))
      else state)"
  by pat_completeness auto
termination
  by (relation "measure (\<lambda>(bytes, L, state, bb, be, cb). 8 - L)") auto

declare get_cell_bits.simps [simp del]

definition biteset_get :: "nat \<Rightarrow> byte list \<Rightarrow> nat \<Rightarrow> 't::len word" where
  "biteset_get B bytes i =
     (if B = 8 then ucast (byteset_get bytes i)
      else get_cell_bits bytes 1 0 (i * B) ((i + 1) * B) (i * B div 8))"

subsection \<open>Writing an element\<close>

definition set_byte_bits :: "'t::len word \<Rightarrow> byte \<Rightarrow> nat \<Rightarrow> nat \<Rightarrow> byte" where
  "set_byte_bits v by ofs len =
     (let msk = ucast (push_bit (8 - ofs - len) (push_bit len 1 - (1 :: u32)));
          by' = by XOR (by AND msk)
      in by' OR ucast (push_bit (8 - ofs - len) v))"

function set_cell_bits :: "byte list \<Rightarrow> nat \<Rightarrow> 't::len word \<Rightarrow> nat \<Rightarrow> nat \<Rightarrow> nat \<Rightarrow> byte list" where
  "set_cell_bits bytes L state bb be cb =
     (if L < 8 \<and> bb < be
      then (let bo = bb - cb * 8;
                bl = min (be - bb) (8 - bo)
            in set_cell_bits
                 (byteset_set bytes cb
                    (set_byte_bits (drop_bit (LENGTH('t) - bl) state) (byteset_get bytes cb) bo bl))
                 (L + 1) (push_bit bl state) (bb + bl) be (cb + 1))
      else bytes)"
  by pat_completeness auto
termination
  by (relation "measure (\<lambda>(bytes, L, state, bb, be, cb). 8 - L)") auto

declare set_cell_bits.simps [simp del]

definition biteset_set :: "nat \<Rightarrow> byte list \<Rightarrow> nat \<Rightarrow> 't::len word \<Rightarrow> byte list" where
  "biteset_set B bytes i v =
     (if B = 8 then byteset_set bytes i (ucast v)
      else set_cell_bits bytes 1 (push_bit (LENGTH('t) - B) v) (i * B) ((i + 1) * B) (i * B div 8))"

section \<open>What the loops compute\<close>

text \<open>
  One step of a loop over the cells of \<open>c\<close> bits that hold the bits \<open>bb\<close> to \<open>be\<close>: \<open>r\<close> is the
  offset in the cell, \<open>bl\<close> the number of bits the step handles, and the steps left are enough
  for the rest.
\<close>

definition steps_suffice :: "nat \<Rightarrow> nat \<Rightarrow> nat \<Rightarrow> nat \<Rightarrow> nat \<Rightarrow> bool" where
  "steps_suffice c L bb be cb \<longleftrightarrow>
     (bb < be \<longrightarrow> cb = bb div c \<and> bb mod c + (be - bb) \<le> c * (8 - L))"

lemma cell_step_rest:
  "r < c \<Longrightarrow> L < 8 \<Longrightarrow> r + (be - bb) \<le> c * (8 - L) \<Longrightarrow> be - (bb + (c - r)) \<le> c * (8 - (L + 1))"
  for r be bb L c :: nat
proof -
  assume *: "r < c" "L < 8" "r + (be - bb) \<le> c * (8 - L)"
  from \<open>L < 8\<close> have "8 - L = Suc (8 - (L + 1))" by simp
  then have "c * (8 - L) = c + c * (8 - (L + 1))" by (simp only: mult_Suc_right)
  with * show ?thesis by linarith
qed

lemma cell_step:
  assumes "bb < be" "steps_suffice c L bb be cb" "0 < c"
  obtains r bl d where "L < 8" "bb = c * cb + r" "r < c" "bl = min (be - bb) (c - r)" "0 < bl"
    "r + bl \<le> c" "be = bb + bl + d" "steps_suffice c (L + 1) (bb + bl) be (cb + 1)"
proof (rule that [of "bb mod c" "min (be - bb) (c - bb mod c)" "be - bb - min (be - bb) (c - bb mod c)"])
  let ?r = "bb mod c" and ?bl = "min (be - bb) (c - bb mod c)"
  from assms have *: "cb = bb div c" "?r + (be - bb) \<le> c * (8 - L)"
    by (simp_all add: steps_suffice_def)
  show L: "L < 8"
  proof (rule ccontr)
    assume "\<not> L < 8"
    with *(2) assms(1) show False by simp
  qed
  from * assms(3) show bb: "bb = c * cb + ?r" and r: "?r < c" by simp_all
  show "0 < ?bl" "?r + ?bl \<le> c" "be = bb + ?bl + (be - bb - ?bl)" using assms(1) r by auto
  show "steps_suffice c (L + 1) (bb + ?bl) be (cb + 1)"
    unfolding steps_suffice_def
  proof
    assume "bb + ?bl < be"
    then have bl: "?bl = c - ?r" by (auto simp: min_def split: if_splits)
    then have "bb + ?bl = c * (cb + 1)" using bb r by simp
    then have "(bb + ?bl) div c = cb + 1" "(bb + ?bl) mod c = 0" using assms(3) by simp_all
    moreover have "be - (bb + ?bl) \<le> c * (8 - (L + 1))"
      unfolding bl by (rule cell_step_rest [OF r L *(2)])
    ultimately show "cb + 1 = (bb + ?bl) div c \<and>
        (bb + ?bl) mod c + (be - (bb + ?bl)) \<le> c * (8 - (L + 1))" by simp
  qed
qed simp

text \<open>The bits \<open>f bb\<close> to \<open>f (be - 1)\<close> shifted in behind those of \<open>state\<close>, one group at a time.\<close>

lemma gather_step:
  fixes state ext :: "'t::len word"
  assumes "\<And>j. bit ext j \<longleftrightarrow> j < LENGTH('t) \<and> j < bl \<and> f (bb + bl - 1 - j)"
    and "d \<le> k" and "k < LENGTH('t)"
  shows "bit (push_bit bl state OR ext) (k - d) \<longleftrightarrow>
           (if k < bl + d then f (bb + bl + d - 1 - k) else bit state (k - (bl + d)))"
proof -
  from assms(2) obtain j where k: "k = d + j" by (auto simp: le_iff_add)
  with assms(1) [of j] assms(3) show ?thesis
    by (cases "j < bl") (simp_all add: bit_or_iff bit_push_bit_iff)
qed

lemma bit_extract_cell_bits:
  assumes "ofs + len \<le> 8"
  shows "bit (extract_cell_bits by ofs len :: 't::len word) k \<longleftrightarrow>
           k < LENGTH('t) \<and> k < len \<and> bit by (8 - ofs - len + k)"
  using assms low_mask_eq [of len, where 'a = 't]
  by (auto simp: extract_cell_bits_def bit_simps)

lemma bit_get_cell_bits:
  fixes state :: "'t::len word"
  assumes "steps_suffice 8 L bb be cb" and "k < LENGTH('t)"
  shows "bit (get_cell_bits bytes L state bb be cb) k \<longleftrightarrow>
           (if k < be - bb then bs_bit bytes (be - 1 - k) else bit state (k - (be - bb)))"
  using assms
proof (induction "be - bb" arbitrary: L state bb cb k rule: less_induct)
  case less
  show ?case
  proof (cases "bb < be")
    case False
    then show ?thesis by (simp add: get_cell_bits.simps [of bytes L])
  next
    case True
    from cell_step [OF True less.prems(1)] obtain r bl d where
      step: "L < 8" "bb = 8 * cb + r" "r < 8" "bl = min (be - bb) (8 - r)" "0 < bl" "r + bl \<le> 8"
        "be = bb + bl + d" "steps_suffice 8 (L + 1) (bb + bl) be (cb + 1)" by auto
    let ?ext = "extract_cell_bits (bytes ! cb) r bl :: 't word"
    let ?st = "push_bit bl state OR ?ext"
    have "bit ?ext j \<longleftrightarrow> j < LENGTH('t) \<and> j < bl \<and> bs_bit bytes (bb + bl - 1 - j)" for j
    proof (cases "j < bl")
      case True
      then have "bb + bl - 1 - j = 8 * cb + (r + (bl - 1 - j))" "r + (bl - 1 - j) < 8"
        "7 - (r + (bl - 1 - j)) = 8 - r - bl + j" using step(2,6) by linarith+
      then show ?thesis
        using True bs_bit_split [of "r + (bl - 1 - j)" bytes cb] by (simp add: bit_extract_cell_bits step(6))
    qed (simp add: bit_extract_cell_bits step(6))
    note gather = gather_step [OF this, of d k state]
    have "get_cell_bits bytes L state bb be cb =
        get_cell_bits bytes (L + 1) ?st (bb + bl) be (cb + 1)"
      using True step(1-4) by (simp add: get_cell_bits.simps [of bytes L] Let_def byteset_get_def)
    moreover have "bit (get_cell_bits bytes (L + 1) ?st (bb + bl) be (cb + 1)) k \<longleftrightarrow>
        (if k < be - (bb + bl) then bs_bit bytes (be - 1 - k) else bit ?st (k - (be - (bb + bl))))"
      using step(5,7,8) less.prems(2) True by (intro less.hyps) auto
    ultimately show ?thesis using gather step(7) less.prems(2) by auto
  qed
qed

lemma bit_extract_init_bits:
  assumes "len \<le> 8"
  shows "bit (extract_init_bits B (init :: 't::len word) ofs len) k \<longleftrightarrow>
           k < 8 \<and> k < len \<and> bit init (B - ofs - len + k)"
  using assms low_mask_eq [of len, where 'a = 8]
  by (auto simp: extract_init_bits_def bit_simps)

text \<open>The bits of the element values in their order, and zeros behind them.\<close>

definition init_bit :: "nat \<Rightarrow> 't::len word list \<Rightarrow> nat \<Rightarrow> bool" where
  "init_bit B init p \<longleftrightarrow> p div B < length init \<and> bit (init ! (p div B)) (B - 1 - p mod B)"

lemma init_bit_split:
  "r < B \<Longrightarrow> init_bit B init (B * q + r) \<longleftrightarrow> q < length init \<and> bit (init ! q) (B - 1 - r)"
  by (simp add: init_bit_def)

lemma bit_get_byte_bits:
  assumes "steps_suffice B L bb be cb" and "0 < B" and "be - bb \<le> 8" and "k < 8"
  shows "bit (get_byte_bits B init L state bb be cb) k \<longleftrightarrow>
           (if k < be - bb then init_bit B init (be - 1 - k) else bit state (k - (be - bb)))"
  using assms
proof (induction "be - bb" arbitrary: L state bb cb k rule: less_induct)
  case less
  show ?case
  proof (cases "bb < be")
    case False
    then show ?thesis by (simp add: get_byte_bits.simps [of B init L])
  next
    case True
    from cell_step [OF True less.prems(1,2)] obtain r bl d where
      step: "L < 8" "bb = B * cb + r" "r < B" "bl = min (be - bb) (B - r)" "0 < bl" "r + bl \<le> B"
        "be = bb + bl + d" "steps_suffice B (L + 1) (bb + bl) be (cb + 1)" by auto
    let ?ext = "extract_init_bits B (if cb < length init then init ! cb else 0) r bl"
    let ?st = "push_bit bl state OR ?ext"
    have bl: "bl \<le> 8" using step(7) less.prems(3) by linarith
    have "bit ?ext j \<longleftrightarrow> j < LENGTH(8) \<and> j < bl \<and> init_bit B init (bb + bl - 1 - j)" for j
    proof (cases "j < bl")
      case True
      then have pos: "bb + bl - 1 - j = B * cb + (r + (bl - 1 - j))" "r + (bl - 1 - j) < B"
        "B - 1 - (r + (bl - 1 - j)) = B - r - bl + j" using step(2,6) by linarith+
      show ?thesis
        unfolding bit_extract_init_bits [OF bl] pos(1) init_bit_split [OF pos(2)] pos(3)
        using True bl by simp
    qed (simp add: bit_extract_init_bits bl)
    note gather = gather_step [OF this, of d k state]
    have "get_byte_bits B init L state bb be cb =
        get_byte_bits B init (L + 1) ?st (bb + bl) be (cb + 1)"
      using True step(1-4) by (simp add: get_byte_bits.simps [of B init L] Let_def mult.commute)
    moreover have "bit (get_byte_bits B init (L + 1) ?st (bb + bl) be (cb + 1)) k \<longleftrightarrow>
        (if k < be - (bb + bl) then init_bit B init (be - 1 - k) else bit ?st (k - (be - (bb + bl))))"
      using step(5,7,8) less.prems(2-4) True by (intro less.hyps) auto
    ultimately show ?thesis using gather step(7) less.prems(4) by auto
  qed
qed

lemma bit_set_byte_bits:
  fixes v :: "'t::len word"
  assumes "ofs + len \<le> 8" and "8 \<le> LENGTH('t)" and "take_bit len v = v" and "k < 8"
  shows "bit (set_byte_bits v by ofs len) k \<longleftrightarrow>
     (if 8 - ofs - len \<le> k \<and> k < 8 - ofs then bit v (k - (8 - ofs - len)) else bit by k)"
proof -
  have m: "push_bit len 1 - (1 :: u32) = mask len"
    by (simp add: mask_eq_exp_minus_1)
  have "bit (ucast (push_bit (8 - ofs - len) (push_bit len 1 - (1 :: u32))) :: byte) k \<longleftrightarrow>
      8 - ofs - len \<le> k \<and> k < 8 - ofs"
    using assms(1,4) unfolding m by (auto simp: bit_simps)
  moreover have "bit (ucast (push_bit (8 - ofs - len) v) :: byte) k \<longleftrightarrow>
      8 - ofs - len \<le> k \<and> k < 8 - ofs \<and> bit v (k - (8 - ofs - len))"
  proof -
    have "bit v j \<Longrightarrow> j < len" for j
      using assms(3) by (metis bit_take_bit_iff)
    from this [of "k - (8 - ofs - len)"] assms(1,2,4) show ?thesis by (auto simp: bit_simps)
  qed
  ultimately show ?thesis
    using assms(4) by (simp add: set_byte_bits_def Let_def bit_or_iff bit_xor_iff bit_and_iff) blast
qed

lemma bs_bit_update:
  assumes "cb < length bytes" and "r < 8"
  shows "bs_bit (bytes[cb := x]) (8 * q + r) =
           (if q = cb then bit x (7 - r) else bs_bit bytes (8 * q + r))"
  using assms by (simp add: bs_bit_split)

lemma length_set_cell_bits [simp]: "length (set_cell_bits bytes L state bb be cb) = length bytes"
  by (induction bytes L state bb be cb rule: set_cell_bits.induct)
    (simp add: set_cell_bits.simps byteset_set_def Let_def)

lemma take_bit_drop_top:
  fixes w :: "'t::len word"
  assumes "n \<le> LENGTH('t)"
  shows "take_bit n (drop_bit (LENGTH('t) - n) w) = drop_bit (LENGTH('t) - n) w"
proof (rule bit_word_eqI)
  fix k
  show "bit (take_bit n (drop_bit (LENGTH('t) - n) w)) k = bit (drop_bit (LENGTH('t) - n) w) k"
    using assms bit_imp_le_length [of w "LENGTH('t) - n + k"] by (auto simp: bit_simps)
qed

text \<open>The bits after one step of the writing loop.\<close>

lemma bs_bit_set_step:
  fixes state :: "'t::len word"
  assumes "r + bl \<le> 8" and "bl \<le> LENGTH('t)" and "8 \<le> LENGTH('t)" and "0 < bl"
    and "cb < length bytes" and "p < 8 * length bytes"
  shows "bs_bit (bytes[cb := set_byte_bits (drop_bit (LENGTH('t) - bl) state) (bytes ! cb) r bl]) p \<longleftrightarrow>
     (if 8 * cb + r \<le> p \<and> p < 8 * cb + r + bl
      then bit state (LENGTH('t) - 1 - (p - (8 * cb + r))) else bs_bit bytes p)"
proof -
  obtain q s where p: "p = 8 * q + s" "s < 8" by (rule byte_position)
  show ?thesis
  proof (cases "q = cb")
    case False
    with p assms(1) have "\<not> (8 * cb + r \<le> p \<and> p < 8 * cb + r + bl)" by linarith
    with False p assms(5) show ?thesis by (auto simp: bs_bit_update)
  next
    case True
    have "take_bit bl (drop_bit (LENGTH('t) - bl) state) = drop_bit (LENGTH('t) - bl) state"
      by (rule take_bit_drop_top [OF assms(2)])
    note bit = bit_set_byte_bits [OF assms(1,3) this, of "7 - s" "bytes ! cb"]
    show ?thesis
    proof (cases "r \<le> s \<and> s < r + bl")
      case in_range: True
      then have "8 - r - bl \<le> 7 - s" "7 - s < 8 - r"
        "LENGTH('t) - bl + (7 - s - (8 - r - bl)) = LENGTH('t) - 1 - (s - r)"
        using assms(1,2) by linarith+
      with bit in_range True p assms(5) show ?thesis
        by (simp add: bs_bit_update bit_drop_bit_eq)
    next
      case out: False
      then have "\<not> (8 - r - bl \<le> 7 - s \<and> 7 - s < 8 - r)"
        and "\<not> (8 * cb + r \<le> p \<and> p < 8 * cb + r + bl)"
        using assms(1) p True by linarith+
      with bit True p assms(5) show ?thesis
        by (simp only: if_not_P bs_bit_update bs_bit_split) simp
    qed
  qed
qed

lemma bs_bit_set_cell_bits:
  fixes state :: "'t::len word"
  assumes "steps_suffice 8 L bb be cb" and "be \<le> 8 * length bytes" and "be - bb \<le> LENGTH('t)"
    and "8 \<le> LENGTH('t)" and "p < 8 * length bytes"
  shows "bs_bit (set_cell_bits bytes L state bb be cb) p \<longleftrightarrow>
     (if bb \<le> p \<and> p < be then bit state (LENGTH('t) - 1 - (p - bb)) else bs_bit bytes p)"
  using assms
proof (induction "be - bb" arbitrary: bytes L state bb cb rule: less_induct)
  case less
  show ?case
  proof (cases "bb < be")
    case False
    then show ?thesis by (auto simp: set_cell_bits.simps [of bytes L])
  next
    case True
    from cell_step [OF True less.prems(1)] obtain r bl d where
      step: "L < 8" "bb = 8 * cb + r" "r < 8" "bl = min (be - bb) (8 - r)" "0 < bl" "r + bl \<le> 8"
        "be = bb + bl + d" "steps_suffice 8 (L + 1) (bb + bl) be (cb + 1)" by auto
    then have le: "bl \<le> be - bb" by simp
    let ?bytes = "bytes[cb := set_byte_bits (drop_bit (LENGTH('t) - bl) state) (bytes ! cb) r bl]"
    have "set_cell_bits bytes L state bb be cb =
        set_cell_bits ?bytes (L + 1) (push_bit bl state) (bb + bl) be (cb + 1)"
      using True step(1-4)
      by (simp add: set_cell_bits.simps [of bytes L] Let_def byteset_get_def byteset_set_def)
    moreover have "bs_bit (set_cell_bits ?bytes (L + 1) (push_bit bl state) (bb + bl) be (cb + 1)) p \<longleftrightarrow>
        (if bb + bl \<le> p \<and> p < be then bit (push_bit bl state) (LENGTH('t) - 1 - (p - (bb + bl)))
         else bs_bit ?bytes p)"
      using step(5,8) le less.prems True by (intro less.hyps) auto
    moreover have "cb < length bytes" "bl \<le> LENGTH('t)"
      using True step(2) le less.prems(2,3) by linarith+
    note bs_bit_set_step [OF step(6) this(2) less.prems(4) step(5) this(1) less.prems(5), of state]
    moreover have "bit (push_bit bl state) (LENGTH('t) - 1 - (p - (bb + bl))) =
        bit state (LENGTH('t) - 1 - (p - bb))" if "bb + bl \<le> p" "p < be"
    proof -
      have "bl \<le> LENGTH('t) - 1 - (p - (bb + bl))"
        "LENGTH('t) - 1 - (p - (bb + bl)) - bl = LENGTH('t) - 1 - (p - bb)"
        using that less.prems(3) le by linarith+
      then show ?thesis by (simp add: bit_push_bit_iff)
    qed
    ultimately show ?thesis using step(2) le True by auto
  qed
qed


section \<open>Elements\<close>

lemma store_size_enough: "N * B \<le> 8 * store_size N B"
proof -
  have "N * B = 8 * (N * B div 8) + N * B mod 8" by simp
  moreover have "N * B mod 8 < 8" by simp
  ultimately show ?thesis by (auto simp: store_size_def)
qed

text \<open>
  The byte lists of a \<^verbatim>\<open>biteset<N, B, T>\<close>. The bound on \<open>B\<close> is what the seven steps of the
  loops reach wherever an element starts in its first byte.
\<close>

definition biteset_wf :: "'t::len itself \<Rightarrow> nat \<Rightarrow> nat \<Rightarrow> byte list \<Rightarrow> bool" where
  "biteset_wf _ N B bytes \<longleftrightarrow>
     length bytes = store_size N B \<and> 0 < B \<and> B \<le> 49 \<and> B \<le> LENGTH('t) \<and> 8 \<le> LENGTH('t)"

lemma element_in_range: "i < N \<Longrightarrow> i * B + B \<le> 8 * store_size N B"
proof -
  assume "i < N"
  then have "(i + 1) * B \<le> N * B" by (intro mult_le_mono1) simp
  with store_size_enough [of N B] show ?thesis by simp
qed

lemma element_steps: "B \<le> 49 \<Longrightarrow> steps_suffice 8 1 (i * B) (i * B + B) (i * B div 8)"
proof -
  assume "B \<le> 49"
  moreover obtain m where "i * B mod 8 = m" "m < 8" by (metis mod_less_divisor zero_less_numeral)
  ultimately show ?thesis by (simp add: steps_suffice_def)
qed

lemma bit_biteset_get:
  assumes "biteset_wf TYPE('t::len) N B bytes" and "i < N" and "k < LENGTH('t)"
  shows "bit (biteset_get B bytes i :: 't word) k \<longleftrightarrow> k < B \<and> bs_bit bytes (i * B + (B - 1 - k))"
proof (cases "B = 8")
  case True
  have "bit (bytes ! i) k \<Longrightarrow> k < 8" using bit_imp_le_length [of "bytes ! i" k] by simp
  moreover have "k < 8 \<Longrightarrow> bs_bit bytes (8 * i + (7 - k)) = bit (bytes ! i) k"
    by (subst bs_bit_split) simp_all
  ultimately show ?thesis
    using True assms(3) by (auto simp: biteset_get_def byteset_get_def bit_simps mult.commute [of i])
next
  case False
  with assms element_steps [of B i] show ?thesis
    by (auto simp: biteset_get_def biteset_wf_def bit_get_cell_bits add.commute [of B])
qed

lemma bs_bit_biteset_set:
  fixes v :: "'t::len word"
  assumes wf: "biteset_wf TYPE('t) N B bytes" and "i < N" and p: "p < 8 * length bytes"
  shows "bs_bit (biteset_set B bytes i v) p \<longleftrightarrow>
           (if i * B \<le> p \<and> p < i * B + B then bit v (B - 1 - (p - i * B)) else bs_bit bytes p)"
proof -
  have range: "i * B + B \<le> 8 * length bytes"
    using element_in_range [OF assms(2), of B] wf by (simp add: biteset_wf_def)
  show ?thesis
  proof (cases "B = 8")
    case True
    obtain q s where ps: "p = 8 * q + s" "s < 8" by (rule byte_position)
    with range True show ?thesis
      by (auto simp: biteset_set_def byteset_set_def bs_bit_update bit_simps split: if_splits)
  next
    case False
    have "bit (push_bit (LENGTH('t) - B) v) (LENGTH('t) - 1 - (p - i * B)) = bit v (B - 1 - (p - i * B))"
      if "i * B \<le> p" "p < i * B + B"
    proof -
      have "LENGTH('t) - B \<le> LENGTH('t) - 1 - (p - i * B)"
        "LENGTH('t) - 1 - (p - i * B) - (LENGTH('t) - B) = B - 1 - (p - i * B)"
        using that wf unfolding biteset_wf_def by linarith+
      then show ?thesis by (simp add: bit_push_bit_iff)
    qed
    moreover from wf False have "biteset_set B bytes i v =
        set_cell_bits bytes 1 (push_bit (LENGTH('t) - B) v) (i * B) (i * B + B) (i * B div 8)"
      by (simp add: biteset_set_def add.commute)
    ultimately show ?thesis
      using wf element_steps [of B i] range p unfolding biteset_wf_def
      by (simp add: bs_bit_set_cell_bits)
  qed
qed

lemma length_biteset_set [simp]: "length (biteset_set B bytes i v) = length bytes"
  by (simp add: biteset_set_def byteset_set_def)

lemma element_disjoint:
  fixes i j B :: nat
  assumes "i \<noteq> j" and "k < B"
  shows "\<not> (i * B \<le> j * B + k \<and> j * B + k < i * B + B)"
proof
  assume *: "i * B \<le> j * B + k \<and> j * B + k < i * B + B"
  have "(j * B + k) div B = j" using assms(2) by simp
  moreover have "(j * B + k) div B = i"
    using * by (intro div_nat_eqI) (simp_all add: algebra_simps)
  ultimately show False using assms(1) by simp
qed

lemma biteset_get_set:
  fixes v :: "'t::len word"
  assumes "biteset_wf TYPE('t) N B bytes" and "i < N" and "j < N"
  shows "biteset_get B (biteset_set B bytes i v) j =
           (if i = j then take_bit B v else biteset_get B bytes j)"
proof (rule bit_word_eqI)
  fix k assume k: "k < LENGTH('t)"
  from assms(1) have "biteset_wf TYPE('t) N B (biteset_set B bytes i v)"
    by (simp add: biteset_wf_def)
  note get = bit_biteset_get [OF this assms(3) k] bit_biteset_get [OF assms(1,3) k]
  have "j * B + (B - 1 - k) < 8 * length bytes" if "k < B"
    using element_in_range [OF assms(3), of B] assms(1) that by (simp add: biteset_wf_def)
  note set = bs_bit_biteset_set [OF assms(1,2) this, of v]
  show "bit (biteset_get B (biteset_set B bytes i v) j :: 't word) k =
      bit (if i = j then take_bit B v else biteset_get B bytes j) k"
  proof (cases "k < B")
    case True
    then have "i = j \<Longrightarrow> i * B \<le> j * B + (B - 1 - k) \<and> j * B + (B - 1 - k) < i * B + B"
      "B - 1 - (j * B + (B - 1 - k) - j * B) = k" by auto
    moreover have "bit (biteset_get B (biteset_set B bytes i v) j :: 't word) k \<longleftrightarrow>
        (if i * B \<le> j * B + (B - 1 - k) \<and> j * B + (B - 1 - k) < i * B + B
         then bit v (B - 1 - (j * B + (B - 1 - k) - i * B)) else bs_bit bytes (j * B + (B - 1 - k)))"
      using get(1) set [OF True] True by (simp only: simp_thms)
    ultimately show ?thesis
      using element_disjoint [of i j "B - 1 - k" B] get(2) True
      by (cases "i = j") (simp_all only: if_P if_not_P bit_take_bit_iff simp_thms)
  next
    case False
    then show ?thesis by (simp add: get bit_take_bit_iff)
  qed
qed


lemma init_steps: "2 \<le> B \<Longrightarrow> steps_suffice B 1 (i * 8) (i * 8 + 8) (i * 8 div B)"
proof -
  assume "2 \<le> B"
  moreover obtain m where "i * 8 mod B = m" "m < B" using \<open>2 \<le> B\<close> by (metis mod_less_divisor
        less_le_trans zero_less_numeral)
  ultimately show ?thesis by (simp add: steps_suffice_def)
qed

lemma length_make_bytes [simp]: "length (make_bytes B init) = store_size (length init) B"
  by (simp add: make_bytes_def)

lemma bs_bit_make_bytes:
  assumes "2 \<le> B" and "p < 8 * store_size (length init) B"
  shows "bs_bit (make_bytes B init) p = init_bit B init p"
proof -
  obtain q r where p: "p = 8 * q + r" "r < 8" by (rule byte_position)
  with assms(2) have q: "q < store_size (length init) B" by linarith
  have "bit (get_byte B init q) (7 - r) = init_bit B init (8 * q + r)"
  proof (cases "B = 8")
    case True
    with q p(2) show ?thesis
      by (auto simp: get_byte_def init_bit_split store_size_def bit_simps)
  next
    case False
    have "q * 8 + 8 - 1 - (7 - r) = 8 * q + r" "7 - r < 8" using p(2) by linarith+
    with False assms(1) init_steps [of B q] show ?thesis
      by (simp add: get_byte_def bit_get_byte_bits add.commute [of 8])
  qed
  with p q show ?thesis by (simp add: bs_bit_split make_bytes_def)
qed

lemma biteset_get_make_bytes:
  fixes init :: "'t::len word list"
  assumes "2 \<le> B" "B \<le> 49" "B \<le> LENGTH('t)" "8 \<le> LENGTH('t)" and i: "i < length init"
  shows "biteset_get B (make_bytes B init) i = take_bit B (init ! i)"
proof (rule bit_word_eqI)
  fix k assume k: "k < LENGTH('t)"
  have wf: "biteset_wf TYPE('t) (length init) B (make_bytes B init)"
    using assms by (simp add: biteset_wf_def)
  have "bs_bit (make_bytes B init) (i * B + (B - 1 - k)) = bit (init ! i) k" if "k < B"
  proof -
    have "i * B + (B - 1 - k) < 8 * store_size (length init) B"
      using element_in_range [OF i, of B] that by linarith
    with assms(1) i that show ?thesis
      using init_bit_split [of "B - 1 - k" B init i] by (simp add: bs_bit_make_bytes mult.commute)
  qed
  with bit_biteset_get [OF wf i k]
  show "bit (biteset_get B (make_bytes B init) i :: 't word) k = bit (take_bit B (init ! i)) k"
    by (auto simp: bit_take_bit_iff)
qed

section \<open>Elements as digits of the value\<close>

lemma nat_field_split:
  "V = drop_bit (s + B) V * 2 ^ (s + B) + take_bit B (drop_bit s V) * 2 ^ s + take_bit s V" for V :: nat
proof -
  have "V = drop_bit s V * 2 ^ s + take_bit s V"
    using bits_ident [of s V] by (simp add: push_bit_eq_mult)
  moreover have "drop_bit s V = drop_bit (s + B) V * 2 ^ B + take_bit B (drop_bit s V)"
    using bits_ident [of B "drop_bit s V"] by (simp add: push_bit_eq_mult add.commute)
  from arg_cong [OF this, of "\<lambda>x. x * 2 ^ s"] have "drop_bit s V * 2 ^ s =
      drop_bit (s + B) V * 2 ^ (s + B) + take_bit B (drop_bit s V) * 2 ^ s"
    unfolding power_add add_mult_distrib by (simp only: mult_ac)
  ultimately show ?thesis by linarith
qed

lemma nat_field_update:
  fixes V V' x :: nat
  assumes bits: "\<And>k. bit V' k = (if s \<le> k \<and> k < s + B then bit x (k - s) else bit V k)"
    and "take_bit B x = x"
  shows "V' + take_bit B (drop_bit s V) * 2 ^ s = V + x * 2 ^ s"
proof -
  have "drop_bit (s + B) V' = drop_bit (s + B) V" "take_bit s V' = take_bit s V"
    by (auto simp: bit_eq_iff bit_simps bits)
  moreover have "take_bit B (drop_bit s V') = x"
    by (subst assms(2) [symmetric]) (auto simp: bit_eq_iff bit_simps bits)
  moreover note nat_field_split [of V' s B]
  ultimately have "V' = drop_bit (s + B) V * 2 ^ (s + B) + x * 2 ^ s + take_bit s V" by metis
  with nat_field_split [of V s B] show ?thesis by linarith
qed

lemma unat_biteset_get:
  assumes "biteset_wf TYPE('t::len) N B bytes" and "i < N"
  shows "unat (biteset_get B bytes i :: 't word) =
           take_bit B (drop_bit (8 * length bytes - (i * B + B)) (bs_value bytes))"
proof -
  have le: "i * B + B \<le> 8 * length bytes" "B \<le> LENGTH('t)"
    using element_in_range [OF assms(2), of B] assms(1) by (simp_all add: biteset_wf_def)
  have "bit (unat (biteset_get B bytes i :: 't word)) k \<longleftrightarrow>
      bit (take_bit B (drop_bit (8 * length bytes - (i * B + B)) (bs_value bytes))) k" for k
  proof (cases "k < B")
    case True
    then have "8 * length bytes - (i * B + B) + k < 8 * length bytes"
      "8 * length bytes - 1 - (8 * length bytes - (i * B + B) + k) = i * B + (B - 1 - k)"
      using le by linarith+
    with True le bit_biteset_get [OF assms, of k] show ?thesis
      by (simp add: bit_simps bit_bs_value)
  next
    case False
    with bit_biteset_get [OF assms, of k] show ?thesis
      by (cases "k < LENGTH('t)") (auto simp: bit_simps dest: bit_imp_le_length)
  qed
  then show ?thesis by (simp add: bit_eq_iff)
qed

lemma bs_value_set:
  fixes v :: "'t::len word"
  assumes "biteset_wf TYPE('t) N B bytes" and "i < N"
  defines "s \<equiv> 8 * length bytes - (i * B + B)"
  shows "bs_value (biteset_set B bytes i v) + unat (biteset_get B bytes i :: 't word) * 2 ^ s =
           bs_value bytes + take_bit B (unat v) * 2 ^ s"
  unfolding unat_biteset_get [OF assms(1,2)] s_def
proof (rule nat_field_update)
  let ?n = "8 * length bytes"
  have le: "i * B + B \<le> ?n" "0 < B"
    using element_in_range [OF assms(2), of B] assms(1) by (simp_all add: biteset_wf_def)
  show "bit (bs_value (biteset_set B bytes i v)) k =
      (if ?n - (i * B + B) \<le> k \<and> k < ?n - (i * B + B) + B
       then bit (take_bit B (unat v)) (k - (?n - (i * B + B))) else bit (bs_value bytes) k)" for k
  proof (cases "k < ?n")
    case True
    then have "?n - 1 - k < ?n" by linarith
    note set = bs_bit_biteset_set [OF assms(1,2) this, of v]
    have iff: "?n - (i * B + B) \<le> k \<and> k < ?n - (i * B + B) + B \<longleftrightarrow>
        i * B \<le> ?n - 1 - k \<and> ?n - 1 - k < i * B + B"
      using True le by linarith
    show ?thesis
    proof (cases "?n - (i * B + B) \<le> k \<and> k < ?n - (i * B + B) + B")
      case in_field: True
      then have "k - (?n - (i * B + B)) < B"
        "B - 1 - (?n - 1 - k - i * B) = k - (?n - (i * B + B))" using True le by linarith+
      with in_field iff set True show ?thesis
        by (simp add: bit_bs_value bit_take_bit_iff bit_unsigned_iff)
    next
      case False
      with iff set True show ?thesis
        by (simp only: bit_bs_value if_not_P if_False simp_thms length_biteset_set)
    qed
  next
    case False
    with le have "\<not> (?n - (i * B + B) \<le> k \<and> k < ?n - (i * B + B) + B)" by linarith
    with False show ?thesis by (simp only: bit_bs_value if_not_P length_biteset_set) simp
  qed
qed simp

section \<open>Packed arrays\<close>

text \<open>
  What users of a packed array rely on: reading what was written, other elements untouched,
  values cut to the width of an element by \<open>cut\<close>.
\<close>

locale packed_array =
  fixes get :: "'s \<Rightarrow> nat \<Rightarrow> 'v"
    and set :: "'s \<Rightarrow> nat \<Rightarrow> 'v \<Rightarrow> 's"
    and cut :: "'v \<Rightarrow> 'v"
    and size :: nat
    and wf :: "'s \<Rightarrow> bool"
  assumes set_wf: "wf s \<Longrightarrow> i < size \<Longrightarrow> wf (set s i v)"
    and get_set_same: "wf s \<Longrightarrow> i < size \<Longrightarrow> get (set s i v) i = cut v"
    and get_set_other: "wf s \<Longrightarrow> i < size \<Longrightarrow> j < size \<Longrightarrow> i \<noteq> j \<Longrightarrow> get (set s i v) j = get s j"
    and cut_get: "wf s \<Longrightarrow> i < size \<Longrightarrow> cut (get s i) = get s i"
begin

definition elements :: "'s \<Rightarrow> 'v list" where
  "elements s = map (get s) [0..<size]"

lemma elements_set: "wf s \<Longrightarrow> i < size \<Longrightarrow> elements (set s i v) = (elements s)[i := cut v]"
  by (rule nth_equalityI)
    (auto simp: elements_def nth_list_update get_set_same get_set_other)

lemma swap_elements:
  assumes "wf s" "i < size" "j < size"
  shows "elements (set (set s i (get s j)) j (get s i)) =
           (elements s)[i := elements s ! j, j := elements s ! i]"
  using assms by (simp add: elements_set set_wf cut_get) (simp add: elements_def)

end

interpretation biteset: packed_array
    "biteset_get B :: byte list \<Rightarrow> nat \<Rightarrow> 't::len word" "biteset_set B" "take_bit B" N
    "biteset_wf TYPE('t) N B"
  for B N
proof unfold_locales
  show "take_bit B (biteset_get B s i :: 't word) = biteset_get B s i"
    if "biteset_wf TYPE('t) N B s" "i < N" for s i
    using bit_biteset_get [OF that] by (intro bit_word_eqI) (auto simp: bit_take_bit_iff)
qed (auto simp: biteset_get_set biteset_wf_def)

section \<open>Proxies and iterators\<close>

text \<open>
  A \<^verbatim>\<open>biteset_value_proxy\<close> is a position in the biteset it points to, whose bytes are passed
  and returned. Its assertions are the \<open>None\<close> branches; so is a negative position, which
  \<^verbatim>\<open>is_valid\<close> lets pass and which lies outside of the bytes.
\<close>

record biteset_value_proxy =
  proxy_pos :: int

definition proxy_is_valid :: "nat \<Rightarrow> biteset_value_proxy \<Rightarrow> bool" where
  "proxy_is_valid N p = (proxy_pos p < int N)"

definition proxy_get :: "nat \<Rightarrow> nat \<Rightarrow> byte list \<Rightarrow> biteset_value_proxy \<Rightarrow> 't::len word option" where
  "proxy_get N B bytes p =
     (if proxy_is_valid N p \<and> 0 \<le> proxy_pos p
      then Some (biteset_get B bytes (nat (proxy_pos p))) else None)"

definition proxy_set ::
    "nat \<Rightarrow> nat \<Rightarrow> byte list \<Rightarrow> biteset_value_proxy \<Rightarrow> 't::len word \<Rightarrow> byte list option" where
  "proxy_set N B bytes p val =
     (if proxy_is_valid N p \<and> 0 \<le> proxy_pos p
      then Some (biteset_set B bytes (nat (proxy_pos p)) val) else None)"

definition proxy_swap ::
    "'t::len itself \<Rightarrow> nat \<Rightarrow> nat \<Rightarrow> byte list \<Rightarrow> biteset_value_proxy \<Rightarrow> biteset_value_proxy
       \<Rightarrow> byte list option" where
  "proxy_swap _ N B bytes p q =
     Option.bind (proxy_get N B bytes p :: 't word option) (\<lambda>a.
     Option.bind (proxy_get N B bytes q :: 't word option) (\<lambda>b.
     Option.bind (proxy_set N B bytes p b) (\<lambda>bytes'. proxy_set N B bytes' q a)))"

definition proxy_assign ::
    "'t::len itself \<Rightarrow> nat \<Rightarrow> nat \<Rightarrow> byte list \<Rightarrow> biteset_value_proxy \<Rightarrow> biteset_value_proxy
       \<Rightarrow> byte list option" where
  "proxy_assign _ N B bytes p temp =
     Option.bind (proxy_get N B bytes temp :: 't word option) (proxy_set N B bytes p)"

definition biteset_subscript :: "nat \<Rightarrow> biteset_value_proxy" where
  "biteset_subscript i = \<lparr>proxy_pos = int i\<rparr>"

record biteset_iterator =
  iter_pos :: int

definition biteset_begin :: biteset_iterator where
  "biteset_begin = \<lparr>iter_pos = 0\<rparr>"

definition biteset_end :: "nat \<Rightarrow> biteset_iterator" where
  "biteset_end N = \<lparr>iter_pos = int N\<rparr>"

definition iter_inc :: "biteset_iterator \<Rightarrow> biteset_iterator" where
  "iter_inc it = it\<lparr>iter_pos := iter_pos it + 1\<rparr>"

definition iter_dec :: "biteset_iterator \<Rightarrow> biteset_iterator" where
  "iter_dec it = it\<lparr>iter_pos := iter_pos it - 1\<rparr>"

text \<open>The postfix operators: the returned and the new iterator.\<close>

definition iter_post_inc :: "biteset_iterator \<Rightarrow> biteset_iterator \<times> biteset_iterator" where
  "iter_post_inc it = (it, iter_inc it)"

definition iter_post_dec :: "biteset_iterator \<Rightarrow> biteset_iterator \<times> biteset_iterator" where
  "iter_post_dec it = (it, iter_dec it)"

definition iter_add :: "biteset_iterator \<Rightarrow> int \<Rightarrow> biteset_iterator" where
  "iter_add it n = it\<lparr>iter_pos := iter_pos it + n\<rparr>"

definition iter_sub :: "biteset_iterator \<Rightarrow> int \<Rightarrow> biteset_iterator" where
  "iter_sub it n = it\<lparr>iter_pos := iter_pos it - n\<rparr>"

definition iter_diff :: "biteset_iterator \<Rightarrow> biteset_iterator \<Rightarrow> int" where
  "iter_diff a b = iter_pos a - iter_pos b"

definition iter_swap ::
    "biteset_iterator \<Rightarrow> biteset_iterator \<Rightarrow> biteset_iterator \<times> biteset_iterator" where
  "iter_swap a b = (a\<lparr>iter_pos := iter_pos b\<rparr>, b\<lparr>iter_pos := iter_pos a\<rparr>)"

definition iter_deref :: "nat \<Rightarrow> biteset_iterator \<Rightarrow> biteset_value_proxy option" where
  "iter_deref N it = (if iter_pos it < int N then Some \<lparr>proxy_pos = iter_pos it\<rparr> else None)"

text \<open>
  The loop \<^verbatim>\<open>for(auto i = begin(); i != end(); ++i)\<close> over the elements: their values, or
  \<open>None\<close> where an access is not valid or the loop does not reach the end.
\<close>

partial_function (option) iter_values ::
    "nat \<Rightarrow> nat \<Rightarrow> byte list \<Rightarrow> biteset_iterator \<Rightarrow> 't::len word list option" where
  "iter_values N B bytes it =
     (if iter_diff (biteset_end N) it = 0 then Some []
      else Option.bind (iter_deref N it) (\<lambda>p.
           Option.bind (proxy_get N B bytes p) (\<lambda>v.
           Option.bind (iter_values N B bytes (iter_inc it)) (\<lambda>vs. Some (v # vs)))))"


lemma iter_values_from:
  fixes bytes
  assumes "n \<le> N"
  shows "iter_values N B bytes \<lparr>iter_pos = int n\<rparr> =
           Some (map (biteset_get B bytes) [n..<N] :: 't::len word list)"
  using assms
proof (induction "N - n" arbitrary: n)
  case 0
  then show ?case by (subst iter_values.simps) (simp add: iter_diff_def biteset_end_def)
next
  case (Suc m)
  then have "n < N" and "m = N - Suc n" by linarith+
  with Suc.hyps(1) [of "Suc n"]
  have "iter_values N B bytes \<lparr>iter_pos = int n + 1\<rparr> =
      Some (map (biteset_get B bytes) [Suc n..<N] :: 't word list)"
    by (simp add: add.commute)
  with \<open>n < N\<close> show ?case
    by (subst iter_values.simps)
      (simp add: iter_diff_def biteset_end_def iter_deref_def iter_inc_def proxy_get_def
        proxy_is_valid_def upt_conv_Cons)
qed

section \<open>Properties\<close>

text \<open>
  C25. In a biteset whose elements have at most 49 bits, reading the element that was set gives
  the value cut to \<open>B\<close> bits and every other element is left as it was, although elements share
  bytes; the number of bytes does not change.
\<close>

theorem biteset_get_after_set:
  fixes v :: "'t::len word"
  assumes "biteset_wf TYPE('t) N B bytes" and "i < N" and "j < N"
  shows "biteset_get B (biteset_set B bytes i v) j =
           (if i = j then take_bit B v else biteset_get B bytes j) \<and>
         biteset_wf TYPE('t) N B (biteset_set B bytes i v)"
  using biteset_get_set [OF assms] biteset.set_wf [OF assms(1,2)] by blast

theorem biteset_get_after_set_witness:
  "biteset_get 6 (biteset_set 6 [1, 2, 3] 2 (0x7F :: byte)) 1 = (biteset_get 6 [1, 2, 3] 1 :: byte)"
proof -
  have "biteset_wf TYPE(8) 4 6 [1, 2, 3]" by (simp add: biteset_wf_def store_size_def)
  from biteset_get_after_set [OF this, of 2 1 "0x7F"] show ?thesis by simp
qed

text \<open>
  A biteset constructed from element values of 2 to 49 bits holds these values, each cut to
  \<open>B\<close> bits, and a loop from \<^verbatim>\<open>begin()\<close> to \<^verbatim>\<open>end()\<close> visits them in order.
\<close>

theorem biteset_construction:
  fixes init :: "'t::len word list"
  assumes "2 \<le> B" "B \<le> 49" "B \<le> LENGTH('t)" "8 \<le> LENGTH('t)"
  shows "iter_values (length init) B (make_bytes B init) biteset_begin =
           Some (map (take_bit B) init)"
proof -
  have "biteset_get B (make_bytes B init) i = take_bit B (init ! i)" if "i < length init" for i
    by (rule biteset_get_make_bytes [OF assms that])
  then have "map (biteset_get B (make_bytes B init)) [0..<length init] = map (take_bit B) init"
    by (intro nth_equalityI) auto
  then show ?thesis
    using iter_values_from [of 0 "length init" B "make_bytes B init", where 't = 't]
    by (simp add: biteset_begin_def)
qed

theorem biteset_construction_witness:
  "iter_values 3 6 (make_bytes 6 [1, 2, 0x43 :: byte]) biteset_begin =
     Some (map (take_bit 6) [1, 2, 0x43 :: byte])"
  using biteset_construction [of 6 "[1, 2, 0x43 :: byte]"]
  by (simp del: list.map add: numeral_3_eq_3)

text \<open>
  Swapping two element proxies of a biteset exchanges the two elements and leaves the
  others, also where both proxies refer to the same element.
\<close>

theorem biteset_proxy_swap:
  assumes "biteset_wf TYPE('t::len) N B bytes" and "i < N" and "j < N"
  shows "\<exists>bytes'. proxy_swap TYPE('t) N B bytes (biteset_subscript i) (biteset_subscript j) =
             Some bytes' \<and> biteset_wf TYPE('t) N B bytes' \<and>
           (\<forall>k < N. (biteset_get B bytes' k :: 't word) =
              biteset_get B bytes (if k = i then j else if k = j then i else k))"
proof -
  let ?get = "biteset_get B :: byte list \<Rightarrow> nat \<Rightarrow> 't word"
  let ?b = "biteset_set B (biteset_set B bytes i (?get bytes j)) j (?get bytes i)"
  have swap: "proxy_swap TYPE('t) N B bytes (biteset_subscript i) (biteset_subscript j) = Some ?b"
    using assms by (simp add: proxy_swap_def proxy_get_def proxy_set_def proxy_is_valid_def
        biteset_subscript_def)
  have "?get ?b k = ?get bytes (if k = i then j else if k = j then i else k)" if "k < N" for k
    using arg_cong [OF biteset.swap_elements [OF assms], of "\<lambda>xs. xs ! k"] that assms
    by (auto simp: biteset.elements_def nth_list_update split: if_splits)
  moreover have "biteset_wf TYPE('t) N B ?b"
    using assms by (simp add: biteset.set_wf)
  ultimately show ?thesis using swap by blast
qed

theorem biteset_proxy_swap_witness:
  "\<exists>bytes'. proxy_swap TYPE(8) 4 6 [1, 2, 3] (biteset_subscript 0) (biteset_subscript 3) = Some bytes' \<and>
     (biteset_get 6 bytes' 0 :: byte) = biteset_get 6 [1, 2, 3] 3"
proof -
  have "biteset_wf TYPE(8) 4 6 [1, 2, 3]" by (simp add: biteset_wf_def store_size_def)
  from biteset_proxy_swap [OF this, of 0 3] show ?thesis by fastforce
qed

text \<open>
  C34. The loops stop after seven steps: an element of 64 bits that fills eight bytes is read
  without its last byte, that is divided by 256, for every value it was made from.
\<close>

theorem biteset_wide_element_cut:
  "biteset_get 64 (biteset_from_value 1 64 (v :: u64)) 0 = drop_bit 8 v"
proof (rule bit_word_eqI)
  fix k :: nat assume k: "k < LENGTH(64)"
  have s: "store_size (Suc 0) 64 = 8" by (simp add: store_size_def)
  have "get_cell_bits (byteset_of 8 v) 1 (0 :: u64) 0 64 0 = get_cell_bits (byteset_of 8 v) 1 0 0 56 0"
    by (simp add: get_cell_bits.simps)
  then have "bit (biteset_get 64 (biteset_from_value 1 64 v) 0 :: u64) k \<longleftrightarrow>
      k < 56 \<and> bs_bit (byteset_of 8 v) (55 - k)"
    using bit_get_cell_bits [of 1 0 56 0 k "byteset_of 8 v" "0 :: u64"] k
    by (simp add: biteset_get_def biteset_from_value_def s steps_suffice_def)
  with k bit_imp_le_length [of v "8 + k"]
  show "bit (biteset_get 64 (biteset_from_value 1 64 v) 0 :: u64) k = bit (drop_bit 8 v) k"
    by (auto simp: bs_bit_byteset_of bit_drop_bit_eq)
qed


text \<open>
  For the same reason the construction of a biteset from single bits is wrong: of eight
  values the first seven end up one position too far back, the first bit is zero and the last
  value is lost.
\<close>

theorem biteset_single_bits_shifted:
  assumes "length init = 8" and "p < 8"
  shows "bs_bit (make_bytes 1 init) p \<longleftrightarrow> 0 < p \<and> bit (init ! (p - 1)) 0"
proof -
  have "get_byte_bits 1 init 1 0 0 8 0 = get_byte_bits 1 init 1 0 0 7 0"
    by (simp add: get_byte_bits.simps)
  then have "make_bytes 1 init = [get_byte_bits 1 init 1 0 0 7 0]"
    using assms(1) by (simp add: make_bytes_def store_size_def get_byte_def)
  moreover have "7 - p < 7 \<longleftrightarrow> 0 < p" "7 - 1 - (7 - p) = p - 1" "7 - p < 8"
    using assms(2) by linarith+
  ultimately show ?thesis
    using bit_get_byte_bits [of 1 1 0 7 0 "7 - p" init 0] assms
    by (auto simp: bs_bit_def steps_suffice_def init_bit_def)
qed

theorem biteset_single_bits_shifted_witness:
  "\<not> bs_bit (make_bytes 1 [1, 0, 0, 0, 0, 0, 0, 0 :: byte]) 0 \<and>
   bs_bit (make_bytes 1 [1, 0, 0, 0, 0, 0, 0, 0 :: byte]) 1"
  using biteset_single_bits_shifted [of "[1, 0, 0, 0, 0, 0, 0, 0 :: byte]" 0]
    biteset_single_bits_shifted [of "[1, 0, 0, 0, 0, 0, 0, 0 :: byte]" 1] by simp

end
