(* ===== verification/Identifier.thy ===== *)
theory Identifier
  imports Biteset Span_Algorithm
begin

text \<open>
  \<^verbatim>\<open>source/modules/eagine/identifier/identifier.cpp\<close> and
  \<^verbatim>\<open>identifier_impl.cpp\<close>: short strings over a small character set, packed into the elements
  of a biteset and compared as integers. The template parameters \<open>M\<close> (maximal length), \<open>B\<close> (bits
  of a character) and the character set \<open>cs\<close> are arguments; \<^verbatim>\<open>identifier\<close> is the instance with
  ten characters of six bits, and \<^verbatim>\<open>identifier_t\<close> is a 64 bit integer.
\<close>

section \<open>The encoding of characters\<close>

definition encoding_invalid :: "string \<Rightarrow> byte" where
  "encoding_invalid cs = word_of_nat (length cs)"

function do_encode :: "char \<Rightarrow> nat \<Rightarrow> string \<Rightarrow> byte" where
  "do_encode c i enc =
     (if i < length enc \<and> c \<noteq> CHR 0x00
      then if c = enc ! i then word_of_nat i else do_encode c (i + 1) enc
      else encoding_invalid enc)"
  by pat_completeness auto
termination
  by (relation "measure (\<lambda>(c, i, enc). length enc - i)") auto

declare do_encode.simps [simp del]

definition encode :: "string \<Rightarrow> char \<Rightarrow> byte" where
  "encode cs c = do_encode c 0 cs"

definition decode :: "string \<Rightarrow> byte \<Rightarrow> char" where
  "decode cs i = (if i < encoding_invalid cs then cs ! unat i else CHR 0x00)"

definition is_invalid :: "string \<Rightarrow> byte \<Rightarrow> bool" where
  "is_invalid cs c = (c \<ge> encoding_invalid cs)"

definition encoding_can_be_encoded :: "string \<Rightarrow> string \<Rightarrow> bool" where
  "encoding_can_be_encoded cs str = list_all (has_element cs) str"

definition default_identifier_char_set :: string where
  "default_identifier_char_set =
     ''_etaoinsrhldc'' @ ''umfpgwybvkxjq'' @ ''zTAISOWHBCMFP'' @ ''DRLEGNYUKVJQX'' @ ''Z0123456789''"

section \<open>Identifiers\<close>

record identifier_name =
  name_str :: string
  name_len :: nat

definition make_identifier_name :: "nat \<Rightarrow> string \<Rightarrow> identifier_name" where
  "make_identifier_name len c = \<lparr>name_str = c @ [CHR 0x0A], name_len = len\<rparr>"

definition name_view :: "identifier_name \<Rightarrow> string" where
  "name_view n = take (name_len n) (name_str n)"

record basic_identifier =
  bites :: "byte list"

definition can_be_encoded :: "nat \<Rightarrow> string \<Rightarrow> string \<Rightarrow> bool" where
  "can_be_encoded M cs str = (if length str \<le> M then encoding_can_be_encoded cs str else False)"

definition make_bites :: "nat \<Rightarrow> nat \<Rightarrow> string \<Rightarrow> string \<Rightarrow> byte list" where
  "make_bites M B cs init =
     make_bytes B (map (\<lambda>I. encode cs (if I < length init then init ! I else CHR 0x00)) [0..<M])"

text \<open>The default constructor, and the constructors from characters, a value and elements.\<close>

definition ident_default :: "nat \<Rightarrow> nat \<Rightarrow> basic_identifier" where
  "ident_default M B = \<lparr>bites = replicate (store_size M B) 0\<rparr>"

definition ident_of_chars :: "nat \<Rightarrow> nat \<Rightarrow> string \<Rightarrow> string \<Rightarrow> basic_identifier" where
  "ident_of_chars M B cs init = \<lparr>bites = make_bites M B cs init\<rparr>"

text \<open>A string literal is an array with its terminating zero.\<close>

definition ident_of_literal :: "nat \<Rightarrow> nat \<Rightarrow> string \<Rightarrow> string \<Rightarrow> basic_identifier" where
  "ident_of_literal M B cs s = \<lparr>bites = make_bites M B cs (s @ [CHR 0x00])\<rparr>"

definition ident_of_value :: "nat \<Rightarrow> nat \<Rightarrow> 'u::len word \<Rightarrow> basic_identifier" where
  "ident_of_value M B init = \<lparr>bites = biteset_from_value M B init\<rparr>"

definition ident_value :: "basic_identifier \<Rightarrow> 'u::len word" where
  "ident_value i = byteset_as (bites i)"

definition ident_is_empty :: "'u::len itself \<Rightarrow> basic_identifier \<Rightarrow> bool" where
  "ident_is_empty _ i = ((ident_value i :: 'u word) = 0)"

definition ident_bool :: "'u::len itself \<Rightarrow> basic_identifier \<Rightarrow> bool" where
  "ident_bool _ i = ((ident_value i :: 'u word) \<noteq> 0)"

function ident_get_size :: "nat \<Rightarrow> nat \<Rightarrow> string \<Rightarrow> basic_identifier \<Rightarrow> nat \<Rightarrow> nat" where
  "ident_get_size M B cs i s =
     (if s < M then if is_invalid cs (biteset_get B (bites i) s) then s
                    else ident_get_size M B cs i (s + 1)
      else M)"
  by pat_completeness auto
termination
  by (relation "measure (\<lambda>(M, B, cs, i, s). M - s)") auto

declare ident_get_size.simps [simp del]

definition ident_size :: "'u::len itself \<Rightarrow> nat \<Rightarrow> nat \<Rightarrow> string \<Rightarrow> basic_identifier \<Rightarrow> nat" where
  "ident_size u M B cs i = (if ident_is_empty u i then 0 else ident_get_size M B cs i 0)"

definition ident_subscript :: "nat \<Rightarrow> string \<Rightarrow> basic_identifier \<Rightarrow> nat \<Rightarrow> char" where
  "ident_subscript B cs i idx = decode cs (biteset_get B (bites i) idx)"

definition ident_name ::
    "'u::len itself \<Rightarrow> nat \<Rightarrow> nat \<Rightarrow> string \<Rightarrow> basic_identifier \<Rightarrow> identifier_name" where
  "ident_name u M B cs i =
     make_identifier_name (ident_size u M B cs i) (map (ident_subscript B cs i) [0..<M])"

definition ident_str :: "'u::len itself \<Rightarrow> nat \<Rightarrow> nat \<Rightarrow> string \<Rightarrow> basic_identifier \<Rightarrow> string" where
  "ident_str u M B cs i = name_view (ident_name u M B cs i)"

definition ident_matches_value :: "basic_identifier \<Rightarrow> 'u::len word \<Rightarrow> bool" where
  "ident_matches_value i what = (ident_value i = what)"

definition ident_matches ::
    "'u::len itself \<Rightarrow> nat \<Rightarrow> nat \<Rightarrow> string \<Rightarrow> basic_identifier \<Rightarrow> string \<Rightarrow> bool" where
  "ident_matches u M B cs i what = (name_view (ident_name u M B cs i) = what)"

text \<open>
  The loop of \<^verbatim>\<open>increment\<close> over the elements before \<open>p\<close>, from the last one; \<open>None\<close> is
  the fall through to the default value.
\<close>

primrec inc_bites :: "nat \<Rightarrow> byte list \<Rightarrow> nat \<Rightarrow> byte list option" where
  "inc_bites B v 0 = None"
| "inc_bites B v (Suc p) =
     (let nxt = unat (biteset_get B v p :: byte) + 1
      in if nxt < 2 ^ B then Some (biteset_set B v p (word_of_nat nxt :: byte))
         else inc_bites B (biteset_set B v p (0 :: byte)) p)"

definition ident_increment :: "nat \<Rightarrow> nat \<Rightarrow> basic_identifier \<Rightarrow> basic_identifier" where
  "ident_increment M B i =
     (case inc_bites B (bites i) M of
        Some v \<Rightarrow> \<lparr>bites = v\<rparr>
      | None \<Rightarrow> \<lparr>bites = replicate (store_size M B) 0\<rparr>)"

definition ident_compare :: "basic_identifier \<Rightarrow> basic_identifier \<Rightarrow> strong_ordering" where
  "ident_compare a b = vector_compare (bites a) (bites b)"

section \<open>The instance used throughout\<close>

type_synonym identifier_t = u64

definition identifier_of :: "string \<Rightarrow> basic_identifier" where
  "identifier_of s = ident_of_chars 10 6 default_identifier_char_set s"

definition identifier_literal :: "string \<Rightarrow> basic_identifier" where
  "identifier_literal s = ident_of_literal 10 6 default_identifier_char_set s"

definition identifier_from :: "identifier_t \<Rightarrow> basic_identifier" where
  "identifier_from v = ident_of_value 10 6 v"

definition identifier_str :: "basic_identifier \<Rightarrow> string" where
  "identifier_str i = ident_str TYPE(64) 10 6 default_identifier_char_set i"

definition id_v :: "string \<Rightarrow> identifier_t" where
  "id_v str = ident_value (identifier_literal str)"

subsection \<open>Identifier values\<close>

record identifier_value =
  idv_value :: identifier_t

definition idv_default :: identifier_value where
  "idv_default = \<lparr>idv_value = ident_value (ident_default 10 6)\<rparr>"

definition idv_of :: "basic_identifier \<Rightarrow> identifier_value" where
  "idv_of i = \<lparr>idv_value = ident_value i\<rparr>"

definition idv_identifier :: "identifier_value \<Rightarrow> basic_identifier" where
  "idv_identifier v = identifier_from (idv_value v)"

definition idv_name :: "identifier_value \<Rightarrow> string" where
  "idv_name v = identifier_str (identifier_from (idv_value v))"

definition idv_increment :: "identifier_value \<Rightarrow> identifier_value" where
  "idv_increment v = \<lparr>idv_value = ident_value (ident_increment 10 6 (identifier_from (idv_value v)))\<rparr>"

subsection \<open>Message identifiers\<close>

record message_id =
  msg_data :: u128

definition message_id_default :: message_id where
  "message_id_default = \<lparr>msg_data = 0\<rparr>"

definition message_id_of :: "identifier_value \<Rightarrow> identifier_value \<Rightarrow> message_id" where
  "message_id_of c m =
     \<lparr>msg_data = push_bit 64 (ucast (idv_value c)) OR ucast (idv_value m)\<rparr>"

definition class_id :: "message_id \<Rightarrow> identifier_t" where
  "class_id m = ucast (drop_bit 64 (msg_data m))"

definition method_id :: "message_id \<Rightarrow> identifier_t" where
  "method_id m = ucast (msg_data m)"

definition msg_class :: "message_id \<Rightarrow> basic_identifier" where
  "msg_class m = identifier_from (class_id m)"

definition msg_method :: "message_id \<Rightarrow> basic_identifier" where
  "msg_method m = identifier_from (method_id m)"

definition msg_is_valid :: "message_id \<Rightarrow> bool" where
  "msg_is_valid m = (class_id m \<noteq> 0 \<and> method_id m \<noteq> 0)"

definition id_tuple :: "message_id \<Rightarrow> basic_identifier \<times> basic_identifier" where
  "id_tuple m = (msg_class m, msg_method m)"

definition message_id_of_tuple :: "basic_identifier \<times> basic_identifier \<Rightarrow> message_id" where
  "message_id_of_tuple t = message_id_of (idv_of (fst t)) (idv_of (snd t))"

definition has_class :: "message_id \<Rightarrow> identifier_value \<Rightarrow> bool" where
  "has_class m idv = (class_id m = idv_value idv)"

definition has_method :: "message_id \<Rightarrow> identifier_value \<Rightarrow> bool" where
  "has_method m idv = (method_id m = idv_value idv)"

definition msg_is :: "message_id \<Rightarrow> identifier_value \<Rightarrow> identifier_value \<Rightarrow> bool" where
  "msg_is m idc idm = (has_class m idc \<and> has_method m idm)"

section \<open>Construction functions\<close>

definition hex_digits :: string where
  "hex_digits = ''0123456789abcdef''"

definition byte_to_identifier :: "byte \<Rightarrow> basic_identifier" where
  "byte_to_identifier b =
     identifier_literal
       [CHR ''0'', CHR ''x'', hex_digits ! unat (drop_bit 4 b AND 0xF), hex_digits ! unat (b AND 0xF)]"

text \<open>
  The loop of \<^verbatim>\<open>_ident_dec_to_str\<close> fills \<open>l\<close> characters from the end; the result is
  the text before the terminating zero.
\<close>

fun ident_dec_to_str :: "nat \<Rightarrow> int \<Rightarrow> string \<Rightarrow> string" where
  "ident_dec_to_str 0 i tmp = tmp"
| "ident_dec_to_str (Suc l) i tmp =
     ident_dec_to_str l (i div 10) (char_of (i mod 10 + 48) # tmp)"

text \<open>The number of digits the branches of \<^verbatim>\<open>dec_to_identifier\<close> choose.\<close>

definition dec_digits :: "int \<Rightarrow> nat" where
  "dec_digits i =
     (if i < 10 then 1 else if i < 100 then 2 else if i < 1000 then 3
      else if i < 10000 then 4 else if i < 100000 then 5 else if i < 1000000 then 6
      else if i < 10000000 then 7 else if i < 100000000 then 8 else if i < 1000000000 then 9
      else 10)"

text \<open>\<open>None\<close> where the assertion fails.\<close>

definition dec_to_identifier :: "int \<Rightarrow> basic_identifier option" where
  "dec_to_identifier i =
     (if i < 0 then None
      else Some (identifier_literal (ident_dec_to_str (dec_digits i) i [])))"

text \<open>
  \<^verbatim>\<open>fill_random_charset_string\<close> draws one character per position. The distribution over
  \<open>0, \<dots>, n - 1\<close>, of the standard library, is the function \<open>dist\<close> on the engine's state.
\<close>

fun fill_random_charset_string ::
    "('e \<Rightarrow> nat \<times> 'e) \<Rightarrow> nat \<Rightarrow> string \<Rightarrow> 'e \<Rightarrow> string \<times> 'e" where
  "fill_random_charset_string dist 0 src engine = ([], engine)"
| "fill_random_charset_string dist (Suc n) src engine =
     (case dist engine of (k, engine') \<Rightarrow>
        case fill_random_charset_string dist n src engine' of (cs, engine'') \<Rightarrow>
          (src ! k # cs, engine''))"

definition random_identifier_from ::
    "('e \<Rightarrow> nat \<times> 'e) \<Rightarrow> string \<Rightarrow> 'e \<Rightarrow> basic_identifier \<times> 'e" where
  "random_identifier_from dist src engine =
     (case fill_random_charset_string dist 10 src engine of (temp, engine') \<Rightarrow>
        (identifier_literal temp, engine'))"

definition random_identifier :: "('e \<Rightarrow> nat \<times> 'e) \<Rightarrow> 'e \<Rightarrow> basic_identifier \<times> 'e" where
  "random_identifier dist engine = random_identifier_from dist default_identifier_char_set engine"


section \<open>Character sets\<close>

text \<open>
  What the identifiers rely on of a character set and the bits of a character: the characters
  are different from each other and from the terminator, and one code is left for the end.
\<close>

locale char_set =
  fixes cs :: string
    and B :: nat
  assumes distinct_cs: "distinct cs"
    and no_terminator: "CHR 0x00 \<notin> set cs"
    and nonempty: "cs \<noteq> []"
    and enough_bits: "length cs < 2 ^ B"
    and bits_bounds: "2 \<le> B" "B \<le> 8"
begin

lemma size_byte: "length cs < 256"
proof -
  have "(2 :: nat) ^ B \<le> 2 ^ 8" using bits_bounds(2) by (intro power_increasing) simp_all
  with enough_bits show ?thesis by simp
qed

lemma unat_code: "n \<le> length cs \<Longrightarrow> unat (word_of_nat n :: byte) = n"
  using size_byte by (simp add: unsigned_of_nat take_bit_nat_eq_self)

lemma unat_invalid [simp]: "unat (encoding_invalid cs) = length cs"
  by (simp add: encoding_invalid_def unat_code)

lemma do_encode_found: "i \<le> n \<Longrightarrow> n < length cs \<Longrightarrow> do_encode (cs ! n) i cs = word_of_nat n"
proof (induction "n - i" arbitrary: i)
  case 0
  then show ?case using no_terminator by (subst do_encode.simps) (auto simp: in_set_conv_nth)
next
  case (Suc k)
  then have "i < n" "do_encode (cs ! n) (i + 1) cs = word_of_nat n" by auto
  moreover have "cs ! n \<noteq> cs ! i" "cs ! n \<noteq> CHR 0x00"
    using \<open>i < n\<close> Suc.prems(2) distinct_cs no_terminator
    by (auto simp: nth_eq_iff_index_eq in_set_conv_nth)
  ultimately show ?case using Suc.prems(2) by (subst do_encode.simps) simp
qed

lemma do_encode_absent: "c \<notin> set cs \<Longrightarrow> do_encode c i cs = encoding_invalid cs"
proof (induction "length cs - i" arbitrary: i)
  case 0
  then show ?case by (subst do_encode.simps) simp
next
  case (Suc k)
  then have "k = length cs - (i + 1)" "i < length cs" by linarith+
  with Suc show ?case by (subst do_encode.simps) auto
qed

lemma encode_nth: "n < length cs \<Longrightarrow> encode cs (cs ! n) = word_of_nat n"
  by (simp add: encode_def do_encode_found)

lemma encode_valid:
  assumes "c \<in> set cs"
  shows "\<not> is_invalid cs (encode cs c)" and "decode cs (encode cs c) = c"
proof -
  from assms obtain n where "n < length cs" "c = cs ! n" by (auto simp: in_set_conv_nth)
  then show "\<not> is_invalid cs (encode cs c)" "decode cs (encode cs c) = c"
    by (simp_all add: encode_nth is_invalid_def decode_def word_le_nat_alt word_less_nat_alt unat_code)
qed

lemma encode_invalid: "c \<notin> set cs \<Longrightarrow> is_invalid cs (encode cs c)"
  by (simp add: encode_def do_encode_absent is_invalid_def)

lemma unat_encode_less: "unat (encode cs c) < 2 ^ B"
proof (cases "c \<in> set cs")
  case True
  then show ?thesis
    using encode_valid(1) [OF True] enough_bits
    by (simp add: is_invalid_def word_le_nat_alt)
next
  case False
  then show ?thesis using enough_bits by (simp add: encode_def do_encode_absent)
qed

lemma take_bit_encode: "take_bit B (encode cs c) = encode cs c"
  using unat_encode_less [of c] by (simp add: word_unat_eq_iff unsigned_take_bit_eq take_bit_nat_eq_self)

lemma encode_0: "encode cs c = 0 \<longleftrightarrow> c = hd cs"
proof (cases "c \<in> set cs")
  case True
  then obtain n where n: "n < length cs" "c = cs ! n" by (auto simp: in_set_conv_nth)
  have "encode cs c = 0 \<longleftrightarrow> n = 0"
    using n unat_code [of n] by (auto simp: encode_nth word_unat_eq_iff)
  moreover have "c = hd cs \<longleftrightarrow> n = 0"
    using n nonempty distinct_cs by (auto simp: hd_conv_nth nth_eq_iff_index_eq)
  ultimately show ?thesis by simp
next
  case False
  then have "encode cs c = encoding_invalid cs" by (simp add: encode_def do_encode_absent)
  moreover have "encoding_invalid cs \<noteq> 0" using nonempty unat_invalid by (auto simp: word_unat_eq_iff)
  ultimately show ?thesis using False nonempty by auto
qed

text \<open>The characters of the identifier made from \<open>init\<close>, padded with terminators.\<close>

lemma bites_element:
  assumes "k < M"
  shows "biteset_get B (make_bites M B cs init) k =
           encode cs (if k < length init then init ! k else CHR 0x00)"
proof -
  have "biteset_get B (make_bites M B cs init) k =
      take_bit B (encode cs (if k < length init then init ! k else CHR 0x00))"
    unfolding make_bites_def using assms bits_bounds by (subst biteset_get_make_bytes) simp_all
  then show ?thesis by (simp only: take_bit_encode)
qed

lemma get_size_from:
  assumes "set s \<subseteq> set cs" "length s \<le> M" "n \<le> length s"
    and "\<And>k. k < M \<Longrightarrow> biteset_get B (bites i) k =
           encode cs (if k < length s then s ! k else CHR 0x00)"
  shows "ident_get_size M B cs i n = length s"
  using assms(3)
proof (induction "length s - n" arbitrary: n)
  case 0
  then have "n = length s" by simp
  then show ?case
    using assms(2,4) encode_invalid [OF no_terminator] by (subst ident_get_size.simps) auto
next
  case (Suc k)
  then have n: "n < length s" "k = length s - (n + 1)" by linarith+
  then have "s ! n \<in> set cs" using assms(1) by auto
  with encode_valid(1) [of "s ! n"] Suc n assms(2,4) show ?case
    by (subst ident_get_size.simps) simp
qed

end

interpretation default_char_set: char_set default_identifier_char_set 6
  by unfold_locales (simp_all add: default_identifier_char_set_def)


section \<open>Values\<close>

lemma length_bites [simp]: "length (make_bites M B cs init) = store_size M B"
  by (simp add: make_bites_def)

lemma make_bites_literal: "make_bites M B cs (s @ [CHR 0x00]) = make_bites M B cs s"
  unfolding make_bites_def
  by (intro arg_cong [where f = "make_bytes B"] map_cong) (auto simp: nth_append)

lemma identifier_literal_eq: "identifier_literal s = identifier_of s"
  by (simp add: identifier_literal_def identifier_of_def ident_of_literal_def ident_of_chars_def
      make_bites_literal)

lemma store_size_10_6 [simp]: "store_size 10 6 = 8"
  by (simp add: store_size_def)

lemma value_eq_iff:
  assumes "length (bites a) = 8" "length (bites b) = 8"
  shows "(ident_value a :: u64) = ident_value b \<longleftrightarrow> a = b"
proof
  assume eq: "(ident_value a :: u64) = ident_value b"
  have "bites a = bites b"
  proof (rule bytes_eqI)
    fix p assume "p < 8 * length (bites a)"
    moreover have "63 - p < 64" by linarith
    moreover have "bytes \<noteq> []" if "length bytes = 8" for bytes :: "byte list" using that by auto
    ultimately show "bs_bit (bites a) p = bs_bit (bites b) p"
      using bit_byteset_as [of "bites a" "63 - p", where 'u = 64]
        bit_byteset_as [of "bites b" "63 - p", where 'u = 64] eq assms
      by (simp add: ident_value_def)
  qed (use assms in simp)
  then show "a = b" by simp
qed simp

lemma value_of_value: "ident_value (identifier_from v) = v"
proof -
  have "length (byteset_of 8 v) = 8" "byteset_of 8 v \<noteq> []" by (simp_all flip: length_greater_0_conv)
  then show ?thesis
    by (intro bit_word_eqI) (auto simp: identifier_from_def ident_of_value_def ident_value_def
        biteset_from_value_def bit_byteset_as bs_bit_byteset_of)
qed

lemma of_value_value: "length (bites i) = 8 \<Longrightarrow> identifier_from (ident_value i) = i"
  using value_eq_iff [of "identifier_from (ident_value i)" i] value_of_value
  by (simp add: identifier_from_def ident_of_value_def biteset_from_value_def)

lemma bites_identifier [simp]:
  "bites (identifier_of s) = make_bites 10 6 default_identifier_char_set s"
  by (simp add: identifier_of_def ident_of_chars_def)

lemma identifier_element:
  "k < 10 \<Longrightarrow> biteset_get 6 (bites (identifier_of s)) k =
     encode default_identifier_char_set (if k < length s then s ! k else CHR 0x00)"
  by (simp add: default_char_set.bites_element)

lemma value_zero_iff:
  assumes "length (bites i) = 8"
  shows "(ident_value i :: u64) = 0 \<longleftrightarrow> bites i = replicate 8 0"
proof -
  have "(ident_value \<lparr>bites = replicate 8 0\<rparr> :: u64) = 0"
    by (simp add: ident_value_def byteset_as_def upt_rec)
  with value_eq_iff [of i "\<lparr>bites = replicate 8 0\<rparr>"] assms show ?thesis
    by (cases i) auto
qed

lemma biteset_get_zeros:
  assumes "biteset_wf TYPE('t::len) N B (replicate n 0)" and "i < N"
  shows "(biteset_get B (replicate n 0) i :: 't word) = 0"
proof (rule bit_word_eqI)
  fix k assume k: "k < LENGTH('t)"
  have "\<not> bs_bit (replicate n 0) (i * B + (B - 1 - k))" if "k < B"
  proof -
    have "i * B + (B - 1 - k) < 8 * n"
      using element_in_range [OF assms(2), of B] assms(1) that by (simp add: biteset_wf_def)
    then show ?thesis by (rule bs_bit_zeros)
  qed
  with bit_biteset_get [OF assms k]
  show "bit (biteset_get B (replicate n 0) i :: 't word) k = bit 0 k" by auto
qed

text \<open>The value is zero exactly for ten characters of code zero.\<close>

lemma identifier_value_zero:
  assumes "length s \<le> 10"
  shows "(ident_value (identifier_of s) :: u64) = 0 \<longleftrightarrow> s = replicate 10 CHR ''_''"
proof -
  let ?cs = default_identifier_char_set
  have hd: "hd ?cs = CHR ''_''" by (simp add: default_identifier_char_set_def)
  have wf: "biteset_wf TYPE(8) 10 6 (bites (identifier_of s))"
    by (simp add: biteset_wf_def)
  have "(ident_value (identifier_of s) :: u64) = 0 \<longleftrightarrow> bites (identifier_of s) = replicate 8 0"
    by (rule value_zero_iff) simp
  also have "\<dots> \<longleftrightarrow> (\<forall>k < 10. (if k < length s then s ! k else CHR 0x00) = CHR ''_'')"
  proof
    assume zero: "bites (identifier_of s) = replicate 8 0"
    show "\<forall>k < 10. (if k < length s then s ! k else CHR 0x00) = CHR ''_''"
    proof (intro allI impI)
      fix k :: nat assume k: "k < 10"
      have "(biteset_get 6 (bites (identifier_of s)) k :: byte) = 0"
        using biteset_get_zeros [OF wf [unfolded zero], of k] k zero by simp
      then show "(if k < length s then s ! k else CHR 0x00) = CHR ''_''"
        using identifier_element [OF k, of s] default_char_set.encode_0 hd by simp
    qed
  next
    assume "\<forall>k < 10. (if k < length s then s ! k else CHR 0x00) = CHR ''_''"
    then have "map (\<lambda>I. encode ?cs (if I < length s then s ! I else CHR 0x00)) [0..<10] =
        map (\<lambda>I. encode ?cs (CHR ''_'')) [0..<10]"
      by (intro map_cong) simp_all
    moreover have "encode ?cs (CHR ''_'') = 0" using default_char_set.encode_0 hd by simp
    ultimately have "bites (identifier_of s) = make_bytes 6 (replicate 10 (0 :: byte))"
      by (simp add: make_bites_def map_replicate_const)
    also have "\<dots> = replicate 8 0"
      by (rule bytes_eqI) (auto simp: bs_bit_make_bytes init_bit_def bs_bit_zeros)
    finally show "bites (identifier_of s) = replicate 8 0" .
  qed
  also have "\<dots> \<longleftrightarrow> s = replicate 10 CHR ''_''"
  proof
    assume *: "\<forall>k < 10. (if k < length s then s ! k else CHR 0x00) = CHR ''_''"
    have "length s = 10"
    proof (rule ccontr)
      assume "length s \<noteq> 10"
      with assms * [rule_format, of "length s"] show False by simp
    qed
    with * show "s = replicate 10 CHR ''_''" by (simp add: list_eq_iff_nth_eq)
  qed simp
  finally show ?thesis .
qed


section \<open>Incrementing\<close>

lemma bs_value_zeros: "bs_value (replicate n 0) = 0"
  by (induction n) simp_all

lemma inc_bites_value:
  fixes v :: "byte list"
  assumes "biteset_wf TYPE(8) M B v" and "p \<le> M" and "8 * length v = S"
  shows "if bs_value v + 2 ^ (S - p * B) < 2 ^ S
         then \<exists>v'. inc_bites B v p = Some v' \<and> length v' = length v \<and>
                bs_value v' = bs_value v + 2 ^ (S - p * B)
         else inc_bites B v p = None"
  using assms
proof (induction p arbitrary: v)
  case (Suc p)
  define s where "s = S - (p * B + B)"
  have p: "p < M" and B: "B \<le> 8" using Suc.prems(1,2) by (auto simp: biteset_wf_def)
  have "p * B + B \<le> S"
    using element_in_range [OF p, of B] Suc.prems(1,3) by (simp add: biteset_wf_def)
  then have exps: "S - Suc p * B = s" "S - p * B = s + B" by (simp_all add: s_def)
  define g where "g = unat (biteset_get B v p :: byte)"
  have g: "g < 2 ^ B" unfolding g_def unat_biteset_get [OF Suc.prems(1) p] by (rule take_bit_nat_less_exp)
  note set = bs_value_set [OF Suc.prems(1) p, unfolded Suc.prems(3), folded s_def g_def]
  have wf': "biteset_wf TYPE(8) M B (biteset_set B v p x)" for x :: byte
    by (rule biteset.set_wf [OF Suc.prems(1) p])
  show ?case
  proof (cases "g + 1 < 2 ^ B")
    case True
    let ?v = "biteset_set B v p (word_of_nat (g + 1) :: byte)"
    have "(2 :: nat) ^ B \<le> 2 ^ 8" using B by (intro power_increasing) simp_all
    then have "take_bit B (unat (word_of_nat n :: byte)) = n" if "n < 2 ^ B" for n
      using that by (simp add: unsigned_of_nat take_bit_nat_eq_self)
    from this [OF True] have "take_bit B (unat (word_of_nat (g + 1) :: byte)) = g + 1" .
    with set [of "word_of_nat (g + 1)"] have "bs_value ?v = bs_value v + 2 ^ s" by simp
    moreover have "inc_bites B v (Suc p) = Some ?v" using True by (simp add: g_def Let_def)
    moreover have "bs_value ?v < 2 ^ S" using bs_value_less [of ?v] by (simp add: Suc.prems(3))
    ultimately show ?thesis unfolding exps(1) by (simp del: inc_bites.simps)
  next
    case False
    with g have g1: "g + 1 = 2 ^ B" by simp
    let ?v = "biteset_set B v p (0 :: byte)"
    have "bs_value ?v + g * 2 ^ s + 2 ^ s = bs_value v + 2 ^ s"
      using set [of 0] by simp
    moreover have "g * 2 ^ s + 2 ^ s = 2 ^ (s + B)"
      unfolding power_add g1 [symmetric] by (simp add: algebra_simps)
    ultimately have "bs_value ?v + 2 ^ (s + B) = bs_value v + 2 ^ s" by linarith
    moreover have "inc_bites B v (Suc p) = inc_bites B ?v p" using False by (simp add: g_def Let_def)
    ultimately show ?thesis
      unfolding exps(1) using Suc.IH [OF wf', of 0] p exps(2) Suc.prems(3)
      by (simp del: inc_bites.simps split: if_splits)
  qed
qed (use bs_value_less in auto)

lemma biteset_wf_10_6: "length v = 8 \<Longrightarrow> biteset_wf TYPE(8) 10 6 v"
  by (simp add: biteset_wf_def)

lemma unat_ident_value: "length (bites i) = 8 \<Longrightarrow> unat (ident_value i :: u64) = bs_value (bites i)"
  unfolding ident_value_def by (rule unat_byteset_as) auto

lemma identifier_read_back:
  assumes "can_be_encoded 10 default_identifier_char_set s" and "s \<noteq> replicate 10 CHR ''_''"
  shows "identifier_str (identifier_of s) = s \<and>
         ident_size TYPE(64) 10 6 default_identifier_char_set (identifier_of s) = length s"
proof -
  let ?cs = default_identifier_char_set
  from assms(1) have s: "length s \<le> 10" "set s \<subseteq> set ?cs"
    by (auto simp: can_be_encoded_def encoding_can_be_encoded_def list_all_iff split: if_splits)
  have "\<not> ident_is_empty TYPE(64) (identifier_of s)"
    using identifier_value_zero [OF s(1)] assms(2) by (simp add: ident_is_empty_def)
  then have size: "ident_size TYPE(64) 10 6 ?cs (identifier_of s) = length s"
    unfolding ident_size_def
    using default_char_set.get_size_from [OF s(2,1) _ identifier_element, of 0] by simp
  have "take (length s) (map (ident_subscript 6 ?cs (identifier_of s)) [0..<10] @ [CHR 0x0A]) = s"
  proof (rule nth_equalityI)
    fix k assume "k < length (take (length s)
        (map (ident_subscript 6 ?cs (identifier_of s)) [0..<10] @ [CHR 0x0A]))"
    then have k: "k < length s" by simp
    then have "s ! k \<in> set ?cs" using s(2) by auto
    with k s(1) identifier_element [of k s]
    show "take (length s) (map (ident_subscript 6 ?cs (identifier_of s)) [0..<10] @ [CHR 0x0A]) ! k = s ! k"
      by (simp add: nth_append ident_subscript_def default_char_set.encode_valid(2))
  qed (use s(1) in simp)
  with size show ?thesis
    by (simp add: identifier_str_def ident_str_def name_view_def ident_name_def
        make_identifier_name_def)
qed

section \<open>Decimal identifiers\<close>

text \<open>Reading a string of decimal digits, the specification of the digits printed.\<close>

definition dec_value :: "string \<Rightarrow> int" where
  "dec_value s = foldl (\<lambda>a c. 10 * a + (of_char c - 48)) 0 s"

lemma ident_dec_to_str_append: "ident_dec_to_str l i tmp = ident_dec_to_str l i [] @ tmp"
proof (induction l arbitrary: i tmp)
  case (Suc l)
  show ?case
    using Suc [of "i div 10" "char_of (i mod 10 + 48) # tmp"]
      Suc [of "i div 10" "[char_of (i mod 10 + 48)]"] by simp
qed simp

lemma length_ident_dec_to_str [simp]: "length (ident_dec_to_str l i []) = l"
proof (induction l arbitrary: i)
  case (Suc l)
  then show ?case
    using ident_dec_to_str_append [of l "i div 10" "[char_of (i mod 10 + 48)]"] by simp
qed simp

lemma ident_dec_to_str_Suc:
  "ident_dec_to_str (Suc l) i [] = ident_dec_to_str l (i div 10) [] @ [char_of (i mod 10 + 48)]"
  using ident_dec_to_str_append [of l "i div 10" "[char_of (i mod 10 + 48)]"] by simp

lemma dec_digit:
  fixes d :: int
  assumes "0 \<le> d" "d < 10"
  shows "char_of (d + 48) \<in> set ''0123456789''" "of_char (char_of (d + 48)) = d + 48"
    "char_of (d + 48) = CHR ''0'' \<longleftrightarrow> d = 0"
proof -
  show code: "of_char (char_of (d + 48)) = d + 48" using assms by simp
  have eq: "char_of (d + 48) = c \<longleftrightarrow> d + 48 = of_char c" for c
    using code by (metis of_char_eq_iff)
  have "d = 0 \<or> d = 1 \<or> d = 2 \<or> d = 3 \<or> d = 4 \<or> d = 5 \<or> d = 6 \<or> d = 7 \<or> d = 8 \<or> d = 9"
    using assms by presburger
  then show "char_of (d + 48) \<in> set ''0123456789''"
    unfolding set_simps insert_iff eq by simp
  show "char_of (d + 48) = CHR ''0'' \<longleftrightarrow> d = 0" unfolding eq by simp
qed

lemma dec_value_dec_to_str:
  assumes "0 \<le> i" "i < 10 ^ l"
  shows "dec_value (ident_dec_to_str l i []) = i \<and>
         set (ident_dec_to_str l i []) \<subseteq> set ''0123456789''"
  using assms
proof (induction l arbitrary: i)
  case (Suc l)
  have "0 \<le> i div 10" "i div 10 < 10 ^ l" using Suc.prems by auto
  note IH = Suc.IH [OF this]
  with dec_digit [of "i mod 10"] show ?case
    by (simp add: ident_dec_to_str_Suc dec_value_def del: ident_dec_to_str.simps)
qed (simp add: dec_value_def)

lemma dec_to_str_leading:
  "10 ^ l \<le> i \<Longrightarrow> i < 10 ^ Suc l \<Longrightarrow> hd (ident_dec_to_str (Suc l) i []) \<noteq> CHR ''0''"
proof (induction l arbitrary: i)
  case 0
  then show ?case using dec_digit(3) [of i] by simp
next
  case (Suc l)
  then have "10 ^ l \<le> i div 10" "i div 10 < 10 ^ Suc l" by auto
  from Suc.IH [OF this] show ?case
    using length_ident_dec_to_str [of "Suc l" "i div 10"]
    by (simp add: ident_dec_to_str_Suc [of "Suc l"] hd_append del: ident_dec_to_str.simps
        length_ident_dec_to_str) force
qed

lemma dec_digits_bounds:
  "i < 2 ^ 31 \<Longrightarrow> i < 10 ^ dec_digits i" "dec_digits i = 1 \<or> 10 ^ (dec_digits i - 1) \<le> i"
  "0 < dec_digits i" "dec_digits i \<le> 10"
  by (simp_all add: dec_digits_def)

lemma dec_to_identifier_digits:
  assumes "0 \<le> i" "i < 2 ^ 31"
  obtains l where "l < 10" "l = 0 \<or> 10 ^ l \<le> i" "i < 10 ^ Suc l"
    "dec_to_identifier i = Some (identifier_of (ident_dec_to_str (Suc l) i []))"
proof (rule that [of "dec_digits i - 1"])
  from dec_digits_bounds(3) have Suc: "Suc (dec_digits i - 1) = dec_digits i" by simp
  show "dec_digits i - 1 < 10" using dec_digits_bounds(3,4) [of i] by linarith
  show "dec_digits i - 1 = 0 \<or> 10 ^ (dec_digits i - 1) \<le> i" using dec_digits_bounds(2) [of i] by auto
  show "i < 10 ^ Suc (dec_digits i - 1)" unfolding Suc by (rule dec_digits_bounds(1) [OF assms(2)])
  show "dec_to_identifier i = Some (identifier_of (ident_dec_to_str (Suc (dec_digits i - 1)) i []))"
    unfolding Suc using assms(1) by (simp add: dec_to_identifier_def identifier_literal_eq)
qed

text \<open>The characters of a random identifier are drawn from the given ones.\<close>

lemma fill_random_charset_string_chars:
  assumes "\<And>e. fst (dist e) < length src"
  shows "length (fst (fill_random_charset_string dist n src e)) = n \<and>
         set (fst (fill_random_charset_string dist n src e)) \<subseteq> set src"
proof (induction n arbitrary: e)
  case (Suc n)
  from assms [of e] Suc [of "snd (dist e)"] show ?case
    by (cases "dist e"; cases "fill_random_charset_string dist n src (snd (dist e))") auto
qed simp

section \<open>Properties\<close>

text \<open>
  C21. Round trip of identifiers: every string of at most ten characters of the character set
  other than ten underscores is read back from the identifier made of it, and has its size.
\<close>

theorem identifier_roundtrip:
  assumes "can_be_encoded 10 default_identifier_char_set s" and "s \<noteq> replicate 10 CHR ''_''"
  shows "identifier_str (identifier_of s) = s \<and>
         ident_size TYPE(64) 10 6 default_identifier_char_set (identifier_of s) = length s"
  by (rule identifier_read_back [OF assms])

theorem identifier_roundtrip_witness:
  "identifier_str (identifier_of ''Eagine2'') = ''Eagine2'' \<and>
   ident_size TYPE(64) 10 6 default_identifier_char_set (identifier_of ''Eagine2'') = 7"
proof -
  have "can_be_encoded 10 default_identifier_char_set ''Eagine2''" by code_simp
  then show ?thesis using identifier_roundtrip [of "''Eagine2''"] by (simp add: numeral_eq_Suc)
qed

text \<open>
  The one exception: the identifier of ten underscores has the value zero, so it counts as
  empty and its name is the empty string, while the identifier of the empty string, whose size
  is zero, does not count as empty.
\<close>

theorem identifier_underscores_empty:
  "ident_is_empty TYPE(64) (identifier_of (replicate 10 CHR ''_'')) \<and>
   identifier_str (identifier_of (replicate 10 CHR ''_'')) = '''' \<and>
   \<not> ident_is_empty TYPE(64) (identifier_of '''') \<and>
   ident_size TYPE(64) 10 6 default_identifier_char_set (identifier_of '''') = 0"
proof (intro conjI)
  show empty: "ident_is_empty TYPE(64) (identifier_of (replicate 10 CHR ''_''))"
    by (simp add: ident_is_empty_def identifier_value_zero)
  then show "identifier_str (identifier_of (replicate 10 CHR ''_'')) = ''''"
    by (simp add: identifier_str_def ident_str_def name_view_def ident_name_def
        make_identifier_name_def ident_size_def)
  show "\<not> ident_is_empty TYPE(64) (identifier_of '''')"
    using identifier_value_zero [of "''''"] by (simp add: ident_is_empty_def numeral_eq_Suc)
  then show "ident_size TYPE(64) 10 6 default_identifier_char_set (identifier_of '''') = 0"
    unfolding ident_size_def
    using default_char_set.get_size_from [of "''''" 10 0 "identifier_of ''''"]
      identifier_element [of _ "''''"] by simp
qed

text \<open>
  C29. Different encodable strings have different identifier values (that of ten underscores
  included), and the value determines the identifier: converting to the numeric value and back
  is the identity in both directions.
\<close>

theorem identifier_value_injective:
  assumes "can_be_encoded 10 default_identifier_char_set s"
    and "can_be_encoded 10 default_identifier_char_set t"
  shows "((ident_value (identifier_of s) :: u64) = ident_value (identifier_of t) \<longleftrightarrow> s = t) \<and>
         identifier_from (ident_value (identifier_of s)) = identifier_of s \<and>
         ident_value (identifier_from v) = v"
proof (intro conjI iffI)
  assume "(ident_value (identifier_of s) :: u64) = ident_value (identifier_of t)"
  then have eq: "identifier_of s = identifier_of t" by (subst (asm) value_eq_iff) simp_all
  show "s = t"
  proof (cases "s = replicate 10 CHR ''_'' \<or> t = replicate 10 CHR ''_''")
    case True
    with assms eq show ?thesis
      using identifier_value_zero [of s] identifier_value_zero [of t]
      by (auto simp: can_be_encoded_def split: if_splits)
  next
    case False
    with identifier_read_back [OF assms(1)] identifier_read_back [OF assms(2)] eq
    show ?thesis by metis
  qed
qed (simp_all add: of_value_value value_of_value)

theorem identifier_value_injective_witness:
  "(ident_value (identifier_of ''abc'') :: u64) \<noteq> ident_value (identifier_of ''abd'') \<and>
   ident_value (identifier_from 42) = (42 :: u64)"
proof -
  have "can_be_encoded 10 default_identifier_char_set ''abc''"
    "can_be_encoded 10 default_identifier_char_set ''abd''" by code_simp+
  from identifier_value_injective [OF this, of 42] show ?thesis by simp
qed

text \<open>
  \<^verbatim>\<open>increment\<close> counts in the order of identifiers: the four lowest bits of the value
  are not part of any character, so the value grows by sixteen; the identifier with all sixty
  character bits set wraps around to the value zero. No increment makes an identifier smaller
  without that overflow.
\<close>

theorem identifier_increment_value:
  assumes "length (bites i) = 8"
  shows "unat (ident_value (ident_increment 10 6 i) :: u64) =
           (if unat (ident_value i :: u64) + 16 < 2 ^ 64 then unat (ident_value i :: u64) + 16 else 0) \<and>
         (ident_compare i (ident_increment 10 6 i) = Less \<longleftrightarrow>
            unat (ident_value i :: u64) + 16 < 2 ^ 64)"
proof -
  have "8 * length (bites i) = 64" using assms by simp
  note inc = inc_bites_value [OF biteset_wf_10_6 [OF assms] order.refl this, simplified]
  show ?thesis
  proof (cases "bs_value (bites i) + 16 < 2 ^ 64")
    case True
    with inc obtain v where "inc_bites 6 (bites i) 10 = Some v" "length v = 8"
      "bs_value v = bs_value (bites i) + 16" using assms by (auto split: if_splits)
    with True assms show ?thesis
      by (simp add: ident_increment_def unat_ident_value ident_compare_def vector_compare_value)
  next
    case False
    with inc have "inc_bites 6 (bites i) 10 = None" by (simp split: if_splits)
    with False assms show ?thesis
      by (simp add: ident_increment_def unat_ident_value ident_compare_def vector_compare_value
          bs_value_zeros)
  qed
qed

theorem identifier_increment_value_witness:
  "unat (ident_value (ident_increment 10 6 (identifier_from 32)) :: u64) = 48"
proof -
  have "length (bites (identifier_from 32)) = 8"
    by (simp add: identifier_from_def ident_of_value_def biteset_from_value_def)
  from identifier_increment_value [OF this] show ?thesis by (simp add: value_of_value)
qed

text \<open>
  A message identifier keeps its class and its method value apart: each is read back as it
  was given, the identifier is valid exactly where both are non-zero, and it matches exactly the
  pair it was made of.
\<close>

theorem message_id_parts:
  "class_id (message_id_of c m) = idv_value c \<and> method_id (message_id_of c m) = idv_value m \<and>
   (msg_is_valid (message_id_of c m) \<longleftrightarrow> idv_value c \<noteq> 0 \<and> idv_value m \<noteq> 0) \<and>
   (msg_is (message_id_of c m) c' m' \<longleftrightarrow> c = c' \<and> m = m') \<and>
   message_id_of_tuple (id_tuple (message_id_of c m)) = message_id_of c m"
proof -
  have c: "class_id (message_id_of c m) = idv_value c"
    unfolding class_id_def message_id_of_def
    by (rule bit_word_eqI) (auto simp: bit_simps dest: bit_imp_le_length)
  have m: "method_id (message_id_of c m) = idv_value m"
    unfolding method_id_def message_id_of_def
    by (rule bit_word_eqI) (auto simp: bit_simps)
  have idv: "idv_value a = idv_value b \<longleftrightarrow> a = b" "\<lparr>idv_value = idv_value a\<rparr> = a" for a b
    by (cases a; cases b; simp)+
  show ?thesis
    by (simp add: c m idv msg_is_valid_def msg_is_def has_class_def has_method_def id_tuple_def
        message_id_of_tuple_def msg_class_def msg_method_def idv_of_def value_of_value)
qed


text \<open>
  For every non-negative 32 bit integer \<^verbatim>\<open>dec_to_identifier\<close> makes an identifier whose
  name consists of decimal digits, denotes the integer and has no leading zero; the branches
  choose the right number of digits.
\<close>

theorem dec_to_identifier_name:
  assumes "0 \<le> i" and "i < 2 ^ 31"
  shows "\<exists>ident. dec_to_identifier i = Some ident \<and> dec_value (identifier_str ident) = i \<and>
           set (identifier_str ident) \<subseteq> set ''0123456789'' \<and>
           (hd (identifier_str ident) = CHR ''0'' \<longrightarrow> identifier_str ident = ''0'')"
proof -
  obtain l where l: "l < 10" "l = 0 \<or> 10 ^ l \<le> i" "i < 10 ^ Suc l"
    "dec_to_identifier i = Some (identifier_of (ident_dec_to_str (Suc l) i []))"
    using assms by (rule dec_to_identifier_digits)
  let ?s = "ident_dec_to_str (Suc l) i []"
  have val: "dec_value ?s = i" "set ?s \<subseteq> set ''0123456789''"
    using dec_value_dec_to_str [OF assms(1) l(3)] by blast+
  have "set ''0123456789'' \<subseteq> set default_identifier_char_set"
    by (simp add: default_identifier_char_set_def)
  with val(2) have "set ?s \<subseteq> set default_identifier_char_set" by (rule subset_trans)
  then have "can_be_encoded 10 default_identifier_char_set ?s"
    using l(1) length_ident_dec_to_str [of "Suc l" i]
    by (simp add: can_be_encoded_def encoding_can_be_encoded_def list_all_iff subset_iff
        del: ident_dec_to_str.simps length_ident_dec_to_str)
  moreover have "?s \<noteq> replicate 10 CHR ''_''"
  proof
    assume "?s = replicate 10 CHR ''_''"
    then have "CHR ''_'' \<in> set ?s" by (simp del: ident_dec_to_str.simps)
    with val(2) show False by (auto simp del: ident_dec_to_str.simps)
  qed
  ultimately have str: "identifier_str (identifier_of ?s) = ?s" by (simp add: identifier_read_back)
  have "?s = ''0''" if "hd ?s = CHR ''0''"
  proof -
    from that dec_to_str_leading [OF _ l(3)] l(2) have "l = 0" by blast
    with that length_ident_dec_to_str [of "Suc l" i] show ?thesis
      by (cases ?s) (simp_all del: ident_dec_to_str.simps length_ident_dec_to_str)
  qed
  with l(4) str val show ?thesis by simp
qed

theorem dec_to_identifier_name_witness:
  "\<exists>ident. dec_to_identifier 1042 = Some ident \<and> dec_value (identifier_str ident) = 1042"
  using dec_to_identifier_name [of 1042] by auto

end
