(* ===== verification/Multi_Byte.thy ===== *)
theory Multi_Byte
  imports Span_Algorithm
begin

text \<open>
  \<^verbatim>\<open>source/modules/eagine/string/multi_byte.cpp\<close>: code points of up to 31 bits as sequences
  of one to six bytes, in the manner of UTF-8. A \<^verbatim>\<open>code_point\<close> is the 32 bit value it holds,
  valid where it is less than \<^verbatim>\<open>invalid_code_point\<close>; a \<^verbatim>\<open>valid_sequence_length\<close>
  is the number it holds, valid between one and six. Templates over the length \<^verbatim>\<open>L\<close> take it as
  an argument. \<^verbatim>\<open>value()\<close> of an invalid code point and a read outside of a span are the
  \<open>None\<close> results.
\<close>

section \<open>Codes and masks\<close>

type_synonym code_point = u32

definition invalid_code_point :: code_point where
  "invalid_code_point = 0x7FFFFFFF"

definition cp_valid :: "code_point \<Rightarrow> bool" where
  "cp_valid cp = (cp < 0x7FFFFFFF)"

definition len_valid :: "nat \<Rightarrow> bool" where
  "len_valid l = (1 \<le> l \<and> l \<le> 6)"

text \<open>Zero where the length is not valid.\<close>

definition max_code_point :: "nat \<Rightarrow> code_point" where
  "max_code_point len =
     (if len = 1 then 0x7F else if len = 2 then 0x7FF else if len = 3 then 0xFFFF
      else if len = 4 then 0x1FFFFF else if len = 5 then 0x3FFFFFF else if len = 6 then 0x7FFFFFFF
      else 0)"

definition head_data_bitshift :: "nat \<Rightarrow> nat" where
  "head_data_bitshift L = (L - 1) * 6"

definition tail_data_bitshift :: "nat \<Rightarrow> nat \<Rightarrow> nat option" where
  "tail_data_bitshift idx len =
     (if len_valid idx \<and> len_valid len \<and> idx + 1 \<le> len then Some ((len - idx - 1) * 6) else None)"

definition head_code_mask :: "nat \<Rightarrow> byte" where
  "head_code_mask L =
     (if L = 1 then 0x80 else if L = 2 then 0xE0 else if L = 3 then 0xF0 else if L = 4 then 0xF8
      else if L = 5 then 0xFC else if L = 6 then 0xFE else 0)"

definition head_data_mask :: "nat \<Rightarrow> byte" where
  "head_data_mask L = NOT (head_code_mask L)"

definition tail_code_mask :: byte where
  "tail_code_mask = 0xC0"

definition tail_data_mask :: byte where
  "tail_data_mask = 0x3F"

definition head_code_from_mask :: "byte \<Rightarrow> byte" where
  "head_code_from_mask msk = push_bit 1 msk AND 0xFF"

definition head_code :: "nat \<Rightarrow> byte" where
  "head_code L = head_code_from_mask (head_code_mask L)"

definition tail_code :: byte where
  "tail_code = 0x80"

definition is_valid_masked_code :: "byte \<Rightarrow> byte option \<Rightarrow> byte option \<Rightarrow> bool" where
  "is_valid_masked_code b msk code =
     (case (msk, code) of (Some m, Some c) \<Rightarrow> b AND m = c | _ \<Rightarrow> False)"

text \<open>The overload on a sequence length: a mask of zero is not valid, and neither is its code.\<close>

definition is_valid_head_byte_of :: "byte \<Rightarrow> nat \<Rightarrow> bool" where
  "is_valid_head_byte_of b l =
     (let m = head_code_mask l; msk = (if m \<noteq> 0 then Some m else None)
      in is_valid_masked_code b msk (map_option head_code_from_mask msk))"

definition is_valid_head_byte_c :: "nat \<Rightarrow> byte \<Rightarrow> bool" where
  "is_valid_head_byte_c L b =
     is_valid_masked_code b (Some (head_code_mask L)) (Some (head_code_from_mask (head_code_mask L)))"

definition is_valid_head_byte :: "byte \<Rightarrow> bool" where
  "is_valid_head_byte b =
     (is_valid_head_byte_c 1 b \<or> is_valid_head_byte_c 2 b \<or> is_valid_head_byte_c 3 b \<or>
      is_valid_head_byte_c 4 b \<or> is_valid_head_byte_c 5 b \<or> is_valid_head_byte_c 6 b)"

definition is_valid_tail_byte :: "byte \<Rightarrow> bool" where
  "is_valid_tail_byte b = is_valid_masked_code b (Some tail_code_mask) (Some tail_code)"

section \<open>Sequence lengths\<close>

definition required_sequence_length :: "code_point \<Rightarrow> nat" where
  "required_sequence_length cp =
     (if max_code_point 1 > cp then 1 else if max_code_point 2 > cp then 2
      else if max_code_point 3 > cp then 3 else if max_code_point 4 > cp then 4
      else if max_code_point 5 > cp then 5 else if max_code_point 6 > cp then 6 else 0)"

definition do_decode_sequence_length :: "byte \<Rightarrow> nat" where
  "do_decode_sequence_length b =
     (if is_valid_head_byte_c 1 b then 1 else if is_valid_head_byte_c 2 b then 2
      else if is_valid_head_byte_c 3 b then 3 else if is_valid_head_byte_c 4 b then 4
      else if is_valid_head_byte_c 5 b then 5 else if is_valid_head_byte_c 6 b then 6 else 0)"

definition decode_sequence_length :: "byte list \<Rightarrow> nat option" where
  "decode_sequence_length seq =
     (case seq of [] \<Rightarrow> None | b # _ \<Rightarrow> Some (do_decode_sequence_length b))"

definition is_valid_encoding :: "byte list \<Rightarrow> bool option" where
  "is_valid_encoding seq =
     Option.bind (decode_sequence_length seq) (\<lambda>l. Some (
       if \<not> len_valid l then False
       else if \<not> is_valid_head_byte_of (hd seq) l then False
       else if l > length seq then False
       else list_all (\<lambda>i. is_valid_tail_byte (seq ! i)) [1..<l]))"

section \<open>Decoding\<close>

definition decode_code_point_head :: "nat \<Rightarrow> byte \<Rightarrow> code_point option" where
  "decode_code_point_head L b =
     Some (push_bit (head_data_bitshift L) (ucast (b AND head_data_mask L)))"

definition decode_code_point_tail :: "nat \<Rightarrow> byte \<Rightarrow> nat \<Rightarrow> code_point option" where
  "decode_code_point_tail L b i =
     map_option (\<lambda>s. push_bit s (ucast (b AND tail_data_mask))) (tail_data_bitshift i L)"

text \<open>The loop over the bytes behind the head of a sequence, for the positions \<open>is\<close>.\<close>

fun decode_tails :: "nat \<Rightarrow> byte list \<Rightarrow> code_point \<Rightarrow> nat list \<Rightarrow> code_point" where
  "decode_tails L src cp [] = cp"
| "decode_tails L src cp (i # is) =
     (case decode_code_point_tail L (src ! i) i of
        Some t \<Rightarrow> decode_tails L src (cp OR t) is
      | None \<Rightarrow> invalid_code_point)"

text \<open>Its callers see to \<open>L \<le> length src\<close>.\<close>

definition do_decode_code_point_from :: "nat \<Rightarrow> byte list \<Rightarrow> code_point" where
  "do_decode_code_point_from L src =
     (case decode_code_point_head L (src ! 0) of
        Some h \<Rightarrow> decode_tails L src h [1..<L]
      | None \<Rightarrow> invalid_code_point)"

definition do_decode_code_point_c :: "nat \<Rightarrow> byte list \<Rightarrow> code_point" where
  "do_decode_code_point_c L src =
     (if L < length src then do_decode_code_point_from L src else invalid_code_point)"

definition do_decode_length_and_code_point :: "byte list \<Rightarrow> nat \<times> code_point" where
  "do_decode_length_and_code_point s =
     (case s of [] \<Rightarrow> (0, invalid_code_point)
      | b # _ \<Rightarrow>
          if is_valid_head_byte_c 1 b then (1, do_decode_code_point_c 1 s)
          else if is_valid_head_byte_c 2 b then (2, do_decode_code_point_c 2 s)
          else if is_valid_head_byte_c 3 b then (3, do_decode_code_point_c 3 s)
          else if is_valid_head_byte_c 4 b then (4, do_decode_code_point_c 4 s)
          else if is_valid_head_byte_c 5 b then (5, do_decode_code_point_c 5 s)
          else if is_valid_head_byte_c 6 b then (6, do_decode_code_point_c 6 s)
          else (0, invalid_code_point))"

definition do_decode_code_point :: "byte list \<Rightarrow> nat \<Rightarrow> code_point" where
  "do_decode_code_point src vl =
     (if len_valid vl \<and> vl - 1 < length src then do_decode_code_point_from vl src
      else invalid_code_point)"

definition decode_code_point :: "byte list \<Rightarrow> code_point option" where
  "decode_code_point src = map_option (do_decode_code_point src) (decode_sequence_length src)"

section \<open>Encoding\<close>

definition do_encode_code_point_byte ::
    "code_point \<Rightarrow> byte \<Rightarrow> byte \<Rightarrow> nat \<Rightarrow> byte" where
  "do_encode_code_point_byte cp code msk bitshift =
     ucast (ucast code OR (ucast msk AND drop_bit bitshift cp) :: u32)"

definition encode_code_point_head :: "nat \<Rightarrow> code_point \<Rightarrow> byte option" where
  "encode_code_point_head L cp =
     Some (do_encode_code_point_byte cp (head_code L) (head_data_mask L) (head_data_bitshift L))"

definition encode_code_point_tail :: "nat \<Rightarrow> code_point \<Rightarrow> nat \<Rightarrow> byte option" where
  "encode_code_point_tail L cp i =
     map_option (do_encode_code_point_byte cp tail_code tail_data_mask) (tail_data_bitshift i L)"

fun encode_tails :: "nat \<Rightarrow> code_point \<Rightarrow> byte list \<Rightarrow> nat list \<Rightarrow> bool \<times> byte list" where
  "encode_tails L cp dest [] = (True, dest)"
| "encode_tails L cp dest (i # is) =
     (case encode_code_point_tail L cp i of
        Some t \<Rightarrow> encode_tails L cp (dest[i := t]) is
      | None \<Rightarrow> (False, dest))"

definition do_encode_code_point_into :: "nat \<Rightarrow> code_point \<Rightarrow> byte list \<Rightarrow> bool \<times> byte list" where
  "do_encode_code_point_into L cp dest =
     (case encode_code_point_head L cp of
        Some h \<Rightarrow> encode_tails L cp (dest[0 := h]) [1..<L]
      | None \<Rightarrow> (False, dest))"

definition do_encode_code_point :: "code_point \<Rightarrow> byte list \<Rightarrow> nat \<Rightarrow> bool \<times> byte list" where
  "do_encode_code_point cp dest vl =
     (if cp_valid cp \<and> len_valid vl \<and> vl - 1 < length dest
      then do_encode_code_point_into vl cp dest else (False, dest))"

text \<open>The overload on a span: the length, zero where it failed, and the new contents.\<close>

definition encode_code_point_span :: "code_point \<Rightarrow> byte list \<Rightarrow> (nat \<times> byte list) option" where
  "encode_code_point_span cp dest =
     (if cp_valid cp
      then (let len = required_sequence_length cp
            in case do_encode_code_point cp dest len of (ok, dest') \<Rightarrow>
                 Some (if ok then len else 0, dest'))
      else None)"

text \<open>The overload that makes a string, empty where it failed.\<close>

definition encode_code_point :: "code_point \<Rightarrow> byte list option" where
  "encode_code_point cp =
     (if cp_valid cp
      then (let len = required_sequence_length cp
            in if len_valid len
               then (case do_encode_code_point cp (replicate 7 0) len of (ok, tmp) \<Rightarrow>
                       Some (if ok then take len tmp else []))
               else Some [])
      else None)"

definition encode_nil :: "byte list \<Rightarrow> nat \<times> byte list" where
  "encode_nil dest = (case dest of [] \<Rightarrow> (0, []) | _ # rest \<Rightarrow> (1, 0xFF # rest))"

section \<open>Sequences of code points\<close>

fun encoding_bytes_required_from :: "code_point list \<Rightarrow> nat \<Rightarrow> (nat \<times> bool) option" where
  "encoding_bytes_required_from [] result = Some (result, True)"
| "encoding_bytes_required_from (cp # cps) result =
     (if cp_valid cp
      then (let len = required_sequence_length cp
            in if len_valid len then encoding_bytes_required_from cps (result + len)
               else Some (0, False))
      else None)"

definition encoding_bytes_required :: "code_point list \<Rightarrow> (nat \<times> bool) option" where
  "encoding_bytes_required cps = encoding_bytes_required_from cps 0"

text \<open>\<open>None\<close> where the assertion that the position stays in the span fails.\<close>

function decoding_code_points_required_from :: "byte list \<Rightarrow> nat \<Rightarrow> (nat \<times> bool) option" where
  "decoding_code_points_required_from bytes result =
     (case bytes of [] \<Rightarrow> Some (result, True)
      | b # _ \<Rightarrow>
          (let len = do_decode_sequence_length b
           in if len_valid len
              then if len \<le> length bytes
                   then decoding_code_points_required_from (drop len bytes) (result + 1) else None
              else Some (0, False)))"
  by pat_completeness auto
termination
  by (relation "measure (\<lambda>(bytes, result). length bytes)") (auto simp: len_valid_def)

declare decoding_code_points_required_from.simps [simp del]

definition decoding_code_points_required :: "byte list \<Rightarrow> (nat \<times> bool) option" where
  "decoding_code_points_required bytes = decoding_code_points_required_from bytes 0"

fun encode_code_points_from :: "code_point list \<Rightarrow> byte list \<Rightarrow> nat \<Rightarrow> (bool \<times> byte list) option" where
  "encode_code_points_from [] bytes i = Some (True, bytes)"
| "encode_code_points_from (cp # cps) bytes i =
     (if \<not> cp_valid cp then Some (False, bytes)
      else if i \<ge> length bytes then Some (False, bytes)
      else Option.bind (encode_code_point_span cp (drop i bytes)) (\<lambda>(len, sub).
        (let bytes' = take i bytes @ sub
         in if \<not> len_valid len then Some (False, bytes')
            else encode_code_points_from cps bytes' (i + len))))"

definition encode_code_points :: "code_point list \<Rightarrow> byte list \<Rightarrow> (bool \<times> byte list) option" where
  "encode_code_points cps bytes = encode_code_points_from cps bytes 0"

text \<open>The loop fills the first \<open>n\<close> of the code points; the result has those it stored.\<close>

fun decode_code_points_from :: "byte list \<Rightarrow> nat \<Rightarrow> nat \<Rightarrow> bool \<times> code_point list" where
  "decode_code_points_from bytes 0 i = (True, [])"
| "decode_code_points_from bytes (Suc n) i =
     (if i \<ge> length bytes then (False, [])
      else (let sub = drop i bytes; len = do_decode_sequence_length (hd sub)
            in if len_valid len
               then (let tcp = do_decode_code_point sub len
                     in if cp_valid tcp
                        then (case decode_code_points_from bytes n (i + len) of (ok, cps) \<Rightarrow>
                                (ok, tcp # cps))
                        else (False, []))
               else (False, [])))"

definition decode_code_points :: "byte list \<Rightarrow> code_point list \<Rightarrow> bool \<times> code_point list" where
  "decode_code_points bytes cps =
     (case decode_code_points_from bytes (length cps) 0 of (ok, stored) \<Rightarrow>
        (ok, stored @ drop (length stored) cps))"


section \<open>One byte of a sequence\<close>

lemma mult_masked_byte:
  fixes code msk :: byte and cp :: u32
  assumes "code AND msk = 0"
  shows "push_bit s (ucast (do_encode_code_point_byte cp code msk s AND msk)) =
           cp AND push_bit s (ucast msk)"
proof (rule bit_word_eqI)
  fix k :: nat assume k: "k < LENGTH(32)"
  from assms have "\<not> (bit code j \<and> bit msk j)" for j
    by (metis bit_0_eq bit_and_iff bot_apply bot_bool_def)
  then show "bit (push_bit s (ucast (do_encode_code_point_byte cp code msk s AND msk)) :: u32) k =
      bit (cp AND push_bit s (ucast msk)) k"
    using k by (auto simp: do_encode_code_point_byte_def bit_simps dest: bit_imp_le_length)
qed

text \<open>The byte at position \<open>i\<close> of the sequence of length \<open>L\<close>.\<close>

definition mb_byte :: "nat \<Rightarrow> code_point \<Rightarrow> nat \<Rightarrow> byte" where
  "mb_byte L cp i =
     (if i = 0 then do_encode_code_point_byte cp (head_code L) (head_data_mask L) (head_data_bitshift L)
      else do_encode_code_point_byte cp tail_code tail_data_mask ((L - i - 1) * 6))"

definition mb_seq :: "nat \<Rightarrow> code_point \<Rightarrow> byte list" where
  "mb_seq L cp = map (mb_byte L cp) [0..<L]"

lemma length_mb_seq [simp]: "length (mb_seq L cp) = L"
  by (simp add: mb_seq_def)

lemma nth_mb_seq [simp]: "i < L \<Longrightarrow> mb_seq L cp ! i = mb_byte L cp i"
  by (simp add: mb_seq_def)

lemma len_validE:
  assumes "len_valid L"
  obtains "L = 1" | "L = 2" | "L = 3" | "L = 4" | "L = 5" | "L = 6"
  using assms unfolding len_valid_def by linarith

lemma tail_shift: "len_valid L \<Longrightarrow> 1 \<le> i \<Longrightarrow> i < L \<Longrightarrow> tail_data_bitshift i L = Some ((L - i - 1) * 6)"
  by (simp add: tail_data_bitshift_def len_valid_def)

lemma encode_tails_eq:
  assumes "len_valid L" "L \<le> length dest" "1 \<le> i" "i \<le> L"
  shows "encode_tails L cp dest [i..<L] =
           (True, take i dest @ map (mb_byte L cp) [i..<L] @ drop L dest)"
  using assms(2-)
proof (induction "L - i" arbitrary: i dest)
  case (Suc n)
  then have i: "i < L" and IH: "encode_tails L cp (dest[i := mb_byte L cp i]) [Suc i..<L] =
      (True, take (Suc i) (dest[i := mb_byte L cp i]) @ map (mb_byte L cp) [Suc i..<L] @
        drop L (dest[i := mb_byte L cp i]))"
    by auto
  have "take (Suc i) (dest[i := mb_byte L cp i]) = take i dest @ [mb_byte L cp i]"
    using i Suc.prems(1) by (simp add: take_Suc_conv_app_nth)
  with IH i Suc.prems tail_shift [OF assms(1) _ i] show ?case
    by (simp add: upt_conv_Cons encode_code_point_tail_def mb_byte_def)
qed simp

lemma do_encode_code_point_eq:
  assumes "cp_valid cp" "len_valid L" "L \<le> length dest"
  shows "do_encode_code_point cp dest L = (True, mb_seq L cp @ drop L dest)"
proof -
  from assms(2,3) have L: "0 < L" "L - 1 < length dest" by (auto simp: len_valid_def)
  then obtain d ds where dest: "dest = d # ds" by (cases dest) auto
  have "mb_seq L cp = mb_byte L cp 0 # map (mb_byte L cp) [1..<L]"
    using L(1) by (simp add: mb_seq_def upt_conv_Cons)
  with assms L dest encode_tails_eq [of L "dest[0 := mb_byte L cp 0]" 1 cp] show ?thesis
    by (cases L) (auto simp: do_encode_code_point_def do_encode_code_point_into_def
        encode_code_point_head_def mb_byte_def)
qed

section \<open>Decoding an encoded sequence\<close>

lemma decode_tails_eq:
  assumes "len_valid L" "1 \<le> i" "i \<le> L" "\<And>j. 1 \<le> j \<Longrightarrow> j < L \<Longrightarrow> src ! j = mb_byte L cp j"
  shows "decode_tails L src c [i..<L] = c OR (cp AND mask ((L - i) * 6))"
  using assms(2,3)
proof (induction "L - i" arbitrary: i c)
  case (Suc n)
  then have i: "i < L" and n: "L - i = Suc n" and n': "L - Suc i = n" by auto
  define s where "s = (L - i - 1) * 6"
  have "decode_code_point_tail L (src ! i) i = Some (cp AND push_bit s (ucast tail_data_mask))"
    using Suc.prems i assms(4) [of i] mult_masked_byte [of tail_code tail_data_mask s cp]
      tail_shift [OF assms(1) _ i]
    by (simp add: decode_code_point_tail_def mb_byte_def s_def tail_code_def tail_data_mask_def)
  moreover have "(cp AND push_bit s (ucast tail_data_mask)) OR (cp AND mask ((L - Suc i) * 6)) =
      cp AND mask ((L - i) * 6)"
  proof (rule bit_word_eqI)
    fix k :: nat
    have "(ucast tail_data_mask :: u32) = mask 6"
      by (simp add: tail_data_mask_def mask_eq_exp_minus_1)
    then have "bit (push_bit s (ucast tail_data_mask) :: u32) k \<longleftrightarrow> s \<le> k \<and> k < s + 6 \<and> k < 32"
      by (simp only: bit_push_bit_iff bit_mask_iff) auto
    moreover have "s = n * 6" using n by (simp add: s_def)
    moreover assume "k < LENGTH(32)"
    ultimately show "bit ((cp AND push_bit s (ucast tail_data_mask)) OR (cp AND mask ((L - Suc i) * 6))) k =
        bit (cp AND mask ((L - i) * 6)) k"
      by (auto simp only: bit_and_iff bit_or_iff bit_mask_iff n n') auto
  qed
  ultimately show ?case
    using Suc.hyps(1) [of "Suc i" "c OR (cp AND push_bit s (ucast tail_data_mask))"] n i Suc.prems
    by (simp add: upt_conv_Cons or.assoc n')
qed simp

text \<open>The number of bits a sequence of length \<open>L\<close> carries.\<close>

definition seq_bits :: "nat \<Rightarrow> nat" where
  "seq_bits L = (if L = 1 then 7 else 5 * L + 1)"

lemma head_masks:
  assumes "len_valid L"
  shows "ucast (head_data_mask L) = (mask (seq_bits L - head_data_bitshift L) :: u32)"
    and "head_code L AND head_data_mask L = 0"
    and "head_data_bitshift L \<le> seq_bits L"
  using assms
  by (elim len_validE; simp add: head_data_mask_def head_code_mask_def seq_bits_def
      head_data_bitshift_def head_code_def head_code_from_mask_def mask_eq_exp_minus_1)+

lemma decode_encoded:
  assumes "len_valid L" "L \<le> length src" "\<And>j. j < L \<Longrightarrow> src ! j = mb_byte L cp j"
  shows "do_decode_code_point_from L src = cp AND mask (seq_bits L)"
proof -
  from assms(1) have L: "0 < L" by (simp add: len_valid_def)
  let ?s = "head_data_bitshift L"
  have "decode_code_point_head L (src ! 0) = Some (cp AND push_bit ?s (mask (seq_bits L - ?s)))"
    using assms(3) [OF L] mult_masked_byte [OF head_masks(2) [OF assms(1)], of ?s cp]
    by (simp add: decode_code_point_head_def mb_byte_def head_masks(1) [OF assms(1)])
  then have "do_decode_code_point_from L src =
      (cp AND push_bit ?s (mask (seq_bits L - ?s))) OR (cp AND mask ((L - 1) * 6))"
    using decode_tails_eq [OF assms(1), of 1 src cp] L assms(3)
    by (simp add: do_decode_code_point_from_def)
  also have "\<dots> = cp AND mask (seq_bits L)"
    using head_masks(3) [OF assms(1)]
    by (intro bit_word_eqI) (auto simp: bit_simps head_data_bitshift_def)
  finally show ?thesis .
qed


section \<open>Heads and tails\<close>

lemma masked_code_disjoint:
  fixes c m k d :: byte
  assumes "m AND k = 0"
  shows "(c OR (m AND d)) AND k = c AND k"
proof -
  have "(c OR (m AND d)) AND k = (c AND k) OR (d AND (m AND k))"
    by (rule bit_word_eqI) (auto simp: bit_simps)
  with assms show ?thesis by simp
qed

lemma mb_head_eq:
  "mb_byte L cp 0 = head_code L OR (head_data_mask L AND ucast (drop_bit (head_data_bitshift L) cp))"
  unfolding mb_byte_def do_encode_code_point_byte_def if_P [OF refl]
  by (rule bit_word_eqI) (auto simp: bit_simps)

lemma mb_tail_eq:
  "0 < i \<Longrightarrow>
     mb_byte L cp i = tail_code OR (tail_data_mask AND ucast (drop_bit ((L - i - 1) * 6) cp))"
  unfolding mb_byte_def do_encode_code_point_byte_def
  by (rule bit_word_eqI) (auto simp: bit_simps)

lemma head_data_below:
  assumes "len_valid L" "len_valid K" "K \<le> L"
  shows "head_data_mask L AND head_code_mask K = 0"
    and "head_code L AND head_code_mask K = head_code K \<longleftrightarrow> K = L"
  using assms
  by (elim len_validE; simp add: head_data_mask_def head_code_mask_def head_code_def
      head_code_from_mask_def)+

lemma head_byte_class:
  assumes "len_valid L" "len_valid K" "K \<le> L"
  shows "is_valid_head_byte_c K (mb_byte L cp 0) \<longleftrightarrow> K = L"
  using head_data_below(2) [OF assms]
  by (simp add: is_valid_head_byte_c_def is_valid_masked_code_def mb_head_eq
      masked_code_disjoint [OF head_data_below(1) [OF assms]] head_code_def)

lemma len_valid_numerals [simp]:
  "len_valid 1" "len_valid (Suc 0)" "len_valid 2" "len_valid 3" "len_valid 4" "len_valid 5" "len_valid 6"
  by (simp_all add: len_valid_def)

lemma decode_length_head:
  assumes "len_valid L"
  shows "do_decode_sequence_length (mb_byte L cp 0) = L"
  using assms head_byte_class [OF assms, of _ cp]
  by (elim len_validE) (simp_all add: do_decode_sequence_length_def)

lemma head_byte_valid:
  assumes "len_valid L"
  shows "is_valid_head_byte (mb_byte L cp 0)" and "is_valid_head_byte_of (mb_byte L cp 0) L"
proof -
  have c: "is_valid_head_byte_c L (mb_byte L cp 0)"
    using head_byte_class [OF assms assms] by simp
  with assms show "is_valid_head_byte (mb_byte L cp 0)"
    by (elim len_validE) (simp_all add: is_valid_head_byte_def)
  have "head_code_mask L \<noteq> 0" using assms by (elim len_validE) (simp_all add: head_code_mask_def)
  with c show "is_valid_head_byte_of (mb_byte L cp 0) L"
    by (simp add: is_valid_head_byte_of_def is_valid_head_byte_c_def Let_def)
qed

lemma tail_byte_valid:
  "0 < i \<Longrightarrow> is_valid_tail_byte (mb_byte L cp i)"
  unfolding is_valid_tail_byte_def is_valid_masked_code_def mb_tail_eq
  by (simp add: masked_code_disjoint tail_data_mask_def tail_code_mask_def tail_code_def)

lemma tail_not_head:
  assumes "is_valid_tail_byte b"
  shows "\<not> is_valid_head_byte b"
proof -
  have b: "b AND 0xC0 = 0x80"
    using assms by (simp add: is_valid_tail_byte_def is_valid_masked_code_def tail_code_mask_def
        tail_code_def)
  have "\<not> is_valid_head_byte_c K b" if "len_valid K" for K
  proof
    assume "is_valid_head_byte_c K b"
    then have "b AND head_code_mask K = head_code_from_mask (head_code_mask K)"
      by (simp add: is_valid_head_byte_c_def is_valid_masked_code_def)
    from arg_cong [OF this, of "\<lambda>x. x AND 0xC0"] have
      "(b AND 0xC0) AND head_code_mask K = head_code_from_mask (head_code_mask K) AND 0xC0"
      by (simp add: and.assoc and.commute and.left_commute)
    with that show False
      unfolding b by (elim len_validE) (simp_all add: head_code_mask_def head_code_from_mask_def)
  qed
  then show ?thesis by (simp add: is_valid_head_byte_def)
qed

section \<open>Encoded code points\<close>

lemma required_length_bounds:
  assumes "cp_valid cp"
  shows "len_valid (required_sequence_length cp)"
    and "cp < max_code_point (required_sequence_length cp)"
  using assms by (auto simp: cp_valid_def required_sequence_length_def max_code_point_def)

lemma max_code_point_mask: "len_valid L \<Longrightarrow> max_code_point L = mask (seq_bits L)"
  by (elim len_validE) (simp_all add: max_code_point_def seq_bits_def mask_eq_exp_minus_1)

lemma less_max_code_point:
  assumes "len_valid L" "cp < max_code_point L"
  shows "cp AND mask (seq_bits L) = cp"
proof -
  have "seq_bits L < 32" "unat (2 ^ seq_bits L :: u32) = 2 ^ seq_bits L"
    "unat (max_code_point L) < 2 ^ seq_bits L"
    using assms(1) by (elim len_validE; simp add: seq_bits_def max_code_point_def)+
  with assms(2) have "unat cp < 2 ^ seq_bits L" by (simp add: word_less_nat_alt)
  then show ?thesis
    by (simp add: word_unat_eq_iff unsigned_take_bit_eq take_bit_nat_eq_self
        flip: take_bit_eq_mask)
qed

abbreviation mb_length :: "code_point \<Rightarrow> nat" where
  "mb_length \<equiv> required_sequence_length"

abbreviation mb_code :: "code_point \<Rightarrow> byte list" where
  "mb_code cp \<equiv> mb_seq (required_sequence_length cp) cp"

lemma encode_code_point_eq: "cp_valid cp \<Longrightarrow> encode_code_point cp = Some (mb_code cp)"
  using required_length_bounds(1) [of cp]
    do_encode_code_point_eq [of cp "mb_length cp" "replicate 7 0"]
  by (auto simp: encode_code_point_def Let_def len_valid_def)

lemma encode_code_point_span_eq:
  assumes "cp_valid cp"
  shows "encode_code_point_span cp dest =
     Some (if mb_length cp \<le> length dest then (mb_length cp, mb_code cp @ drop (mb_length cp) dest)
           else (0, dest))"
proof (cases "mb_length cp \<le> length dest")
  case True
  with assms required_length_bounds(1) [of cp] show ?thesis
    by (simp add: encode_code_point_span_def do_encode_code_point_eq Let_def)
next
  case False
  then have "\<not> mb_length cp - 1 < length dest" by linarith
  with False assms show ?thesis
    by (simp add: encode_code_point_span_def do_encode_code_point_def Let_def)
qed

lemma mb_code_nonempty: "cp_valid cp \<Longrightarrow> mb_code cp \<noteq> []"
  using required_length_bounds(1) [of cp] by (auto simp: len_valid_def simp flip: length_0_conv)

lemma hd_mb_code: "cp_valid cp \<Longrightarrow> hd (mb_code cp @ rest) = mb_byte (mb_length cp) cp 0"
  using required_length_bounds(1) [of cp] mb_code_nonempty [of cp]
  by (simp add: hd_append hd_conv_nth len_valid_def)

lemma decode_length_mb_code:
  "cp_valid cp \<Longrightarrow> decode_sequence_length (mb_code cp @ rest) = Some (mb_length cp)"
  using mb_code_nonempty [of cp] hd_mb_code [of cp rest] required_length_bounds(1) [of cp]
  by (cases "mb_code cp") (auto simp: decode_sequence_length_def decode_length_head)

lemma decode_code_point_mb_code:
  assumes "cp_valid cp"
  shows "do_decode_code_point (mb_code cp @ rest) (mb_length cp) = cp"
proof -
  note L = required_length_bounds [OF assms]
  have "do_decode_code_point_from (mb_length cp) (mb_code cp @ rest) = cp AND mask (seq_bits (mb_length cp))"
    using L(1) by (intro decode_encoded) (simp_all add: nth_append)
  moreover have "mb_length cp - 1 < length (mb_code cp @ rest)"
    using L(1) unfolding len_valid_def length_append length_mb_seq by linarith
  ultimately show ?thesis
    using L(1) less_max_code_point [OF L] by (simp add: do_decode_code_point_def)
qed

text \<open>
  What the users of variable length codes rely on: the code of a number starts with a head and
  has only tails behind it, and a reader finds its length and its number at the start of any
  text that begins with it.
\<close>

locale length_code =
  fixes enc :: "nat \<Rightarrow> byte list"
    and limit :: nat
    and code_len :: "byte list \<Rightarrow> nat option"
    and code_val :: "byte list \<Rightarrow> nat \<Rightarrow> nat"
    and is_head :: "byte \<Rightarrow> bool"
  assumes enc_nonempty: "n < limit \<Longrightarrow> enc n \<noteq> []"
    and code_len_enc: "n < limit \<Longrightarrow> code_len (enc n @ rest) = Some (length (enc n))"
    and code_val_enc: "n < limit \<Longrightarrow> code_val (enc n @ rest) (length (enc n)) = n"
    and head_enc: "n < limit \<Longrightarrow> is_head (hd (enc n))"
    and tail_enc: "n < limit \<Longrightarrow> b \<in> set (tl (enc n)) \<Longrightarrow> \<not> is_head b"
begin

lemma enc_length_pos: "n < limit \<Longrightarrow> 0 < length (enc n)"
  using enc_nonempty by blast

text \<open>Seeking backwards from the end of a code finds its start.\<close>

lemma rscan_enc:
  assumes "n < limit"
  shows "rscan (\<lambda>i. is_head ((pre @ enc n) ! i)) (length (pre @ enc n)) = Some (length pre)"
proof -
  obtain h t where ht: "enc n = h # t" using enc_nonempty [OF assms] by (cases "enc n") auto
  with head_enc [OF assms] tail_enc [OF assms] show ?thesis
    by (auto simp: rscan_Some_iff nth_append nth_Cons' split: if_splits)
qed

text \<open>An element between two copies of the code of its length is found from both ends.\<close>

definition framed :: "byte list \<Rightarrow> byte list" where
  "framed v = enc (length v) @ v @ enc (length v)"

lemma length_framed: "length (framed v) = 2 * length (enc (length v)) + length v"
  by (simp add: framed_def)

lemma framed_nonempty: "length v < limit \<Longrightarrow> 2 \<le> length (framed v)"
  using enc_length_pos [of "length v"] unfolding length_framed by linarith

lemma framed_inject:
  assumes "length u < limit" "length v < limit" "framed u @ r = framed v @ s"
  shows "u = v \<and> r = s"
proof -
  from arg_cong [OF assms(3), of code_len] have len: "length (enc (length u)) = length (enc (length v))"
    using code_len_enc [OF assms(1)] code_len_enc [OF assms(2)] by (simp add: framed_def)
  from arg_cong [OF assms(3), of "\<lambda>x. code_val x (length (enc (length u)))"]
  have "length u = length v"
    using code_val_enc [OF assms(1)] code_val_enc [OF assms(2)] len by (simp add: framed_def)
  with assms(3) show ?thesis by (simp add: framed_def)
qed

end


text \<open>\<^verbatim>\<open>value_or(0U)\<close> of a code point.\<close>

definition cp_value_or :: "code_point \<Rightarrow> nat" where
  "cp_value_or cp = (if cp_valid cp then unat cp else 0)"

lemma cp_valid_of_nat: "n < 0x7FFFFFFF \<Longrightarrow> cp_valid (word_of_nat n)"
  by (simp add: cp_valid_def word_less_nat_alt unsigned_of_nat take_bit_nat_eq_self)

lemma tails_of_code:
  assumes "cp_valid cp" "b \<in> set (tl (mb_code cp))"
  shows "is_valid_tail_byte b"
proof -
  from assms(2) obtain i where "i < length (tl (mb_code cp))" "b = tl (mb_code cp) ! i"
    by (metis in_set_conv_nth)
  then have "b = mb_byte (mb_length cp) cp (Suc i)" by (simp add: nth_tl)
  then show ?thesis by (simp add: tail_byte_valid)
qed

interpretation mb: length_code "\<lambda>n. mb_code (word_of_nat n)" "0x7FFFFFFF" decode_sequence_length
    "\<lambda>s l. cp_value_or (do_decode_code_point s l)" is_valid_head_byte
proof unfold_locales
  fix n :: nat and rest :: "byte list" and b
  assume n: "n < 0x7FFFFFFF"
  let ?cp = "word_of_nat n :: code_point"
  note cp = cp_valid_of_nat [OF n]
  show "mb_code ?cp \<noteq> []" by (rule mb_code_nonempty [OF cp])
  show "decode_sequence_length (mb_code ?cp @ rest) = Some (length (mb_code ?cp))"
    by (simp add: decode_length_mb_code [OF cp])
  show "cp_value_or (do_decode_code_point (mb_code ?cp @ rest) (length (mb_code ?cp))) = n"
    using n cp by (simp add: decode_code_point_mb_code cp_value_or_def unsigned_of_nat
        take_bit_nat_eq_self)
  show "is_valid_head_byte (hd (mb_code ?cp))"
    using hd_mb_code [OF cp, of "[]"] head_byte_valid(1) required_length_bounds(1) [OF cp] by simp
  show "b \<in> set (tl (mb_code ?cp)) \<Longrightarrow> \<not> is_valid_head_byte b"
    using tails_of_code [OF cp] tail_not_head by blast
qed

section \<open>Sequences\<close>

lemma is_valid_encoding_mb_code:
  assumes "cp_valid cp"
  shows "is_valid_encoding (mb_code cp @ rest) = Some True"
proof -
  note L = required_length_bounds(1) [OF assms]
  have "is_valid_head_byte_of (hd (mb_code cp @ rest)) (mb_length cp)"
    unfolding hd_mb_code [OF assms] by (rule head_byte_valid(2) [OF L])
  moreover have "list_all (\<lambda>i. is_valid_tail_byte ((mb_code cp @ rest) ! i)) [1..<mb_length cp]"
    by (simp add: list_all_iff nth_append tail_byte_valid)
  ultimately show ?thesis
    using L by (simp add: is_valid_encoding_def decode_length_mb_code [OF assms])
qed

lemma encoding_bytes_required_from_eq:
  "list_all cp_valid cps \<Longrightarrow>
     encoding_bytes_required_from cps n = Some (n + sum_list (map mb_length cps), True)"
  by (induction cps arbitrary: n) (simp_all add: required_length_bounds(1) Let_def)

lemma length_concat_codes: "length (concat (map mb_code cps)) = sum_list (map mb_length cps)"
  by (induction cps) simp_all

lemma decoding_required_eq:
  "list_all cp_valid cps \<Longrightarrow>
     decoding_code_points_required_from (concat (map mb_code cps)) n = Some (n + length cps, True)"
proof (induction cps arbitrary: n)
  case Nil
  then show ?case by (simp add: decoding_code_points_required_from.simps)
next
  case (Cons cp cps)
  then have cp: "cp_valid cp" by simp
  let ?rest = "concat (map mb_code cps)"
  obtain b t where bt: "mb_code cp @ ?rest = b # t"
    using mb_code_nonempty [OF cp] by (cases "mb_code cp") auto
  have "do_decode_sequence_length b = mb_length cp"
    using decode_length_mb_code [OF cp, of ?rest] unfolding bt
    by (simp add: decode_sequence_length_def)
  moreover have "mb_length cp \<le> length (b # t)" "drop (mb_length cp) (b # t) = ?rest"
    unfolding bt [symmetric] by simp_all
  ultimately have "decoding_code_points_required_from (b # t) n =
      decoding_code_points_required_from ?rest (n + 1)"
    using required_length_bounds(1) [OF cp]
    by (subst decoding_code_points_required_from.simps) (simp add: Let_def)
  with Cons bt show ?case by simp
qed

lemma encode_code_points_from_eq:
  assumes "list_all cp_valid cps" "i + sum_list (map mb_length cps) \<le> length bytes"
  shows "encode_code_points_from cps bytes i =
           Some (True, take i bytes @ concat (map mb_code cps)
                         @ drop (i + sum_list (map mb_length cps)) bytes)"
  using assms
proof (induction cps arbitrary: bytes i)
  case (Cons cp cps)
  then have cp: "cp_valid cp" by simp
  let ?l = "mb_length cp"
  note L = required_length_bounds(1) [OF cp]
  let ?bytes = "take i bytes @ mb_code cp @ drop ?l (drop i bytes)"
  have l: "?l \<le> length (drop i bytes)" "i < length bytes" "i + ?l \<le> length bytes"
    using Cons.prems(2) L by (auto simp: len_valid_def)
  have "encode_code_points_from (cp # cps) bytes i = encode_code_points_from cps ?bytes (i + ?l)"
    using cp l L by (simp add: encode_code_point_span_eq Let_def)
  also have "\<dots> = Some (True, take (i + ?l) ?bytes @ concat (map mb_code cps)
      @ drop (i + ?l + sum_list (map mb_length cps)) ?bytes)"
    using Cons.prems l by (intro Cons.IH) simp_all
  also have "take (i + ?l) ?bytes = take i bytes @ mb_code cp" using l by simp
  also have "drop (i + ?l + sum_list (map mb_length cps)) ?bytes =
      drop (i + (?l + sum_list (map mb_length cps))) bytes"
    using l by (simp add: ac_simps)
  finally show ?case by simp
qed simp

lemma decode_code_points_from_eq:
  assumes "list_all cp_valid cps"
  shows "decode_code_points_from (pre @ concat (map mb_code cps) @ post) (length cps) (length pre) =
           (True, cps)"
  using assms
proof (induction cps arbitrary: pre)
  case (Cons cp cps)
  then have cp: "cp_valid cp" by simp
  let ?rest = "concat (map mb_code cps) @ post"
  note L = required_length_bounds(1) [OF cp]
  have IH: "decode_code_points_from (pre @ mb_code cp @ ?rest) (length cps) (length pre + mb_length cp) =
      (True, cps)"
    using Cons.IH [of "pre @ mb_code cp"] Cons.prems by simp
  have "do_decode_sequence_length (hd (mb_code cp @ ?rest)) = mb_length cp"
    unfolding hd_mb_code [OF cp] by (rule decode_length_head [OF L])
  moreover have "0 < mb_length cp" using L by (simp add: len_valid_def)
  ultimately show ?case
    using cp L IH decode_code_point_mb_code [OF cp, of ?rest] by (simp add: Let_def)
qed simp

section \<open>Properties\<close>

text \<open>
  Every valid code point is encoded, and its encoding, also with anything behind it, is a
  valid encoding of the required length that decodes to the code point.
\<close>

theorem code_point_roundtrip:
  assumes "cp_valid cp"
  shows "\<exists>s. encode_code_point cp = Some s \<and> length s = required_sequence_length cp \<and>
             is_valid_encoding (s @ rest) = Some True \<and>
             decode_sequence_length (s @ rest) = Some (length s) \<and>
             decode_code_point (s @ rest) = Some cp"
  using encode_code_point_eq [OF assms] decode_length_mb_code [OF assms]
    decode_code_point_mb_code [OF assms] is_valid_encoding_mb_code [OF assms]
  by (simp add: decode_code_point_def)

theorem code_point_roundtrip_witness:
  "\<exists>s. encode_code_point 0x20AC = Some s \<and> length s = 3 \<and> decode_code_point s = Some 0x20AC"
proof -
  have "cp_valid 0x20AC" "required_sequence_length 0x20AC = 3" by code_simp+
  with code_point_roundtrip [of "0x20AC" "[]"] show ?thesis by auto
qed

text \<open>
  C23. Round trip of sequences: into a buffer of at least the size \<^verbatim>\<open>encoding_bytes_required\<close>
  gives, \<^verbatim>\<open>encode_code_points\<close> writes bytes from which \<^verbatim>\<open>decode_code_points\<close> reads
  the code points back, leaving the rest of the buffer as it was, and
  \<^verbatim>\<open>decoding_code_points_required\<close> of the bytes written is their number.
\<close>

theorem code_points_roundtrip:
  assumes "list_all cp_valid cps" and "encoding_bytes_required cps = Some (n, ok)"
    and "n \<le> length buf" and "length out = length cps"
  shows "ok \<and> (\<exists>buf'. encode_code_points cps buf = Some (True, buf') \<and> length buf' = length buf \<and>
           drop n buf' = drop n buf \<and>
           decode_code_points buf' out = (True, cps) \<and>
           decoding_code_points_required (take n buf') = Some (length cps, True))"
proof -
  have n: "n = sum_list (map mb_length cps)" "ok"
    using assms(2) encoding_bytes_required_from_eq [OF assms(1), of 0]
    by (simp_all add: encoding_bytes_required_def)
  let ?buf = "concat (map mb_code cps) @ drop n buf"
  have len: "length (concat (map mb_code cps)) = n" unfolding n by (rule length_concat_codes)
  have "encode_code_points cps buf = Some (True, ?buf)"
    using encode_code_points_from_eq [OF assms(1), of 0 buf] assms(3)
    by (simp add: encode_code_points_def n(1))
  moreover have "decode_code_points ?buf out = (True, cps)"
    using decode_code_points_from_eq [OF assms(1), of "[]" "drop n buf"] assms(4)
    by (simp add: decode_code_points_def)
  moreover have "decoding_code_points_required (take n ?buf) = Some (length cps, True)"
    using decoding_required_eq [OF assms(1), of 0] len
    by (simp add: decoding_code_points_required_def)
  moreover have "length ?buf = length buf" "drop n ?buf = drop n buf"
    using len assms(3) by simp_all
  ultimately show ?thesis using n(2) by blast
qed

theorem code_points_roundtrip_witness:
  "\<exists>buf'. encode_code_points [0x41, 0x20AC] (replicate 6 0) = Some (True, buf') \<and>
     decode_code_points buf' [0, 0] = (True, [0x41, 0x20AC])"
proof -
  have "list_all cp_valid [0x41, 0x20AC]" "encoding_bytes_required [0x41, 0x20AC] = Some (4, True)"
    by code_simp+
  from code_points_roundtrip [OF this, of "replicate 6 0" "[0, 0]"] show ?thesis by auto
qed

text \<open>
  \<^verbatim>\<open>do_decode_length_and_code_point\<close> does not decode a sequence that fills its span:
  it returns the invalid code point for the encoding of every valid code point, and the code
  point only where at least one more byte follows.
\<close>

theorem decode_length_and_code_point_off_by_one:
  assumes "cp_valid cp" and "encode_code_point cp = Some s"
  shows "do_decode_length_and_code_point s = (length s, invalid_code_point) \<and>
         do_decode_length_and_code_point (s @ b # rest) = (length s, cp)"
proof -
  note L = required_length_bounds(1) [OF assms(1)]
  from assms have s: "s = mb_code cp" by (simp add: encode_code_point_eq)
  have run: "do_decode_length_and_code_point (mb_code cp @ t) =
      (mb_length cp, do_decode_code_point_c (mb_length cp) (mb_code cp @ t))" for t
  proof -
    obtain b' t' where bt: "mb_code cp @ t = b' # t'"
      using mb_code_nonempty [OF assms(1)] by (cases "mb_code cp") auto
    have "b' = mb_byte (mb_length cp) cp 0" using hd_mb_code [OF assms(1), of t] unfolding bt by simp
    with L head_byte_class [OF L, of _ cp] show ?thesis
      unfolding bt by (elim len_validE) (simp_all add: do_decode_length_and_code_point_def)
  qed
  have "mb_length cp - 1 < length (mb_code cp @ b # rest)" by simp
  then have "do_decode_code_point_c (mb_length cp) (mb_code cp @ b # rest) = cp"
    using decode_code_point_mb_code [OF assms(1), of "b # rest"] L
    by (simp add: do_decode_code_point_c_def do_decode_code_point_def)
  moreover have "do_decode_code_point_c (mb_length cp) (mb_code cp) = invalid_code_point"
    by (simp add: do_decode_code_point_c_def)
  ultimately show ?thesis using run [of "[]"] run [of "b # rest"] by (simp add: s)
qed

theorem decode_length_and_code_point_off_by_one_witness:
  "do_decode_length_and_code_point [0x41] = (1, invalid_code_point) \<and>
   do_decode_length_and_code_point [0x41, 0x42] = (1, 0x41)"
proof -
  have "cp_valid 0x41" "encode_code_point 0x41 = Some [0x41]" by code_simp+
  from decode_length_and_code_point_off_by_one [OF this, of "0x42" "[]"] show ?thesis by simp
qed

text \<open>
  The largest code point a sequence length can carry is encoded with one byte more than
  necessary (0x7F becomes an overlong sequence of two bytes, unlike in UTF-8); every smaller
  code point has a sequence of minimal length.
\<close>

theorem required_sequence_length_minimal:
  assumes "len_valid L" and "L < 6"
  shows "required_sequence_length (max_code_point L) = L + 1 \<and>
         (cp < max_code_point L \<longrightarrow> required_sequence_length cp \<le> L) \<and>
         (max_code_point L < cp \<longrightarrow> cp_valid cp \<longrightarrow> L < required_sequence_length cp)"
  using assms
  by (elim len_validE) (auto simp: required_sequence_length_def max_code_point_def cp_valid_def
      word_less_nat_alt)

theorem required_sequence_length_minimal_witness:
  "required_sequence_length 0x7F = 2 \<and> required_sequence_length 0x7E \<le> 1"
  using required_sequence_length_minimal [of 1 "0x7E"] by (simp add: max_code_point_def)

end
