(* ===== verification/String_List.thy ===== *)
theory String_List
  imports Multi_Byte
begin

text \<open>
  \<^verbatim>\<open>source/modules/eagine/string/list.cpp\<close>: lists of strings in one string. An element is
  its value between two copies of its length, encoded as in \<^verbatim>\<open>multi_byte.cpp\<close>, so that a list
  can be read from both ends. A \<^verbatim>\<open>char\<close> is the byte it is cast to. Results are \<open>None\<close> where
  an assertion fails, where a read leaves the string, or where a loop does not end.
\<close>

section \<open>Lengths\<close>

definition encode_length :: "nat \<Rightarrow> byte list option" where
  "encode_length len =
     Option.bind (encode_code_point (word_of_nat len)) (\<lambda>s. if s \<noteq> [] then Some s else None)"

definition element_header_size :: "byte list \<Rightarrow> nat option" where
  "element_header_size elem =
     map_option (\<lambda>l. if len_valid l then l else 0) (decode_sequence_length elem)"

definition element_value_size :: "byte list \<Rightarrow> nat \<Rightarrow> nat" where
  "element_value_size elem l = cp_value_or (do_decode_code_point elem l)"

definition rev_seek_header_start :: "byte list \<Rightarrow> nat" where
  "rev_seek_header_start elem =
     (case rscan (\<lambda>i. is_valid_head_byte (elem ! i)) (length elem) of Some i \<Rightarrow> i | None \<Rightarrow> 0)"

section \<open>Both ends of a list\<close>

definition front_value :: "byte list \<Rightarrow> byte list option" where
  "front_value list =
     Option.bind (element_header_size list) (\<lambda>k.
       slice list (int k) (int (element_value_size list k)))"

definition back_value :: "byte list \<Rightarrow> byte list option" where
  "back_value list =
     (let i = rev_seek_header_start list; header = skip list (int i)
      in Option.bind (element_header_size header) (\<lambda>k.
           (let l = element_value_size header k in slice list (int i - int l) (int l))))"

definition without_back :: "byte list \<Rightarrow> byte list option" where
  "without_back list =
     (let i = rev_seek_header_start list; header = skip list (int i)
      in Option.bind (element_header_size header) (\<lambda>k.
           (let l = element_value_size header k
            in if i \<ge> k + l then Some (head list (int i - int k - int l)) else None)))"

definition pop_back :: "byte list \<Rightarrow> byte list option" where
  "pop_back list = map_option (\<lambda>w. take (length w) list) (without_back list)"

definition push_back :: "byte list \<Rightarrow> byte list \<Rightarrow> byte list option" where
  "push_back list value =
     map_option (\<lambda>elen. list @ elen @ value @ elen) (encode_length (length value))"

section \<open>Elements\<close>

text \<open>The constructors of \<^verbatim>\<open>element\<close>: at the start of \<open>s\<close>, and before the footer at \<open>i\<close>.\<close>

definition element_fit :: "byte list \<Rightarrow> byte list option" where
  "element_fit s =
     Option.bind (element_header_size s) (\<lambda>hs.
       (let vs = element_value_size s hs
        in if length s \<ge> hs + vs + hs then Some (take (hs + vs + hs) s) else None))"

definition element_rev_fit :: "byte list \<Rightarrow> nat \<Rightarrow> byte list option" where
  "element_rev_fit list i =
     Option.bind (element_header_size (drop i list)) (\<lambda>hs.
       (let vs = element_value_size (drop i list) hs
        in if i \<ge> hs + vs then Some (take (hs + vs + hs) (drop (i - hs - vs) list)) else None))"

definition element_header :: "byte list \<Rightarrow> byte list option" where
  "element_header elem = map_option (\<lambda>hs. take hs elem) (element_header_size elem)"

definition element_size :: "byte list \<Rightarrow> nat option" where
  "element_size elem = map_option (\<lambda>h. element_value_size h (length h)) (element_header elem)"

definition element_value :: "byte list \<Rightarrow> byte list option" where
  "element_value elem =
     Option.bind (element_header_size elem) (\<lambda>hs.
       map_option (\<lambda>vs. take vs (drop hs elem)) (element_size elem))"

definition element_footer :: "byte list \<Rightarrow> byte list option" where
  "element_footer elem =
     Option.bind (element_header_size elem) (\<lambda>hs.
       map_option (\<lambda>vs. take hs (drop (hs + vs) elem)) (element_size elem))"

section \<open>Visiting the elements\<close>

text \<open>The visitors return the elements passed to the function, in the order of the calls.\<close>

partial_function (option) for_each_elem_from :: "byte list \<Rightarrow> nat \<Rightarrow> byte list list option" where
  "for_each_elem_from list i =
     (if i + 2 \<le> length list
      then Option.bind (element_fit (drop i list)) (\<lambda>elem.
             Option.bind (for_each_elem_from list (i + length elem)) (\<lambda>es. Some (elem # es)))
      else Some [])"

definition for_each_elem :: "byte list \<Rightarrow> byte list list option" where
  "for_each_elem list = for_each_elem_from list 0"

text \<open>All values of a list of elements.\<close>

fun element_values :: "byte list list \<Rightarrow> byte list list option" where
  "element_values [] = Some []"
| "element_values (e # es) =
     Option.bind (element_value e) (\<lambda>v. map_option ((#) v) (element_values es))"

definition for_each :: "byte list \<Rightarrow> byte list list option" where
  "for_each list = Option.bind (for_each_elem list) element_values"

definition element_count :: "byte list \<Rightarrow> nat option" where
  "element_count list = map_option length (for_each_elem list)"

partial_function (option) rev_for_each_elem_from :: "byte list \<Rightarrow> int \<Rightarrow> byte list list option" where
  "rev_for_each_elem_from list i =
     (if i > 0
      then Option.bind (rscan (\<lambda>k. is_valid_head_byte (list ! k)) (nat i + 1)) (\<lambda>k.
             Option.bind (element_rev_fit list k) (\<lambda>elem.
             Option.bind (element_header_size elem) (\<lambda>hs.
             Option.bind (element_size elem) (\<lambda>vs.
             Option.bind (rev_for_each_elem_from list (int k - int (hs + vs + 1)))
               (\<lambda>es. Some (elem # es))))))
      else Some [])"

definition rev_for_each_elem :: "byte list \<Rightarrow> byte list list option" where
  "rev_for_each_elem list = rev_for_each_elem_from list (int (length list) - 1)"

definition rev_for_each :: "byte list \<Rightarrow> byte list list option" where
  "rev_for_each list = Option.bind (rev_for_each_elem list) element_values"

section \<open>Splitting and joining\<close>

fun push_back_all :: "byte list \<Rightarrow> byte list list \<Rightarrow> byte list option" where
  "push_back_all dst [] = Some dst"
| "push_back_all dst (x # xs) = Option.bind (push_back dst x) (\<lambda>dst'. push_back_all dst' xs)"

definition split_into :: "byte list \<Rightarrow> byte list \<Rightarrow> byte list \<Rightarrow> (byte list \<times> nat) option" where
  "split_into dst str sep =
     Option.bind (for_each_delimited str sep) (\<lambda>parts.
       map_option (\<lambda>dst'. (dst', length parts)) (push_back_all dst parts))"

definition split :: "byte list \<Rightarrow> byte list \<Rightarrow> (byte list \<times> nat) option" where
  "split str sep = split_into [] str sep"

text \<open>
  \<^verbatim>\<open>for_each_separated_c_str\<close> reads the memory \<open>mem\<close> behind the pointer, \<open>None\<close> a null
  pointer; the result has the parts passed to the function.
\<close>

function separated_by :: "byte list \<Rightarrow> byte \<Rightarrow> nat \<Rightarrow> nat \<Rightarrow> byte list list option" where
  "separated_by mem sep bgn pos =
     (if pos < length mem
      then if mem ! pos = 0 then Some []
           else if mem ! pos = sep
           then if pos - bgn > 0
                then map_option ((#) (take (pos - bgn) (drop bgn mem)))
                       (separated_by mem sep (pos + 1) (pos + 1))
                else Some []
           else separated_by mem sep bgn (pos + 1)
      else None)"
  by pat_completeness auto
termination
  by (relation "measure (\<lambda>(mem, sep, bgn, pos). length mem - pos)") auto

declare separated_by.simps [simp del]

function separated_by_zero :: "byte list \<Rightarrow> nat \<Rightarrow> nat \<Rightarrow> byte list list option" where
  "separated_by_zero mem bgn pos =
     (if pos < length mem
      then if mem ! pos = 0
           then if pos - bgn > 1
                then map_option ((#) (take (pos - bgn) (drop bgn mem)))
                       (separated_by_zero mem (pos + 1) (pos + 1))
                else Some []
           else separated_by_zero mem bgn (pos + 1)
      else None)"
  by pat_completeness auto
termination
  by (relation "measure (\<lambda>(mem, bgn, pos). length mem - pos)") auto

declare separated_by_zero.simps [simp del]

definition for_each_separated_c_str :: "byte list option \<Rightarrow> byte \<Rightarrow> byte list list option" where
  "for_each_separated_c_str str sep =
     (case str of None \<Rightarrow> Some []
      | Some mem \<Rightarrow> if sep \<noteq> 0 then separated_by mem sep 0 0 else separated_by_zero mem 0 0)"

definition split_c_str_into :: "byte list \<Rightarrow> byte list option \<Rightarrow> byte \<Rightarrow> (byte list \<times> nat) option" where
  "split_c_str_into dst str sep =
     Option.bind (for_each_separated_c_str str sep) (\<lambda>parts.
       map_option (\<lambda>dst'. (dst', length parts)) (push_back_all dst parts))"

definition split_c_str :: "byte list option \<Rightarrow> byte \<Rightarrow> (byte list \<times> nat) option" where
  "split_c_str str sep = split_c_str_into [] str sep"

fun join_len :: "nat \<Rightarrow> bool \<Rightarrow> byte list list \<Rightarrow> nat option" where
  "join_len slen first [] = Some 0"
| "join_len slen first (e # es) =
     Option.bind (element_size e) (\<lambda>vs.
       map_option (\<lambda>n. (if first then 0 else slen) + vs + n) (join_len slen False es))"

fun join_fill :: "byte list \<Rightarrow> bool \<Rightarrow> byte list list \<Rightarrow> byte list option" where
  "join_fill sep first [] = Some []"
| "join_fill sep first (e # es) =
     Option.bind (element_value e) (\<lambda>v.
       map_option (\<lambda>r. (if first then [] else sep) @ v @ r) (join_fill sep False es))"

definition join_trailing :: "byte list \<Rightarrow> byte list \<Rightarrow> bool \<Rightarrow> byte list option" where
  "join_trailing list sep trail_sep =
     Option.bind (for_each_elem list) (\<lambda>es.
     Option.bind (join_len (length sep) True es) (\<lambda>n.
     Option.bind (join_fill sep True es) (\<lambda>r.
       (let len = (if trail_sep then length sep else 0) + n;
            res = r @ (if trail_sep then sep else [])
        in if length res = len then Some res else None))))"

definition join :: "byte list \<Rightarrow> byte list \<Rightarrow> byte list option" where
  "join list sep = join_trailing list sep False"

section \<open>Iterators\<close>

text \<open>
  An iterator is the position \<^verbatim>\<open>_pos\<close> in the underlying range and the cached value
  \<^verbatim>\<open>_tmp\<close>; a dereference may fill the cache, so it returns the value and the iterator.
\<close>

record list_iterator =
  li_pos :: int
  li_tmp :: "byte list"

definition li_byte :: "byte list \<Rightarrow> int \<Rightarrow> byte option" where
  "li_byte rng pos = (if 0 \<le> pos \<and> pos < int (length rng) then Some (rng ! nat pos) else None)"

definition li_len_len :: "byte list \<Rightarrow> int \<Rightarrow> nat option" where
  "li_len_len rng pos =
     Option.bind (li_byte rng pos) (\<lambda>b.
       if is_valid_head_byte b then Some (do_decode_sequence_length b) else None)"

definition li_val_len :: "byte list \<Rightarrow> int \<Rightarrow> nat \<Rightarrow> nat" where
  "li_val_len rng pos ll = cp_value_or (do_decode_code_point (take ll (drop (nat pos) rng)) ll)"

definition li_update :: "byte list \<Rightarrow> list_iterator \<Rightarrow> list_iterator option" where
  "li_update rng it =
     (if li_tmp it = []
      then Option.bind (li_len_len rng (li_pos it)) (\<lambda>ll.
             (let vl = li_val_len rng (li_pos it) ll
              in Some (it\<lparr>li_tmp := take vl (drop (nat (li_pos it) + ll) rng)\<rparr>)))
      else Some it)"

definition li_deref :: "byte list \<Rightarrow> list_iterator \<Rightarrow> (byte list \<times> list_iterator) option" where
  "li_deref rng it = map_option (\<lambda>it'. (li_tmp it', it')) (li_update rng it)"

definition li_inc :: "byte list \<Rightarrow> list_iterator \<Rightarrow> list_iterator option" where
  "li_inc rng it =
     Option.bind (li_len_len rng (li_pos it)) (\<lambda>ll.
       (let vl = li_val_len rng (li_pos it) ll
        in Some \<lparr>li_pos = li_pos it + int (ll + vl + ll), li_tmp = []\<rparr>))"

definition li_begin :: list_iterator where
  "li_begin = \<lparr>li_pos = 0, li_tmp = []\<rparr>"

definition li_end :: "byte list \<Rightarrow> list_iterator" where
  "li_end rng = \<lparr>li_pos = int (length rng), li_tmp = []\<rparr>"

text \<open>The reverse iterator seeks the head byte before it reads.\<close>

definition rli_rseek_head :: "byte list \<Rightarrow> int \<Rightarrow> int option" where
  "rli_rseek_head rng pos =
     (if pos < int (length rng)
      then map_option int (rscan (\<lambda>k. is_valid_head_byte (rng ! k)) (nat (pos + 1))) else None)"

definition rli_update :: "byte list \<Rightarrow> list_iterator \<Rightarrow> list_iterator option" where
  "rli_update rng it =
     (if li_tmp it = []
      then Option.bind (rli_rseek_head rng (li_pos it)) (\<lambda>pos.
           Option.bind (li_len_len rng pos) (\<lambda>ll.
             (let vl = li_val_len rng pos ll
              in if int vl \<le> pos
                 then Some \<lparr>li_pos = pos, li_tmp = take vl (drop (nat pos - vl) rng)\<rparr>
                 else None)))
      else Some it)"

definition rli_deref :: "byte list \<Rightarrow> list_iterator \<Rightarrow> (byte list \<times> list_iterator) option" where
  "rli_deref rng it = map_option (\<lambda>it'. (li_tmp it', it')) (rli_update rng it)"

definition rli_inc :: "byte list \<Rightarrow> list_iterator \<Rightarrow> list_iterator option" where
  "rli_inc rng it =
     Option.bind (rli_rseek_head rng (li_pos it)) (\<lambda>pos.
     Option.bind (li_len_len rng pos) (\<lambda>ll.
       (let vl = li_val_len rng pos ll
        in Some \<lparr>li_pos = pos - int (ll + vl + 1), li_tmp = []\<rparr>)))"

definition rli_begin :: "byte list \<Rightarrow> list_iterator" where
  "rli_begin rng = \<lparr>li_pos = int (length rng) - 1, li_tmp = []\<rparr>"

definition rli_end :: list_iterator where
  "rli_end = \<lparr>li_pos = - 1, li_tmp = []\<rparr>"

text \<open>
  The range loops over \<^verbatim>\<open>basic_string_list\<close>, from \<open>it\<close> to \<open>stop\<close>: the values seen.
\<close>

partial_function (option) li_loop ::
    "(list_iterator \<Rightarrow> (byte list \<times> list_iterator) option) \<Rightarrow> (list_iterator \<Rightarrow> list_iterator option)
      \<Rightarrow> list_iterator \<Rightarrow> list_iterator \<Rightarrow> byte list list option" where
  "li_loop deref inc stop it =
     (if it = stop then Some []
      else Option.bind (deref it) (\<lambda>(v, it').
           Option.bind (inc it') (\<lambda>it''.
           Option.bind (li_loop deref inc stop it'') (\<lambda>vs. Some (v # vs)))))"

definition string_list_values :: "byte list \<Rightarrow> byte list list option" where
  "string_list_values rng = li_loop (li_deref rng) (li_inc rng) (li_end rng) li_begin"

definition string_list_rev_values :: "byte list \<Rightarrow> byte list list option" where
  "string_list_rev_values rng =
     li_loop (rli_deref rng) (rli_inc rng) rli_end (rli_begin rng)"

definition split_into_string_list :: "byte list \<Rightarrow> byte \<Rightarrow> byte list option" where
  "split_into_string_list src sep = map_option fst (split_into [] src [sep])"

definition split_c_str_into_string_list :: "byte list option \<Rightarrow> byte \<Rightarrow> byte list option" where
  "split_c_str_into_string_list src sep = map_option fst (split_c_str_into [] src sep)"


section \<open>Well-formed lists\<close>

text \<open>
  The abstraction: the string of the list of the values \<open>vs\<close>. The values are shorter than the
  largest length that can be encoded.
\<close>

abbreviation lcode :: "byte list \<Rightarrow> byte list" where
  "lcode v \<equiv> mb_code (word_of_nat (length v))"

abbreviation small :: "byte list \<Rightarrow> bool" where
  "small v \<equiv> length v < 0x7FFFFFFF"

definition string_list :: "byte list list \<Rightarrow> byte list" where
  "string_list vs = concat (map mb.framed vs)"

lemma string_list_simps [simp]:
  "string_list [] = []" "string_list (v # vs) = mb.framed v @ string_list vs"
  "string_list (vs @ ws) = string_list vs @ string_list ws"
  by (simp_all add: string_list_def)

lemma framed_eq: "mb.framed v = lcode v @ v @ lcode v"
  by (simp add: mb.framed_def)

lemma encode_length_eq: "small v \<Longrightarrow> encode_length (length v) = Some (lcode v)"
  using encode_code_point_eq [OF cp_valid_of_nat, of "length v"] mb.enc_nonempty [of "length v"]
  by (simp add: encode_length_def)

lemma lcode_length: "small v \<Longrightarrow> len_valid (length (lcode v))"
  using required_length_bounds(1) [OF cp_valid_of_nat, of "length v"] by simp

lemma header_size_lcode: "small v \<Longrightarrow> element_header_size (lcode v @ rest) = Some (length (lcode v))"
  using mb.code_len_enc [of "length v" rest] lcode_length [of v] by (simp add: element_header_size_def)

lemma value_size_lcode: "small v \<Longrightarrow> element_value_size (lcode v @ rest) (length (lcode v)) = length v"
  using mb.code_val_enc [of "length v" rest] by (simp add: element_value_size_def)

lemmas lcode_simps = header_size_lcode header_size_lcode [where rest = "[]", simplified]
  value_size_lcode value_size_lcode [where rest = "[]", simplified]

lemma element_fit_framed: "small v \<Longrightarrow> element_fit (mb.framed v @ rest) = Some (mb.framed v)"
  using header_size_lcode [of v "v @ lcode v @ rest"] value_size_lcode [of v "v @ lcode v @ rest"]
  by (simp add: element_fit_def framed_eq Let_def)

lemma element_size_framed: "small v \<Longrightarrow> element_size (mb.framed v) = Some (length v)"
  using header_size_lcode [of v "v @ lcode v"] value_size_lcode [of v "[]"]
  by (simp add: element_size_def element_header_def framed_eq)

lemma element_value_framed: "small v \<Longrightarrow> element_value (mb.framed v) = Some v"
  using header_size_lcode [of v "v @ lcode v"] element_size_framed [of v]
  by (simp add: element_value_def framed_eq)

lemma element_values_framed: "list_all small vs \<Longrightarrow> element_values (map mb.framed vs) = Some vs"
  by (induction vs) (simp_all add: element_value_framed)

lemma rev_seek_framed:
  assumes "small v"
  shows "rev_seek_header_start (pre @ mb.framed v) = length pre + length (lcode v) + length v"
  using mb.rscan_enc [OF assms, of "pre @ lcode v @ v"]
  by (simp add: rev_seek_header_start_def framed_eq)

lemma rev_fit_framed:
  assumes "small v"
  shows "element_rev_fit (pre @ mb.framed v @ post) (length pre + length (lcode v) + length v) =
           Some (mb.framed v)"
  using header_size_lcode [OF assms, of post] value_size_lcode [OF assms, of post]
  by (simp add: element_rev_fit_def framed_eq Let_def)

section \<open>Visiting well-formed lists\<close>

lemma for_each_elem_from_framed:
  "list_all small vs \<Longrightarrow>
     for_each_elem_from (pre @ string_list vs) (length pre) = Some (map mb.framed vs)"
proof (induction vs arbitrary: pre)
  case Nil
  then show ?case by (subst for_each_elem_from.simps) simp
next
  case (Cons v vs)
  then have v: "small v" by simp
  have "for_each_elem_from (pre @ mb.framed v @ string_list vs) (length pre + length (mb.framed v)) =
      Some (map mb.framed vs)"
    using Cons.IH [of "pre @ mb.framed v"] Cons.prems by simp
  with v mb.framed_nonempty [OF v] show ?case
    by (subst for_each_elem_from.simps) (simp add: element_fit_framed)
qed

lemma for_each_elem_framed: "list_all small vs \<Longrightarrow> for_each_elem (string_list vs) = Some (map mb.framed vs)"
  using for_each_elem_from_framed [of vs "[]"] by (simp add: for_each_elem_def)

text \<open>One element read backwards from its last byte.\<close>

lemma rscan_framed:
  assumes "small v"
  shows "rscan (\<lambda>k. is_valid_head_byte ((pre @ mb.framed v @ post) ! k)) (length pre + length (mb.framed v)) =
           Some (length pre + length (lcode v) + length v)"
proof -
  have "rscan (\<lambda>k. is_valid_head_byte ((pre @ mb.framed v @ post) ! k)) n =
      rscan (\<lambda>k. is_valid_head_byte ((pre @ mb.framed v) ! k)) n" if "n \<le> length (pre @ mb.framed v)" for n
    using that by (induction n) (auto simp: nth_append)
  with mb.rscan_enc [OF assms, of "pre @ lcode v @ v"] show ?thesis
    by (simp add: framed_eq)
qed

lemma rev_for_each_elem_from_framed:
  "list_all small vs \<Longrightarrow>
     rev_for_each_elem_from (string_list vs @ post) (int (length (string_list vs)) - 1) =
       Some (rev (map mb.framed vs))"
proof (induction vs arbitrary: post rule: rev_induct)
  case Nil
  then show ?case by (subst rev_for_each_elem_from.simps) simp
next
  case (snoc v vs)
  then have v: "small v" by simp
  let ?pre = "string_list vs"
  have pos: "int (length ?pre + length (mb.framed v)) - 1 > 0" "nat (int (length ?pre + length (mb.framed v)) - 1) + 1 =
      length ?pre + length (mb.framed v)"
    using mb.framed_nonempty [OF v] by linarith+
  have "element_header_size (mb.framed v) = Some (length (lcode v))"
    using header_size_lcode [OF v, of "v @ lcode v"] by (simp add: framed_eq)
  moreover have "rev_for_each_elem_from (?pre @ mb.framed v @ post) (int (length ?pre) - 1) =
      Some (rev (map mb.framed vs))"
    using snoc by simp
  ultimately show ?case
    using pos rscan_framed [OF v, of ?pre post] rev_fit_framed [OF v, of ?pre post]
      element_size_framed [OF v]
    by (subst rev_for_each_elem_from.simps) (simp add: algebra_simps)
qed


section \<open>Iterating well-formed lists\<close>

lemma li_read_framed:
  assumes "small v"
  shows "li_len_len (pre @ lcode v @ post) (int (length pre)) = Some (length (lcode v))"
    and "li_val_len (pre @ lcode v @ post) (int (length pre)) (length (lcode v)) = length v"
proof -
  obtain b t where bt: "lcode v = b # t" using mb.enc_nonempty [OF assms] by (cases "lcode v") auto
  then have "is_valid_head_byte b" using mb.head_enc [OF assms] by simp
  moreover have "do_decode_sequence_length b = length (lcode v)"
    using mb.code_len_enc [OF assms, of "[]"] unfolding bt by (simp add: decode_sequence_length_def)
  moreover have "(pre @ lcode v @ post) ! length pre = b" unfolding bt by simp
  ultimately show "li_len_len (pre @ lcode v @ post) (int (length pre)) = Some (length (lcode v))"
    using bt by (simp add: li_len_len_def li_byte_def)
  show "li_val_len (pre @ lcode v @ post) (int (length pre)) (length (lcode v)) = length v"
    using mb.code_val_enc [OF assms, of "[]"] by (simp add: li_val_len_def)
qed

lemma li_loop_framed:
  assumes "list_all small vs"
  shows "li_loop (li_deref (pre @ string_list vs)) (li_inc (pre @ string_list vs))
           (li_end (pre @ string_list vs)) \<lparr>li_pos = int (length pre), li_tmp = []\<rparr> = Some vs"
  using assms
proof (induction vs arbitrary: pre)
  case Nil
  then show ?case by (subst li_loop.simps) (simp add: li_end_def)
next
  case (Cons v vs)
  then have v: "small v" by simp
  let ?rng = "pre @ mb.framed v @ string_list vs"
  let ?it = "\<lparr>li_pos = int (length pre), li_tmp = []\<rparr>"
  note read = li_read_framed [OF v, of pre "v @ lcode v @ string_list vs"]
  have deref: "li_deref ?rng ?it = Some (v, ?it\<lparr>li_tmp := v\<rparr>)"
    using read by (simp add: li_deref_def li_update_def framed_eq Let_def)
  have inc: "li_inc ?rng (?it\<lparr>li_tmp := v\<rparr>) =
      Some \<lparr>li_pos = int (length (pre @ mb.framed v)), li_tmp = []\<rparr>"
    using read by (simp add: li_inc_def framed_eq Let_def)
  have "?it \<noteq> li_end ?rng" using mb.framed_nonempty [OF v] by (simp add: li_end_def)
  with deref inc Cons.IH [of "pre @ mb.framed v"] Cons.prems show ?case
    by (subst li_loop.simps) simp
qed

lemma rli_loop_framed:
  assumes "list_all small vs"
  shows "li_loop (rli_deref (string_list vs @ post)) (rli_inc (string_list vs @ post)) rli_end
           \<lparr>li_pos = int (length (string_list vs)) - 1, li_tmp = []\<rparr> = Some (rev vs)"
  using assms
proof (induction vs arbitrary: post rule: rev_induct)
  case Nil
  then show ?case by (subst li_loop.simps) (simp add: rli_end_def)
next
  case (snoc v vs)
  then have v: "small v" by simp
  let ?pre = "string_list vs"
  let ?rng = "?pre @ mb.framed v @ post"
  let ?it = "\<lparr>li_pos = int (length ?pre + length (mb.framed v)) - 1, li_tmp = []\<rparr>"
  let ?foot = "length ?pre + length (lcode v) + length v"
  have seek: "rli_rseek_head ?rng (li_pos ?it) = Some (int ?foot)"
    using rscan_framed [OF v, of ?pre post] mb.framed_nonempty [OF v]
    by (simp add: rli_rseek_head_def nat_int_add)
  have again: "rli_rseek_head ?rng (int ?foot) = Some (int ?foot)"
  proof -
    obtain b t where bt: "lcode v = b # t" using mb.enc_nonempty [OF v] by (cases "lcode v") auto
    have "?rng ! ?foot = b" "?foot < length ?rng"
      unfolding framed_eq bt by (simp_all add: nth_append)
    moreover from this have "is_valid_head_byte (?rng ! ?foot)" using mb.head_enc [OF v] bt by simp
    then have "rscan (\<lambda>k. is_valid_head_byte (?rng ! k)) (Suc ?foot) = Some ?foot"
      unfolding rscan.simps by (rule if_P)
    moreover have "nat (int ?foot + 1) = Suc ?foot" by simp
    ultimately show ?thesis by (simp only: rli_rseek_head_def of_nat_less_iff if_True option.map)
  qed
  have read: "li_len_len ?rng (int ?foot) = Some (length (lcode v))"
    "li_val_len ?rng (int ?foot) (length (lcode v)) = length v"
    using li_read_framed [OF v, of "?pre @ lcode v @ v" post] by (simp_all add: framed_eq add.assoc)
  have "take (length v) (drop (?foot - length v) ?rng) = v"
    by (simp add: framed_eq)
  then have deref: "rli_deref ?rng ?it = Some (v, \<lparr>li_pos = int ?foot, li_tmp = v\<rparr>)"
    using read seek by (simp add: rli_deref_def rli_update_def Let_def add.assoc nat_add_distrib)
  have inc: "rli_inc ?rng \<lparr>li_pos = int ?foot, li_tmp = v\<rparr> =
      Some \<lparr>li_pos = int (length ?pre) - 1, li_tmp = []\<rparr>"
    using read again by (simp add: rli_inc_def Let_def add.assoc)
  have "?it \<noteq> rli_end" using mb.framed_nonempty [OF v] by (simp add: rli_end_def)
  with deref inc snoc show ?case by (subst li_loop.simps) simp
qed

section \<open>Building lists\<close>

lemma push_back_eq: "small v \<Longrightarrow> push_back list v = Some (list @ mb.framed v)"
  by (simp add: push_back_def encode_length_eq framed_eq)

lemma push_back_all_eq:
  "list_all small vs \<Longrightarrow> push_back_all list vs = Some (list @ string_list vs)"
  by (induction vs arbitrary: list) (simp_all add: push_back_eq)

lemma join_len_eq:
  "list_all small vs \<Longrightarrow> join_len n first (map mb.framed vs) =
     Some (sum_list (map length vs) + (length vs - (if first then 1 else 0)) * n)"
  by (induction vs arbitrary: first) (simp_all add: element_size_framed)

lemma join_fill_eq:
  "list_all small vs \<Longrightarrow>
     join_fill sep False (map mb.framed vs) = Some (concat (map (\<lambda>v. sep @ v) vs)) \<and>
     join_fill sep True (map mb.framed vs) =
       Some (case vs of [] \<Rightarrow> [] | w # ws \<Rightarrow> w @ concat (map (\<lambda>v. sep @ v) ws))"
  by (induction vs) (auto simp: element_value_framed split: list.splits)


text \<open>The separated parts of a C string: those that end with the separator.\<close>

lemma separated_skip:
  assumes "\<forall>b \<in> set w. b \<noteq> 0 \<and> b \<noteq> sep"
  shows "separated_by (pre @ w @ rest) sep bgn (length pre) =
           separated_by (pre @ w @ rest) sep bgn (length pre + length w)"
  using assms
proof (induction w arbitrary: pre)
  case (Cons b w)
  from Cons.IH [of "pre @ [b]"] Cons.prems show ?case
    by (subst separated_by.simps) simp
qed simp

lemma separated_parts:
  assumes "\<forall>w \<in> set ws. w \<noteq> [] \<and> 0 \<notin> set w \<and> sep \<notin> set w" and "0 \<notin> set l" "sep \<notin> set l"
    and "sep \<noteq> 0"
  shows "separated_by (pre @ concat (map (\<lambda>w. w @ [sep]) ws) @ l @ 0 # rest) sep (length pre) (length pre) =
           Some ws"
  using assms(1)
proof (induction ws arbitrary: pre)
  case Nil
  have "separated_by (pre @ l @ 0 # rest) sep (length pre) (length pre) =
      separated_by (pre @ l @ 0 # rest) sep (length pre) (length pre + length l)"
    using assms(2,3) by (intro separated_skip) auto
  also have "\<dots> = Some []" by (subst separated_by.simps) (simp add: nth_append)
  finally show ?case by simp
next
  case (Cons w ws)
  let ?rest = "concat (map (\<lambda>w. w @ [sep]) ws) @ l @ 0 # rest"
  have "separated_by (pre @ w @ sep # ?rest) sep (length pre) (length pre) =
      separated_by (pre @ w @ sep # ?rest) sep (length pre) (length pre + length w)"
    using Cons.prems by (intro separated_skip) auto
  also have "\<dots> = map_option ((#) w)
      (separated_by (pre @ w @ sep # ?rest) sep (length pre + length w + 1) (length pre + length w + 1))"
    using Cons.prems assms(4) by (subst separated_by.simps) (simp add: nth_append)
  also have "separated_by (pre @ w @ sep # ?rest) sep (length pre + length w + 1) (length pre + length w + 1) =
      Some ws"
    using Cons.IH [of "pre @ w @ [sep]"] Cons.prems by simp
  finally show ?case by simp
qed

lemma length_joined_tail:
  "length (concat (map (\<lambda>v. sep @ v) us)) = sum_list (map length us) + length us * length sep"
  by (induction us) simp_all

lemma part_length: "p \<in> set us \<Longrightarrow> length p \<le> length (concat (map (\<lambda>v. sep @ v) us))"
  by (induction us) auto

lemma joined_parts:
  "concat (map (\<lambda>p. p @ sep) (butlast (u # us))) @ last (u # us) = u @ concat (map (\<lambda>v. sep @ v) us)"
  by (induction us arbitrary: u) auto

lemma join_string_list:
  assumes "list_all small (w # ws)"
  shows "join_trailing (string_list (w # ws)) sep trail =
           Some (w @ concat (map (\<lambda>v. sep @ v) ws) @ (if trail then sep else []))"
proof -
  have "for_each_elem (string_list (w # ws)) = Some (map mb.framed (w # ws))"
    by (rule for_each_elem_framed [OF assms])
  moreover have "join_len (length sep) True (map mb.framed (w # ws)) =
      Some (length w + length (concat (map (\<lambda>v. sep @ v) ws)))"
    unfolding join_len_eq [OF assms] length_joined_tail by simp
  moreover have "join_fill sep True (map mb.framed (w # ws)) = Some (w @ concat (map (\<lambda>v. sep @ v) ws))"
    using join_fill_eq [OF assms] by simp
  ultimately show ?thesis by (simp add: join_trailing_def del: string_list_simps list.map)
qed

section \<open>Properties\<close>

lemma string_list_both_ends:
  assumes "list_all small (vs @ [v])"
  shows "push_back (string_list vs) v = Some (string_list (vs @ [v])) \<and>
         back_value (string_list (vs @ [v])) = Some v \<and>
         without_back (string_list (vs @ [v])) = Some (string_list vs) \<and>
         pop_back (string_list (vs @ [v])) = Some (string_list vs) \<and>
         front_value (string_list (vs @ [v])) = Some (hd (vs @ [v]))"
proof -
  from assms have v: "small v" by simp
  let ?pre = "string_list vs"
  have seek: "rev_seek_header_start (?pre @ mb.framed v) = length ?pre + length (lcode v) + length v"
    by (rule rev_seek_framed [OF v])
  have header: "skip (?pre @ mb.framed v) (int (length ?pre + length (lcode v) + length v)) = lcode v"
    by (simp add: skip_eq_drop framed_eq nat_add_distrib)
  note sizes = header_size_lcode [OF v, of "[]"] value_size_lcode [OF v, of "[]"]
  have bv: "back_value (?pre @ mb.framed v) = Some v"
    using sizes header seek
    by (simp add: back_value_def Let_def slice_eq framed_eq nat_add_distrib)
  have without: "without_back (?pre @ mb.framed v) = Some ?pre"
    using sizes header seek
    by (simp add: without_back_def Let_def head_eq_take framed_eq)
  have "pop_back (?pre @ mb.framed v) = Some ?pre"
    using without by (simp add: pop_back_def)
  moreover have "front_value (string_list (vs @ [v])) = Some (hd (vs @ [v]))"
  proof -
    obtain u us where us: "vs @ [v] = u # us" by (cases "vs @ [v]") auto
    with assms have u: "small u" by (simp only: list.pred_inject)
    let ?rest = "u @ lcode u @ string_list us"
    from header_size_lcode [OF u, of ?rest] value_size_lcode [OF u, of ?rest] show ?thesis
      unfolding us by (simp add: front_value_def slice_eq framed_eq)
  qed
  ultimately show ?thesis using bv without push_back_eq [OF v] by simp
qed

text \<open>
  C27. \<^verbatim>\<open>push_back\<close> implements appending a value, and the functions on the ends of a list
  implement theirs: \<^verbatim>\<open>front_value\<close> gives the first value, \<^verbatim>\<open>back_value\<close> the last,
  and \<^verbatim>\<open>pop_back\<close> removes exactly the last, whatever bytes the values contain.
\<close>

theorem string_list_ends:
  assumes "list_all small (vs @ [v])"
  shows "push_back (string_list vs) v = Some (string_list (vs @ [v])) \<and>
         back_value (string_list (vs @ [v])) = Some v \<and>
         without_back (string_list (vs @ [v])) = Some (string_list vs) \<and>
         pop_back (string_list (vs @ [v])) = Some (string_list vs) \<and>
         front_value (string_list (vs @ [v])) = Some (hd (vs @ [v]))"
  using string_list_both_ends [OF assms] .

theorem string_list_ends_witness:
  "push_back (string_list [[1, 200]]) [3] = Some (string_list [[1, 200], [3]]) \<and>
   back_value (string_list [[1, 200], [3]]) = Some [3] \<and>
   front_value (string_list [[1, 200], [3]]) = Some [1, 200]"
  using string_list_ends [of "[[1, 200]]" "[3]"] by simp

text \<open>
  C28. The visitors terminate on every well-formed list and pass all its values, forwards and
  backwards; the iterators of \<^verbatim>\<open>basic_string_list\<close> see the same values from begin to end
  and from reverse begin to reverse end.
\<close>

theorem string_list_visitors:
  assumes "list_all small vs"
  shows "for_each (string_list vs) = Some vs \<and> rev_for_each (string_list vs) = Some (rev vs) \<and>
         element_count (string_list vs) = Some (length vs) \<and>
         string_list_values (string_list vs) = Some vs \<and>
         string_list_rev_values (string_list vs) = Some (rev vs)"
proof -
  have rev: "element_values (rev (map mb.framed vs)) = Some (rev vs)"
    using element_values_framed [of "rev vs"] assms by (simp add: rev_map list_all_iff)
  show ?thesis
    using assms for_each_elem_framed [OF assms] rev_for_each_elem_from_framed [OF assms, of "[]"]
      element_values_framed [OF assms] rev li_loop_framed [OF assms, of "[]"]
      rli_loop_framed [OF assms, of "[]"]
    by (simp add: for_each_def rev_for_each_def rev_for_each_elem_def element_count_def
        string_list_values_def string_list_rev_values_def li_begin_def rli_begin_def)
qed

theorem string_list_visitors_witness:
  "for_each (string_list [[1], [], [2, 3]]) = Some [[1], [], [2, 3]] \<and>
   rev_for_each (string_list [[1], [], [2, 3]]) = Some [[2, 3], [], [1]]"
  using string_list_visitors [of "[[1], [], [2, 3]]"] by simp

lemma split_values:
  assumes "sep \<noteq> []" and "small str"
  shows "\<exists>v vs. split str sep = Some (string_list (v # vs), length (v # vs)) \<and> list_all small (v # vs) \<and>
           str = v @ concat (map (\<lambda>v. sep @ v) vs)"
proof -
  from for_each_delimited_returns [OF assms(1), of str] obtain w ws where
    parts: "for_each_delimited str sep = Some (w # ws)"
      "str = concat (map (\<lambda>p. p @ sep) (butlast (w # ws))) @ last (w # ws)"
    by (metis list.exhaust)
  then have str: "str = w @ concat (map (\<lambda>v. sep @ v) ws)" by (simp only: joined_parts)
  have "small p" if "p \<in> set (w # ws)" for p
    using that assms(2) part_length [of p ws sep] unfolding str by auto
  then have small: "list_all small (w # ws)" by (simp add: list_all_iff)
  have "split str sep = Some (string_list (w # ws), length (w # ws))"
    using parts(1) push_back_all_eq [OF small, of "[]"] by (simp add: split_def split_into_def)
  then show ?thesis using small str by blast
qed

text \<open>
  C24. Splitting a string by a non-empty separator and joining the list with the separator gives
  the string back; the reported count is the number of elements.
\<close>

theorem split_join_roundtrip:
  assumes "sep \<noteq> []" and "small str"
  shows "\<exists>list n. split str sep = Some (list, n) \<and> join list sep = Some str \<and>
           element_count list = Some n \<and>
           join_trailing list sep True = Some (str @ sep)"
proof -
  from split_values [OF assms] obtain w ws where
    ws: "split str sep = Some (string_list (w # ws), length (w # ws))" "list_all small (w # ws)"
      "str = w @ concat (map (\<lambda>v. sep @ v) ws)"
    by blast
  moreover have "element_count (string_list (w # ws)) = Some (length (w # ws))"
    using for_each_elem_framed [OF ws(2)] by (simp add: element_count_def)
  ultimately show ?thesis
    using join_string_list [OF ws(2), of sep] by (simp add: join_def del: string_list_simps)
qed

theorem split_join_roundtrip_witness:
  "\<exists>list n. split [1, 44, 44, 2] [44] = Some (list, n) \<and> join list [44] = Some [1, 44, 44, 2]"
  using split_join_roundtrip [of "[44]" "[1, 44, 44, 2]"] by auto

text \<open>
  \<^verbatim>\<open>split_c_str\<close> with a separator loses the last part: of the non-empty parts
  \<open>ws\<close> followed by a last part \<open>l\<close>, joined by the separator and terminated by zero, only those
  of \<open>ws\<close> are listed and counted, also where \<open>l\<close> is not empty.
\<close>

theorem split_c_str_loses_last:
  assumes "\<forall>w \<in> set ws. w \<noteq> [] \<and> 0 \<notin> set w \<and> sep \<notin> set w \<and> small w"
    and "0 \<notin> set l" "sep \<notin> set l" and "sep \<noteq> 0"
  shows "split_c_str (Some (concat (map (\<lambda>w. w @ [sep]) ws) @ l @ 0 # rest)) sep =
           Some (string_list ws, length ws)"
proof -
  have "separated_by (concat (map (\<lambda>w. w @ [sep]) ws) @ l @ 0 # rest) sep 0 0 = Some ws"
    using separated_parts [of ws sep l "[]" rest] assms by auto
  moreover have "list_all small ws" using assms(1) by (auto simp: list_all_iff)
  ultimately show ?thesis
    using assms(4) push_back_all_eq [of ws "[]"]
    by (simp add: split_c_str_def split_c_str_into_def for_each_separated_c_str_def)
qed

theorem split_c_str_loses_last_witness:
  "split_c_str (Some [97, 58, 98, 0]) 58 = Some (string_list [[97]], 1)"
  using split_c_str_loses_last [of "[[97]]" 58 "[98]" "[]"] by simp

end
