(* ===== verification/Std_Algorithm.thy ===== *)
theory Std_Algorithm
  imports Prelude "HOL-Library.Multiset"
begin

text \<open>
  The parts of the standard library that the ordered containers and the sorting networks use:
  the requirements on a comparison as the locale \<open>strict_compare\<close>, binary search as in
  \<^verbatim>\<open>std::lower_bound\<close>, \<^verbatim>\<open>std::upper_bound\<close> and \<^verbatim>\<open>std::equal_range\<close>, insertion into and removal
  from a \<^verbatim>\<open>std::vector\<close>. Iterators into a vector are indices.
\<close>

section \<open>Comparisons\<close>

text \<open>The laws of \<^verbatim>\<open>Compare\<close>: a strict order in which different elements are comparable.\<close>

locale strict_compare =
  fixes before :: "'a \<Rightarrow> 'a \<Rightarrow> bool"
  assumes irrefl: "\<not> before a a"
    and transitive: "before a b \<Longrightarrow> before b c \<Longrightarrow> before a c"
    and comparable: "a \<noteq> b \<Longrightarrow> before a b \<or> before b a"
begin

lemma asym: "before a b \<Longrightarrow> \<not> before b a"
  using irrefl transitive by blast

lemma trichotomy:
  "a = b \<and> \<not> before b b \<or> before a b \<and> \<not> before b a \<or> before b a \<and> \<not> before a b"
  using irrefl[of b] asym[of a b] asym[of b a] comparable[of a b] by blast

lemma sorted_distinct: "sorted_wrt before ks \<Longrightarrow> distinct ks"
  using irrefl by (induction ks) auto

end

interpretation std_less: strict_compare "(<) :: 'a::linorder \<Rightarrow> 'a \<Rightarrow> bool"
  by unfold_locales auto

interpretation std_greater: strict_compare "(>) :: 'a::linorder \<Rightarrow> 'a \<Rightarrow> bool"
  by unfold_locales auto

section \<open>Binary search\<close>

text \<open>The loop of \<^verbatim>\<open>std::lower_bound\<close>: \<open>p\<close> holds for a prefix of the range that starts at
  \<open>first\<close> and has \<open>cnt\<close> elements.\<close>

fun part_point :: "('a \<Rightarrow> bool) \<Rightarrow> 'a list \<Rightarrow> nat \<Rightarrow> nat \<Rightarrow> nat" where
  "part_point p xs first cnt =
     (if cnt = 0 then first
      else (let step = cnt div 2
            in if p (xs ! (first + step)) then part_point p xs (first + step + 1) (cnt - (step + 1))
               else part_point p xs first step))"

declare part_point.simps [simp del]

definition std_lower_bound ::
    "('k \<Rightarrow> 'k \<Rightarrow> bool) \<Rightarrow> ('e \<Rightarrow> 'k) \<Rightarrow> 'e list \<Rightarrow> nat \<Rightarrow> nat \<Rightarrow> 'k \<Rightarrow> nat" where
  "std_lower_bound lt key xs b e k = part_point (\<lambda>x. lt (key x) k) xs b (e - b)"

definition std_upper_bound ::
    "('k \<Rightarrow> 'k \<Rightarrow> bool) \<Rightarrow> ('e \<Rightarrow> 'k) \<Rightarrow> 'e list \<Rightarrow> nat \<Rightarrow> nat \<Rightarrow> 'k \<Rightarrow> nat" where
  "std_upper_bound lt key xs b e k = part_point (\<lambda>x. \<not> lt k (key x)) xs b (e - b)"

definition std_equal_range ::
    "('k \<Rightarrow> 'k \<Rightarrow> bool) \<Rightarrow> ('e \<Rightarrow> 'k) \<Rightarrow> 'e list \<Rightarrow> nat \<Rightarrow> nat \<Rightarrow> 'k \<Rightarrow> nat \<times> nat" where
  "std_equal_range lt key xs b e k =
     (std_lower_bound lt key xs b e k, std_upper_bound lt key xs b e k)"

lemma part_point_bounds: "first \<le> part_point p xs first cnt \<and> part_point p xs first cnt \<le> first + cnt"
proof (induction p xs first cnt rule: part_point.induct)
  case (1 p xs first cnt)
  show ?case
  proof (cases "cnt = 0")
    case True then show ?thesis by (simp add: part_point.simps)
  next
    case False
    let ?s = "cnt div 2"
    have s: "?s < cnt" using False by simp
    show ?thesis
    proof (cases "p (xs ! (first + ?s))")
      case True
      then show ?thesis using 1(1)[OF False refl True] s False
        by (subst (1 2) part_point.simps) (auto simp: Let_def)
    next
      case f: False
      then show ?thesis using 1(2)[OF False refl f] s False
        by (subst (1 2) part_point.simps) (auto simp: Let_def)
    qed
  qed
qed

lemma part_point_split:
  assumes "\<And>i j. first \<le> i \<Longrightarrow> i \<le> j \<Longrightarrow> j < first + cnt \<Longrightarrow> p (xs ! j) \<Longrightarrow> p (xs ! i)"
    and "first \<le> i" "i < first + cnt"
  shows "p (xs ! i) \<longleftrightarrow> i < part_point p xs first cnt"
  using assms
proof (induction p xs first cnt rule: part_point.induct)
  case (1 p xs first cnt)
  let ?s = "cnt div 2"
  have c: "cnt \<noteq> 0" using 1 by auto
  then have s: "?s < cnt" by simp
  show ?case
  proof (cases "p (xs ! (first + ?s))")
    case True
    have eq: "part_point p xs first cnt = part_point p xs (first + ?s + 1) (cnt - (?s + 1))"
      using c True by (subst part_point.simps) (simp add: Let_def)
    show ?thesis
    proof (cases "i \<le> first + ?s")
      case le: True
      then show ?thesis
        using 1(3)[of i "first + ?s"] 1(4) True s part_point_bounds[of "first + ?s + 1" p xs]
        unfolding eq by (metis add_strict_left_mono less_eq_Suc_le Suc_eq_plus1 le_trans not_less
            part_point_bounds)
    next
      case False
      show ?thesis
        unfolding eq
        by (rule 1(1)[OF c refl True]) (use False 1(3-5) in auto)
    qed
  next
    case f: False
    have eq: "part_point p xs first cnt = part_point p xs first ?s"
      using c f by (subst part_point.simps) (simp add: Let_def)
    show ?thesis
    proof (cases "i < first + ?s")
      case True
      show ?thesis
        unfolding eq by (rule 1(2)[OF c refl f]) (use True s 1(3-5) in auto)
    next
      case False
      then have "\<not> p (xs ! i)" using 1(3)[of "first + ?s" i] 1(5) f by auto
      then show ?thesis using False part_point_bounds[of first p xs ?s] unfolding eq by auto
    qed
  qed
qed

section \<open>Vectors\<close>

definition vector_insert :: "nat \<Rightarrow> 'a \<Rightarrow> 'a list \<Rightarrow> 'a list" where
  "vector_insert p x xs = take p xs @ x # drop p xs"

definition vector_erase :: "nat \<Rightarrow> 'a list \<Rightarrow> 'a list" where
  "vector_erase p xs = take p xs @ drop (p + 1) xs"

definition vector_erase_range :: "nat \<Rightarrow> nat \<Rightarrow> 'a list \<Rightarrow> 'a list" where
  "vector_erase_range f t xs = take f xs @ drop t xs"

fun std_insort :: "('k \<Rightarrow> 'k \<Rightarrow> bool) \<Rightarrow> ('e \<Rightarrow> 'k) \<Rightarrow> 'e \<Rightarrow> 'e list \<Rightarrow> 'e list" where
  "std_insort lt key x [] = [x]"
| "std_insort lt key x (y # ys) =
     (if lt (key y) (key x) then y # std_insort lt key x ys else x # y # ys)"

text \<open>A result \<^verbatim>\<open>std::sort\<close> may give; it is the only one when all keys differ.\<close>

definition std_sort :: "('k \<Rightarrow> 'k \<Rightarrow> bool) \<Rightarrow> ('e \<Rightarrow> 'k) \<Rightarrow> 'e list \<Rightarrow> 'e list" where
  "std_sort lt key xs = foldr (std_insort lt key) xs []"

lemma mset_std_insort [simp]: "mset (std_insort lt key x ys) = add_mset x (mset ys)"
  by (induction ys) auto

lemma mset_std_sort [simp]: "mset (std_sort lt key xs) = mset xs"
  by (induction xs) (auto simp: std_sort_def)

lemma set_std_sort [simp]: "set (std_sort lt key xs) = set xs"
  by (metis mset_std_sort set_mset_mset)

lemma map_vector_ops:
  "map f (vector_insert p x xs) = vector_insert p (f x) (map f xs)"
  "map f (vector_erase p xs) = vector_erase p (map f xs)"
  "map f (vector_erase_range p q xs) = vector_erase_range p q (map f xs)"
  by (simp_all add: vector_insert_def vector_erase_def vector_erase_range_def take_map drop_map)

lemma length_vector_ops:
  "length (vector_insert p x xs) = Suc (length xs)"
  "p < length xs \<Longrightarrow> length (vector_erase p xs) = length xs - 1"
  by (auto simp: vector_insert_def vector_erase_def)

lemma set_vector_insert [simp]: "set (vector_insert p x xs) = insert x (set xs)"
  by (metis Un_insert_right append_take_drop_id list.simps(15) set_append vector_insert_def)

lemma set_vector_erase:
  assumes "distinct xs" "p < length xs"
  shows "set (vector_erase p xs) = set xs - {xs ! p}"
proof -
  have xs: "xs = take p xs @ xs ! p # drop (p + 1) xs"
    using assms(2) by (simp add: id_take_nth_drop)
  then have "set xs = insert (xs ! p) (set (vector_erase p xs))"
    unfolding vector_erase_def by (metis Un_insert_right list.simps(15) set_append)
  moreover have "xs ! p \<notin> set (vector_erase p xs)"
    using assms(1) xs unfolding vector_erase_def
    by (metis distinct_append distinct.simps(2) disjoint_iff list.set_intros(1) set_append Un_iff)
  ultimately show ?thesis by auto
qed

lemma sorted_wrt_take_drop: "sorted_wrt r xs \<Longrightarrow> p \<le> q \<Longrightarrow> sorted_wrt r (take p xs @ drop q xs)"
  unfolding sorted_wrt_append
  by (auto simp: sorted_wrt_take sorted_wrt_drop in_set_conv_nth sorted_wrt_nth_less)

lemma sorted_wrt_vector_erase: "sorted_wrt r xs \<Longrightarrow> sorted_wrt r (vector_erase p xs)"
  by (simp add: vector_erase_def sorted_wrt_take_drop)

section \<open>Searching and updating sorted vectors\<close>

context strict_compare
begin

text \<open>In a sorted range the bounds split the elements by the order.\<close>

lemma lower_bound_range:
  assumes "sorted_wrt before (map key xs)" "b \<le> e" "e \<le> length xs"
  shows "b \<le> std_lower_bound before key xs b e k" "std_lower_bound before key xs b e k \<le> e"
    and "b \<le> i \<Longrightarrow> i < e \<Longrightarrow> before (key (xs ! i)) k \<longleftrightarrow> i < std_lower_bound before key xs b e k"
proof -
  show "b \<le> std_lower_bound before key xs b e k" "std_lower_bound before key xs b e k \<le> e"
    using part_point_bounds[of b "\<lambda>x. before (key x) k" xs "e - b"] assms(2)
    by (auto simp: std_lower_bound_def)
  have "before (key (xs ! j)) k \<Longrightarrow> before (key (xs ! i)) k" if "i \<le> j" "j < e" for i j
  proof (cases "i = j")
    case False
    then have "before (key (xs ! i)) (key (xs ! j))"
      using assms(1,3) that by (auto simp: sorted_wrt_iff_nth_less)
    then show "before (key (xs ! j)) k \<Longrightarrow> before (key (xs ! i)) k" by (rule transitive)
  qed simp
  then show "b \<le> i \<Longrightarrow> i < e \<Longrightarrow> before (key (xs ! i)) k \<longleftrightarrow> i < std_lower_bound before key xs b e k"
    unfolding std_lower_bound_def using assms(2) by (intro part_point_split) auto
qed

lemma upper_bound_range:
  assumes "sorted_wrt before (map key xs)" "b \<le> e" "e \<le> length xs"
  shows "b \<le> std_upper_bound before key xs b e k" "std_upper_bound before key xs b e k \<le> e"
    and "b \<le> i \<Longrightarrow> i < e \<Longrightarrow> \<not> before k (key (xs ! i)) \<longleftrightarrow> i < std_upper_bound before key xs b e k"
proof -
  show "b \<le> std_upper_bound before key xs b e k" "std_upper_bound before key xs b e k \<le> e"
    using part_point_bounds[of b "\<lambda>x. \<not> before k (key x)" xs "e - b"] assms(2)
    by (auto simp: std_upper_bound_def)
  have "\<not> before k (key (xs ! j)) \<Longrightarrow> \<not> before k (key (xs ! i))" if "i \<le> j" "j < e" for i j
  proof (cases "i = j")
    case False
    then have "before (key (xs ! i)) (key (xs ! j))"
      using assms(1,3) that by (auto simp: sorted_wrt_iff_nth_less)
    then show "\<not> before k (key (xs ! j)) \<Longrightarrow> \<not> before k (key (xs ! i))" using transitive by blast
  qed simp
  then show "b \<le> i \<Longrightarrow> i < e \<Longrightarrow> \<not> before k (key (xs ! i)) \<longleftrightarrow> i < std_upper_bound before key xs b e k"
    unfolding std_upper_bound_def using assms(2) by (intro part_point_split) auto
qed

text \<open>The position where a key is, or where it has to be inserted.\<close>

lemma lower_bound_member:
  fixes k :: 'a
  assumes "sorted_wrt before (map key xs)"
  defines "p \<equiv> std_lower_bound before key xs 0 (length xs) k"
  shows "k \<in> key ` set xs \<longleftrightarrow> p < length xs \<and> key (xs ! p) = k"
proof -
  note lb = lower_bound_range[OF assms(1), where b = 0 and e = "length xs" and k = k, folded p_def, simplified]
  show ?thesis
  proof
    assume "k \<in> key ` set xs"
    then obtain i where i: "i < length xs" "key (xs ! i) = k" by (auto simp: in_set_conv_nth)
    then have "p \<le> i" using lb(3)[of i] irrefl by auto
    moreover have "p = i"
    proof (rule ccontr)
      assume "p \<noteq> i"
      then have "before (key (xs ! p)) k"
        using \<open>p \<le> i\<close> i assms(1) by (auto simp: sorted_wrt_iff_nth_less)
      then show False using lb(3)[of p] \<open>p \<le> i\<close> i by auto
    qed
    ultimately show "p < length xs \<and> key (xs ! p) = k" using i by simp
  qed (metis image_eqI nth_mem)
qed

lemma sorted_vector_insert:
  assumes "sorted_wrt before (map key xs)" "key x \<notin> key ` set xs" "p \<le> length xs"
    and "\<And>i. i < length xs \<Longrightarrow> before (key (xs ! i)) (key x) \<longleftrightarrow> i < p"
  shows "sorted_wrt before (map key (vector_insert p x xs))"
proof -
  have after: "before (key x) (key (xs ! i))" if "i < length xs" "p \<le> i" for i
    using assms(2,4) that comparable[of "key x" "key (xs ! i)"] by force
  have "sorted_wrt before (map key (take p xs @ drop p xs))" using assms(1) by simp
  then show ?thesis
    unfolding vector_insert_def map_append list.map
    using assms(3,4) after
    by (auto simp: sorted_wrt_append in_set_conv_nth)
qed

lemma sorted_std_insort:
  assumes "sorted_wrt before (map key xs)" "key x \<notin> key ` set xs"
  shows "sorted_wrt before (map key (std_insort before key x xs))"
proof -
  have "set (std_insort before key x ys) = insert x (set ys)" for ys
    by (metis mset_std_insort set_mset_add_mset_insert set_mset_mset)
  with assms show ?thesis
  proof (induction xs)
    case (Cons y ys)
    then show ?case using comparable[of "key x" "key y"] transitive by auto
  qed simp
qed

lemma sorted_std_sort:
  assumes "distinct (map key xs)"
  shows "sorted_wrt before (map key (std_sort before key xs))"
proof -
  have "set (foldr (std_insort before key) ys []) = set ys" for ys :: "'b list"
    using set_std_sort[of before key ys] by (simp add: std_sort_def)
  with assms show ?thesis
    by (induction xs) (auto simp: std_sort_def intro!: sorted_std_insort)
qed

end

section \<open>Refinement of sequences of operations\<close>

primrec run_ops :: "('o \<Rightarrow> 's \<Rightarrow> 's option) \<Rightarrow> 'o list \<Rightarrow> 's \<Rightarrow> 's option" where
  "run_ops step [] s = Some s"
| "run_ops step (op # ops) s = Option.bind (step op s) (run_ops step ops)"

text \<open>An implementation whose every operation succeeds exactly when the specified one does and
  then represents the specified result.\<close>

locale op_refinement =
  fixes invar :: "'s \<Rightarrow> bool" and repr :: "'s \<Rightarrow> 'a"
    and impl :: "'o \<Rightarrow> 's \<Rightarrow> 's option" and spec :: "'o \<Rightarrow> 'a \<Rightarrow> 'a option"
  assumes simulates: "invar s \<Longrightarrow> rel_option (\<lambda>s' x. invar s' \<and> repr s' = x) (impl op s) (spec op (repr s))"
begin

lemma run_simulates:
  "invar s \<Longrightarrow> rel_option (\<lambda>s' x. invar s' \<and> repr s' = x) (run_ops impl ops s) (run_ops spec ops (repr s))"
proof (induction ops arbitrary: s)
  case (Cons op ops)
  show ?case
    using simulates[OF Cons.prems, of op] Cons.IH
    by (cases "impl op s"; cases "spec op (repr s)") auto
qed simp

lemma run_represents:
  assumes "invar s"
  shows "map_option repr (run_ops impl ops s) = run_ops spec ops (repr s)"
    and "run_ops impl ops s = Some s' \<Longrightarrow> invar s'"
  using run_simulates[OF assms, of ops] by (auto simp: option_rel_Some1 elim: option.rel_cases)

end

text \<open>Specifications that leave results open: which results an operation allows, and which results
  a sequence of operations does.\<close>

primrec run_allowed :: "('o \<Rightarrow> 'a \<Rightarrow> 'a option \<Rightarrow> bool) \<Rightarrow> 'o list \<Rightarrow> 'a \<Rightarrow> 'a option \<Rightarrow> bool" where
  "run_allowed allowed [] x r = (r = Some x)"
| "run_allowed allowed (op # ops) x r =
     (\<exists>r'. allowed op x r' \<and> (case r' of None \<Rightarrow> r = None | Some y \<Rightarrow> run_allowed allowed ops y r))"

locale op_simulation =
  fixes invar :: "'s \<Rightarrow> bool" and repr :: "'s \<Rightarrow> 'a"
    and impl :: "'o \<Rightarrow> 's \<Rightarrow> 's option" and allowed :: "'o \<Rightarrow> 'a \<Rightarrow> 'a option \<Rightarrow> bool"
  assumes allows: "invar s \<Longrightarrow> allowed op (repr s) (map_option repr (impl op s))"
    and keeps: "invar s \<Longrightarrow> impl op s = Some s' \<Longrightarrow> invar s'"
begin

lemma run_allows: "invar s \<Longrightarrow> run_allowed allowed ops (repr s) (map_option repr (run_ops impl ops s))"
proof (induction ops arbitrary: s)
  case (Cons op ops)
  show ?case
    using allows[OF Cons.prems, of op] Cons.IH[OF keeps[OF Cons.prems, of op]]
    by (cases "impl op s") (auto intro!: exI[of _ "map_option repr (impl op s)"])
qed simp

lemma run_keeps: "invar s \<Longrightarrow> run_ops impl ops s = Some s' \<Longrightarrow> invar s'"
proof (induction ops arbitrary: s)
  case (Cons op ops)
  then show ?case using keeps by (cases "impl op s") auto
qed simp

end

text \<open>What \<^verbatim>\<open>resize\<close> promises of the elements: there are \<open>n\<close> of them, and they start as before.\<close>

definition resized :: "nat \<Rightarrow> 'a list \<Rightarrow> 'a list \<Rightarrow> bool" where
  "resized n xs ys \<longleftrightarrow> length ys = n \<and> take (length xs) ys = take n xs"

end
