(* ===== verification/Network_Sort.thy ===== *)
theory Network_Sort
  imports Std_Algorithm
begin

text \<open>
  \<^verbatim>\<open>source/modules/eagine/utility/network_sort.cpp\<close>: sorting arrays of a fixed size with
  sorting networks, one round after the other between two arrays. A network gives for every
  round \<open>r\<close> and wire \<open>i\<close> the wire to compare with and which of the two gets the smaller value.
  The order \<^verbatim>\<open>Compare\<close> is an argument.
\<close>

section \<open>Bitonic networks\<close>

function next_log :: "nat \<Rightarrow> nat \<Rightarrow> nat" where
  "next_log n pot = (if 0 < pot \<and> n > pot then 1 + next_log n (2 * pot) else 0)"
  by pat_completeness auto
termination
  by (relation "measure (\<lambda>(n, pot). n - pot)") auto

declare next_log.simps [simp del]

fun hlp :: "nat \<Rightarrow> nat" where
  "hlp n = (if n = 0 then 0 else n + hlp (n - 1))"

declare hlp.simps [simp del]

definition num_rounds_for :: "nat \<Rightarrow> nat" where
  "num_rounds_for n = hlp (next_log n 1)"

text \<open>The entry \<^verbatim>\<open>row[i]\<close> that \<^verbatim>\<open>_fill_idx\<close> computes for the loop counters \<open>k\<close> and \<open>m\<close>.\<close>

definition bitonic_entry :: "nat \<Rightarrow> nat \<Rightarrow> nat \<Rightarrow> nat \<Rightarrow> nat" where
  "bitonic_entry N k m i =
     (let d = 2 ^ (k - m);
          inv = drop_bit 1 (drop_bit k i AND 2);
          j = (if i AND d = 0 then i + d else i - d);
          j = (if j \<ge> N then i else j)
      in push_bit 1 j OR inv)"

definition fill_idx :: "nat \<Rightarrow> nat list list" where
  "fill_idx N =
     concat (map (\<lambda>k. map (\<lambda>m. map (bitonic_entry N k m) [0..<N]) [0..<k + 1]) [0..<next_log N 1])"

section \<open>Manual networks\<close>

text \<open>The tables of the specialisations of \<^verbatim>\<open>manual_sorting_network_base\<close>.\<close>

definition manual_idx_1 :: "nat list list" where
  "manual_idx_1 =
     [[0]]"

definition manual_idx_2 :: "nat list list" where
  "manual_idx_2 =
     [[1, 0]]"

definition manual_idx_3 :: "nat list list" where
  "manual_idx_3 =
     [[1, 0, 2],
      [0, 2, 1],
      [1, 0, 2]]"

definition manual_idx_4 :: "nat list list" where
  "manual_idx_4 =
     [[1, 0, 3, 2],
      [2, 3, 0, 1],
      [0, 2, 1, 3]]"

definition manual_idx_5 :: "nat list list" where
  "manual_idx_5 =
     [[1, 0, 3, 2, 4],
      [0, 3, 4, 1, 2],
      [2, 4, 0, 3, 1],
      [0, 2, 1, 4, 3],
      [0, 1, 3, 2, 4]]"

definition manual_idx_6 :: "nat list list" where
  "manual_idx_6 =
     [[1, 0, 3, 2, 5, 4],
      [2, 4, 0, 5, 1, 3],
      [1, 0, 3, 2, 5, 4],
      [0, 2, 1, 4, 3, 5],
      [0, 1, 3, 2, 4, 5]]"

definition manual_idx_7 :: "nat list list" where
  "manual_idx_7 =
     [[1, 0, 3, 2, 5, 4, 6],
      [2, 3, 0, 1, 6, 5, 4],
      [4, 5, 6, 3, 0, 1, 2],
      [0, 4, 2, 6, 1, 5, 3],
      [0, 1, 4, 5, 2, 3, 6],
      [0, 2, 1, 4, 3, 6, 5]]"

definition manual_idx_8 :: "nat list list" where
  "manual_idx_8 =
     [[1, 0, 3, 2, 5, 4, 7, 6],
      [2, 3, 0, 1, 6, 7, 4, 5],
      [4, 2, 1, 7, 0, 6, 5, 3],
      [0, 5, 6, 3, 4, 1, 2, 7],
      [0, 1, 4, 5, 2, 3, 6, 7],
      [0, 2, 1, 4, 3, 6, 5, 7]]"

definition manual_idx_9 :: "nat list list" where
  "manual_idx_9 =
     [[7, 6, 5, 4, 3, 2, 1, 0, 8],
      [3, 2, 1, 0, 7, 5, 8, 4, 6],
      [1, 0, 6, 4, 3, 8, 2, 7, 5],
      [0, 2, 1, 5, 6, 3, 4, 8, 7],
      [0, 3, 4, 1, 2, 7, 6, 5, 8],
      [1, 0, 3, 2, 5, 4, 7, 6, 8],
      [0, 1, 2, 4, 3, 6, 5, 7, 8]]"

definition manual_idx_10 :: "nat list list" where
  "manual_idx_10 =
     [[1, 0, 3, 2, 5, 4, 7, 6, 9, 8],
      [5, 8, 6, 7, 9, 0, 2, 3, 1, 4],
      [2, 4, 0, 6, 1, 8, 3, 9, 5, 7],
      [1, 0, 7, 5, 6, 3, 4, 2, 9, 8],
      [0, 3, 4, 1, 2, 7, 8, 5, 6, 9],
      [0, 2, 1, 4, 3, 6, 5, 8, 7, 9],
      [0, 1, 3, 2, 5, 4, 7, 6, 8, 9]]"

definition manual_idx_11 :: "nat list list" where
  "manual_idx_11 =
     [[0, 10, 9, 8, 7, 6, 5, 4, 3, 2, 1],
      [6, 4, 3, 2, 1, 5, 0, 10, 9, 8, 7],
      [1, 0, 5, 4, 3, 2, 6, 8, 7, 10, 9],
      [2, 5, 0, 3, 6, 1, 4, 7, 9, 8, 10],
      [0, 8, 3, 2, 7, 9, 10, 4, 1, 5, 6],
      [0, 4, 2, 5, 1, 3, 9, 8, 7, 6, 10],
      [0, 2, 1, 4, 3, 7, 8, 5, 6, 9, 10],
      [0, 1, 3, 2, 5, 4, 7, 6, 8, 9, 10]]"

definition manual_idx_12 :: "nat list list" where
  "manual_idx_12 =
     [[6, 7, 8, 9, 10, 11, 0, 1, 2, 3, 4, 5],
      [3, 4, 5, 0, 1, 2, 9, 10, 11, 6, 7, 8],
      [1, 0, 2, 6, 5, 4, 3, 8, 7, 9, 11, 10],
      [0, 2, 1, 4, 3, 8, 7, 6, 5, 10, 9, 11],
      [1, 0, 9, 6, 5, 4, 3, 8, 7, 2, 11, 10],
      [0, 3, 6, 1, 7, 9, 2, 4, 10, 5, 8, 11],
      [0, 1, 3, 2, 6, 7, 4, 5, 9, 8, 10, 11],
      [0, 1, 2, 4, 3, 6, 5, 8, 7, 9, 10, 11]]"

definition manual_idx_14 :: "nat list list" where
  "manual_idx_14 =
     [[13, 12, 11, 10, 9, 8, 7, 6, 5, 4, 3, 2, 1, 0],
      [5, 4, 3, 2, 1, 0, 6, 7, 13, 12, 11, 10, 9, 8],
      [1, 0, 2, 6, 5, 4, 3, 10, 9, 8, 7, 11, 13, 12],
      [0, 7, 8, 4, 3, 11, 12, 1, 2, 10, 9, 5, 6, 13],
      [3, 2, 1, 0, 9, 8, 7, 6, 5, 4, 13, 12, 11, 10],
      [1, 0, 3, 2, 8, 7, 9, 5, 4, 6, 11, 10, 13, 12],
      [0, 2, 1, 5, 6, 3, 4, 9, 10, 7, 8, 12, 11, 13],
      [0, 1, 2, 4, 3, 6, 5, 8, 7, 10, 9, 11, 12, 13],
      [0, 1, 3, 2, 5, 4, 7, 6, 9, 8, 11, 10, 12, 13]]"

definition manual_idx_16 :: "nat list list" where
  "manual_idx_16 =
     [[15, 14, 13, 12, 11, 10, 9, 8, 7, 6, 5, 4, 3, 2, 1, 0],
      [7, 6, 5, 4, 3, 2, 1, 0, 15, 14, 13, 12, 11, 10, 9, 8],
      [3, 2, 1, 0, 7, 6, 5, 4, 11, 10, 9, 8, 15, 14, 13, 12],
      [1, 0, 8, 9, 5, 4, 12, 13, 2, 3, 11, 10, 6, 7, 15, 14],
      [0, 4, 3, 2, 1, 10, 9, 8, 7, 6, 5, 14, 13, 12, 11, 15],
      [0, 2, 1, 4, 3, 9, 8, 10, 6, 5, 7, 12, 11, 14, 13, 15],
      [0, 1, 3, 2, 6, 7, 4, 5, 10, 11, 8, 9, 13, 12, 14, 15],
      [0, 1, 2, 3, 5, 4, 7, 6, 9, 8, 11, 10, 12, 13, 14, 15],
      [0, 1, 2, 4, 3, 6, 5, 8, 7, 11, 9, 12, 11, 13, 14, 15]]"

definition manual_idx :: "nat \<Rightarrow> nat list list option" where
  "manual_idx N =
     (if N = 1 then Some manual_idx_1
      else if N = 2 then Some manual_idx_2
      else if N = 3 then Some manual_idx_3
      else if N = 4 then Some manual_idx_4
      else if N = 5 then Some manual_idx_5
      else if N = 6 then Some manual_idx_6
      else if N = 7 then Some manual_idx_7
      else if N = 8 then Some manual_idx_8
      else if N = 9 then Some manual_idx_9
      else if N = 10 then Some manual_idx_10
      else if N = 11 then Some manual_idx_11
      else if N = 12 then Some manual_idx_12
      else if N = 14 then Some manual_idx_14
      else if N = 16 then Some manual_idx_16
      else None)"

section \<open>Networks\<close>

text \<open>A manual network is its table of indices, a bitonic one that of \<^verbatim>\<open>_fill_idx\<close>.\<close>

datatype network = Manual "nat list list" | Bitonic "nat list list"

definition sorting_network :: "nat \<Rightarrow> network" where
  "sorting_network N = (case manual_idx N of Some t \<Rightarrow> Manual t | None \<Rightarrow> Bitonic (fill_idx N))"

fun net_rounds :: "network \<Rightarrow> nat" where
  "net_rounds (Manual t) = length t"
| "net_rounds (Bitonic t) = length t"

fun net_index :: "network \<Rightarrow> nat \<Rightarrow> nat \<Rightarrow> nat" where
  "net_index (Manual t) r i = t ! r ! i"
| "net_index (Bitonic t) r i = drop_bit 1 (t ! r ! i)"

fun net_inv :: "network \<Rightarrow> nat \<Rightarrow> nat \<Rightarrow> bool" where
  "net_inv (Manual t) r i = False"
| "net_inv (Bitonic t) r i = ((t ! r ! i) AND 1 = 1)"

definition net_min :: "network \<Rightarrow> nat \<Rightarrow> nat \<Rightarrow> nat \<Rightarrow> bool" where
  "net_min n r i j = (if net_inv n r i then i > j else i < j)"

definition net_max :: "network \<Rightarrow> nat \<Rightarrow> nat \<Rightarrow> nat \<Rightarrow> bool" where
  "net_max n r i j = (if net_inv n r i then i < j else i > j)"

section \<open>The sorter\<close>

definition sorter_min :: "('a \<Rightarrow> 'a \<Rightarrow> bool) \<Rightarrow> 'a \<Rightarrow> 'a \<Rightarrow> 'a" where
  "sorter_min before a b = (if before a b then a else b)"

definition sorter_max :: "('a \<Rightarrow> 'a \<Rightarrow> bool) \<Rightarrow> 'a \<Rightarrow> 'a \<Rightarrow> 'a" where
  "sorter_max before a b = (if before a b then b else a)"

definition min_max_cpy :: "('a \<Rightarrow> 'a \<Rightarrow> bool) \<Rightarrow> 'a \<Rightarrow> 'a \<Rightarrow> bool \<Rightarrow> bool \<Rightarrow> 'a" where
  "min_max_cpy before a b mn mx =
     (if mn then sorter_min before a b else if mx then sorter_max before a b else a)"

definition single_sort_step ::
    "('a \<Rightarrow> 'a \<Rightarrow> bool) \<Rightarrow> network \<Rightarrow> 'a list \<Rightarrow> 'a list \<Rightarrow> nat \<Rightarrow> nat \<Rightarrow> 'a list" where
  "single_sort_step before sn src dst r i =
     (let j = net_index sn r i
      in dst[i := min_max_cpy before (src ! i) (src ! j) (net_min sn r i j) (net_max sn r i j)])"

record 'a network_sorter =
  ns_round :: nat
  ns_a :: "'a list \<times> 'a list"

definition make_sorter :: "'a list \<Rightarrow> 'a network_sorter" where
  "make_sorter a = \<lparr>ns_round = 0, ns_a = (a, a)\<rparr>"

definition sorter_done :: "network \<Rightarrow> 'a network_sorter \<Rightarrow> bool" where
  "sorter_done sn s = (ns_round s \<ge> net_rounds sn)"

definition next_round :: "network \<Rightarrow> 'a network_sorter \<Rightarrow> bool \<times> 'a network_sorter" where
  "next_round sn s =
     (if sorter_done sn s then (False, s)
      else (let s' = s\<lparr>ns_round := ns_round s + 1\<rparr> in (ns_round s' < net_rounds sn, s')))"

definition sort_single ::
    "('a \<Rightarrow> 'a \<Rightarrow> bool) \<Rightarrow> network \<Rightarrow> nat \<Rightarrow> nat \<Rightarrow> 'a network_sorter \<Rightarrow> 'a network_sorter" where
  "sort_single before sn r i s =
     (case ns_a s of (a0, a1) \<Rightarrow>
        if r mod 2 = 0 then s\<lparr>ns_a := (a0, single_sort_step before sn a0 a1 r i)\<rparr>
        else s\<lparr>ns_a := (single_sort_step before sn a1 a0 r i, a1)\<rparr>)"

text \<open>\<open>None\<close> where the assertion fails.\<close>

definition sort_round ::
    "('a \<Rightarrow> 'a \<Rightarrow> bool) \<Rightarrow> network \<Rightarrow> nat \<Rightarrow> 'a network_sorter \<Rightarrow> 'a network_sorter option" where
  "sort_round before sn N s =
     (if sorter_done sn s then None
      else Some (fold (\<lambda>i s. sort_single before sn (ns_round s) i s) [0..<N] s))"

partial_function (option) sorter_sort ::
    "('a \<Rightarrow> 'a \<Rightarrow> bool) \<Rightarrow> network \<Rightarrow> nat \<Rightarrow> 'a network_sorter \<Rightarrow> 'a network_sorter option" where
  "sorter_sort before sn N s =
     Option.bind (sort_round before sn N s) (\<lambda>s'.
       case next_round sn s' of (again, s'') \<Rightarrow>
         if again then sorter_sort before sn N s'' else Some s'')"

definition sorter_result :: "network \<Rightarrow> 'a network_sorter \<Rightarrow> 'a list" where
  "sorter_result sn s = (case ns_a s of (a0, a1) \<Rightarrow> if net_rounds sn mod 2 = 0 then a0 else a1)"

definition network_sort :: "nat \<Rightarrow> ('a \<Rightarrow> 'a \<Rightarrow> bool) \<Rightarrow> 'a list \<Rightarrow> 'a list option" where
  "network_sort N before spn =
     (if length spn = N
      then map_option (sorter_result (sorting_network N))
             (sorter_sort before (sorting_network N) N (make_sorter spn))
      else None)"

section \<open>One round\<close>

text \<open>What a round writes to every wire, as a function of the array it reads.\<close>

definition step_value :: "('a \<Rightarrow> 'a \<Rightarrow> bool) \<Rightarrow> network \<Rightarrow> nat \<Rightarrow> 'a list \<Rightarrow> nat \<Rightarrow> 'a" where
  "step_value before sn r src i =
     (let j = net_index sn r i
      in min_max_cpy before (src ! i) (src ! j) (net_min sn r i j) (net_max sn r i j))"

definition round_values :: "('a \<Rightarrow> 'a \<Rightarrow> bool) \<Rightarrow> network \<Rightarrow> nat \<Rightarrow> nat \<Rightarrow> 'a list \<Rightarrow> 'a list" where
  "round_values before sn N r src = map (step_value before sn r src) [0..<N]"

definition run_rounds :: "('a \<Rightarrow> 'a \<Rightarrow> bool) \<Rightarrow> network \<Rightarrow> nat \<Rightarrow> 'a list \<Rightarrow> 'a list" where
  "run_rounds before sn N xs =
     fold (\<lambda>r xs. round_values before sn N r xs) [0..<net_rounds sn] xs"

lemma length_round_values [simp]: "length (round_values before sn N r src) = N"
  by (simp add: round_values_def)

lemma single_sort_step_value:
  "single_sort_step before sn src dst r i = dst[i := step_value before sn r src i]"
  by (simp add: single_sort_step_def step_value_def Let_def)

lemma length_fold_updates [simp]: "length (fold (\<lambda>i d. d[i := f i]) is d) = length d"
  by (induction "is" arbitrary: d) auto

lemma nth_fold_updates:
  "k < length d \<Longrightarrow> fold (\<lambda>i d. d[i := f i]) is d ! k = (if k \<in> set is then f k else d ! k)"
  by (induction "is" arbitrary: d) (auto simp: nth_list_update)

lemma fold_updates_all:
  assumes "set is = {0..<N}" "length d = N"
  shows "fold (\<lambda>i d. d[i := f i]) is d = map f [0..<N]"
  using assms by (intro nth_equalityI) (auto simp: nth_fold_updates)

lemma ns_round_sort_single [simp]: "ns_round (sort_single before sn r i s) = ns_round s"
  by (simp add: sort_single_def split: prod.split)

lemma fold_sort_single_even:
  "ns_a s = (a0, a1) \<Longrightarrow> even (ns_round s) \<Longrightarrow>
   fold (\<lambda>i s. sort_single before sn (ns_round s) i s) is s =
   s\<lparr>ns_a := (a0, fold (\<lambda>i d. d[i := step_value before sn (ns_round s) a0 i]) is a1)\<rparr>"
proof (induction "is" arbitrary: s a1)
  case Nil then show ?case by simp
next
  case (Cons i "is")
  have e: "sort_single before sn (ns_round s) i s =
      s\<lparr>ns_a := (a0, a1[i := step_value before sn (ns_round s) a0 i])\<rparr>" (is "_ = ?s'")
    using Cons.prems by (simp add: sort_single_def single_sort_step_value even_iff_mod_2_eq_zero)
  show ?case
    using Cons.prems Cons.IH[of ?s' "a1[i := step_value before sn (ns_round s) a0 i]"] by (simp add: e)
qed

lemma fold_sort_single_odd:
  "ns_a s = (a0, a1) \<Longrightarrow> odd (ns_round s) \<Longrightarrow>
   fold (\<lambda>i s. sort_single before sn (ns_round s) i s) is s =
   s\<lparr>ns_a := (fold (\<lambda>i d. d[i := step_value before sn (ns_round s) a1 i]) is a0, a1)\<rparr>"
proof (induction "is" arbitrary: s a0)
  case Nil then show ?case by simp
next
  case (Cons i "is")
  have e: "sort_single before sn (ns_round s) i s =
      s\<lparr>ns_a := (a0[i := step_value before sn (ns_round s) a1 i], a1)\<rparr>" (is "_ = ?s'")
    using Cons.prems by (simp add: sort_single_def single_sort_step_value odd_iff_mod_2_eq_one)
  show ?case
    using Cons.prems Cons.IH[of ?s' "a0[i := step_value before sn (ns_round s) a1 i]"] by (simp add: e)
qed

text \<open>The array the round number says the next round reads.\<close>

definition current :: "'a network_sorter \<Rightarrow> 'a list" where
  "current s = (if even (ns_round s) then fst (ns_a s) else snd (ns_a s))"

definition sized :: "nat \<Rightarrow> 'a network_sorter \<Rightarrow> bool" where
  "sized N s = (length (fst (ns_a s)) = N \<and> length (snd (ns_a s)) = N)"

lemma sort_round_any_order:
  assumes "sized N s" "set is = {0..<N}"
  shows "fold (\<lambda>i s. sort_single before sn (ns_round s) i s) is s =
    (if even (ns_round s)
     then s\<lparr>ns_a := (current s, round_values before sn N (ns_round s) (current s))\<rparr>
     else s\<lparr>ns_a := (round_values before sn N (ns_round s) (current s), current s)\<rparr>)"
proof -
  obtain a0 a1 where a: "ns_a s = (a0, a1)" by fastforce
  show ?thesis
    using assms(1) a fold_updates_all[OF assms(2), of a0 "step_value before sn (ns_round s) a1"]
      fold_updates_all[OF assms(2), of a1 "step_value before sn (ns_round s) a0"]
    by (simp add: fold_sort_single_even[OF a] fold_sort_single_odd[OF a] sized_def current_def
        round_values_def)
qed

lemma sort_round_next:
  assumes "sized N s" "ns_round s < net_rounds sn"
  obtains s' s'' where "sort_round before sn N s = Some s'"
    "next_round sn s' = (ns_round s + 1 < net_rounds sn, s'')" "ns_round s'' = ns_round s + 1"
    "sized N s''" "current s'' = round_values before sn N (ns_round s) (current s)"
proof -
  define s' where "s' = fold (\<lambda>i s. sort_single before sn (ns_round s) i s) [0..<N] s"
  have s': "s' = (if even (ns_round s)
     then s\<lparr>ns_a := (current s, round_values before sn N (ns_round s) (current s))\<rparr>
     else s\<lparr>ns_a := (round_values before sn N (ns_round s) (current s), current s)\<rparr>)"
    unfolding s'_def using assms(1) by (rule sort_round_any_order) simp
  have r: "ns_round s' = ns_round s" by (simp add: s')
  have l: "length (current s) = N" using assms(1) by (auto simp: sized_def current_def)
  show ?thesis
  proof (rule that[of s' "s'\<lparr>ns_round := ns_round s + 1\<rparr>"])
    show "sort_round before sn N s = Some s'"
      using assms(2) by (simp add: sort_round_def sorter_done_def s'_def)
    show "next_round sn s' = (ns_round s + 1 < net_rounds sn, s'\<lparr>ns_round := ns_round s + 1\<rparr>)"
      using assms(2) by (simp add: next_round_def sorter_done_def r Let_def)
    show "sized N (s'\<lparr>ns_round := ns_round s + 1\<rparr>)" by (simp add: sized_def s' l)
    show "current (s'\<lparr>ns_round := ns_round s + 1\<rparr>) =
        round_values before sn N (ns_round s) (current s)" by (simp add: current_def s')
  qed simp
qed

lemma sorter_sort_result:
  assumes "sized N s" "ns_round s < net_rounds sn"
  shows "\<exists>s'. sorter_sort before sn N s = Some s' \<and>
    sorter_result sn s' =
      fold (\<lambda>r xs. round_values before sn N r xs) [ns_round s..<net_rounds sn] (current s)"
  using assms
proof (induction "net_rounds sn - ns_round s" arbitrary: s rule: less_induct)
  case less
  obtain s' s'' where step: "sort_round before sn N s = Some s'"
    "next_round sn s' = (ns_round s + 1 < net_rounds sn, s'')" "ns_round s'' = ns_round s + 1"
    "sized N s''" "current s'' = round_values before sn N (ns_round s) (current s)"
    by (rule sort_round_next[OF less.prems])
  have upt: "[ns_round s..<net_rounds sn] = ns_round s # [ns_round s + 1..<net_rounds sn]"
    using less.prems(2) by (simp add: upt_conv_Cons)
  show ?case
  proof (cases "ns_round s + 1 < net_rounds sn")
    case True
    have "\<exists>t. sorter_sort before sn N s'' = Some t \<and> sorter_result sn t =
        fold (\<lambda>r xs. round_values before sn N r xs) [ns_round s''..<net_rounds sn] (current s'')"
      by (rule less.hyps) (use True step in auto)
    then show ?thesis
      using True step by (subst sorter_sort.simps) (auto simp: upt)
  next
    case False
    then have "net_rounds sn = ns_round s''" using less.prems(2) step(3) by simp
    then have "sorter_result sn s'' = current s''"
      by (simp add: sorter_result_def current_def split_beta even_iff_mod_2_eq_zero)
    then show ?thesis
      using False step by (subst sorter_sort.simps) (auto simp: upt)
  qed
qed

lemma network_sort_runs:
  assumes "length xs = N" "0 < net_rounds (sorting_network N)"
  shows "network_sort N before xs = Some (run_rounds before (sorting_network N) N xs)"
  using sorter_sort_result[of N "make_sorter xs" "sorting_network N" before] assms
  by (auto simp: network_sort_def make_sorter_def sized_def current_def run_rounds_def)


section \<open>Permutation\<close>

text \<open>Rows of a network whose comparisons are symmetric.\<close>

definition row_symmetric :: "network \<Rightarrow> nat \<Rightarrow> nat \<Rightarrow> bool" where
  "row_symmetric sn N r =
     list_all (\<lambda>i. net_index sn r i < N \<and> net_index sn r (net_index sn r i) = i \<and>
       net_inv sn r (net_index sn r i) = net_inv sn r i) [0..<N]"

definition symmetric_network :: "network \<Rightarrow> nat \<Rightarrow> bool" where
  "symmetric_network sn N = list_all (row_symmetric sn N) [0..<net_rounds sn]"

lemma row_symmetricD:
  assumes "row_symmetric sn N r" "i < N"
  shows "net_index sn r i < N" "net_index sn r (net_index sn r i) = i"
    "net_inv sn r (net_index sn r i) = net_inv sn r i"
  using assms by (auto simp: row_symmetric_def list_all_iff)

context strict_compare
begin

lemma copy_pair:
  assumes "\<not> (mn \<and> mx)"
  shows "min_max_cpy before a b mn mx = a \<and> min_max_cpy before b a mx mn = b \<or>
         min_max_cpy before a b mn mx = b \<and> min_max_cpy before b a mx mn = a"
  using assms trichotomy[of a b]
  by (cases mn; cases mx) (auto simp: min_max_cpy_def sorter_min_def sorter_max_def)

text \<open>Every output of a round is the input of its wire or of the one it is compared with, and
  the two choices of a pair exclude each other.\<close>

lemma pair_values:
  assumes "row_symmetric sn N r" "i < N"
  defines "j \<equiv> net_index sn r i"
  shows "step_value before sn r src i = src ! i \<and> step_value before sn r src j = src ! j \<or>
         step_value before sn r src i = src ! j \<and> step_value before sn r src j = src ! i"
proof -
  have j: "net_index sn r j = i" "net_inv sn r j = net_inv sn r i"
    using row_symmetricD[OF assms(1,2)] by (auto simp: j_def)
  have "step_value before sn r src i =
      min_max_cpy before (src ! i) (src ! j) (net_min sn r i j) (net_max sn r i j)"
    by (simp add: step_value_def j_def Let_def)
  moreover have "step_value before sn r src j =
      min_max_cpy before (src ! j) (src ! i) (net_max sn r i j) (net_min sn r i j)"
    by (simp add: step_value_def j net_min_def net_max_def Let_def)
  moreover have "\<not> (net_min sn r i j \<and> net_max sn r i j)"
    by (simp add: net_min_def net_max_def)
  ultimately show ?thesis
    using copy_pair by simp
qed

lemma round_values_permutes:
  assumes sym: "row_symmetric sn N r" and len: "length src = N"
  shows "mset (round_values before sn N r src) = mset src"
proof -
  let ?idx = "net_index sn r" and ?v = "step_value before sn r src"
  define p where "p i = (if ?v i = src ! i then i else ?idx i)" for i
  have ok: "p i < N \<and> p (p i) = i \<and> ?v i = src ! p i" if i: "i < N" for i
    using pair_values[OF sym i, of src] row_symmetricD[OF sym i] i by (auto simp: p_def)
  have bij: "bij_betw p {0..<N} {0..<N}"
    by (rule bij_betw_byWitness[where f' = p]) (auto simp: ok)
  have "mset (round_values before sn N r src) = image_mset ?v (mset_set {0..<N})"
    by (simp add: round_values_def)
  also have "\<dots> = image_mset (\<lambda>i. src ! p i) (mset_set {0..<N})"
    by (rule image_mset_cong) (simp add: ok)
  also have "\<dots> = image_mset (\<lambda>i. src ! i) (image_mset p (mset_set {0..<N}))"
    by (simp add: multiset.map_comp comp_def)
  also have "image_mset p (mset_set {0..<N}) = mset_set {0..<N}"
    using bij by (simp add: image_mset_mset_set bij_betw_def)
  also have "image_mset (\<lambda>i. src ! i) (mset_set {0..<N}) = mset src"
    by (metis len map_nth mset_map mset_upt)
  finally show ?thesis .
qed

lemma run_rounds_permutes:
  assumes "symmetric_network sn N" "length xs = N"
  shows "mset (run_rounds before sn N xs) = mset xs \<and> length (run_rounds before sn N xs) = N"
proof -
  have "mset (fold (round_values before sn N) rs xs) = mset xs \<and>
      length (fold (round_values before sn N) rs xs) = N"
    if "set rs \<subseteq> {0..<net_rounds sn}" "length xs = N" for rs xs
    using that
  proof (induction rs arbitrary: xs)
    case (Cons r rs)
    then have "row_symmetric sn N r"
      using assms(1) by (auto simp: symmetric_network_def list_all_iff)
    then show ?case using Cons round_values_permutes[of sn N r xs] by simp
  qed simp
  then show ?thesis using assms(2) by (simp add: run_rounds_def)
qed

section \<open>The 0-1 principle\<close>

lemma threshold_min: "(\<not> before (sorter_min before a b) t) = (\<not> before a t \<and> \<not> before b t)"
  using transitive[of a b t] transitive[of b a t] comparable[of a b] by (auto simp: sorter_min_def)

lemma threshold_max: "(\<not> before (sorter_max before a b) t) = (\<not> before a t \<or> \<not> before b t)"
  using transitive[of a b t] transitive[of b a t] comparable[of a b] by (auto simp: sorter_max_def)

lemma threshold_copy:
  "(\<not> before (min_max_cpy before a b mn mx) t) =
   min_max_cpy (<) (\<not> before a t) (\<not> before b t) mn mx"
  unfolding min_max_cpy_def sorter_min_def[of "(<) :: bool \<Rightarrow> bool \<Rightarrow> bool"]
    sorter_max_def[of "(<) :: bool \<Rightarrow> bool \<Rightarrow> bool"]
  using threshold_min threshold_max by (simp, blast)

lemma threshold_round:
  assumes sym: "row_symmetric sn N r" and len: "length src = N"
  shows "map (\<lambda>x. \<not> before x t) (round_values before sn N r src) =
    round_values (<) sn N r (map (\<lambda>x. \<not> before x t) src)"
proof (rule nth_equalityI)
  fix i assume "i < length (map (\<lambda>x. \<not> before x t) (round_values before sn N r src))"
  then have i: "i < N" by simp
  have j: "net_index sn r i < N" using row_symmetricD[OF sym i] by simp
  show "map (\<lambda>x. \<not> before x t) (round_values before sn N r src) ! i =
      round_values (<) sn N r (map (\<lambda>x. \<not> before x t) src) ! i"
    using i j len by (simp add: round_values_def step_value_def Let_def threshold_copy del: less_bool_def)
qed simp

lemma threshold_run:
  assumes "symmetric_network sn N" "length xs = N"
  shows "map (\<lambda>x. \<not> before x t) (run_rounds before sn N xs) =
    run_rounds (<) sn N (map (\<lambda>x. \<not> before x t) xs)"
proof -
  have "map (\<lambda>x. \<not> before x t) (fold (round_values before sn N) rs xs) =
      fold (round_values (<) sn N) rs (map (\<lambda>x. \<not> before x t) xs)"
    if "set rs \<subseteq> {0..<net_rounds sn}" "length xs = N" for rs xs
    using that
  proof (induction rs arbitrary: xs)
    case (Cons r rs)
    then have "row_symmetric sn N r"
      using assms(1) by (auto simp: symmetric_network_def list_all_iff)
    then show ?case using Cons threshold_round[of sn N r xs t] by (simp del: less_bool_def)
  qed simp
  then show ?thesis using assms(2) by (simp add: run_rounds_def del: less_bool_def)
qed

lemma zero_one_principle:
  assumes sym: "symmetric_network sn N" and len: "length xs = N"
    and bool: "\<And>bs :: bool list. length bs = N \<Longrightarrow> sorted (run_rounds (<) sn N bs)"
  shows "sorted_wrt (\<lambda>a b. \<not> before b a) (run_rounds before sn N xs)" (is "sorted_wrt _ ?ys")
  unfolding sorted_wrt_iff_nth_less
proof (intro allI impI)
  fix i j assume ij: "i < j" "j < length ?ys"
  let ?h = "\<lambda>x. \<not> before x (?ys ! i)"
  have "sorted (map ?h ?ys)"
    using bool[of "map ?h xs"] len by (simp add: threshold_run[OF sym len])
  then have "map ?h ?ys ! i \<le> map ?h ?ys ! j"
    using ij by (intro sorted_nth_mono) auto
  then show "\<not> before (?ys ! j) (?ys ! i)"
    using ij irrefl by simp
qed

end

section \<open>Checking all inputs of zeros and ones\<close>

text \<open>
  A manual network is run on all inputs of zeros and ones at once: a wire is a decision tree
  over the values of the cells of the first round. A cell is a pair of compared wires, which
  have three possible ordered values after the first round, or a single wire. Level \<open>n\<close> of a
  tree chooses by the value of cell \<open>n\<close>; \<open>Skip\<close> does not depend on it.
\<close>

datatype dtree = Const bool | Skip dtree | Choice dtree dtree dtree

primrec dt_eval :: "dtree \<Rightarrow> (nat \<Rightarrow> nat) \<Rightarrow> bool" where
  "dt_eval (Const b) f = b"
| "dt_eval (Skip t) f = dt_eval t (\<lambda>n. f (Suc n))"
| "dt_eval (Choice a b c) f =
     (if f 0 = 0 then dt_eval a (\<lambda>n. f (Suc n))
      else if f 0 = 1 then dt_eval b (\<lambda>n. f (Suc n)) else dt_eval c (\<lambda>n. f (Suc n)))"

fun mk_skip :: "dtree \<Rightarrow> dtree" where
  "mk_skip (Const b) = Const b"
| "mk_skip t = Skip t"

fun mk_choice :: "dtree \<Rightarrow> dtree \<Rightarrow> dtree \<Rightarrow> dtree" where
  "mk_choice (Const a) (Const b) (Const c) =
     (if a = b \<and> b = c then Const a else Choice (Const a) (Const b) (Const c))"
| "mk_choice a b c = Choice a b c"

fun dt_and :: "dtree \<Rightarrow> dtree \<Rightarrow> dtree" where
  "dt_and (Const a) y = (if a then y else Const False)"
| "dt_and x (Const b) = (if b then x else Const False)"
| "dt_and (Skip x) (Skip y) = mk_skip (dt_and x y)"
| "dt_and (Skip x) (Choice a b c) = mk_choice (dt_and x a) (dt_and x b) (dt_and x c)"
| "dt_and (Choice a b c) (Skip y) = mk_choice (dt_and a y) (dt_and b y) (dt_and c y)"
| "dt_and (Choice a b c) (Choice d e f) = mk_choice (dt_and a d) (dt_and b e) (dt_and c f)"

fun dt_or :: "dtree \<Rightarrow> dtree \<Rightarrow> dtree" where
  "dt_or (Const a) y = (if a then Const True else y)"
| "dt_or x (Const b) = (if b then Const True else x)"
| "dt_or (Skip x) (Skip y) = mk_skip (dt_or x y)"
| "dt_or (Skip x) (Choice a b c) = mk_choice (dt_or x a) (dt_or x b) (dt_or x c)"
| "dt_or (Choice a b c) (Skip y) = mk_choice (dt_or a y) (dt_or b y) (dt_or c y)"
| "dt_or (Choice a b c) (Choice d e f) = mk_choice (dt_or a d) (dt_or b e) (dt_or c f)"

primrec dt_not :: "dtree \<Rightarrow> dtree" where
  "dt_not (Const b) = Const (\<not> b)"
| "dt_not (Skip t) = Skip (dt_not t)"
| "dt_not (Choice a b c) = Choice (dt_not a) (dt_not b) (dt_not c)"

lemma dt_eval_mk_skip [simp]: "dt_eval (mk_skip t) f = dt_eval (Skip t) f"
  by (cases t) auto

lemma dt_eval_mk_choice [simp]: "dt_eval (mk_choice a b c) f = dt_eval (Choice a b c) f"
  by (cases "(a, b, c)" rule: mk_choice.cases) auto

lemma dt_eval_and [simp]: "dt_eval (dt_and x y) f = (dt_eval x f \<and> dt_eval y f)"
  by (induction x y arbitrary: f rule: dt_and.induct) auto

lemma dt_eval_or [simp]: "dt_eval (dt_or x y) f = (dt_eval x f \<or> dt_eval y f)"
  by (induction x y arbitrary: f rule: dt_or.induct) auto

lemma dt_eval_not [simp]: "dt_eval (dt_not x) f = (\<not> dt_eval x f)"
  by (induction x arbitrary: f) auto

definition row_cells :: "nat list \<Rightarrow> (nat \<times> nat) list" where
  "row_cells row = filter (\<lambda>(p, q). p \<le> q) (zip [0..<length row] row)"

fun wire_tree :: "nat \<Rightarrow> (nat \<times> nat) list \<Rightarrow> dtree" where
  "wire_tree w [] = Const False"
| "wire_tree w ((p, q) # cells) =
     (if w = p then Choice (Const False) (Const False) (Const True)
      else if w = q then Choice (Const False) (Const True) (Const True)
      else mk_skip (wire_tree w cells))"

definition tree_round :: "nat list \<Rightarrow> dtree list \<Rightarrow> dtree list" where
  "tree_round row ts =
     map (\<lambda>(i, j, t). if i < j then dt_and t (ts ! j) else if i > j then dt_or t (ts ! j) else t)
       (zip [0..<length row] (zip row ts))"

fun trees_sorted :: "dtree list \<Rightarrow> bool" where
  "trees_sorted (t # t' # ts) = (dt_or (dt_not t) t' = Const True \<and> trees_sorted (t' # ts))"
| "trees_sorted _ = True"

definition table_sorts :: "nat list list \<Rightarrow> bool" where
  "table_sorts t = (case t of [] \<Rightarrow> False
     | row # rows \<Rightarrow> trees_sorted (fold tree_round rows
         (map (\<lambda>w. wire_tree w (row_cells row)) [0..<length row])))"

definition table_symmetric :: "nat \<Rightarrow> nat list list \<Rightarrow> bool" where
  "table_symmetric N t =
     list_all (\<lambda>row. length row = N \<and> list_all (\<lambda>i. row ! i < N \<and> row ! (row ! i) = i) [0..<N]) t"

text \<open>The choices that give the wires the values \<open>v\<close>.\<close>

fun cell_value :: "(nat \<Rightarrow> bool) \<Rightarrow> nat \<times> nat \<Rightarrow> nat" where
  "cell_value v (p, q) = (if v p then 2 else if v q then 1 else 0)"

definition cell_values :: "(nat \<Rightarrow> bool) \<Rightarrow> (nat \<times> nat) list \<Rightarrow> nat \<Rightarrow> nat" where
  "cell_values v cells n = (if n < length cells then cell_value v (cells ! n) else 0)"

lemma cell_values_Cons [simp]:
  "cell_values v (c # cells) 0 = cell_value v c"
  "cell_values v (c # cells) (Suc n) = cell_values v cells n"
  by (simp_all add: cell_values_def)

lemma wire_tree_value:
  assumes "\<forall>(p, q) \<in> set cells. v p \<longrightarrow> v q" "\<exists>(p, q) \<in> set cells. w = p \<or> w = q"
  shows "dt_eval (wire_tree w cells) (cell_values v cells) = v w"
  using assms by (induction cells rule: wire_tree.induct) (auto simp: cell_values_Cons)


lemma first_trees_value:
  assumes len: "length row = N" and sym: "list_all (\<lambda>i. row ! i < N \<and> row ! (row ! i) = i) [0..<N]"
    and v: "\<And>i. i < N \<Longrightarrow> i \<le> row ! i \<Longrightarrow> v i \<longrightarrow> v (row ! i)" and w: "w < N"
  shows "dt_eval (wire_tree w (row_cells row)) (cell_values v (row_cells row)) = v w"
proof (rule wire_tree_value)
  show "\<forall>(p, q) \<in> set (row_cells row). v p \<longrightarrow> v q"
    using v len by (auto simp: row_cells_def set_zip)
  have j: "row ! w < N" "row ! (row ! w) = w" using sym w by (auto simp: list_all_iff)
  have cell: "(p, row ! p) \<in> set (row_cells row)" if "p < N" "p \<le> row ! p" for p
    using that len by (auto simp: row_cells_def set_zip intro!: exI[of _ p])
  have "(w, row ! w) \<in> set (row_cells row) \<or> (row ! w, w) \<in> set (row_cells row)"
    using cell[of w] cell[of "row ! w"] w j by (cases "w \<le> row ! w") auto
  then show "\<exists>(p, q) \<in> set (row_cells row). w = p \<or> w = q" by blast
qed

abbreviation trees_at :: "(nat \<Rightarrow> nat) \<Rightarrow> dtree list \<Rightarrow> bool list" where
  "trees_at f ts \<equiv> map (\<lambda>t. dt_eval t f) ts"

lemma tree_round_at:
  assumes "r < length t" "length (t ! r) = N" "\<And>i. i < N \<Longrightarrow> t ! r ! i < N" "length ts = N"
  shows "trees_at f (tree_round (t ! r) ts) = round_values (<) (Manual t) N r (trees_at f ts)"
    and "length (tree_round (t ! r) ts) = N"
proof -
  show len: "length (tree_round (t ! r) ts) = N" using assms by (simp add: tree_round_def)
  show "trees_at f (tree_round (t ! r) ts) = round_values (<) (Manual t) N r (trees_at f ts)"
  proof (rule nth_equalityI)
    fix i assume "i < length (trees_at f (tree_round (t ! r) ts))"
    then have i: "i < N" by (simp add: len)
    then show "trees_at f (tree_round (t ! r) ts) ! i =
        round_values (<) (Manual t) N r (trees_at f ts) ! i"
      using assms(2) assms(3)[OF i] assms(4)
      by (auto simp: tree_round_def round_values_def step_value_def Let_def
          min_max_cpy_def sorter_min_def sorter_max_def net_min_def net_max_def)
  qed (simp add: len)
qed

lemma tree_rounds_at:
  assumes t: "\<And>r. r < length t \<Longrightarrow> length (t ! r) = N"
    "\<And>r i. r < length t \<Longrightarrow> i < N \<Longrightarrow> t ! r ! i < N"
    and ts: "length ts = N" and rs: "\<forall>r \<in> set rs. r < length t"
  shows "trees_at f (fold (\<lambda>r. tree_round (t ! r)) rs ts) =
      fold (round_values (<) (Manual t) N) rs (trees_at f ts)"
  using ts rs
proof (induction rs arbitrary: ts)
  case (Cons r rs)
  then have r: "r < length t" by simp
  note round = tree_round_at[OF r t(1)[OF r] t(2)[OF r] Cons.prems(1)]
  show ?case
    using Cons.IH[of "tree_round (t ! r) ts"] Cons.prems(2) round by (simp del: less_bool_def)
qed simp

lemma trees_sorted_at: "trees_sorted ts \<Longrightarrow> sorted (trees_at f ts)"
proof (induction ts rule: trees_sorted.induct)
  case (1 t t' ts)
  then have "dt_eval (dt_or (dt_not t) t') f" by simp
  then have "dt_eval t f \<le> dt_eval t' f" by auto
  moreover have "sorted (trees_at f (t' # ts))" using 1 by (simp del: le_bool_def)
  ultimately show ?case unfolding list.map sorted2 by blast
qed auto

lemma fold_nth_tail:
  "fold (\<lambda>r. f (ts ! r)) [Suc 0..<length ts] x = fold f (tl ts) x"
proof (cases ts)
  case (Cons t ts')
  have "map (\<lambda>r. ts ! r) [Suc 0..<length ts] = ts'"
    unfolding Cons by (rule nth_equalityI) (auto simp del: upt_Suc)
  then have "fold f ts' x = fold f (map (\<lambda>r. ts ! r) [Suc 0..<length ts]) x" by simp
  then show ?thesis by (simp add: fold_map comp_def Cons del: upt_Suc)
qed simp

lemma table_symmetricD:
  assumes "table_symmetric N t"
  shows "symmetric_network (Manual t) N"
    and "r < length t \<Longrightarrow> length (t ! r) = N"
    and "r < length t \<Longrightarrow> list_all (\<lambda>i. t ! r ! i < N \<and> t ! r ! (t ! r ! i) = i) [0..<N]"
  using assms
  by (auto simp: table_symmetric_def list_all_iff symmetric_network_def row_symmetric_def
      all_set_conv_all_nth)

lemma table_sorts_bools:
  assumes sym: "table_symmetric N t" and chk: "table_sorts t" and len: "length (bs :: bool list) = N"
  shows "sorted (run_rounds (<) (Manual t) N bs)"
proof -
  obtain row rows where t: "t = row # rows" using chk by (cases t) (auto simp: table_sorts_def)
  let ?vs = "round_values (<) (Manual t) N 0 bs"
  let ?f = "cell_values (\<lambda>i. ?vs ! i) (row_cells row)"
  let ?ts = "map (\<lambda>w. wire_tree w (row_cells row)) [0..<N]"
  have row: "length row = N" "list_all (\<lambda>i. row ! i < N \<and> row ! (row ! i) = i) [0..<N]"
    using table_symmetricD(2,3)[OF sym, of 0] by (simp_all add: t)
  have in_t: "\<And>r. r < length t \<Longrightarrow> length (t ! r) = N"
    "\<And>r i. r < length t \<Longrightarrow> i < N \<Longrightarrow> t ! r ! i < N"
    using table_symmetricD(2,3)[OF sym] by (simp_all add: list_all_iff)
  have "?vs ! i \<longrightarrow> ?vs ! (row ! i)" if i: "i < N" "i \<le> row ! i" for i
  proof -
    have "row ! i < N" "row ! (row ! i) = i" using row(2) i(1) by (auto simp: list_all_iff)
    then show ?thesis using i
      by (auto simp: round_values_def step_value_def Let_def t min_max_cpy_def sorter_min_def
          sorter_max_def net_min_def net_max_def)
  qed
  then have "dt_eval (wire_tree w (row_cells row)) ?f = ?vs ! w" if "w < N" for w
    using first_trees_value[OF row, of "\<lambda>i. ?vs ! i"] that by blast
  then have at: "trees_at ?f ?ts = ?vs"
    by (intro nth_equalityI) (auto simp del: less_bool_def)
  let ?us = "fold (\<lambda>r. tree_round (t ! r)) [Suc 0..<length t] ?ts"
  have "trees_sorted ?us"
    using chk fold_nth_tail[of tree_round t ?ts] by (simp add: table_sorts_def t row(1))
  then have "sorted (trees_at ?f ?us)" by (rule trees_sorted_at)
  moreover have "trees_at ?f ?us = fold (round_values (<) (Manual t) N) [Suc 0..<length t] ?vs"
    using tree_rounds_at[OF in_t, of ?ts "[Suc 0..<length t]" ?f]
    by (simp only: at) simp
  moreover have "run_rounds (<) (Manual t) N bs =
      fold (round_values (<) (Manual t) N) [Suc 0..<length t] ?vs"
    by (simp add: run_rounds_def t upt_conv_Cons del: less_bool_def upt_Suc)
  ultimately show ?thesis by (simp only:)
qed


section \<open>The networks of the library\<close>

lemma checked_1: "table_symmetric 1 manual_idx_1 \<and> table_sorts manual_idx_1"
  by code_simp

lemma checked_2: "table_symmetric 2 manual_idx_2 \<and> table_sorts manual_idx_2"
  by code_simp

lemma checked_3: "table_symmetric 3 manual_idx_3 \<and> table_sorts manual_idx_3"
  by code_simp

lemma checked_4: "table_symmetric 4 manual_idx_4 \<and> table_sorts manual_idx_4"
  by code_simp

lemma checked_5: "table_symmetric 5 manual_idx_5 \<and> table_sorts manual_idx_5"
  by code_simp

lemma checked_6: "table_symmetric 6 manual_idx_6 \<and> table_sorts manual_idx_6"
  by code_simp

lemma checked_7: "table_symmetric 7 manual_idx_7 \<and> table_sorts manual_idx_7"
  by code_simp

lemma checked_8: "table_symmetric 8 manual_idx_8 \<and> table_sorts manual_idx_8"
  by code_simp

lemma checked_9: "table_symmetric 9 manual_idx_9 \<and> table_sorts manual_idx_9"
  by code_simp

lemma checked_10: "table_symmetric 10 manual_idx_10 \<and> table_sorts manual_idx_10"
  by code_simp

lemma checked_11: "table_symmetric 11 manual_idx_11 \<and> table_sorts manual_idx_11"
  by code_simp

lemma checked_12: "table_symmetric 12 manual_idx_12 \<and> table_sorts manual_idx_12"
  by code_simp

lemma checked_14: "table_symmetric 14 manual_idx_14 \<and> table_sorts manual_idx_14"
  by code_simp

lemmas checked_tables = checked_1 checked_2 checked_3 checked_4 checked_5 checked_6 checked_7
  checked_8 checked_9 checked_10 checked_11 checked_12 checked_14

definition checked_sizes :: "nat list" where
  "checked_sizes = [1..<13] @ [14]"

lemma in_checked_sizes: "N \<in> set checked_sizes \<longleftrightarrow> 0 < N \<and> N < 13 \<or> N = 14"
  by (auto simp: checked_sizes_def)

lemma manual_idx_checked:
  assumes "N \<in> set checked_sizes"
  shows "\<exists>t. sorting_network N = Manual t \<and> table_symmetric N t \<and> table_sorts t"
proof -
  have "N = 1 \<or> N = 2 \<or> N = 3 \<or> N = 4 \<or> N = 5 \<or> N = 6 \<or> N = 7 \<or> N = 8 \<or> N = 9 \<or> N = 10 \<or>
      N = 11 \<or> N = 12 \<or> N = 14"
    using assms unfolding in_checked_sizes by presburger
  then show ?thesis
    by (elim disjE) (simp_all only: sorting_network_def manual_idx_def, simp_all add: checked_tables[simplified])
qed

lemma table_sorts_rounds: "table_sorts t \<Longrightarrow> 0 < net_rounds (Manual t)"
  by (cases t) (auto simp: table_sorts_def)

subsection \<open>Bitonic networks only permute\<close>

lemma and_power_zero_iff: "((i :: nat) AND 2 ^ e = 0) = (\<not> bit i e)"
  by (simp add: and_exp_eq_0_iff_not_bit)

lemma bitonic_partner:
  "(if (i :: nat) AND 2 ^ e = 0 then i + 2 ^ e else i - 2 ^ e) = flip_bit e i"
proof (cases "bit i e")
  case True
  have "set_bit e (unset_bit e i) = i" by (rule bit_eqI) (auto simp: bit_simps True)
  then have "unset_bit e i + 2 ^ e = i" by (simp add: set_bit_eq bit_simps)
  then show ?thesis using True by (simp add: and_power_zero_iff flip_bit_eq_if)
qed (simp add: and_power_zero_iff flip_bit_eq_if set_bit_eq)

lemma bitonic_entry_value:
  "bitonic_entry N k m i =
     2 * (if flip_bit (k - m) i \<ge> N then i else flip_bit (k - m) i) + of_bool (bit i (k + 1))"
proof -
  have inv: "drop_bit 1 (drop_bit k i AND 2) = of_bool (bit i (k + 1))"
  proof -
    have two: "drop_bit 1 (2 :: nat) = 1" by (simp add: drop_bit_eq_div)
    have "drop_bit 1 (drop_bit k i AND 2) = drop_bit (k + 1) i AND 1"
      by (simp only: drop_bit_and drop_bit_drop_bit two add.commute)
    also have "\<dots> = of_bool (bit i (k + 1))"
      by (simp add: and_one_eq bit_iff_odd_drop_bit mod2_eq_if)
    finally show ?thesis .
  qed
  have "push_bit 1 j OR of_bool b = 2 * j + of_bool b" for j :: nat and b
    by (cases b) (simp_all add: or_Suc_0_eq mult.commute)
  then show ?thesis
    unfolding bitonic_entry_def Let_def bitonic_partner inv by blast
qed

lemma bitonic_entry_index: "drop_bit 1 (bitonic_entry N k m i) =
    (if flip_bit (k - m) i \<ge> N then i else flip_bit (k - m) i)"
  unfolding bitonic_entry_value by (simp add: drop_bit_eq_div)

lemma bitonic_entry_inv: "(bitonic_entry N k m i AND 1 = 1) = bit i (k + 1)"
  unfolding bitonic_entry_value by (simp add: and_one_eq)

lemma flip_flip [simp]: "flip_bit e (flip_bit e (i :: nat)) = i"
  by (rule bit_eqI) (auto simp: bit_simps)

lemma fill_idx_row:
  assumes "row \<in> set (fill_idx N)"
  shows "\<exists>k m. m \<le> k \<and> row = map (bitonic_entry N k m) [0..<N]"
proof -
  obtain k m where "m < k + 1" "row = map (bitonic_entry N k m) [0..<N]"
    using assms unfolding fill_idx_def by (auto simp del: map_eq_conv upt_Suc)
  then show ?thesis by (metis less_Suc_eq_le Suc_eq_plus1)
qed

lemma bitonic_symmetric: "symmetric_network (Bitonic (fill_idx N)) N"
proof -
  have "row_symmetric (Bitonic (fill_idx N)) N r" if r: "r < length (fill_idx N)" for r
  proof -
    obtain k m where k: "m \<le> k" and row: "fill_idx N ! r = map (bitonic_entry N k m) [0..<N]"
      using fill_idx_row[OF nth_mem[OF r]] by blast
    have idx: "net_index (Bitonic (fill_idx N)) r i =
        (if flip_bit (k - m) i \<ge> N then i else flip_bit (k - m) i)" if "i < N" for i
      using that row bitonic_entry_index[of N k m i] by simp
    have inv: "net_inv (Bitonic (fill_idx N)) r i = bit i (k + 1)" if "i < N" for i
      using that row bitonic_entry_inv[of N k m i] by simp
    have "k - m \<noteq> k + 1" by simp
    then have "bit (flip_bit (k - m) i) (k + 1) = bit i (k + 1)" for i :: nat
      by (auto simp: bit_simps)
    then show ?thesis
      unfolding row_symmetric_def list_all_iff by (auto simp: idx inv simp del: net_index.simps net_inv.simps)
  qed
  then show ?thesis by (simp add: symmetric_network_def list_all_iff)
qed

lemma next_log_positive: "2 \<le> N \<Longrightarrow> 0 < next_log N 1"
  by (subst next_log.simps) auto

lemma fill_idx_nonempty: "2 \<le> N \<Longrightarrow> fill_idx N \<noteq> []"
  using next_log_positive[of N] by (cases "next_log N 1") (auto simp: fill_idx_def upt_conv_Cons)

lemma sorting_network_symmetric:
  assumes "0 < N" "N \<noteq> 16"
  shows "symmetric_network (sorting_network N) N \<and> 0 < net_rounds (sorting_network N)"
proof (cases "N \<in> set checked_sizes")
  case True
  then show ?thesis
    using manual_idx_checked[OF True] table_symmetricD(1) table_sorts_rounds by fastforce
next
  case False
  then have "manual_idx N = None" "2 \<le> N"
    using assms unfolding in_checked_sizes by (auto simp: manual_idx_def)
  then show ?thesis
    using bitonic_symmetric fill_idx_nonempty by (simp add: sorting_network_def)
qed

text \<open>
  C8. For the sizes 1 to 12 and 14, which have tables of their own, \<^verbatim>\<open>network_sort\<close> with
  \<^verbatim>\<open>std::less\<close> on a totally ordered type returns and its result is the sorted list of the
  elements; with \<^verbatim>\<open>std::greater\<close> it is the list sorted downwards.
\<close>
theorem network_sort_sorts:
  fixes xs :: "'a::linorder list"
  assumes "N \<in> set checked_sizes" "length xs = N"
  shows "network_sort N (<) xs = Some (sort xs) \<and> network_sort N (>) xs = Some (rev (sort xs))"
proof -
  obtain t where t: "sorting_network N = Manual t" "table_symmetric N t" "table_sorts t"
    using manual_idx_checked[OF assms(1)] by blast
  note sym = table_symmetricD(1)[OF t(2)]
  have run: "network_sort N before xs = Some (run_rounds before (Manual t) N xs)"
    for before :: "'a \<Rightarrow> 'a \<Rightarrow> bool"
    using network_sort_runs[OF assms(2)] table_sorts_rounds[OF t(3)] by (simp add: t(1))
  have "sorted (run_rounds (<) (Manual t) N xs)"
    using std_less.zero_one_principle[OF sym assms(2) table_sorts_bools[OF t(2,3)]]
    by (simp add: not_less)
  then have "run_rounds (<) (Manual t) N xs = sort xs"
    using std_less.run_rounds_permutes[OF sym assms(2)] by (metis properties_for_sort)
  then have less: "network_sort N (<) xs = Some (sort xs)" by (simp add: run)
  have "sorted_wrt (\<ge>) (run_rounds (>) (Manual t) N xs)"
    using std_greater.zero_one_principle[OF sym assms(2) table_sorts_bools[OF t(2,3)]]
    by (simp add: not_less)
  then have "sorted (rev (run_rounds (>) (Manual t) N xs))" by (simp add: sorted_wrt_rev)
  then have "rev (run_rounds (>) (Manual t) N xs) = sort xs"
    using std_greater.run_rounds_permutes[OF sym assms(2)] by (metis mset_rev properties_for_sort)
  then have "network_sort N (>) xs = Some (rev (sort xs))" by (metis run rev_rev_ident)
  with less show ?thesis ..
qed

lemma network_sort_sorts_witness:
  "network_sort 4 (<) [3, 1, 2, 1 :: nat] = Some [1, 1, 2, 3]"
  using network_sort_sorts[of 4 "[3, 1, 2, 1 :: nat]"] by (simp add: in_checked_sizes)

text \<open>
  For every size but 16, with or without a table, \<^verbatim>\<open>network_sort\<close> on a totally ordered
  type returns a rearrangement of the elements: none is lost and none appears twice.
\<close>
theorem network_sort_permutes:
  fixes xs :: "'a::linorder list"
  assumes "0 < N" "N \<noteq> 16" "length xs = N"
  shows "\<exists>ys. network_sort N (<) xs = Some ys \<and> mset ys = mset xs"
  using std_less.run_rounds_permutes[of "sorting_network N" N xs] assms
    sorting_network_symmetric[OF assms(1,2)] network_sort_runs[of xs N]
  by auto

lemma network_sort_permutes_witness:
  "\<exists>ys. network_sort 13 (<) (rev [0..<13]) = Some ys \<and> mset ys = mset [0..<13]"
  using network_sort_permutes[of 13 "rev [0..<13]"] by simp

text \<open>
  The wires of a round can be processed in any order, also repeatedly: as long as every wire
  is processed, the sorter ends in the state \<^verbatim>\<open>sort_round\<close> gives, so \<^verbatim>\<open>sort_single\<close> calls of one
  round can be distributed freely.
\<close>
theorem sort_round_order_independent:
  assumes "length (fst (ns_a s)) = N" "length (snd (ns_a s)) = N"
    and "set wires = {0..<N}" "\<not> sorter_done sn s"
  shows "sort_round before sn N s =
    Some (fold (\<lambda>i s. sort_single before sn (ns_round s) i s) wires s)"
proof -
  have sz: "sized N s" using assms(1,2) by (simp add: sized_def)
  show ?thesis
    using assms(4) sort_round_any_order[OF sz assms(3)] sort_round_any_order[OF sz, of "[0..<N]"]
    by (simp add: sort_round_def)
qed

lemma sort_round_order_independent_witness:
  "sort_round (<) (sorting_network 3) 3 (make_sorter [3, 2, 1 :: nat]) =
   Some (fold (\<lambda>i s. sort_single (<) (sorting_network 3) (ns_round s) i s) [2, 0, 1, 0]
     (make_sorter [3, 2, 1]))"
  by (rule sort_round_order_independent)
    (auto simp: make_sorter_def sorter_done_def sorting_network_def manual_idx_def manual_idx_3_def)

text \<open>
  What the sorter does not do: the table of size 16 has a row that is not symmetric, so an
  element is lost and another one duplicated; the bitonic networks of sizes that are not powers
  of two do not sort, here size 13; and of two elements that are equal in the order but differ,
  one is lost.
\<close>
theorem network_sort_limits:
  "network_sort 16 (<) [12, 9, 11, 0, 2, 6, 3, 15, 4, 5, 10, 13, 14, 7, 1, 8 :: nat] =
     Some [0, 1, 2, 3, 4, 5, 6, 7, 8, 10, 10, 11, 12, 13, 14, 15] \<and>
   network_sort 13 (<) [12, 11, 10, 9, 8, 7, 6, 5, 4, 3, 2, 1, 0 :: nat] =
     Some [0, 1, 2, 3, 4, 10, 11, 12, 5, 6, 7, 8, 9] \<and>
   network_sort 2 (\<lambda>a b. fst a < fst b) [(1 :: nat, True), (1, False)] = Some [(1, False), (1, False)]"
  by (intro conjI; subst network_sort_runs; code_simp)

end
