(* ===== verification/Flat_Set.thy ===== *)
theory Flat_Set
  imports Std_Algorithm
begin

text \<open>
  \<^verbatim>\<open>source/modules/eagine/container/flat_set.cpp\<close>: a set as a sorted vector. The only member
  of the class is \<^verbatim>\<open>_storage\<close>, so the set is the list of its elements; iterators are indices
  into it, the comparison is an argument, \<^verbatim>\<open>==\<close> of the keys is equality. Operations that
  may dereference the past-the-end iterator or fail an assertion return \<open>None\<close> there.
\<close>

type_synonym 'k flat_set = "'k list"

section \<open>Operations\<close>

definition fs_assign :: "('k \<Rightarrow> 'k \<Rightarrow> bool) \<Rightarrow> 'k list \<Rightarrow> 'k flat_set" where
  "fs_assign lt xs = std_sort lt id xs"

definition fs_empty :: "'k flat_set \<Rightarrow> bool" where
  "fs_empty s = (s = [])"

definition fs_size :: "'k flat_set \<Rightarrow> nat" where
  "fs_size s = length s"

definition fs_lower_bound :: "('k \<Rightarrow> 'k \<Rightarrow> bool) \<Rightarrow> 'k flat_set \<Rightarrow> 'k \<Rightarrow> nat" where
  "fs_lower_bound lt s k = std_lower_bound lt id s 0 (length s) k"

definition fs_upper_bound :: "('k \<Rightarrow> 'k \<Rightarrow> bool) \<Rightarrow> 'k flat_set \<Rightarrow> 'k \<Rightarrow> nat" where
  "fs_upper_bound lt s k = std_upper_bound lt id s 0 (length s) k"

definition fs_equal_range :: "('k \<Rightarrow> 'k \<Rightarrow> bool) \<Rightarrow> 'k flat_set \<Rightarrow> 'k \<Rightarrow> nat \<times> nat" where
  "fs_equal_range lt s k = std_equal_range lt id s 0 (length s) k"

definition fs_find_insert_pos :: "('k \<Rightarrow> 'k \<Rightarrow> bool) \<Rightarrow> 'k flat_set \<Rightarrow> 'k \<Rightarrow> nat \<times> bool" where
  "fs_find_insert_pos lt s k =
     (let e = length s; p = std_lower_bound lt id s 0 e k in (p, p = e \<or> k \<noteq> s ! p))"

definition fs_find :: "('k \<Rightarrow> 'k \<Rightarrow> bool) \<Rightarrow> 'k flat_set \<Rightarrow> 'k \<Rightarrow> nat" where
  "fs_find lt s k = (let (p, i) = fs_find_insert_pos lt s k in if i then length s else p)"

definition fs_contains :: "('k \<Rightarrow> 'k \<Rightarrow> bool) \<Rightarrow> 'k flat_set \<Rightarrow> 'k \<Rightarrow> bool" where
  "fs_contains lt s k = (\<not> snd (fs_find_insert_pos lt s k))"

definition fs_clear :: "'k flat_set \<Rightarrow> 'k flat_set" where
  "fs_clear s = []"

definition fs_do_insert :: "nat \<times> bool \<Rightarrow> 'k \<Rightarrow> 'k flat_set \<Rightarrow> (nat \<times> bool) \<times> 'k flat_set" where
  "fs_do_insert ip v s = (ip, if snd ip then vector_insert (fst ip) v s else s)"

definition fs_insert :: "('k \<Rightarrow> 'k \<Rightarrow> bool) \<Rightarrow> 'k \<Rightarrow> 'k flat_set \<Rightarrow> (nat \<times> bool) \<times> 'k flat_set" where
  "fs_insert lt v s = fs_do_insert (fs_find_insert_pos lt s v) v s"

text \<open>The overload with a position hint.\<close>

definition fs_find_insert_pos_hint ::
    "('k \<Rightarrow> 'k \<Rightarrow> bool) \<Rightarrow> 'k flat_set \<Rightarrow> nat \<Rightarrow> 'k \<Rightarrow> (nat \<times> bool) option" where
  "fs_find_insert_pos_hint lt s p k =
     (let e = length s
      in if p = e \<and> (s = [] \<or> lt (last s) k) then Some (p, True)
         else (let p = (if p = e then std_lower_bound lt id s 0 e k else p)
               in if p \<ge> e then None
                  else if k = s ! p then Some (p, False)
                  else if lt k (s ! p)
                       then Some (if p \<noteq> 0 then std_lower_bound lt id s 0 p k else p, True)
                       else Some (std_lower_bound lt id s p e k, True)))"

definition fs_insert_hint ::
    "('k \<Rightarrow> 'k \<Rightarrow> bool) \<Rightarrow> nat \<Rightarrow> 'k \<Rightarrow> 'k flat_set \<Rightarrow> (nat \<times> 'k flat_set) option" where
  "fs_insert_hint lt p v s =
     map_option (\<lambda>ip. let (ip', s') = fs_do_insert ip v s in (fst ip', s'))
       (fs_find_insert_pos_hint lt s p v)"

definition fs_erase_at :: "nat \<Rightarrow> 'k flat_set \<Rightarrow> (nat \<times> 'k flat_set) option" where
  "fs_erase_at p s = (if p < length s then Some (p, vector_erase p s) else None)"

definition fs_erase_range :: "nat \<Rightarrow> nat \<Rightarrow> 'k flat_set \<Rightarrow> (nat \<times> 'k flat_set) option" where
  "fs_erase_range f t s =
     (if f \<le> t \<and> t \<le> length s then Some (f, vector_erase_range f t s) else None)"

definition fs_erase :: "('k \<Rightarrow> 'k \<Rightarrow> bool) \<Rightarrow> 'k \<Rightarrow> 'k flat_set \<Rightarrow> (nat \<times> 'k flat_set) option" where
  "fs_erase lt k s =
     (let p = std_lower_bound lt id s 0 (length s) k
      in if p \<noteq> length s \<and> \<not> lt k (s ! p)
         then (if std_upper_bound lt id s 0 (length s) k - p = 1
               then Some (1, vector_erase p s) else None)
         else Some (0, s))"

section \<open>The set a sorted vector represents\<close>

definition fs_invar :: "('k \<Rightarrow> 'k \<Rightarrow> bool) \<Rightarrow> 'k flat_set \<Rightarrow> bool" where
  "fs_invar lt s = sorted_wrt lt s"

context strict_compare
begin

lemma fs_lower_bound_props:
  assumes "fs_invar before s"
  defines "p \<equiv> std_lower_bound before id s 0 (length s)"
  shows "p k \<le> length s" "i < length s \<Longrightarrow> before (s ! i) k \<longleftrightarrow> i < p k"
    and "k \<in> set s \<longleftrightarrow> p k < length s \<and> s ! p k = k"
  using lower_bound_range[of id s 0 "length s"] lower_bound_member[of id s k] assms(1)
  by (auto simp: fs_invar_def p_def)

lemma fs_find_insert_pos_props:
  assumes "fs_invar before s"
  shows "snd (fs_find_insert_pos before s k) \<longleftrightarrow> k \<notin> set s"
    and "fst (fs_find_insert_pos before s k) = std_lower_bound before id s 0 (length s) k"
  using fs_lower_bound_props(1,3)[OF assms, of k]
  by (auto simp: fs_find_insert_pos_def Let_def)

lemma fs_contains_member: "fs_invar before s \<Longrightarrow> fs_contains before s k \<longleftrightarrow> k \<in> set s"
  by (simp add: fs_contains_def fs_find_insert_pos_props)

lemma fs_find_position:
  assumes "fs_invar before s"
  shows "if k \<in> set s then fs_find before s k < length s \<and> s ! fs_find before s k = k
    else fs_find before s k = length s"
  using fs_lower_bound_props(3)[OF assms, of k] fs_find_insert_pos_props[OF assms, of k]
  by (auto simp: fs_find_def split_beta)

lemma fs_insert_result:
  assumes "fs_invar before s"
  shows "set (snd (fs_insert before v s)) = insert v (set s)"
    and "fs_invar before (snd (fs_insert before v s))"
    and "snd (fst (fs_insert before v s)) \<longleftrightarrow> v \<notin> set s"
    and "fst (fst (fs_insert before v s)) < length (snd (fs_insert before v s))"
    and "snd (fs_insert before v s) ! fst (fst (fs_insert before v s)) = v"
proof -
  let ?p = "std_lower_bound before id s 0 (length s) v"
  note ip = fs_find_insert_pos_props[OF assms, of v]
  note lb = fs_lower_bound_props[OF assms, where k = v]
  show "set (snd (fs_insert before v s)) = insert v (set s)"
    using ip by (auto simp: fs_insert_def fs_do_insert_def)
  show "snd (fst (fs_insert before v s)) \<longleftrightarrow> v \<notin> set s"
    using ip by (simp add: fs_insert_def fs_do_insert_def)
  show "fs_invar before (snd (fs_insert before v s))"
    using sorted_vector_insert[of id s v ?p] assms ip lb
    by (auto simp: fs_insert_def fs_do_insert_def fs_invar_def)
  show "fst (fst (fs_insert before v s)) < length (snd (fs_insert before v s))"
    "snd (fs_insert before v s) ! fst (fst (fs_insert before v s)) = v"
    using ip lb
    by (auto simp: fs_insert_def fs_do_insert_def vector_insert_def nth_append less_Suc_eq_le)
qed

lemma fs_erase_result:
  assumes "fs_invar before s"
  shows "fs_erase before k s =
    (if k \<in> set s then Some (1, vector_erase (fs_find before s k) s) else Some (0, s))"
proof -
  let ?p = "std_lower_bound before id s 0 (length s) k"
  let ?q = "std_upper_bound before id s 0 (length s) k"
  note lb = fs_lower_bound_props[OF assms, where k = k]
  have srt: "sorted_wrt before (map id s)" using assms by (simp add: fs_invar_def)
  have ub: "?q \<le> length s" "\<And>i. i < length s \<Longrightarrow> \<not> before k (s ! i) \<longleftrightarrow> i < ?q"
    using upper_bound_range[OF srt, of 0 "length s"] by auto
  have found: "k \<in> set s \<longleftrightarrow> ?p \<noteq> length s \<and> \<not> before k (s ! ?p)"
  proof
    assume "k \<in> set s"
    then show "?p \<noteq> length s \<and> \<not> before k (s ! ?p)" using lb(3) irrefl by auto
  next
    assume p: "?p \<noteq> length s \<and> \<not> before k (s ! ?p)"
    then have "?p < length s" using lb(1) by simp
    then have "\<not> before (s ! ?p) k" using lb(2)[of ?p] by simp
    then have "s ! ?p = k" using p comparable by blast
    then show "k \<in> set s" using \<open>?p < length s\<close> lb(3) by blast
  qed
  have "?q - ?p = 1" if k: "k \<in> set s"
  proof -
    have p: "?p < length s" "s ! ?p = k" using k lb(3) by auto
    then have "?p < ?q" using ub(2)[of ?p] irrefl by simp
    moreover have "?q \<le> Suc ?p"
    proof (rule ccontr)
      assume "\<not> ?q \<le> Suc ?p"
      then have l: "Suc ?p < length s" and n: "\<not> before k (s ! Suc ?p)"
        using ub(1) ub(2)[of "Suc ?p"] by auto
      have "before (s ! ?p) (s ! Suc ?p)"
        using assms l by (auto simp: fs_invar_def sorted_wrt_iff_nth_less)
      then show False using n p by simp
    qed
    ultimately show ?thesis by simp
  qed
  moreover have "k \<in> set s \<Longrightarrow> fs_find before s k = ?p"
    using fs_find_insert_pos_props[OF assms, of k] by (simp add: fs_find_def split_beta)
  ultimately show ?thesis using found by (simp add: fs_erase_def Let_def)
qed

text \<open>The position is determined by the order of the elements.\<close>

lemma split_position_unique:
  assumes "p \<le> length s" "q \<le> length s" "\<And>i. i < length s \<Longrightarrow> i < p \<longleftrightarrow> i < q"
  shows "p = q"
  using assms by (metis linorder_cases order_less_le_trans less_irrefl)

lemma fs_hint_below:
  assumes "fs_invar before s" "p < length s" "before k (s ! p)"
  shows "std_lower_bound before id s 0 p k = std_lower_bound before id s 0 (length s) k"
proof (rule split_position_unique)
  have srt: "sorted_wrt before (map id s)" using assms(1) by (simp add: fs_invar_def)
  note lb = fs_lower_bound_props[OF assms(1), where k = k]
  note rng = lower_bound_range[OF srt, where b = 0 and e = p and k = k]
  show "std_lower_bound before id s 0 (length s) k \<le> length s" by (rule lb(1))
  show "std_lower_bound before id s 0 p k \<le> length s" using rng(2) assms(2) by simp
  fix i assume i: "i < length s"
  show "i < std_lower_bound before id s 0 p k \<longleftrightarrow> i < std_lower_bound before id s 0 (length s) k"
  proof (cases "i < p")
    case True then show ?thesis using rng(3)[of i] lb(2)[OF i] assms(2) by simp
  next
    case False
    have "s ! p = s ! i \<or> before (s ! p) (s ! i)"
      using False i assms(1) by (cases "p = i") (auto simp: fs_invar_def sorted_wrt_iff_nth_less)
    then have "\<not> before (s ! i) k" using assms(3) transitive asym by metis
    then show ?thesis using False rng(2) lb(2)[OF i] assms(2) by auto
  qed
qed

lemma fs_hint_above:
  assumes "fs_invar before s" "p < length s" "before (s ! p) k"
  shows "std_lower_bound before id s p (length s) k = std_lower_bound before id s 0 (length s) k"
proof (rule split_position_unique)
  have srt: "sorted_wrt before (map id s)" using assms(1) by (simp add: fs_invar_def)
  note lb = fs_lower_bound_props[OF assms(1), where k = k]
  note rng = lower_bound_range[OF srt, where b = p and e = "length s" and k = k]
  show "std_lower_bound before id s 0 (length s) k \<le> length s" by (rule lb(1))
  show "std_lower_bound before id s p (length s) k \<le> length s" using rng(2) assms(2) by simp
  fix i assume i: "i < length s"
  show "i < std_lower_bound before id s p (length s) k \<longleftrightarrow> i < std_lower_bound before id s 0 (length s) k"
  proof (cases "i < p")
    case True
    then have "before (s ! i) (s ! p)"
      using assms(1,2) by (auto simp: fs_invar_def sorted_wrt_iff_nth_less)
    then have "before (s ! i) k" using assms(3) by (rule transitive)
    then show ?thesis using True rng(1) lb(2)[OF i] assms(2) by auto
  next
    case False then show ?thesis using rng(3)[of i] lb(2)[OF i] i assms(2) by simp
  qed
qed

text \<open>The hint never changes the position; only whether the key is found depends on it.\<close>

lemma fs_hint_position:
  assumes "fs_invar before s" "p \<le> length s"
  shows "fs_find_insert_pos_hint before s p k =
    Some (std_lower_bound before id s 0 (length s) k,
      \<not> (if p = length s then k \<in> set s else s ! p = k))"
proof -
  let ?lb = "std_lower_bound before id s 0 (length s) k"
  note lb = fs_lower_bound_props[OF assms(1), where k = k]
  have inside: "(if k = s ! q then Some (q, False)
      else if before k (s ! q) then Some (if q \<noteq> 0 then std_lower_bound before id s 0 q k else q, True)
      else Some (std_lower_bound before id s q (length s) k, True)) = Some (?lb, s ! q \<noteq> k)"
    if q: "q < length s" for q
  proof (cases "k = s ! q")
    case True
    then have "q = ?lb"
      using lb q assms(1) sorted_distinct[of s] nth_eq_iff_index_eq[of s q ?lb]
      by (auto simp: fs_invar_def)
    then show ?thesis using True by simp
  next
    case False
    then consider "before k (s ! q)" | "\<not> before k (s ! q)" "before (s ! q) k"
      using comparable asym by blast
    then show ?thesis
    proof cases
      case 1
      then have "(if q \<noteq> 0 then std_lower_bound before id s 0 q k else q) = ?lb"
        using fs_hint_below[OF assms(1) q] lb(2)[of 0] q asym
        by (auto simp: std_lower_bound_def part_point.simps[where cnt = 0])
      then show ?thesis using False 1 by simp
    next
      case 2
      then show ?thesis using False fs_hint_above[OF assms(1) q] by simp
    qed
  qed
  show ?thesis
  proof (cases "p = length s")
    case False
    then show ?thesis
      using inside[of p] assms(2) by (simp add: fs_find_insert_pos_hint_def Let_def)
  next
    case True
    show ?thesis
    proof (cases "s = [] \<or> before (last s) k")
      case t: True
      have "?lb = length s"
      proof (cases "s = []")
        case False
        then have "before (s ! (length s - 1)) k" using t by (simp add: last_conv_nth)
        then show ?thesis using lb(1) lb(2)[of "length s - 1"] False by auto
      qed (use lb(1) in simp)
      then show ?thesis using t True lb(3) by (simp add: fs_find_insert_pos_hint_def)
    next
      case f: False
      then have "\<not> before (s ! (length s - 1)) k" by (auto simp: last_conv_nth)
      moreover have "length s > 0" using f by simp
      ultimately have l: "?lb < length s" using lb(2)[of "length s - 1"] by linarith
      have "(s ! ?lb = k) = (k \<in> set s)" using l lb(3) by simp
      then show ?thesis
        using inside[OF l] f l True
        by (auto simp: fs_find_insert_pos_hint_def Let_def split: if_splits)
    qed
  qed
qed

lemma fs_insert_hint_result:
  assumes "fs_invar before s" "p \<le> length s"
  shows "fs_insert_hint before p v s =
    Some (std_lower_bound before id s 0 (length s) v,
      if (if p = length s then v \<in> set s else s ! p = v) then s
      else vector_insert (std_lower_bound before id s 0 (length s) v) v s)"
  by (simp add: fs_insert_hint_def fs_hint_position[OF assms] fs_do_insert_def)

end

section \<open>The interface of a set\<close>

datatype 'k set_op = Insert_op 'k | Erase_op 'k | Clear_op

primrec spec_op :: "'k set_op \<Rightarrow> 'k set \<Rightarrow> 'k set" where
  "spec_op (Insert_op k) A = insert k A"
| "spec_op (Erase_op k) A = A - {k}"
| "spec_op Clear_op A = {}"

primrec set_run :: "('k \<Rightarrow> 's \<Rightarrow> 's) \<Rightarrow> ('k \<Rightarrow> 's \<Rightarrow> 's option) \<Rightarrow> ('s \<Rightarrow> 's) \<Rightarrow>
    'k set_op list \<Rightarrow> 's \<Rightarrow> 's option" where
  "set_run ins del clr [] s = Some s"
| "set_run ins del clr (op # ops) s =
     (case op of Insert_op k \<Rightarrow> set_run ins del clr ops (ins k s)
      | Erase_op k \<Rightarrow> Option.bind (del k s) (set_run ins del clr ops)
      | Clear_op \<Rightarrow> set_run ins del clr ops (clr s))"

locale set_interface =
  fixes invar :: "'s \<Rightarrow> bool" and elems :: "'s \<Rightarrow> 'k set"
    and ins :: "'k \<Rightarrow> 's \<Rightarrow> 's" and del :: "'k \<Rightarrow> 's \<Rightarrow> 's option" and clr :: "'s \<Rightarrow> 's"
    and contains :: "'s \<Rightarrow> 'k \<Rightarrow> bool"
  assumes ins: "invar s \<Longrightarrow> invar (ins k s) \<and> elems (ins k s) = insert k (elems s)"
    and del: "invar s \<Longrightarrow> \<exists>s'. del k s = Some s' \<and> invar s' \<and> elems s' = elems s - {k}"
    and clr: "invar (clr s) \<and> elems (clr s) = {}"
    and contains: "invar s \<Longrightarrow> contains s k \<longleftrightarrow> k \<in> elems s"
begin

lemma run_refines:
  "invar s \<Longrightarrow> \<exists>s'. set_run ins del clr ops s = Some s' \<and> invar s' \<and>
     elems s' = fold spec_op ops (elems s) \<and> (\<forall>k. contains s' k \<longleftrightarrow> k \<in> fold spec_op ops (elems s))"
proof (induction ops arbitrary: s)
  case Nil then show ?case using contains by simp
next
  case (Cons op ops)
  show ?case
  proof (cases op)
    case (Insert_op k) then show ?thesis using Cons.IH[of "ins k s"] ins[OF Cons.prems] by simp
  next
    case (Erase_op k)
    obtain s' where "del k s = Some s'" "invar s'" "elems s' = elems s - {k}"
      using del[OF Cons.prems] by blast
    then show ?thesis using Erase_op Cons.IH[of s'] by simp
  next
    case Clear_op then show ?thesis using Cons.IH[of "clr s"] clr by simp
  qed
qed

end

sublocale strict_compare \<subseteq> flat_set: set_interface "fs_invar before" set
  "\<lambda>k s. snd (fs_insert before k s)" "\<lambda>k s. map_option snd (fs_erase before k s)" fs_clear
  "fs_contains before"
proof
  fix s k
  assume inv: "fs_invar before s"
  show "fs_invar before (snd (fs_insert before k s)) \<and>
      set (snd (fs_insert before k s)) = insert k (set s)"
    using fs_insert_result[OF inv] by simp
  show "fs_contains before s k \<longleftrightarrow> k \<in> set s" by (rule fs_contains_member[OF inv])
  show "\<exists>s'. map_option snd (fs_erase before k s) = Some s' \<and> fs_invar before s' \<and> set s' = set s - {k}"
    using fs_erase_result[OF inv, of k] inv fs_find_position[OF inv, of k]
      set_vector_erase[of s "fs_find before s k"] sorted_distinct[of s]
      sorted_wrt_vector_erase[of before s "fs_find before s k"]
    by (auto simp: fs_invar_def)
next
  show "fs_invar before (fs_clear s) \<and> set (fs_clear s) = {}" for s
    by (simp add: fs_clear_def fs_invar_def)
qed

section \<open>Properties\<close>

text \<open>
  C15. A \<^verbatim>\<open>flat_set\<close> implements a set: every sequence of insertions, removals by key and clears,
  from the empty set on, passes the assertion in \<^verbatim>\<open>erase\<close>, keeps the storage strictly
  increasing and ends with the storage and with \<^verbatim>\<open>contains\<close> giving exactly the elements of the
  set those operations describe.
\<close>
theorem flat_set_refines_set:
  fixes ops :: "'k::linorder set_op list"
  shows "\<exists>s. set_run (\<lambda>k s. snd (fs_insert (<) k s)) (\<lambda>k s. map_option snd (fs_erase (<) k s)) fs_clear
      ops [] = Some s \<and> sorted_wrt (<) s \<and> set s = fold spec_op ops {} \<and>
    (\<forall>k. fs_contains (<) s k \<longleftrightarrow> k \<in> fold spec_op ops {})"
  using std_less.flat_set.run_refines[of "[]" ops] by (simp add: fs_invar_def)

text \<open>
  Insertion with a position hint: whatever the hint, the insertion position is the right
  one. A key that is not in the set is inserted as without a hint. A key that is in the set is
  recognised only when the hint points at it or at the end; with any other hint it is inserted
  a second time and the storage is no longer strictly increasing, and \<^verbatim>\<open>erase\<close> then fails its
  assertion.
\<close>
theorem flat_set_insert_hint:
  fixes s :: "'k::linorder flat_set"
  assumes "sorted_wrt (<) s" "p \<le> length s"
  shows "(v \<notin> set s \<or> p = length s \<or> s ! p = v \<longrightarrow>
      map_option snd (fs_insert_hint (<) p v s) = Some (snd (fs_insert (<) v s))) \<and>
    (v \<in> set s \<and> p < length s \<and> s ! p \<noteq> v \<longrightarrow>
      (\<exists>q s'. fs_insert_hint (<) p v s = Some (q, s') \<and> mset s' = add_mset v (mset s) \<and>
        \<not> sorted_wrt (<) s')) \<and>
    fs_insert_hint (<) 0 2 [1, 2 :: nat] = Some (1, [1, 2, 2]) \<and> fs_erase (<) 2 [1, 2, 2 :: nat] = None"
proof -
  have inv: "fs_invar (<) s" using assms(1) by (simp add: fs_invar_def)
  let ?lb = "std_lower_bound (<) id s 0 (length s) v"
  have ins: "snd (fs_insert (<) v s) = (if v \<in> set s then s else vector_insert ?lb v s)"
    using std_less.fs_find_insert_pos_props[OF inv, of v] by (simp add: fs_insert_def fs_do_insert_def)
  have dup: "mset (vector_insert ?lb v s) = add_mset v (mset s) \<and>
      (v \<in> set s \<longrightarrow> \<not> sorted_wrt (<) (vector_insert ?lb v s))"
  proof
    show m: "mset (vector_insert ?lb v s) = add_mset v (mset s)"
      unfolding vector_insert_def by (metis append_take_drop_id mset.simps(2) mset_append union_mset_add_mset_right)
    show "v \<in> set s \<longrightarrow> \<not> sorted_wrt (<) (vector_insert ?lb v s)"
      using m std_less.sorted_distinct by (metis distinct.simps(2) mset.simps(2) mset_eq_imp_distinct_iff)
  qed
  have "fs_insert_hint (<) 0 2 [1, 2 :: nat] = Some (1, [1, 2, 2])" "fs_erase (<) 2 [1, 2, 2 :: nat] = None"
    by code_simp+
  moreover have "p \<noteq> length s \<longrightarrow> s ! p \<in> set s" using assms(2) by simp
  ultimately show ?thesis
    using std_less.fs_insert_hint_result[OF inv assms(2), of v] ins dup by auto
qed

lemma flat_set_insert_hint_witness:
  "map_option snd (fs_insert_hint (<) 1 (5::nat) [2, 4, 7]) = Some [2, 4, 5, 7]"
proof -
  have "snd (fs_insert (<) (5::nat) [2, 4, 7]) = [2, 4, 5, 7]" by code_simp
  then show ?thesis using flat_set_insert_hint[of "[2, 4, 7 :: nat]" 1 5] by simp
qed

end
