(* ===== verification/Flat_Map.thy ===== *)
theory Flat_Map
  imports Flat_Set
begin

text \<open>
  \<^verbatim>\<open>source/modules/eagine/container/flat_map.cpp\<close>: a map as a vector of pairs sorted by key.
  The operations of \<^verbatim>\<open>flat_map_ops\<close> work on a range \<open>b\<close>, \<open>e\<close> of the storage; the members of
  \<^verbatim>\<open>flat_map_view_crtp\<close> and \<^verbatim>\<open>flat_map\<close> call them on the whole storage. A position returned
  together with a storage is a reference into that storage.
\<close>

type_synonym ('k, 'v) flat_map = "('k \<times> 'v) list"

datatype map_error = Out_of_range

section \<open>Operations on a range\<close>

definition fmo_empty :: "nat \<Rightarrow> nat \<Rightarrow> bool" where
  "fmo_empty b e = (b = e)"

definition fmo_size :: "nat \<Rightarrow> nat \<Rightarrow> nat" where
  "fmo_size b e = e - b"

definition fmo_lower_bound ::
    "('k \<Rightarrow> 'k \<Rightarrow> bool) \<Rightarrow> ('k, 'v) flat_map \<Rightarrow> nat \<Rightarrow> nat \<Rightarrow> 'k \<Rightarrow> nat" where
  "fmo_lower_bound lt m b e k = std_lower_bound lt fst m b e k"

definition fmo_upper_bound ::
    "('k \<Rightarrow> 'k \<Rightarrow> bool) \<Rightarrow> ('k, 'v) flat_map \<Rightarrow> nat \<Rightarrow> nat \<Rightarrow> 'k \<Rightarrow> nat" where
  "fmo_upper_bound lt m b e k = std_upper_bound lt fst m b e k"

definition fmo_equal_range ::
    "('k \<Rightarrow> 'k \<Rightarrow> bool) \<Rightarrow> ('k, 'v) flat_map \<Rightarrow> nat \<Rightarrow> nat \<Rightarrow> 'k \<Rightarrow> nat \<times> nat" where
  "fmo_equal_range lt m b e k = std_equal_range lt fst m b e k"

definition fmo_find :: "('k \<Rightarrow> 'k \<Rightarrow> bool) \<Rightarrow> ('k, 'v) flat_map \<Rightarrow> nat \<Rightarrow> nat \<Rightarrow> 'k \<Rightarrow> nat" where
  "fmo_find lt m b e k =
     (let b = fmo_lower_bound lt m b e k in if b \<noteq> e \<and> lt k (fst (m ! b)) then e else b)"

definition fmo_at ::
    "('k \<Rightarrow> 'k \<Rightarrow> bool) \<Rightarrow> ('k, 'v) flat_map \<Rightarrow> nat \<Rightarrow> nat \<Rightarrow> 'k \<Rightarrow> map_error + 'v" where
  "fmo_at lt m b e k =
     (let p = fmo_find lt m b e k in if p = e then Inl Out_of_range else Inr (snd (m ! p)))"

definition fmo_get ::
    "('k \<Rightarrow> 'k \<Rightarrow> bool) \<Rightarrow> ('k, 'v) flat_map \<Rightarrow> nat \<Rightarrow> nat \<Rightarrow> 'k \<Rightarrow> 'v option" where
  "fmo_get lt m b e k =
     (let p = fmo_find lt m b e k in if p \<noteq> e then Some (snd (m ! p)) else None)"

section \<open>The view of a map\<close>

definition fm_empty :: "('k, 'v) flat_map \<Rightarrow> bool" where
  "fm_empty m = fmo_empty 0 (length m)"

definition fm_size :: "('k, 'v) flat_map \<Rightarrow> nat" where
  "fm_size m = fmo_size 0 (length m)"

definition fm_find :: "('k \<Rightarrow> 'k \<Rightarrow> bool) \<Rightarrow> ('k, 'v) flat_map \<Rightarrow> 'k \<Rightarrow> nat" where
  "fm_find lt m k = fmo_find lt m 0 (length m) k"

definition fm_contains :: "('k \<Rightarrow> 'k \<Rightarrow> bool) \<Rightarrow> ('k, 'v) flat_map \<Rightarrow> 'k \<Rightarrow> bool" where
  "fm_contains lt m k = (fmo_find lt m 0 (length m) k \<noteq> length m)"

definition fm_lower_bound :: "('k \<Rightarrow> 'k \<Rightarrow> bool) \<Rightarrow> ('k, 'v) flat_map \<Rightarrow> 'k \<Rightarrow> nat" where
  "fm_lower_bound lt m k = fmo_lower_bound lt m 0 (length m) k"

definition fm_upper_bound :: "('k \<Rightarrow> 'k \<Rightarrow> bool) \<Rightarrow> ('k, 'v) flat_map \<Rightarrow> 'k \<Rightarrow> nat" where
  "fm_upper_bound lt m k = fmo_upper_bound lt m 0 (length m) k"

definition fm_equal_range :: "('k \<Rightarrow> 'k \<Rightarrow> bool) \<Rightarrow> ('k, 'v) flat_map \<Rightarrow> 'k \<Rightarrow> nat \<times> nat" where
  "fm_equal_range lt m k = fmo_equal_range lt m 0 (length m) k"

definition fm_at :: "('k \<Rightarrow> 'k \<Rightarrow> bool) \<Rightarrow> ('k, 'v) flat_map \<Rightarrow> 'k \<Rightarrow> map_error + 'v" where
  "fm_at lt m k = fmo_at lt m 0 (length m) k"

section \<open>Changing a map\<close>

definition fm_assign :: "('k \<Rightarrow> 'k \<Rightarrow> bool) \<Rightarrow> ('k \<times> 'v) list \<Rightarrow> ('k, 'v) flat_map" where
  "fm_assign lt xs = std_sort lt fst xs"

definition fm_clear :: "('k, 'v) flat_map \<Rightarrow> ('k, 'v) flat_map" where
  "fm_clear m = []"

definition fm_front :: "('k, 'v) flat_map \<Rightarrow> ('k \<times> 'v) option" where
  "fm_front m = (if m = [] then None else Some (hd m))"

definition fm_back :: "('k, 'v) flat_map \<Rightarrow> ('k \<times> 'v) option" where
  "fm_back m = (if m = [] then None else Some (last m))"

definition fm_find_insert_pos :: "('k \<Rightarrow> 'k \<Rightarrow> bool) \<Rightarrow> ('k, 'v) flat_map \<Rightarrow> 'k \<Rightarrow> nat \<times> bool" where
  "fm_find_insert_pos lt m k =
     (let e = length m; p = fmo_lower_bound lt m 0 e k in (p, p = e \<or> k \<noteq> fst (m ! p)))"

definition fm_find_insert_pos_hint ::
    "('k \<Rightarrow> 'k \<Rightarrow> bool) \<Rightarrow> ('k, 'v) flat_map \<Rightarrow> nat \<Rightarrow> 'k \<Rightarrow> (nat \<times> bool) option" where
  "fm_find_insert_pos_hint lt m p k =
     (let e = length m
      in if p = e \<and> (m = [] \<or> lt (fst (last m)) k) then Some (p, True)
         else (let p = (if p = e then fmo_lower_bound lt m 0 e k else p)
               in if p \<ge> e then None
                  else if k = fst (m ! p) then Some (p, False)
                  else if lt k (fst (m ! p))
                       then Some (if p \<noteq> 0 then fmo_lower_bound lt m 0 p k else p, True)
                       else Some (fmo_lower_bound lt m p e k, True)))"

text \<open>\<^verbatim>\<open>_do_emplace\<close> and \<^verbatim>\<open>_do_insert\<close>.\<close>

definition fm_do_emplace ::
    "nat \<times> bool \<Rightarrow> 'k \<Rightarrow> 'v \<Rightarrow> ('k, 'v) flat_map \<Rightarrow> (nat \<times> bool) \<times> ('k, 'v) flat_map" where
  "fm_do_emplace ip k v m = (ip, if snd ip then vector_insert (fst ip) (k, v) m else m)"

definition fm_do_insert ::
    "nat \<times> bool \<Rightarrow> 'k \<times> 'v \<Rightarrow> ('k, 'v) flat_map \<Rightarrow> (nat \<times> bool) \<times> ('k, 'v) flat_map" where
  "fm_do_insert ip value m = (ip, if snd ip then vector_insert (fst ip) value m else m)"

text \<open>\<^verbatim>\<open>operator[]\<close>; \<open>dflt\<close> is \<^verbatim>\<open>Val{}\<close>. The position is that of the referenced value.\<close>

definition fm_index ::
    "('k \<Rightarrow> 'k \<Rightarrow> bool) \<Rightarrow> 'v \<Rightarrow> 'k \<Rightarrow> ('k, 'v) flat_map \<Rightarrow> nat \<times> ('k, 'v) flat_map" where
  "fm_index lt dflt k m =
     (let (ip, m') = fm_do_emplace (fm_find_insert_pos lt m k) k dflt m in (fst ip, m'))"

definition fm_emplace ::
    "('k \<Rightarrow> 'k \<Rightarrow> bool) \<Rightarrow> 'k \<Rightarrow> 'v \<Rightarrow> ('k, 'v) flat_map \<Rightarrow> (nat \<times> bool) \<times> ('k, 'v) flat_map" where
  "fm_emplace lt k v m = fm_do_emplace (fm_find_insert_pos lt m k) k v m"

definition fm_emplace_pair ::
    "('k \<Rightarrow> 'k \<Rightarrow> bool) \<Rightarrow> 'k \<times> 'v \<Rightarrow> ('k, 'v) flat_map \<Rightarrow> (nat \<times> bool) \<times> ('k, 'v) flat_map" where
  "fm_emplace_pair lt el m =
     (case el of (k, v) \<Rightarrow> fm_do_emplace (fm_find_insert_pos lt m k) k v m)"

definition fm_try_emplace ::
    "('k \<Rightarrow> 'k \<Rightarrow> bool) \<Rightarrow> 'k \<Rightarrow> 'v \<Rightarrow> ('k, 'v) flat_map \<Rightarrow> (nat \<times> bool) \<times> ('k, 'v) flat_map" where
  "fm_try_emplace lt k v m = fm_do_emplace (fm_find_insert_pos lt m k) k v m"

definition fm_emplace_hint ::
    "('k \<Rightarrow> 'k \<Rightarrow> bool) \<Rightarrow> nat \<Rightarrow> 'k \<Rightarrow> 'v \<Rightarrow> ('k, 'v) flat_map \<Rightarrow> (nat \<times> ('k, 'v) flat_map) option" where
  "fm_emplace_hint lt p k v m =
     map_option (\<lambda>ip. let (ip', m') = fm_do_emplace ip k v m in (fst ip', m'))
       (fm_find_insert_pos_hint lt m p k)"

definition fm_insert ::
    "('k \<Rightarrow> 'k \<Rightarrow> bool) \<Rightarrow> 'k \<times> 'v \<Rightarrow> ('k, 'v) flat_map \<Rightarrow> (nat \<times> bool) \<times> ('k, 'v) flat_map" where
  "fm_insert lt value m = fm_do_insert (fm_find_insert_pos lt m (fst value)) value m"

definition fm_insert_hint ::
    "('k \<Rightarrow> 'k \<Rightarrow> bool) \<Rightarrow> nat \<Rightarrow> 'k \<times> 'v \<Rightarrow> ('k, 'v) flat_map \<Rightarrow> (nat \<times> ('k, 'v) flat_map) option" where
  "fm_insert_hint lt p value m =
     map_option (\<lambda>ip. let (ip', m') = fm_do_insert ip value m in (fst ip', m'))
       (fm_find_insert_pos_hint lt m p (fst value))"

definition fm_erase_at :: "nat \<Rightarrow> ('k, 'v) flat_map \<Rightarrow> (nat \<times> ('k, 'v) flat_map) option" where
  "fm_erase_at p m = (if p < length m then Some (p, vector_erase p m) else None)"

definition fm_erase_range :: "nat \<Rightarrow> nat \<Rightarrow> ('k, 'v) flat_map \<Rightarrow> (nat \<times> ('k, 'v) flat_map) option" where
  "fm_erase_range f t m =
     (if f \<le> t \<and> t \<le> length m then Some (f, vector_erase_range f t m) else None)"

definition fm_erase ::
    "('k \<Rightarrow> 'k \<Rightarrow> bool) \<Rightarrow> 'k \<Rightarrow> ('k, 'v) flat_map \<Rightarrow> (nat \<times> ('k, 'v) flat_map) option" where
  "fm_erase lt k m =
     (let p = fmo_lower_bound lt m 0 (length m) k
      in if p \<noteq> length m \<and> \<not> lt k (fst (m ! p))
         then (if fmo_upper_bound lt m 0 (length m) k - p = 1
               then Some (1, vector_erase p m) else None)
         else Some (0, m))"

definition fm_erase_if :: "('k \<times> 'v \<Rightarrow> bool) \<Rightarrow> ('k, 'v) flat_map \<Rightarrow> nat \<times> ('k, 'v) flat_map" where
  "fm_erase_if P m = (length (filter P m), filter (\<lambda>x. \<not> P x) m)"

text \<open>Writing through the reference \<^verbatim>\<open>operator[]\<close> returns: \<^verbatim>\<open>m[k] = v\<close>.\<close>

definition fm_index_write ::
    "('k \<Rightarrow> 'k \<Rightarrow> bool) \<Rightarrow> 'v \<Rightarrow> 'k \<Rightarrow> 'v \<Rightarrow> ('k, 'v) flat_map \<Rightarrow> ('k, 'v) flat_map" where
  "fm_index_write lt dflt k v m = (let (p, m') = fm_index lt dflt k m in m'[p := (fst (m' ! p), v)])"

section \<open>The keys of a map form a flat set\<close>

definition fm_invar :: "('k \<Rightarrow> 'k \<Rightarrow> bool) \<Rightarrow> ('k, 'v) flat_map \<Rightarrow> bool" where
  "fm_invar lt m = fs_invar lt (map fst m)"

lemma part_point_map:
  "first + cnt \<le> length xs \<Longrightarrow> part_point (\<lambda>x. p (f x)) xs first cnt = part_point p (map f xs) first cnt"
proof (induction p "map f xs" first cnt rule: part_point.induct)
  case (1 p first cnt)
  show ?case
  proof (cases "cnt = 0")
    case False
    then have "cnt div 2 < cnt" by simp
    then show ?thesis
      using 1(1)[OF False refl] 1(2)[OF False refl] 1(3) False
      by (subst (1 2) part_point.simps) (auto simp: Let_def)
  qed (simp add: part_point.simps)
qed

lemma fmo_bounds_keys:
  assumes "b \<le> e" "e \<le> length m"
  shows "fmo_lower_bound lt m b e k = std_lower_bound lt id (map fst m) b e k"
    and "fmo_upper_bound lt m b e k = std_upper_bound lt id (map fst m) b e k"
  using part_point_map[of b "e - b" m "\<lambda>x. lt x k" fst]
    part_point_map[of b "e - b" m "\<lambda>x. \<not> lt k x" fst] assms
  by (simp_all add: fmo_lower_bound_def fmo_upper_bound_def std_lower_bound_def std_upper_bound_def)

lemma fm_find_insert_pos_keys:
  "fm_find_insert_pos lt m k = fs_find_insert_pos lt (map fst m) k"
  using part_point_bounds[of 0 "\<lambda>x. lt x k" "map fst m" "length m"]
  by (auto simp: fm_find_insert_pos_def fs_find_insert_pos_def Let_def fmo_bounds_keys
      std_lower_bound_def)

lemma fm_erase_keys: "map_option (map_prod id (map fst)) (fm_erase lt k m) = fs_erase lt k (map fst m)"
  using part_point_bounds[of 0 "\<lambda>x. lt x k" "map fst m" "length m"]
  by (auto simp: fm_erase_def fs_erase_def Let_def fmo_bounds_keys std_lower_bound_def
      std_upper_bound_def map_vector_ops)

lemma fm_emplace_keys: "map fst (snd (fm_emplace lt k v m)) = snd (fs_insert lt k (map fst m))"
  by (simp add: fm_emplace_def fm_do_emplace_def fm_find_insert_pos_keys fs_insert_def
      fs_do_insert_def map_vector_ops)

text \<open>The other insertions do the same as \<^verbatim>\<open>emplace\<close>.\<close>

lemma fm_insertions:
  "fm_try_emplace lt k v m = fm_emplace lt k v m"
  "fm_emplace_pair lt (k, v) m = fm_emplace lt k v m"
  "fm_insert lt (k, v) m = fm_emplace lt k v m"
  "fm_index lt v k m = (fst (fst (fm_emplace lt k v m)), snd (fm_emplace lt k v m))"
  by (simp_all add: fm_try_emplace_def fm_emplace_def fm_emplace_pair_def fm_insert_def
      fm_do_emplace_def fm_do_insert_def fm_index_def)

section \<open>The map a sorted vector represents\<close>

lemma map_of_list_update:
  "distinct (map fst m) \<Longrightarrow> p < length m \<Longrightarrow> fst (m ! p) = k \<Longrightarrow>
   map_of (m[p := (k, v)]) = (map_of m)(k \<mapsto> v)"
proof (induction m arbitrary: p)
  case (Cons x m)
  show ?case
  proof (cases p)
    case 0 then show ?thesis using Cons by (cases x) auto
  next
    case (Suc q)
    then have "k \<in> fst ` set m" using Cons.prems by (metis Suc_less_eq image_eqI length_Cons nth_Cons_Suc nth_mem)
    moreover have "fst x \<notin> fst ` set m" using Cons.prems(1) by simp
    ultimately have "fst x \<noteq> k" by metis
    then show ?thesis using Cons Suc by (cases x) (auto simp: fun_upd_twist)
  qed
qed simp

lemma map_of_vector_erase:
  assumes "distinct (map fst m)" "p < length m" "fst (m ! p) = k"
  shows "map_of (vector_erase p m) = (map_of m)(k := None)"
proof -
  have m: "m = take p m @ m ! p # drop (p + 1) m" using assms(2) by (simp add: id_take_nth_drop)
  have d: "distinct (map fst (take p m) @ k # map fst (drop (p + 1) m))"
    using assms(1,3) m by (metis list.simps(9) map_append)
  then have "k \<notin> fst ` set (take p m)" "k \<notin> fst ` set (drop (p + 1) m)" by auto
  then have n: "map_of (take p m) k = None" "map_of (drop (p + 1) m) k = None"
    by (simp_all add: map_of_eq_None_iff)
  have mo: "map_of m = (map_of (drop (p + 1) m))(k \<mapsto> snd (m ! p)) ++ map_of (take p m)"
    using assms(3) by (subst m) (cases "m ! p", simp add: map_add_def)
  show ?thesis
    unfolding mo vector_erase_def using n by (auto simp: map_add_def split: option.splits)
qed

context strict_compare
begin

lemma fm_invar_distinct: "fm_invar before m \<Longrightarrow> distinct (map fst m)"
  unfolding fm_invar_def fs_invar_def by (rule sorted_distinct)

lemma fm_find_position:
  assumes "fm_invar before m"
  shows "fm_find before m k = fs_find before (map fst m) k"
proof -
  have inv: "fs_invar before (map fst m)" using assms by (simp add: fm_invar_def)
  let ?p = "std_lower_bound before id (map fst m) 0 (length m) k"
  note lb = fs_lower_bound_props[OF inv, where k = k, simplified]
  note ip = fs_find_insert_pos_props[OF inv, of k, simplified]
  have "?p \<noteq> length m \<and> before k (fst (m ! ?p)) \<longleftrightarrow> ?p \<noteq> length m \<and> fst (m ! ?p) \<noteq> k"
    using lb(1) lb(2)[of ?p] irrefl comparable by fastforce
  then have "fm_find before m k = (if ?p \<noteq> length m \<and> fst (m ! ?p) \<noteq> k then length m else ?p)"
    by (auto simp: fm_find_def fmo_find_def fmo_bounds_keys Let_def)
  then show ?thesis
    using ip lb(1,3) by (auto simp: fs_find_def split_beta)
qed

lemma fm_find_lookup:
  assumes "fm_invar before m"
  shows "case map_of m k of None \<Rightarrow> fm_find before m k = length m
    | Some v \<Rightarrow> fm_find before m k < length m \<and> m ! fm_find before m k = (k, v)"
proof -
  have inv: "fs_invar before (map fst m)" using assms by (simp add: fm_invar_def)
  note pos = fs_find_position[OF inv, of k, folded fm_find_position[OF assms]]
  show ?thesis
  proof (cases "map_of m k")
    case None
    then have "k \<notin> set (map fst m)" by (simp add: map_of_eq_None_iff)
    then show ?thesis using pos None by simp
  next
    case (Some v)
    then have "k \<in> set (map fst m)" by (metis map_of_eq_None_iff option.simps(3) set_map)
    then have l: "fm_find before m k < length m" "fst (m ! fm_find before m k) = k"
      using pos by auto
    then have "map_of m k = Some (snd (m ! fm_find before m k))"
      by (metis fm_invar_distinct[OF assms] map_of_is_SomeI nth_mem prod.collapse)
    then show ?thesis using l Some by (simp add: prod_eq_iff)
  qed
qed

lemma fm_at_lookup:
  "fm_invar before m \<Longrightarrow>
   fm_at before m k = (case map_of m k of None \<Rightarrow> Inl Out_of_range | Some v \<Rightarrow> Inr v)"
  using fm_find_lookup[of m k] by (auto simp: fm_at_def fmo_at_def fm_find_def Let_def split: option.splits)

lemma fm_contains_lookup: "fm_invar before m \<Longrightarrow> fm_contains before m k \<longleftrightarrow> k \<in> dom (map_of m)"
  using fm_find_lookup[of m k]
  by (auto simp: fm_contains_def fm_find_def Let_def domIff split: option.splits)

lemma fm_emplace_result:
  assumes "fm_invar before m"
  shows "fm_invar before (snd (fm_emplace before k v m))"
    and "map_of (snd (fm_emplace before k v m)) =
      (if k \<in> dom (map_of m) then map_of m else (map_of m)(k \<mapsto> v))"
    and "fst (fst (fm_emplace before k v m)) < length (snd (fm_emplace before k v m))"
    and "fst (snd (fm_emplace before k v m) ! fst (fst (fm_emplace before k v m))) = k"
proof -
  have inv: "fs_invar before (map fst m)" using assms by (simp add: fm_invar_def)
  note ins = fs_insert_result[OF inv, of k, folded fm_emplace_keys[of before k v m]]
  show inv': "fm_invar before (snd (fm_emplace before k v m))"
    using ins(2) by (simp add: fm_invar_def)
  have ip: "fst (fm_emplace before k v m) = fst (fs_insert before k (map fst m))"
    by (simp add: fm_emplace_def fm_do_emplace_def fs_insert_def fs_do_insert_def
        fm_find_insert_pos_keys)
  show pos: "fst (fst (fm_emplace before k v m)) < length (snd (fm_emplace before k v m))"
    using ins(4) ip by simp
  show "fst (snd (fm_emplace before k v m) ! fst (fst (fm_emplace before k v m))) = k"
    using ins(5) ip pos by simp
  show "map_of (snd (fm_emplace before k v m)) =
      (if k \<in> dom (map_of m) then map_of m else (map_of m)(k \<mapsto> v))"
  proof (cases "k \<in> set (map fst m)")
    case True
    then have "snd (fm_emplace before k v m) = m"
      using fs_find_insert_pos_props(1)[OF inv, of k]
      by (simp add: fm_emplace_def fm_do_emplace_def fm_find_insert_pos_keys)
    then show ?thesis using True by (simp add: dom_map_of_conv_image_fst)
  next
    case False
    then have "set (snd (fm_emplace before k v m)) = set ((k, v) # m)"
      using fs_find_insert_pos_props(1)[OF inv, of k]
      by (simp add: fm_emplace_def fm_do_emplace_def fm_find_insert_pos_keys)
    then have "map_of (snd (fm_emplace before k v m)) = map_of ((k, v) # m)"
      using False fm_invar_distinct[OF inv'] fm_invar_distinct[OF assms]
      by (subst map_of_inject_set) auto
    then show ?thesis using False by (simp add: dom_map_of_conv_image_fst)
  qed
qed

lemma fm_index_write_result:
  assumes "fm_invar before m"
  shows "fm_invar before (fm_index_write before d k v m) \<and>
    map_of (fm_index_write before d k v m) = (map_of m)(k \<mapsto> v)"
proof -
  let ?m = "snd (fm_emplace before k d m)" and ?p = "fst (fst (fm_emplace before k d m))"
  note em = fm_emplace_result[OF assms, of k d]
  have w: "fm_index_write before d k v m = ?m[?p := (k, v)]"
    using em(4) by (simp add: fm_index_write_def fm_insertions)
  have keys: "map fst (?m[?p := (k, v)]) = map fst ?m"
    using em(3,4) by (simp add: map_update list_update_same_conv)
  have dis: "distinct (map fst ?m)" by (rule fm_invar_distinct[OF em(1)])
  have "map_of (?m[?p := (k, v)]) = (map_of ?m)(k \<mapsto> v)"
    by (rule map_of_list_update[OF dis em(3,4)])
  then show ?thesis using em(1,2) keys w by (auto simp: fm_invar_def)
qed

lemma fm_erase_result:
  assumes "fm_invar before m"
  shows "fm_erase before k m = (if k \<in> dom (map_of m) then Some (1, vector_erase (fm_find before m k) m)
      else Some (0, m))"
    and "\<exists>n m'. fm_erase before k m = Some (n, m') \<and> fm_invar before m' \<and>
      map_of m' = (map_of m)(k := None)"
proof -
  have inv: "fs_invar before (map fst m)" using assms by (simp add: fm_invar_def)
  let ?p = "fmo_lower_bound before m 0 (length m) k"
  have in_keys: "k \<in> dom (map_of m) \<longleftrightarrow> k \<in> set (map fst m)"
    by (simp add: dom_map_of_conv_image_fst)
  have key: "map_option (map_prod id (map fst)) (fm_erase before k m) =
      (if k \<in> set (map fst m) then Some (1, vector_erase (fs_find before (map fst m) k) (map fst m))
       else Some (0, map fst m))"
    unfolding fm_erase_keys fs_erase_result[OF inv] ..
  have p: "k \<in> set (map fst m) \<Longrightarrow> fm_find before m k = ?p"
    using fs_find_insert_pos_props[OF inv, of k]
    by (simp add: fm_find_position[OF assms] fs_find_def split_beta fmo_bounds_keys)
  show res: "fm_erase before k m = (if k \<in> dom (map_of m) then Some (1, vector_erase (fm_find before m k) m)
      else Some (0, m))"
    using key p unfolding in_keys by (auto simp: fm_erase_def Let_def split: if_splits)
  show "\<exists>n m'. fm_erase before k m = Some (n, m') \<and> fm_invar before m' \<and>
      map_of m' = (map_of m)(k := None)"
  proof (cases "k \<in> dom (map_of m)")
    case True
    then obtain v where "map_of m k = Some v" by auto
    then have pos: "fm_find before m k < length m" "fst (m ! fm_find before m k) = k"
      using fm_find_lookup[OF assms, of k] by auto
    have "fm_invar before (vector_erase (fm_find before m k) m)"
      using inv by (simp add: fm_invar_def fs_invar_def map_vector_ops sorted_wrt_vector_erase)
    then show ?thesis
      using res True map_of_vector_erase[OF fm_invar_distinct[OF assms] pos] by simp
  next
    case False
    then show ?thesis using res assms by (auto simp: domIff fun_upd_idem)
  qed
qed

lemma fm_erase_if_result:
  assumes "fm_invar before m"
  shows "fm_invar before (snd (fm_erase_if P m))"
    and "map_of (snd (fm_erase_if P m)) k =
      (case map_of m k of None \<Rightarrow> None | Some v \<Rightarrow> if P (k, v) then None else Some v)"
proof -
  have d: "distinct (map fst m)" by (rule fm_invar_distinct[OF assms])
  then have d': "distinct (map fst (filter (\<lambda>x. \<not> P x) m))"
    by (simp add: distinct_map_filter)
  show "fm_invar before (snd (fm_erase_if P m))"
    using assms by (simp add: fm_invar_def fs_invar_def fm_erase_if_def sorted_wrt_map sorted_wrt_filter)
  show "map_of (snd (fm_erase_if P m)) k =
      (case map_of m k of None \<Rightarrow> None | Some v \<Rightarrow> if P (k, v) then None else Some v)"
  proof (cases "map_of m k")
    case None
    then have "k \<notin> fst ` set (filter (\<lambda>x. \<not> P x) m)" by (auto simp: map_of_eq_None_iff)
    then have "map_of (filter (\<lambda>x. \<not> P x) m) k = None" by (simp only: map_of_eq_None_iff not_False_eq_True)
    then show ?thesis using None by (simp add: fm_erase_if_def)
  next
    case (Some v)
    then have v: "(k, v) \<in> set m" by (rule map_of_SomeD)
    show ?thesis
    proof (cases "P (k, v)")
      case False
      then have "map_of (filter (\<lambda>x. \<not> P x) m) k = Some v" using v d' by simp
      then show ?thesis using Some False by (simp add: fm_erase_if_def)
    next
      case True
      have "w = v" if "(k, w) \<in> set m" for w using that v d by (metis eq_key_imp_eq_value)
      then have "k \<notin> fst ` set (filter (\<lambda>x. \<not> P x) m)" using True by auto
      then have "map_of (filter (\<lambda>x. \<not> P x) m) k = None" by (simp only: map_of_eq_None_iff not_False_eq_True)
      then show ?thesis using Some True by (simp add: fm_erase_if_def)
    qed
  qed
qed

end


section \<open>The interface of a map\<close>

datatype ('k, 'v) map_op = Emplace_op 'k 'v | Write_op 'k 'v | Remove_op 'k
  | Remove_if_op "'k \<times> 'v \<Rightarrow> bool" | Clear_map_op

primrec map_spec_op :: "('k, 'v) map_op \<Rightarrow> ('k \<rightharpoonup> 'v) \<Rightarrow> ('k \<rightharpoonup> 'v)" where
  "map_spec_op (Emplace_op k v) M = (if k \<in> dom M then M else M(k \<mapsto> v))"
| "map_spec_op (Write_op k v) M = M(k \<mapsto> v)"
| "map_spec_op (Remove_op k) M = M(k := None)"
| "map_spec_op (Remove_if_op P) M =
     (\<lambda>k. case M k of None \<Rightarrow> None | Some v \<Rightarrow> if P (k, v) then None else Some v)"
| "map_spec_op Clear_map_op M = Map.empty"

primrec map_run ::
    "('k \<Rightarrow> 'v \<Rightarrow> 'm \<Rightarrow> 'm) \<Rightarrow> ('k \<Rightarrow> 'v \<Rightarrow> 'm \<Rightarrow> 'm) \<Rightarrow> ('k \<Rightarrow> 'm \<Rightarrow> 'm option) \<Rightarrow>
     (('k \<times> 'v \<Rightarrow> bool) \<Rightarrow> 'm \<Rightarrow> 'm) \<Rightarrow> ('m \<Rightarrow> 'm) \<Rightarrow> ('k, 'v) map_op list \<Rightarrow> 'm \<Rightarrow> 'm option" where
  "map_run emp wr rm rmif clr [] m = Some m"
| "map_run emp wr rm rmif clr (op # ops) m =
     (case op of Emplace_op k v \<Rightarrow> map_run emp wr rm rmif clr ops (emp k v m)
      | Write_op k v \<Rightarrow> map_run emp wr rm rmif clr ops (wr k v m)
      | Remove_op k \<Rightarrow> Option.bind (rm k m) (map_run emp wr rm rmif clr ops)
      | Remove_if_op P \<Rightarrow> map_run emp wr rm rmif clr ops (rmif P m)
      | Clear_map_op \<Rightarrow> map_run emp wr rm rmif clr ops (clr m))"

locale map_interface =
  fixes invar :: "'m \<Rightarrow> bool" and lookup :: "'m \<Rightarrow> 'k \<rightharpoonup> 'v"
    and emp :: "'k \<Rightarrow> 'v \<Rightarrow> 'm \<Rightarrow> 'm" and wr :: "'k \<Rightarrow> 'v \<Rightarrow> 'm \<Rightarrow> 'm"
    and rm :: "'k \<Rightarrow> 'm \<Rightarrow> 'm option" and rmif :: "('k \<times> 'v \<Rightarrow> bool) \<Rightarrow> 'm \<Rightarrow> 'm"
    and clr :: "'m \<Rightarrow> 'm"
  assumes emp: "invar m \<Longrightarrow> invar (emp k v m) \<and> lookup (emp k v m) = map_spec_op (Emplace_op k v) (lookup m)"
    and wr: "invar m \<Longrightarrow> invar (wr k v m) \<and> lookup (wr k v m) = map_spec_op (Write_op k v) (lookup m)"
    and rm: "invar m \<Longrightarrow> \<exists>m'. rm k m = Some m' \<and> invar m' \<and> lookup m' = map_spec_op (Remove_op k) (lookup m)"
    and rmif: "invar m \<Longrightarrow> invar (rmif P m) \<and> lookup (rmif P m) = map_spec_op (Remove_if_op P) (lookup m)"
    and clr: "invar (clr m) \<and> lookup (clr m) = Map.empty"
begin

lemma run_refines:
  "invar m \<Longrightarrow> \<exists>m'. map_run emp wr rm rmif clr ops m = Some m' \<and> invar m' \<and>
     lookup m' = fold map_spec_op ops (lookup m)"
proof (induction ops arbitrary: m)
  case (Cons op ops)
  note laws = emp[OF Cons.prems] wr[OF Cons.prems] rmif[OF Cons.prems] clr[of m]
  have "\<exists>m1. invar m1 \<and> lookup m1 = map_spec_op op (lookup m) \<and>
      map_run emp wr rm rmif clr (op # ops) m = map_run emp wr rm rmif clr ops m1"
  proof (cases op)
    case (Emplace_op k v)
    then show ?thesis using laws(1)[of k v] by (intro exI[of _ "emp k v m"]) simp
  next
    case (Write_op k v)
    then show ?thesis using laws(2)[of k v] by (intro exI[of _ "wr k v m"]) simp
  next
    case (Remove_op k)
    then show ?thesis using rm[OF Cons.prems, of k] by auto
  next
    case (Remove_if_op P)
    then show ?thesis using laws(3)[of P] by (intro exI[of _ "rmif P m"]) simp
  next
    case Clear_map_op
    then show ?thesis using laws(4) by (intro exI[of _ "clr m"]) simp
  qed
  then show ?case using Cons.IH by fastforce
qed simp

end

sublocale strict_compare \<subseteq> flat_map: map_interface "fm_invar before" map_of
  "\<lambda>k v m. snd (fm_emplace before k v m)" "fm_index_write before d"
  "\<lambda>k m. map_option snd (fm_erase before k m)" "\<lambda>P m. snd (fm_erase_if P m)" fm_clear for d
proof
  fix m :: "('a, 'b) flat_map" and k v P
  assume inv: "fm_invar before m"
  show "fm_invar before (snd (fm_emplace before k v m)) \<and>
      map_of (snd (fm_emplace before k v m)) = map_spec_op (Emplace_op k v) (map_of m)"
    using fm_emplace_result(1,2)[OF inv] by simp
  show "fm_invar before (fm_index_write before d k v m) \<and>
      map_of (fm_index_write before d k v m) = map_spec_op (Write_op k v) (map_of m)"
    using fm_index_write_result[OF inv] by simp
  show "\<exists>m'. map_option snd (fm_erase before k m) = Some m' \<and> fm_invar before m' \<and>
      map_of m' = map_spec_op (Remove_op k) (map_of m)"
    using fm_erase_result(2)[OF inv, of k] by auto
  show "fm_invar before (snd (fm_erase_if P m)) \<and>
      map_of (snd (fm_erase_if P m)) = map_spec_op (Remove_if_op P) (map_of m)"
    using fm_erase_if_result[OF inv] by auto
next
  show "fm_invar before (fm_clear m) \<and> map_of (fm_clear m) = Map.empty" for m
    by (simp add: fm_clear_def fm_invar_def fs_invar_def)
qed

section \<open>Properties\<close>

text \<open>
  C3. A \<^verbatim>\<open>flat_map\<close> implements a finite map: from the empty map on, every sequence of
  \<^verbatim>\<open>emplace\<close> (which keeps an existing value), assignments \<^verbatim>\<open>m[k] = v\<close> (which replace it), \<^verbatim>\<open>erase\<close>
  of keys, \<^verbatim>\<open>erase_if\<close> and \<^verbatim>\<open>clear\<close> passes the assertion in \<^verbatim>\<open>erase\<close>, keeps the keys strictly
  increasing and leaves exactly the described map, which \<^verbatim>\<open>contains\<close> and \<^verbatim>\<open>at\<close> report, \<^verbatim>\<open>at\<close> throwing
  for the keys that are missing.
\<close>
theorem flat_map_refines_map:
  fixes ops :: "('k::linorder, 'v) map_op list"
  shows "let M = fold map_spec_op ops Map.empty in \<exists>m. map_run (\<lambda>k v m. snd (fm_emplace (<) k v m)) (fm_index_write (<) d)
      (\<lambda>k m. map_option snd (fm_erase (<) k m)) (\<lambda>P m. snd (fm_erase_if P m)) fm_clear ops [] = Some m \<and>
    sorted_wrt (<) (map fst m) \<and> map_of m = M \<and> (\<forall>k. fm_contains (<) m k \<longleftrightarrow> k \<in> dom M) \<and>
    (\<forall>k. fm_at (<) m k = (case M k of None \<Rightarrow> Inl Out_of_range | Some v \<Rightarrow> Inr v))"
proof -
  define M where "M = fold map_spec_op ops (Map.empty :: 'k \<rightharpoonup> 'v)"
  have "fm_invar (<) ([] :: ('k, 'v) flat_map)" by (simp add: fm_invar_def fs_invar_def)
  then obtain m where m: "map_run (\<lambda>k v m. snd (fm_emplace (<) k v m)) (fm_index_write (<) d)
      (\<lambda>k m. map_option snd (fm_erase (<) k m)) (\<lambda>P m. snd (fm_erase_if P m)) fm_clear ops [] = Some m"
    and inv: "fm_invar (<) m" and M: "map_of m = M"
    using std_less.flat_map.run_refines[of "[]" d ops] by (auto simp: M_def)
  then show ?thesis
    using std_less.fm_contains_lookup[OF inv] std_less.fm_at_lookup[OF inv]
    by (auto simp: fm_invar_def fs_invar_def Let_def M_def)
qed

end
