(* ===== verification/Stack_Allocator.thy ===== *)
theory Stack_Allocator
  imports Prelude "HOL-Library.Multiset"
begin

text \<open>
  \<^verbatim>\<open>source/modules/eagine/memory/stack_allocator.cpp\<close>, \<^verbatim>\<open>stack_allocator_impl.cpp\<close> and the alignment
  functions of \<^verbatim>\<open>align.cpp\<close> and \<^verbatim>\<open>address.cpp\<close>: allocators that hand out consecutive parts of
  a block and take them back in any order. Addresses are natural numbers, \<^verbatim>\<open>T\<close> is \<^verbatim>\<open>byte\<close> (the
  only instance the library uses), a block is its address and its size. A failed assertion gives
  \<open>None\<close>; the empty block \<^verbatim>\<open>{}\<close> that an allocation returns when there is no room is an inner
  \<open>None\<close>.
\<close>

type_synonym block = "nat \<times> nat"

section \<open>Alignment\<close>

definition misalignment :: "nat \<Rightarrow> nat \<Rightarrow> nat" where
  "misalignment addr alignment = addr mod alignment"

definition is_aligned_to :: "nat \<Rightarrow> nat \<Rightarrow> bool" where
  "is_aligned_to addr algn = (misalignment addr algn = 0)"

definition align_up_offs :: "nat \<Rightarrow> nat \<Rightarrow> nat" where
  "align_up_offs align misalign = (if misalign \<noteq> 0 then align - misalign else 0)"

definition align_up_by :: "nat \<Rightarrow> nat \<Rightarrow> nat \<Rightarrow> nat option" where
  "align_up_by addr offs mx = (if offs \<le> mx then Some (addr + offs) else None)"

definition align_up :: "nat \<Rightarrow> nat \<Rightarrow> nat \<Rightarrow> nat option" where
  "align_up addr align mx = align_up_by addr (align_up_offs align (misalignment addr align)) mx"

definition align_down_offs :: "nat \<Rightarrow> nat \<Rightarrow> nat" where
  "align_down_offs align misalign = misalign"

definition align_down_by :: "nat \<Rightarrow> nat \<Rightarrow> nat \<Rightarrow> nat option" where
  "align_down_by addr offs mx = (if offs \<le> mx then Some (addr - offs) else None)"

definition align_down :: "nat \<Rightarrow> nat \<Rightarrow> nat \<Rightarrow> nat option" where
  "align_down addr align mx = align_down_by addr (align_down_offs align (misalignment addr align)) mx"

text \<open>\<open>tal\<close> and \<open>tsz\<close> are the alignment and the size of the type.\<close>

definition align_up_to :: "nat \<Rightarrow> nat \<Rightarrow> nat \<Rightarrow> nat \<Rightarrow> nat option" where
  "align_up_to tal tsz addr align = align_up addr (if align < tal then tal else align) tsz"

definition align_down_to :: "nat \<Rightarrow> nat \<Rightarrow> nat \<Rightarrow> nat \<Rightarrow> nat option" where
  "align_down_to tal tsz addr align = align_down addr (if align < tal then tal else align) tsz"

section \<open>The base allocator\<close>

record stack_alloc =
  sa_btm :: nat
  sa_top :: nat
  sa_pos :: nat
  sa_min :: nat
  sa_dif :: int

definition sa_new_aligned :: "block \<Rightarrow> nat \<Rightarrow> stack_alloc option" where
  "sa_new_aligned blk align =
     (case (align_up_to 1 1 (fst blk) align, align_down_to 1 1 (fst blk + snd blk) align) of
        (Some b, Some t) \<Rightarrow> Some \<lparr>sa_btm = b, sa_top = t, sa_pos = b, sa_min = b, sa_dif = 0\<rparr>
      | _ \<Rightarrow> None)"

definition sa_new :: "block \<Rightarrow> stack_alloc option" where
  "sa_new blk = sa_new_aligned blk 1"

text \<open>The move constructor leaves an allocator without a store behind.\<close>

definition sa_move :: "stack_alloc \<Rightarrow> stack_alloc \<times> stack_alloc" where
  "sa_move s = (s, \<lparr>sa_btm = 0, sa_top = 0, sa_pos = 0, sa_min = 0, sa_dif = 0\<rparr>)"

definition sa_store :: "stack_alloc \<Rightarrow> block option" where
  "sa_store s = (if sa_btm s \<le> sa_top s then Some (sa_btm s, sa_top s - sa_btm s) else None)"

definition sa_available :: "stack_alloc \<Rightarrow> block option" where
  "sa_available s = (if sa_pos s \<le> sa_top s then Some (sa_pos s, sa_top s - sa_pos s) else None)"

definition sa_allocated :: "stack_alloc \<Rightarrow> block option" where
  "sa_allocated s = (if sa_btm s \<le> sa_pos s then Some (sa_btm s, sa_pos s - sa_btm s) else None)"

definition sa_max_size :: "stack_alloc \<Rightarrow> nat option" where
  "sa_max_size s = map_option snd (sa_available s)"

definition sa_allocated_size :: "stack_alloc \<Rightarrow> nat option" where
  "sa_allocated_size s = map_option snd (sa_allocated s)"

definition block_contains :: "block \<Rightarrow> block \<Rightarrow> bool" where
  "block_contains a b = (fst a \<le> fst b \<and> fst b + snd b \<le> fst a + snd a)"

definition sa_contains :: "block \<Rightarrow> stack_alloc \<Rightarrow> bool option" where
  "sa_contains b s = map_option (\<lambda>a. block_contains a b) (sa_store s)"

definition sa_has_allocated :: "block \<Rightarrow> stack_alloc \<Rightarrow> bool option" where
  "sa_has_allocated b s = map_option (\<lambda>a. block_contains a b) (sa_allocated s)"

definition sa_allocate :: "nat \<Rightarrow> stack_alloc \<Rightarrow> (block option \<times> stack_alloc) option" where
  "sa_allocate n s =
     (case sa_max_size s of None \<Rightarrow> None | Some m \<Rightarrow>
        if n > m then Some (None, s)
        else if \<not> sa_min s \<le> sa_pos s then None
        else Some (Some (sa_pos s, n),
          (if sa_min s = sa_pos s then s\<lparr>sa_min := sa_min s + n\<rparr> else s\<lparr>sa_dif := sa_dif s + int n\<rparr>)
            \<lparr>sa_pos := sa_pos s + n\<rparr>))"

definition sa_truncate :: "block \<Rightarrow> nat \<Rightarrow> stack_alloc \<Rightarrow> (block \<times> stack_alloc) option" where
  "sa_truncate b nn s =
     (let p = fst b; pn = snd b
      in if \<not> pn \<ge> nn then None
         else if p + pn = sa_pos s
         then (let d = pn - nn
               in if \<not> sa_min s \<le> sa_pos s then None
                  else Some ((p, nn),
                    (if sa_min s = sa_pos s then s\<lparr>sa_min := sa_min s - d\<rparr>
                     else s\<lparr>sa_dif := sa_dif s - int d\<rparr>)\<lparr>sa_pos := sa_pos s - d\<rparr>))
         else Some ((p, nn), s))"

definition sa_deallocate :: "block \<Rightarrow> stack_alloc \<Rightarrow> stack_alloc option" where
  "sa_deallocate b s =
     (let p = fst b; n = snd b
      in if \<not> p + n \<le> sa_pos s then None
         else map_option (\<lambda>s. if sa_dif s = 0 then s\<lparr>sa_pos := sa_min s\<rparr> else s)
          (if p + n = sa_pos s
           then (if \<not> sa_min s \<le> sa_pos s then None
                 else Some ((if sa_min s = sa_pos s then s\<lparr>sa_min := sa_min s - n\<rparr>
                             else s\<lparr>sa_dif := sa_dif s - int n\<rparr>)\<lparr>sa_pos := sa_pos s - n\<rparr>))
           else Some (if p + n = sa_min s then s\<lparr>sa_min := sa_min s - n\<rparr>
                 else if p + n > sa_min s then s\<lparr>sa_dif := sa_dif s - int n\<rparr>
                 else s\<lparr>sa_dif := sa_dif s + int (sa_min s - p) - int n, sa_min := p\<rparr>)))"

definition sa_equal :: "stack_alloc \<Rightarrow> stack_alloc \<Rightarrow> bool option" where
  "sa_equal a b =
     (if sa_btm a = sa_btm b \<and> sa_top a = sa_top b
      then (if sa_pos a = sa_pos b \<and> sa_min a = sa_min b \<and> sa_dif a = sa_dif b then Some True else None)
      else Some False)"

section \<open>The byte allocators\<close>

text \<open>Alignments are not zero. \<^verbatim>\<open>stack_byte_allocator_only\<close> pads its blocks and never gives them back to the
  base allocator.\<close>

definition so_allocate :: "nat \<Rightarrow> nat \<Rightarrow> stack_alloc \<Rightarrow> (block option \<times> stack_alloc) option" where
  "so_allocate n a s =
     (case sa_allocated_size s of None \<Rightarrow> None | Some z \<Rightarrow>
        (let m = (a - z mod a) mod a
         in case sa_allocate (m + n) s of None \<Rightarrow> None
          | Some (None, s') \<Rightarrow> if m \<le> 0 then Some (None, s') else None
          | Some (Some b, s') \<Rightarrow>
              if snd b \<noteq> 0 \<and> \<not> is_aligned_to (fst b + m) a then None
              else if m \<le> snd b then Some (Some (fst b + m, snd b - m), s') else None))"

definition so_deallocate :: "block \<Rightarrow> stack_alloc \<Rightarrow> stack_alloc option" where
  "so_deallocate b s = (if sa_has_allocated b s = Some True then Some s else None)"

text \<open>The aligned allocator checks the alignment of what the base allocator returns; the address
  of the empty block is null.\<close>

definition saa_allocate :: "nat \<Rightarrow> nat \<Rightarrow> stack_alloc \<Rightarrow> (block option \<times> stack_alloc) option" where
  "saa_allocate n a s =
     (case sa_allocate n s of None \<Rightarrow> None
      | Some (None, s') \<Rightarrow> Some (None, s')
      | Some (Some b, s') \<Rightarrow> if is_aligned_to (fst b) a then Some (Some b, s') else None)"

definition saa_deallocate :: "block \<Rightarrow> nat \<Rightarrow> stack_alloc \<Rightarrow> stack_alloc option" where
  "saa_deallocate b a s = (if is_aligned_to (fst b) a then sa_deallocate b s else None)"

text \<open>The allocator with headers keeps the size of the padding in the byte in front of a block.\<close>

record stack_byte_alloc =
  sb_alloc :: stack_alloc
  sb_mem :: "nat \<Rightarrow> byte"

definition sb_allocate :: "nat \<Rightarrow> nat \<Rightarrow> stack_byte_alloc \<Rightarrow> (block option \<times> stack_byte_alloc) option" where
  "sb_allocate n a s =
     (if n = 0 then Some (None, s)
      else case sa_allocated_size (sb_alloc s) of None \<Rightarrow> None | Some z \<Rightarrow>
        (let m = a - z mod a
         in if \<not> m < 255 then None
            else case sa_allocate (m + n) (sb_alloc s) of None \<Rightarrow> None
             | Some (None, al) \<Rightarrow> if m \<le> 0 then Some (Some (m, 0), s\<lparr>sb_alloc := al\<rparr>) else None
             | Some (Some b, al) \<Rightarrow>
                 if \<not> is_aligned_to (fst b + m) a then None
                 else if m \<le> snd b
                 then Some (Some (fst b + m, snd b - m),
                        \<lparr>sb_alloc = al, sb_mem = (sb_mem s)(fst b + m - 1 := of_nat m)\<rparr>)
                 else None))"

definition sb_deallocate :: "block \<Rightarrow> stack_byte_alloc \<Rightarrow> stack_byte_alloc option" where
  "sb_deallocate b s =
     (if snd b = 0 then Some s
      else if sa_has_allocated b (sb_alloc s) \<noteq> Some True then None
      else if \<not> fst b \<ge> 1 then None
      else (let m = unat (sb_mem s (fst b - 1))
            in if \<not> fst b \<ge> m then None
               else map_option (\<lambda>al. s\<lparr>sb_alloc := al\<rparr>)
                 (sa_deallocate (fst b - m, snd b + m) (sb_alloc s))))"

section \<open>The invariant of the base allocator\<close>

text \<open>Which addresses a block has, and how many of the live blocks have an address.\<close>

definition owns :: "block \<Rightarrow> nat \<Rightarrow> bool" where
  "owns b x = (fst b \<le> x \<and> x < fst b + snd b)"

definition cover :: "block list \<Rightarrow> nat \<Rightarrow> nat" where
  "cover L x = length (filter (\<lambda>b. owns b x) L)"

definition used_in :: "block list \<Rightarrow> nat \<Rightarrow> nat \<Rightarrow> nat" where
  "used_in L lo hi = (\<Sum>x \<in> {lo..<hi}. cover L x)"

text \<open>Everything below \<^verbatim>\<open>_min\<close> belongs to live blocks; \<^verbatim>\<open>_dif\<close> is what live blocks have above it.\<close>

definition sa_inv0 :: "stack_alloc \<Rightarrow> block list \<Rightarrow> bool" where
  "sa_inv0 s L = (sa_btm s \<le> sa_min s \<and> sa_min s \<le> sa_pos s \<and> sa_pos s \<le> sa_top s \<and>
     (\<forall>b \<in> set L. 0 < snd b \<and> sa_btm s \<le> fst b \<and> fst b + snd b \<le> sa_pos s \<and>
        (fst b + snd b \<le> sa_min s \<or> sa_min s \<le> fst b)) \<and>
     (\<forall>x. cover L x \<le> 1) \<and> (\<forall>x. sa_btm s \<le> x \<and> x < sa_min s \<longrightarrow> cover L x = 1) \<and>
     sa_dif s = int (used_in L (sa_min s) (sa_pos s)))"

definition sa_inv :: "stack_alloc \<Rightarrow> block list \<Rightarrow> bool" where
  "sa_inv s L = (sa_inv0 s L \<and> (sa_dif s = 0 \<longrightarrow> sa_pos s = sa_min s))"

lemma cover_Cons: "cover (b # L) x = (if owns b x then 1 else 0) + cover L x"
  by (simp add: cover_def)

lemma cover_remove1: "b \<in> set L \<Longrightarrow> cover L x = (if owns b x then 1 else 0) + cover (remove1 b L) x"
  by (induction L) (auto simp: cover_def)

lemma cover_pos: "b \<in> set L \<Longrightarrow> owns b x \<Longrightarrow> 0 < cover L x"
  by (auto simp: cover_def filter_empty_conv)

lemma cover_zero: "(\<And>b. b \<in> set L \<Longrightarrow> \<not> owns b x) \<Longrightarrow> cover L x = 0"
  by (auto simp: cover_def filter_empty_conv)

lemma blocks_disjoint:
  assumes "\<forall>x. cover L x \<le> 1" "b \<in> set L" "c \<in> set (remove1 b L)" "0 < snd b" "0 < snd c"
  shows "fst c + snd c \<le> fst b \<or> fst b + snd b \<le> fst c"
proof (rule ccontr)
  assume n: "\<not> ?thesis"
  let ?x = "max (fst b) (fst c)"
  have "owns b ?x" "owns c ?x" using n assms(4,5) by (auto simp: owns_def)
  then have "cover L ?x \<ge> 2"
    using cover_remove1[OF assms(2), of ?x] cover_pos[OF assms(3), of ?x] by simp
  then show False using assms(1) by (metis Suc_1 not_less_eq_eq)
qed

lemma sum_owns:
  assumes "lo \<le> fst b" "fst b + snd b \<le> hi"
  shows "(\<Sum>x \<in> {lo..<hi}. if owns b x then 1 else 0 :: nat) = snd b"
proof -
  have "(\<Sum>x \<in> {lo..<hi}. if owns b x then 1 else 0 :: nat) = card {x \<in> {lo..<hi}. owns b x}"
    by (simp add: sum.If_cases Int_def)
  also have "{x \<in> {lo..<hi}. owns b x} = {fst b..<fst b + snd b}"
    using assms by (auto simp: owns_def)
  finally show ?thesis by simp
qed

lemma used_in_remove1:
  assumes "b \<in> set L" "lo \<le> fst b" "fst b + snd b \<le> hi"
  shows "used_in L lo hi = snd b + used_in (remove1 b L) lo hi"
  using sum_owns[OF assms(2,3)] by (simp add: used_in_def cover_remove1[OF assms(1)] sum.distrib)

lemma used_in_split: "a \<le> b \<Longrightarrow> b \<le> c \<Longrightarrow> used_in L a c = used_in L a b + used_in L b c"
  unfolding used_in_def by (rule sum.atLeastLessThan_concat[symmetric])

lemma used_in_empty [simp]: "used_in L a a = 0"
  by (simp add: used_in_def)

lemma used_in_eq: "(\<And>x. a \<le> x \<Longrightarrow> x < b \<Longrightarrow> cover L x = cover L' x) \<Longrightarrow> used_in L a b = used_in L' a b"
  unfolding used_in_def by (rule sum.cong) auto

lemma used_in_const: "(\<And>x. a \<le> x \<Longrightarrow> x < b \<Longrightarrow> cover L x = k) \<Longrightarrow> used_in L a b = k * (b - a)"
  unfolding used_in_def by simp

lemma used_in_pos: "a \<le> x \<Longrightarrow> x < b \<Longrightarrow> 0 < cover L x \<Longrightarrow> 0 < used_in L a b"
  unfolding used_in_def by (intro sum_pos2[of _ x]) auto

text \<open>The last step of a deallocation: an allocator without live blocks above \<^verbatim>\<open>_min\<close> moves
  \<^verbatim>\<open>_pos\<close> there.\<close>

lemma sa_reset:
  assumes "sa_inv0 s L"
  shows "sa_inv (if sa_dif s = 0 then s\<lparr>sa_pos := sa_min s\<rparr> else s) L"
proof (cases "sa_dif s = 0")
  case True
  have "fst b + snd b \<le> sa_min s" if b: "b \<in> set L" for b
  proof (rule ccontr)
    assume "\<not> fst b + snd b \<le> sa_min s"
    then have r: "fst b \<in> {sa_min s..<sa_pos s}" "owns b (fst b)"
      using assms b by (auto simp: sa_inv0_def owns_def)
    then have "0 < cover L (fst b)" using cover_pos[OF b] by simp
    then have "0 < used_in L (sa_min s) (sa_pos s)" using r(1) by (intro used_in_pos[of _ "fst b"]) auto
    then show False using True assms by (simp add: sa_inv0_def)
  qed
  then show ?thesis using assms True by (auto simp: sa_inv_def sa_inv0_def)
next
  case False
  then show ?thesis using assms by (simp add: sa_inv_def)
qed

lemma sa_inv_allocate:
  assumes "sa_inv s L" "0 < n" "sa_allocate n s = Some (r, s')"
  shows "case r of None \<Rightarrow> s' = s
    | Some b \<Rightarrow> snd b = n \<and> sa_inv s' (b # L) \<and> fst b = sa_pos s \<and> sa_btm s' = sa_btm s \<and> sa_top s' = sa_top s"
proof (cases r)
  case None
  then show ?thesis
    using assms(3) by (auto simp: sa_allocate_def split: option.splits if_splits)
next
  case (Some b)
  have inv: "sa_inv0 s L" "sa_dif s = 0 \<longrightarrow> sa_pos s = sa_min s" using assms(1) by (auto simp: sa_inv_def)
  have b: "b = (sa_pos s, n)" and top: "sa_pos s + n \<le> sa_top s"
    and s': "s' = (if sa_min s = sa_pos s then s\<lparr>sa_min := sa_min s + n\<rparr> else s\<lparr>sa_dif := sa_dif s + int n\<rparr>)
            \<lparr>sa_pos := sa_pos s + n\<rparr>"
    using assms(3) Some
    by (auto simp: sa_allocate_def sa_max_size_def sa_available_def split: option.splits if_splits)
  have above: "cover L x = 0" if "sa_pos s \<le> x" for x
    using that inv(1) by (intro cover_zero) (auto simp: sa_inv0_def owns_def)
  have own: "owns b x \<longleftrightarrow> sa_pos s \<le> x \<and> x < sa_pos s + n" for x by (simp add: owns_def b)
  have cov: "cover (b # L) x = (if sa_pos s \<le> x \<and> x < sa_pos s + n then 1 else cover L x)" for x
    using above[of x] by (simp add: cover_Cons own)
  have "sa_inv0 s' (b # L)"
  proof (cases "sa_min s = sa_pos s")
    case True
    then show ?thesis
      using inv top assms(2) cov by (auto simp: sa_inv0_def s' b)
  next
    case False
    have "used_in (b # L) (sa_min s) (sa_pos s + n) =
        used_in (b # L) (sa_min s) (sa_pos s) + used_in (b # L) (sa_pos s) (sa_pos s + n)"
      using inv(1) by (intro used_in_split) (auto simp: sa_inv0_def)
    also have "\<dots> = used_in L (sa_min s) (sa_pos s) + n"
      using used_in_eq[of "sa_min s" "sa_pos s" "b # L" L]
        used_in_const[of "sa_pos s" "sa_pos s + n" "b # L" 1] by (simp add: cov)
    finally show ?thesis
      using inv top assms(2) cov False by (auto simp: sa_inv0_def s' b)
  qed
  moreover have "sa_dif s' = 0 \<longrightarrow> sa_pos s' = sa_min s'"
    using inv by (auto simp: s' sa_inv0_def)
  ultimately show ?thesis using Some by (simp add: sa_inv_def b s')
qed


lemma sa_inv0I:
  assumes "sa_btm s \<le> m" "m \<le> q" "q \<le> sa_top s"
    "\<And>c. c \<in> set L \<Longrightarrow> 0 < snd c \<and> sa_btm s \<le> fst c \<and> fst c + snd c \<le> q \<and>
       (fst c + snd c \<le> m \<or> m \<le> fst c)"
    "\<forall>x. cover L x \<le> 1" "\<And>x. sa_btm s \<le> x \<Longrightarrow> x < m \<Longrightarrow> cover L x = 1" "d = int (used_in L m q)"
  shows "sa_inv0 (s\<lparr>sa_pos := q, sa_min := m, sa_dif := d\<rparr>) L"
  using assms by (simp add: sa_inv0_def)

lemma sa_inv_deallocate:
  assumes inv: "sa_inv s L" and b: "b \<in> set L"
  shows "\<exists>s'. sa_deallocate b s = Some s' \<and> sa_inv s' (remove1 b L) \<and> sa_btm s' = sa_btm s \<and> sa_top s' = sa_top s"
proof -
  let ?p = "fst b" and ?n = "snd b" and ?L = "remove1 b L"
  let ?e = "?p + ?n"
  have i0: "sa_inv0 s L" and dz: "sa_dif s = 0 \<longrightarrow> sa_pos s = sa_min s" using inv by (auto simp: sa_inv_def)
  then have ord: "sa_btm s \<le> sa_min s" "sa_min s \<le> sa_pos s" "sa_pos s \<le> sa_top s"
    and blk: "\<And>c. c \<in> set L \<Longrightarrow> 0 < snd c \<and> sa_btm s \<le> fst c \<and> fst c + snd c \<le> sa_pos s \<and>
        (fst c + snd c \<le> sa_min s \<or> sa_min s \<le> fst c)"
    and one: "\<forall>x. cover L x \<le> 1" and full: "\<And>x. sa_btm s \<le> x \<Longrightarrow> x < sa_min s \<Longrightarrow> cover L x = 1"
    and dif: "sa_dif s = int (used_in L (sa_min s) (sa_pos s))"
    by (auto simp: sa_inv0_def)
  note bb = blk[OF b]
  have sub: "set ?L \<subseteq> set L" by (rule set_remove1_subset)
  have dis: "fst c + snd c \<le> ?p \<or> ?e \<le> fst c" if "c \<in> set ?L" for c
    using blocks_disjoint[OF one b that] bb blk[of c] sub that by auto
  have one': "\<forall>x. cover ?L x \<le> 1" using one cover_remove1[OF b] by (metis le_add2 le_trans)
  have in0: "cover ?L x = 0" if "?p \<le> x" "x < ?e" for x
    using one cover_remove1[OF b, of x] that by (simp add: owns_def) (metis Suc_le_mono le_zero_eq)
  have out: "cover ?L x = cover L x" if "x < ?p \<or> ?e \<le> x" for x
    using cover_remove1[OF b, of x] that by (auto simp: owns_def)
  have blk': "\<And>c. c \<in> set ?L \<Longrightarrow> 0 < snd c \<and> sa_btm s \<le> fst c \<and> fst c + snd c \<le> sa_pos s \<and>
      (fst c + snd c \<le> sa_min s \<or> sa_min s \<le> fst c)"
    using blk sub by blast
  define s1 where "s1 =
     (if ?e = sa_pos s
      then (if sa_min s = sa_pos s then s\<lparr>sa_min := sa_min s - ?n\<rparr>
                             else s\<lparr>sa_dif := sa_dif s - int ?n\<rparr>)\<lparr>sa_pos := sa_pos s - ?n\<rparr>
      else if ?e = sa_min s then s\<lparr>sa_min := sa_min s - ?n\<rparr>
      else if ?e > sa_min s then s\<lparr>sa_dif := sa_dif s - int ?n\<rparr>
      else s\<lparr>sa_dif := sa_dif s + int (sa_min s - ?p) - int ?n, sa_min := ?p\<rparr>)"
  have "sa_inv0 s1 ?L"
  proof -
    consider (top_min) "?e = sa_pos s" "sa_min s = sa_pos s"
      | (top) "?e = sa_pos s" "sa_min s < sa_pos s"
      | (at_min) "?e = sa_min s" "?e < sa_pos s"
      | (above) "sa_min s < ?e" "?e < sa_pos s"
      | (below) "?e < sa_min s" "?e < sa_pos s"
      using ord bb by fastforce
    then show ?thesis
    proof cases
      case top_min
      have s1: "s1 = s\<lparr>sa_pos := ?p, sa_min := ?p, sa_dif := 0\<rparr>"
        using top_min dif by (auto simp: s1_def)
      have "fst c + snd c \<le> ?p" if "c \<in> set ?L" for c
        using dis[OF that] blk'[OF that] top_min by auto
      then show ?thesis
        unfolding s1 by (intro sa_inv0I) (use ord blk' one' full out bb top_min in auto)
    next
      case top
      then have pm: "sa_min s \<le> ?p" using bb by auto
      have "used_in L (sa_min s) (sa_pos s) = ?n + used_in ?L (sa_min s) (sa_pos s)"
        by (rule used_in_remove1[OF b pm]) (use top in simp)
      moreover have "used_in ?L (sa_min s) (sa_pos s) = used_in ?L (sa_min s) ?p"
        using used_in_split[of "sa_min s" ?p "sa_pos s" ?L] used_in_const[of ?p "sa_pos s" ?L 0] in0 pm top by simp
      ultimately have s1: "s1 = s\<lparr>sa_pos := ?p, sa_min := sa_min s, sa_dif := int (used_in ?L (sa_min s) ?p)\<rparr>"
        using top dif by (auto simp: s1_def)
      have "fst c + snd c \<le> ?p" if "c \<in> set ?L" for c
        using dis[OF that] blk'[OF that] top by auto
      then show ?thesis
        unfolding s1 by (intro sa_inv0I) (use ord blk' one' full out bb pm in auto)
    next
      case at_min
      have "used_in ?L ?p (sa_pos s) = used_in ?L ?p (sa_min s) + used_in ?L (sa_min s) (sa_pos s)"
        by (rule used_in_split) (use at_min in auto)
      also have "used_in ?L ?p (sa_min s) = 0" using used_in_const[of ?p "sa_min s" ?L 0] in0 at_min by simp
      also have "used_in ?L (sa_min s) (sa_pos s) = used_in L (sa_min s) (sa_pos s)"
        by (rule used_in_eq) (use out at_min in simp)
      finally have s1: "s1 = s\<lparr>sa_pos := sa_pos s, sa_min := ?p, sa_dif := int (used_in ?L ?p (sa_pos s))\<rparr>"
        using at_min dif by (auto simp: s1_def)
      have "fst c + snd c \<le> ?p \<or> ?p \<le> fst c" if "c \<in> set ?L" for c using dis[OF that] by auto
      then show ?thesis
        unfolding s1 by (intro sa_inv0I) (use ord blk' one' full out bb at_min in auto)
    next
      case above
      then have pm: "sa_min s \<le> ?p" using bb by auto
      have "used_in L (sa_min s) (sa_pos s) = ?n + used_in ?L (sa_min s) (sa_pos s)"
        by (rule used_in_remove1[OF b pm]) (use above in simp)
      then have s1: "s1 = s\<lparr>sa_pos := sa_pos s, sa_min := sa_min s,
          sa_dif := int (used_in ?L (sa_min s) (sa_pos s))\<rparr>"
        using above dif by (auto simp: s1_def)
      show ?thesis
        unfolding s1 by (intro sa_inv0I) (use ord blk' one' full out bb above pm in auto)
    next
      case below
      have "used_in ?L ?p (sa_pos s) = used_in ?L ?p ?e + used_in ?L ?e (sa_pos s)"
        by (rule used_in_split) (use below in auto)
      also have "used_in ?L ?p ?e = 0" using used_in_const[of ?p ?e ?L 0] in0 by simp
      also have "used_in ?L ?e (sa_pos s) = used_in L ?e (sa_pos s)"
        by (rule used_in_eq) (use out in simp)
      also have "\<dots> = used_in L ?e (sa_min s) + used_in L (sa_min s) (sa_pos s)"
        by (rule used_in_split) (use below ord in auto)
      also have "used_in L ?e (sa_min s) = sa_min s - ?e"
        using used_in_const[of ?e "sa_min s" L 1] full bb by simp
      finally have s1: "s1 = s\<lparr>sa_pos := sa_pos s, sa_min := ?p, sa_dif := int (used_in ?L ?p (sa_pos s))\<rparr>"
        using below dif by (auto simp: s1_def of_nat_diff)
      have "fst c + snd c \<le> ?p \<or> ?p \<le> fst c" if "c \<in> set ?L" for c using dis[OF that] by auto
      then show ?thesis
        unfolding s1 by (intro sa_inv0I) (use ord blk' one' full out bb below in auto)
    qed
  qed
  then have "sa_inv (if sa_dif s1 = 0 then s1\<lparr>sa_pos := sa_min s1\<rparr> else s1) ?L" by (rule sa_reset)
  moreover have "sa_deallocate b s = Some (if sa_dif s1 = 0 then s1\<lparr>sa_pos := sa_min s1\<rparr> else s1)"
    using bb ord by (auto simp: sa_deallocate_def s1_def Let_def)
  ultimately show ?thesis by (auto simp: s1_def)
qed


lemma sa_inv_truncate:
  assumes inv: "sa_inv s L" and b: "b \<in> set L" and top: "fst b + snd b = sa_pos s" and nn: "0 < nn" "nn \<le> snd b"
  shows "\<exists>s'. sa_truncate b nn s = Some ((fst b, nn), s') \<and> sa_inv s' ((fst b, nn) # remove1 b L) \<and>
    sa_btm s' = sa_btm s \<and> sa_top s' = sa_top s"
proof -
  let ?p = "fst b" and ?L = "remove1 b L"
  let ?q = "?p + nn"
  let ?L' = "(?p, nn) # ?L"
  have i0: "sa_inv0 s L" using inv by (simp add: sa_inv_def)
  then have ord: "sa_btm s \<le> sa_min s" "sa_min s \<le> sa_pos s" "sa_pos s \<le> sa_top s"
    and blk: "\<And>c. c \<in> set L \<Longrightarrow> 0 < snd c \<and> sa_btm s \<le> fst c \<and> fst c + snd c \<le> sa_pos s \<and>
        (fst c + snd c \<le> sa_min s \<or> sa_min s \<le> fst c)"
    and one: "\<forall>x. cover L x \<le> 1" and full: "\<And>x. sa_btm s \<le> x \<Longrightarrow> x < sa_min s \<Longrightarrow> cover L x = 1"
    and dif: "sa_dif s = int (used_in L (sa_min s) (sa_pos s))"
    by (auto simp: sa_inv0_def)
  note bb = blk[OF b]
  have sub: "set ?L \<subseteq> set L" by (rule set_remove1_subset)
  have below: "fst c + snd c \<le> ?p" if "c \<in> set ?L" for c
    using blocks_disjoint[OF one b that] bb blk[of c] sub that top by auto
  have zero: "cover ?L x = 0" if "?p \<le> x" for x
    using below that by (intro cover_zero) (fastforce simp: owns_def)
  have cov: "cover ?L' x = (if x < ?q then cover L x else 0)" for x
    using cover_remove1[OF b, of x] zero[of x] nn top by (auto simp: cover_Cons owns_def)
  have blk': "\<And>c. c \<in> set ?L' \<Longrightarrow> 0 < snd c \<and> sa_btm s \<le> fst c \<and> fst c + snd c \<le> ?q"
    using blk sub below bb nn by (auto simp: subset_iff) fastforce+
  show ?thesis
  proof (cases "sa_min s = sa_pos s")
    case True
    let ?s = "s\<lparr>sa_pos := ?q, sa_min := ?q, sa_dif := 0\<rparr>"
    have "sa_truncate b nn s = Some ((?p, nn), ?s)"
      using True top nn dif ord by (auto simp: sa_truncate_def Let_def)
    moreover have "sa_inv0 ?s ?L'"
      by (intro sa_inv0I) (use ord bb nn top blk' cov one full True in auto)
    ultimately show ?thesis by (auto simp: sa_inv_def)
  next
    case False
    then have pm: "sa_min s \<le> ?p" using bb top ord by auto
    let ?s = "s\<lparr>sa_pos := ?q, sa_min := sa_min s, sa_dif := int (used_in ?L' (sa_min s) ?q)\<rparr>"
    have "used_in L (sa_min s) (sa_pos s) = used_in L (sa_min s) ?q + used_in L ?q (sa_pos s)"
      by (rule used_in_split) (use pm nn top in auto)
    moreover have "used_in L ?q (sa_pos s) = snd b - nn"
    proof -
      have "cover L x = 1" if "?q \<le> x" "x < sa_pos s" for x
        using cover_remove1[OF b, of x] zero[of x] that top by (simp add: owns_def)
      then show ?thesis using used_in_const[of ?q "sa_pos s" L 1] top by simp
    qed
    moreover have "used_in ?L' (sa_min s) ?q = used_in L (sa_min s) ?q" by (rule used_in_eq) (simp add: cov)
    ultimately have "sa_truncate b nn s = Some ((?p, nn), ?s)"
      using False top nn dif ord by (auto simp: sa_truncate_def Let_def of_nat_diff)
    moreover have "sa_inv0 ?s ?L'"
    proof (intro sa_inv0I)
      show "0 < snd c \<and> sa_btm s \<le> fst c \<and> fst c + snd c \<le> ?q \<and> (fst c + snd c \<le> sa_min s \<or> sa_min s \<le> fst c)"
        if "c \<in> set ?L'" for c
        using blk'[OF that] that pm blk[of c] sub by auto
    qed (use ord nn top cov one full pm in auto)
    moreover have "0 < used_in ?L' (sa_min s) ?q"
      using cover_pos[of "(?p, nn)" ?L' ?p] nn pm by (intro used_in_pos[of _ ?p]) (auto simp: owns_def)
    ultimately show ?thesis by (auto simp: sa_inv_def)
  qed
qed

text \<open>Truncation of another block than the last one changes nothing in the allocator. What is cut off
  belongs to nobody afterwards.\<close>

lemma sa_inv_cut:
  assumes inv: "sa_inv s (b # L)" and nn: "0 < nn" "nn < snd b"
  shows "sa_inv s ((fst b, nn) # (fst b + nn, snd b - nn) # L)"
proof -
  let ?M = "(fst b, nn) # (fst b + nn, snd b - nn) # L"
  have cov: "cover ?M = cover (b # L)"
    using nn by (intro ext) (auto simp: cover_Cons owns_def)
  have parts: "0 < snd c \<and> sa_btm s \<le> fst c \<and> fst c + snd c \<le> sa_pos s \<and>
      (fst c + snd c \<le> sa_min s \<or> sa_min s \<le> fst c)" if "c \<in> set ?M" for c
  proof -
    have "0 < snd b \<and> sa_btm s \<le> fst b \<and> fst b + snd b \<le> sa_pos s \<and>
        (fst b + snd b \<le> sa_min s \<or> sa_min s \<le> fst b)"
      "c \<in> set L \<Longrightarrow> 0 < snd c \<and> sa_btm s \<le> fst c \<and> fst c + snd c \<le> sa_pos s \<and>
        (fst c + snd c \<le> sa_min s \<or> sa_min s \<le> fst c)"
      using inv by (simp_all add: sa_inv_def sa_inv0_def)
    then show ?thesis using that nn by auto
  qed
  define M B where "M = ?M" and "B = b # L"
  have "\<forall>c \<in> set M. 0 < snd c \<and> sa_btm s \<le> fst c \<and> fst c + snd c \<le> sa_pos s \<and>
      (fst c + snd c \<le> sa_min s \<or> sa_min s \<le> fst c)"
    unfolding M_def by (intro ballI parts)
  moreover have eq: "cover M = cover B" and "sa_inv s B"
    unfolding M_def B_def by (rule cov inv)+
  ultimately have "sa_inv s M"
    unfolding sa_inv_def sa_inv0_def used_in_def eq by (elim conjE) (intro conjI; assumption)
  then show ?thesis
    by (simp only: M_def)
qed

lemma sa_truncate_other:
  assumes "fst b + snd b \<noteq> sa_pos s" "sa_truncate b nn s = Some (b', s')"
  shows "s' = s" "b' = (fst b, nn)" "nn \<le> snd b"
  using assms by (auto simp: sa_truncate_def Let_def split: if_splits)

lemma sa_inv_mset:
  assumes "mset L = mset L'" "sa_inv s L"
  shows "sa_inv s L'"
proof -
  have "cover L x = size (filter_mset (\<lambda>b. owns b x) (mset L))" for L x
    by (simp add: cover_def flip: mset_filter)
  then have "cover L = cover L'" using assms(1) by (intro ext) simp
  then have "sa_inv s L = sa_inv s L'"
    by (simp only: sa_inv_def sa_inv0_def used_in_def mset_eq_setD[OF assms(1)])
  with assms(2) show ?thesis by simp
qed

section \<open>Reachable states of the base allocator\<close>

text \<open>A state is the allocator together with the live blocks \<open>L\<close> and the parts \<open>Z\<close> that truncations of
  other blocks than the last one have cut off. Blocks are not empty: what happens to
  empty ones is the theorem \<open>stack_allocator_empty_blocks\<close>.\<close>

type_synonym sa_state = "stack_alloc \<times> block list \<times> block list"

inductive sa_step :: "sa_state \<Rightarrow> sa_state \<Rightarrow> bool" where
  sa_alloc_ok: "0 < n \<Longrightarrow> sa_allocate n s = Some (Some b, s') \<Longrightarrow> sa_step (s, L, Z) (s', b # L, Z)"
| sa_alloc_full: "0 < n \<Longrightarrow> sa_allocate n s = Some (None, s') \<Longrightarrow> sa_step (s, L, Z) (s', L, Z)"
| sa_free: "b \<in> set L \<Longrightarrow> sa_deallocate b s = Some s' \<Longrightarrow> sa_step (s, L, Z) (s', remove1 b L, Z)"
| sa_cut: "b \<in> set L \<Longrightarrow> fst b + snd b = sa_pos s \<Longrightarrow> 0 < nn \<Longrightarrow>
    sa_truncate b nn s = Some (b', s') \<Longrightarrow> sa_step (s, L, Z) (s', b' # remove1 b L, Z)"
| sa_cut_other: "b \<in> set L \<Longrightarrow> fst b + snd b \<noteq> sa_pos s \<Longrightarrow> 0 < nn \<Longrightarrow> nn < snd b \<Longrightarrow>
    sa_truncate b nn s = Some (b', s') \<Longrightarrow>
    sa_step (s, L, Z) (s', b' # remove1 b L, (fst b + nn, snd b - nn) # Z)"
| sa_cut_none: "b \<in> set L \<Longrightarrow> sa_truncate b (snd b) s = Some (b', s') \<Longrightarrow>
    sa_step (s, L, Z) (s', b' # remove1 b L, Z)"

inductive_cases sa_stepE: "sa_step (s, L, Z) (s', L', Z')"

lemma sa_step_inv:
  assumes "sa_step (s, L, Z) (s', L', Z')" "sa_inv s (L @ Z)"
  shows "sa_inv s' (L' @ Z') \<and> sa_btm s' = sa_btm s \<and> sa_top s' = sa_top s"
  using assms(1)
proof (rule sa_stepE)
  fix n b assume "L' = b # L" "Z' = Z" "0 < n" "sa_allocate n s = Some (Some b, s')"
  then show ?thesis using sa_inv_allocate[OF assms(2), of n "Some b" s'] by simp
next
  fix n assume "L' = L" "Z' = Z" "0 < n" "sa_allocate n s = Some (None, s')"
  then show ?thesis using sa_inv_allocate[OF assms(2), of n None s'] assms(2) by simp
next
  fix b assume "L' = remove1 b L" "Z' = Z" "b \<in> set L" "sa_deallocate b s = Some s'"
  then show ?thesis using sa_inv_deallocate[OF assms(2), of b] by (auto simp: remove1_append)
next
  fix b nn b'
  assume cut: "L' = b' # remove1 b L" "Z' = Z" "b \<in> set L" "fst b + snd b = sa_pos s" "0 < nn"
    "sa_truncate b nn s = Some (b', s')"
  then have "nn \<le> snd b" by (auto simp: sa_truncate_def Let_def split: if_splits)
  then show ?thesis using sa_inv_truncate[OF assms(2) _ cut(4,5)] cut by (auto simp: remove1_append)
next
  fix b nn b'
  assume cut: "L' = b' # remove1 b L" "Z' = (fst b + nn, snd b - nn) # Z" "b \<in> set L" "0 < nn" "nn < snd b"
    "fst b + snd b \<noteq> sa_pos s" "sa_truncate b nn s = Some (b', s')"
  have "mset (L @ Z) = mset (b # (remove1 b L @ Z))" using cut(3) by simp
  then have "sa_inv s (b # (remove1 b L @ Z))" using assms(2) by (rule sa_inv_mset)
  then have "sa_inv s ((fst b, nn) # (fst b + nn, snd b - nn) # remove1 b L @ Z)"
    using sa_inv_cut[OF _ cut(4,5)] by simp
  then have "sa_inv s (L' @ Z')"
    by (rule sa_inv_mset[rotated]) (use cut sa_truncate_other[OF cut(6,7)] in simp)
  then show ?thesis using sa_truncate_other[OF cut(6,7)] by simp
next
  fix b b'
  assume cut: "L' = b' # remove1 b L" "Z' = Z" "b \<in> set L" "sa_truncate b (snd b) s = Some (b', s')"
  then have "s' = s" "b' = b" by (auto simp: sa_truncate_def Let_def split: if_splits)
  moreover have "mset (L @ Z) = mset (b # (remove1 b L @ Z))" using cut(3) by simp
  ultimately show ?thesis using cut(1,2) sa_inv_mset[OF _ assms(2)] by simp
qed

lemma sa_reachable_inv:
  assumes "sa_step\<^sup>*\<^sup>* (s0, [], []) (s, L, Z)" "sa_inv s0 []"
  shows "sa_inv s (L @ Z) \<and> sa_btm s = sa_btm s0 \<and> sa_top s = sa_top s0"
proof -
  have "case x of (s, L, Z) \<Rightarrow> sa_inv s (L @ Z) \<and> sa_btm s = sa_btm s0 \<and> sa_top s = sa_top s0"
    if "sa_step\<^sup>*\<^sup>* (s0, [], []) x" for x
    using that
  proof (induction rule: rtranclp_induct)
    case base then show ?case using assms(2) by simp
  next
    case (step y z)
    then show ?case using sa_step_inv by (cases y; cases z) auto
  qed
  from this[OF assms(1)] show ?thesis by simp
qed

lemma sa_new_inv: "sa_new blk = Some s0 \<Longrightarrow> sa_inv s0 [] \<and> sa_pos s0 = sa_btm s0"
  by (cases blk) (auto simp: sa_new_def sa_new_aligned_def align_up_to_def align_down_to_def align_up_def
      align_down_def align_up_by_def align_down_by_def misalignment_def align_up_offs_def align_down_offs_def
      sa_inv_def sa_inv0_def cover_def)

lemma sa_inv_no_blocks:
  assumes "sa_inv s []"
  shows "sa_pos s = sa_btm s \<and> sa_min s = sa_btm s \<and> sa_dif s = 0"
proof -
  have z: "cover [] x = 0" for x by (simp add: cover_def)
  then have "sa_min s = sa_btm s"
    using assms unfolding sa_inv_def sa_inv0_def by (metis le_neq_implies_less order_refl zero_neq_one)
  moreover have "sa_dif s = 0" "sa_pos s = sa_min s"
    using assms z by (auto simp: sa_inv_def sa_inv0_def used_in_def)
  ultimately show ?thesis by simp
qed

fun deallocate_all :: "block list \<Rightarrow> stack_alloc \<Rightarrow> stack_alloc option" where
  "deallocate_all [] s = Some s"
| "deallocate_all (b # bs) s = Option.bind (sa_deallocate b s) (deallocate_all bs)"

lemma deallocate_all_inv:
  "sa_inv s (L @ Z) \<Longrightarrow> mset bs = mset L \<Longrightarrow>
   \<exists>s'. deallocate_all bs s = Some s' \<and> sa_inv s' Z \<and> sa_btm s' = sa_btm s \<and> sa_top s' = sa_top s"
proof (induction bs arbitrary: s L)
  case (Cons b bs)
  then have b: "b \<in> set L" by (metis list.set_intros(1) mset_eq_setD)
  then have L: "remove1 b (L @ Z) = remove1 b L @ Z" by (simp add: remove1_append)
  obtain s1 where s1: "sa_deallocate b s = Some s1" "sa_inv s1 (remove1 b L @ Z)" "sa_btm s1 = sa_btm s" "sa_top s1 = sa_top s"
    using sa_inv_deallocate[OF Cons.prems(1), of b] b unfolding L by auto
  have "mset bs = mset (remove1 b L)" using Cons.prems(2) by (metis add_mset_remove_trivial mset.simps(2) mset_remove1)
  then show ?case using Cons.IH[OF s1(2)] s1 by auto
qed auto

section \<open>Properties of the base allocator\<close>

text \<open>
  C6. Safety of the stack allocator: whatever sequence of allocations (of at least one byte),
  deallocations in any order and truncations (to at least one byte) led to a state, no address belongs
  to two live blocks, all live blocks lie between the bottom and the top of the store, no assertion
  fails in the next allocation or in the deallocation of a live block, and an allocation that does
  not fit returns the empty block.
\<close>
theorem stack_allocator_safety:
  assumes "sa_new blk = Some s0" "sa_step\<^sup>*\<^sup>* (s0, [], []) (s, L, Z)"
  shows "(\<forall>x. length (filter (\<lambda>b. fst b \<le> x \<and> x < fst b + snd b) L) \<le> 1) \<and>
    (\<forall>b \<in> set L. sa_btm s0 \<le> fst b \<and> fst b + snd b \<le> sa_top s0 \<and> (\<exists>s'. sa_deallocate b s = Some s')) \<and>
    (\<forall>n. \<exists>r s'. sa_allocate n s = Some (r, s') \<and> (r = None \<longleftrightarrow> sa_pos s + n > sa_top s0))"
proof -
  have inv: "sa_inv s (L @ Z)" "sa_btm s = sa_btm s0" "sa_top s = sa_top s0"
    using sa_reachable_inv[OF assms(2)] sa_new_inv[OF assms(1)] by auto
  have ord: "sa_min s \<le> sa_pos s" "sa_pos s \<le> sa_top s" using inv by (auto simp: sa_inv_def sa_inv0_def)
  have "\<exists>r s'. sa_allocate n s = Some (r, s') \<and> (r = None \<longleftrightarrow> sa_pos s + n > sa_top s0)" for n
    using ord inv(3) by (auto simp: sa_allocate_def sa_max_size_def sa_available_def)
  moreover have "cover L x \<le> 1" for x
  proof -
    have "cover (L @ Z) x \<le> 1" using inv(1) by (simp add: sa_inv_def sa_inv0_def)
    then show ?thesis by (simp add: cover_def)
  qed
  moreover have "sa_btm s0 \<le> fst b \<and> fst b + snd b \<le> sa_top s0 \<and> (\<exists>s'. sa_deallocate b s = Some s')"
    if b: "b \<in> set L" for b
  proof -
    have "sa_btm s \<le> fst b" "fst b + snd b \<le> sa_pos s"
      using inv(1) b by (auto simp: sa_inv_def sa_inv0_def)
    then show ?thesis
      using sa_inv_deallocate[OF inv(1), of b] b inv(2,3) ord(2) by auto
  qed
  ultimately show ?thesis unfolding cover_def owns_def by blast
qed

lemma stack_allocator_safety_witness:
  "\<exists>s'. sa_deallocate (100, 10) \<lparr>sa_btm = 100, sa_top = 200, sa_pos = 110, sa_min = 110, sa_dif = 0\<rparr> = Some s'"
proof -
  let ?s0 = "\<lparr>sa_btm = 100, sa_top = 200, sa_pos = 100, sa_min = 100, sa_dif = 0\<rparr>"
  let ?s1 = "\<lparr>sa_btm = 100, sa_top = 200, sa_pos = 110, sa_min = 110, sa_dif = 0\<rparr>"
  have new: "sa_new (100, 100) = Some ?s0" by code_simp
  have "sa_allocate 10 ?s0 = Some (Some (100, 10), ?s1)" by code_simp
  then have "sa_step (?s0, [], []) (?s1, [(100, 10)], [])" by (rule sa_alloc_ok[rotated]) simp
  then have "sa_step\<^sup>*\<^sup>* (?s0, [], []) (?s1, [(100, 10)], [])" by simp
  from stack_allocator_safety[OF new this] show ?thesis by simp
qed

text \<open>
  C9. From every state reachable by allocations (of at least one byte), deallocations in any order and
  truncations (to at least one byte), deallocating all live blocks, in whatever order, succeeds. It
  brings the allocator back to its initial state, so that its whole store can be allocated again,
  exactly when no block other than the last one has been truncated: the bytes cut off
  from others are lost, and the next allocations start behind some of them.
\<close>
theorem stack_allocator_all_returned:
  assumes "sa_new blk = Some s0" "sa_step\<^sup>*\<^sup>* (s0, [], []) (s, L, Z)" "mset order = mset L"
  shows "\<exists>s'. deallocate_all order s = Some s' \<and> (s' = s0 \<longleftrightarrow> Z = []) \<and>
    (\<forall>z \<in> set Z. fst z + snd z \<le> sa_pos s')"
proof -
  have inv: "sa_inv s (L @ Z)" "sa_btm s = sa_btm s0" "sa_top s = sa_top s0"
    using sa_reachable_inv[OF assms(2)] sa_new_inv[OF assms(1)] by auto
  obtain s' where s': "deallocate_all order s = Some s'" "sa_inv s' Z" "sa_btm s' = sa_btm s" "sa_top s' = sa_top s"
    using deallocate_all_inv[OF inv(1) assms(3)] by blast
  have lost: "0 < snd z" "sa_btm s' \<le> fst z" "fst z + snd z \<le> sa_pos s'" if "z \<in> set Z" for z
    using s'(2) that by (auto simp: sa_inv_def sa_inv0_def)
  have s0: "sa_inv s0 []" "sa_pos s0 = sa_btm s0" using sa_new_inv[OF assms(1)] by simp_all
  have "s' = s0" if "Z = []"
    by (rule stack_alloc.equality)
      (use sa_inv_no_blocks[OF s'(2)[unfolded that]] sa_inv_no_blocks[OF s0(1)] s'(3,4) inv(2,3) in simp_all)
  moreover have "s' \<noteq> s0" if "z \<in> set Z" for z
    using lost[OF that] s0(2) by auto
  ultimately have "s' = s0 \<longleftrightarrow> Z = []" by (cases Z) auto
  with s'(1) lost(3) show ?thesis by blast
qed

lemma stack_allocator_all_returned_witness:
  "deallocate_all [(100, 10), (110, 20)]
     \<lparr>sa_btm = 100, sa_top = 200, sa_pos = 130, sa_min = 130, sa_dif = 0\<rparr> =
   Some \<lparr>sa_btm = 100, sa_top = 200, sa_pos = 100, sa_min = 100, sa_dif = 0\<rparr>"
proof -
  let ?s0 = "\<lparr>sa_btm = 100, sa_top = 200, sa_pos = 100, sa_min = 100, sa_dif = 0\<rparr>"
  let ?s1 = "\<lparr>sa_btm = 100, sa_top = 200, sa_pos = 110, sa_min = 110, sa_dif = 0\<rparr>"
  let ?s2 = "\<lparr>sa_btm = 100, sa_top = 200, sa_pos = 130, sa_min = 130, sa_dif = 0\<rparr>"
  have new: "sa_new (100, 100) = Some ?s0" by code_simp
  have "sa_allocate 10 ?s0 = Some (Some (100, 10), ?s1)" "sa_allocate 20 ?s1 = Some (Some (110, 20), ?s2)"
    by code_simp+
  then have "sa_step (?s0, [], []) (?s1, [(100, 10)], [])" "sa_step (?s1, [(100, 10)], []) (?s2, [(110, 20), (100, 10)], [])"
    by (auto intro: sa_alloc_ok[of 10] sa_alloc_ok[of 20])
  then have "sa_step\<^sup>*\<^sup>* (?s0, [], []) (?s2, [(110, 20), (100, 10)], [])"
    by (meson r_into_rtranclp rtranclp.rtrancl_into_rtrancl)
  from stack_allocator_all_returned[OF new this, of "[(100, 10), (110, 20)]"]
  show ?thesis by (simp add: add_mset_commute)
qed

text \<open>
  Blocks of size zero, which the aligned allocator and the allocator without headers do not
  filter out, break the invariant: after this sequence of allocations and deallocations of live
  blocks \<^verbatim>\<open>_min\<close> is above \<^verbatim>\<open>_pos\<close>, and the next allocation fails its assertion although the store
  is empty.
\<close>
theorem stack_allocator_empty_blocks:
  "\<exists>s1 s2 s3 s4 s5 s6. sa_new (0, 100) = Some s1 \<and>
     sa_allocate 10 s1 = Some (Some (0, 10), s2) \<and> sa_allocate 0 s2 = Some (Some (10, 0), s3) \<and>
     sa_deallocate (0, 10) s3 = Some s4 \<and> sa_allocate 20 s4 = Some (Some (0, 20), s5) \<and>
     Option.bind (sa_deallocate (10, 0) s5) (sa_deallocate (0, 20)) = Some s6 \<and> sa_allocate 1 s6 = None"
  (is "\<exists>s1 s2 s3 s4 s5 s6. ?P s1 s2 s3 s4 s5 s6")
proof -
  have "?P \<lparr>sa_btm = 0, sa_top = 100, sa_pos = 0, sa_min = 0, sa_dif = 0\<rparr>
      \<lparr>sa_btm = 0, sa_top = 100, sa_pos = 10, sa_min = 10, sa_dif = 0\<rparr>
      \<lparr>sa_btm = 0, sa_top = 100, sa_pos = 10, sa_min = 10, sa_dif = 0\<rparr>
      \<lparr>sa_btm = 0, sa_top = 100, sa_pos = 0, sa_min = 0, sa_dif = 0\<rparr>
      \<lparr>sa_btm = 0, sa_top = 100, sa_pos = 20, sa_min = 20, sa_dif = 0\<rparr>
      \<lparr>sa_btm = 0, sa_top = 100, sa_pos = 0, sa_min = 10, sa_dif = - 10\<rparr>"
    by code_simp
  then show ?thesis by blast
qed


section \<open>The allocator that takes nothing back\<close>

text \<open>A block starts at an aligned address behind everything allocated before, which
  deallocations do not change: no address is ever handed out twice.\<close>

theorem stack_byte_allocator_only_fresh:
  assumes "sa_inv s L" "0 < n" "so_allocate n a s = Some (Some b, s')"
  shows "sa_pos s \<le> fst b \<and> snd b = n \<and> fst b mod a = 0 \<and> sa_pos s' = fst b + n \<and>
    (\<exists>m. sa_inv s' ((fst b - m, m + n) # L)) \<and> so_deallocate b s' = Some s'"
proof -
  obtain z where z: "sa_allocated_size s = Some z"
    using assms(3) by (auto simp: so_allocate_def split: option.splits)
  let ?m = "(a - z mod a) mod a"
  obtain c where c: "sa_allocate (?m + n) s = Some (Some c, s')" "b = (fst c + ?m, snd c - ?m)"
      "is_aligned_to (fst b) a" "?m \<le> snd c" "snd c = ?m + n"
    using assms(2,3) z
    by (auto simp: so_allocate_def Let_def sa_allocate_def split: option.splits if_splits)
  have inv: "sa_inv s' (c # L)" "fst c = sa_pos s" "sa_btm s' = sa_btm s"
    using sa_inv_allocate[OF assms(1) _ c(1)] assms(2) by auto
  have pos: "sa_pos s' = sa_pos s + (?m + n)"
    using c(1) by (auto simp: sa_allocate_def split: option.splits if_splits)
  have "sa_btm s \<le> sa_pos s"
    using assms(1) by (simp add: sa_inv_def sa_inv0_def)
  then have "so_deallocate b s' = Some s'"
    using pos inv(2,3) c(2,5) by (simp add: so_deallocate_def sa_has_allocated_def sa_allocated_def block_contains_def)
  moreover have "c = (fst b - ?m, ?m + n)"
    using c(2,5) by (simp add: prod_eq_iff)
  then have "\<exists>m. sa_inv s' ((fst b - m, m + n) # L)"
    using inv(1) by metis
  ultimately show ?thesis
    using c(2,3,5) inv(2) pos by (simp add: is_aligned_to_def misalignment_def)
qed

section \<open>The allocator with headers\<close>

text \<open>A user block together with the size of the padding in front of it, and the block of the
  base allocator it is part of.\<close>

type_synonym user_block = "block \<times> nat"

fun raw_block :: "user_block \<Rightarrow> block" where
  "raw_block ((p, n), m) = (p - m, n + m)"

definition sb_inv :: "stack_byte_alloc \<Rightarrow> user_block list \<Rightarrow> bool" where
  "sb_inv s U = (sa_inv (sb_alloc s) (map raw_block U) \<and>
     (\<forall>((p, n), m) \<in> set U. 0 < n \<and> 0 < m \<and> m < 255 \<and> m \<le> p \<and> sb_mem s (p - 1) = of_nat m))"

text \<open>Users write only to the addresses of their own blocks.\<close>

inductive sb_step :: "stack_byte_alloc \<times> user_block list \<Rightarrow> stack_byte_alloc \<times> user_block list \<Rightarrow> bool" where
  sb_alloc_ok: "0 < n \<Longrightarrow> 0 < a \<Longrightarrow> sb_allocate n a s = Some (Some b, s') \<Longrightarrow>
    sb_step (s, U) (s', (b, unat (sb_mem s' (fst b - 1))) # U)"
| sb_free: "u \<in> set U \<Longrightarrow> sb_deallocate (fst u) s = Some s' \<Longrightarrow> sb_step (s, U) (s', remove1 u U)"
| sb_write: "u \<in> set U \<Longrightarrow> owns (fst u) x \<Longrightarrow> sb_step (s, U) (s\<lparr>sb_mem := (sb_mem s)(x := v)\<rparr>, U)"

lemma raw_owns: "m \<le> p \<Longrightarrow> owns (raw_block ((p, n), m)) x \<longleftrightarrow> p - m \<le> x \<and> x < p + n"
  by (auto simp: owns_def)

lemma unat_small: "m < 255 \<Longrightarrow> unat (of_nat m :: byte) = m"
  by (simp add: unsigned_of_nat take_bit_nat_eq_self)

text \<open>No block contains the header of another one.\<close>

lemma header_apart:
  assumes inv: "sb_inv s U" and u: "u \<in> set U" and v: "((p, n), m) \<in> set U" and own: "owns (fst u) x"
  shows "x \<noteq> p - 1"
proof
  assume x: "x = p - 1"
  obtain p' n' m' where u': "u = ((p', n'), m')" by (metis prod.exhaust)
  have um: "m' \<le> p'" and vm: "0 < m" "m \<le> p" "0 < n" using inv u v u' by (auto simp: sb_inv_def)
  have ownu: "owns (raw_block u) x" using own um by (auto simp: u' owns_def)
  have ownv: "owns (raw_block ((p, n), m)) x" using vm x by (auto simp: raw_owns owns_def)
  show False
  proof (cases "u = ((p, n), m)")
    case True
    then have "p \<le> p - 1" "1 \<le> p" using own x vm by (auto simp: owns_def)
    then show ?thesis by linarith
  next
    case False
    then have "((p, n), m) \<in> set (remove1 u U)" using v by (simp add: in_set_remove1)
    then have "raw_block ((p, n), m) \<in> set (map raw_block (remove1 u U))" by (metis image_eqI list.set_map)
    then have "0 < cover (map raw_block (remove1 u U)) x" by (rule cover_pos[OF _ ownv])
    moreover have "cover (map raw_block U) x = 1 + cover (map raw_block (remove1 u U)) x"
      using u ownu by (induction U) (auto simp: cover_def)
    moreover have "cover (map raw_block U) x \<le> 1"
      using inv by (simp add: sb_inv_def sa_inv_def sa_inv0_def)
    ultimately show False by linarith
  qed
qed

lemma sb_allocate_cases:
  assumes "0 < n" "0 < a" "sb_allocate n a s = Some (Some b, s')"
  obtains q m al where "sa_allocate (m + n) (sb_alloc s) = Some (Some (q, m + n), al)" "b = (q + m, n)"
    "0 < m" "m < 255" "s' = \<lparr>sb_alloc = al, sb_mem = (sb_mem s)(q + m - 1 := of_nat m)\<rparr>" "is_aligned_to (fst b) a"
proof -
  from assms obtain z where z: "sa_allocated_size (sb_alloc s) = Some z"
    by (auto simp: sb_allocate_def split: option.splits if_splits)
  let ?m = "a - z mod a"
  have m: "0 < ?m" "\<not> a \<le> z mod a" using assms(2) by (simp_all add: not_le)
  have lt: "?m < 255" using assms z by (auto simp: sb_allocate_def Let_def split: if_splits)
  obtain r al where r: "sa_allocate (?m + n) (sb_alloc s) = Some (r, al)"
    using assms z lt by (auto simp: sb_allocate_def Let_def split: option.splits if_splits)
  obtain c where c: "r = Some c"
    using assms z lt m r by (cases r) (simp_all add: sb_allocate_def Let_def)
  then have cs: "snd c = ?m + n"
    using r by (auto simp: sa_allocate_def split: option.splits if_splits)
  show thesis
    by (rule that[of ?m "fst c" al]) (use assms z lt m r c cs in
      \<open>auto simp: sb_allocate_def Let_def prod_eq_iff split: if_splits\<close>)
qed

lemma sb_inv_allocate:
  assumes inv: "sb_inv s U" and al: "0 < n" "0 < a" "sb_allocate n a s = Some (Some b, s')"
  shows "sb_inv s' ((b, unat (sb_mem s' (fst b - 1))) # U)"
proof -
  obtain q m l where al': "sa_allocate (m + n) (sb_alloc s) = Some (Some (q, m + n), l)" "b = (q + m, n)"
    "0 < m" "m < 255" "s' = \<lparr>sb_alloc = l, sb_mem = (sb_mem s)(q + m - 1 := of_nat m)\<rparr>"
    using sb_allocate_cases[OF al] by metis
  have sinv: "sa_inv (sb_alloc s) (map raw_block U)" using inv by (simp add: sb_inv_def)
  have q: "q = sa_pos (sb_alloc s)" and linv: "sa_inv l ((q, m + n) # map raw_block U)"
    using sa_inv_allocate[OF sinv _ al'(1)] al(1) by auto
  have hd: "unat (sb_mem s' (fst b - 1)) = m" using al'(2,4,5) by (simp add: unat_small)
  have "p - 1 \<noteq> q + m - 1" if "((p, k), w) \<in> set U" for p k w
  proof -
    have "p - w + (k + w) \<le> q" "0 < k" "w \<le> p"
      using that sinv inv q by (force simp: sa_inv_def sa_inv0_def sb_inv_def)+
    then show ?thesis using al'(3) by auto
  qed
  then show ?thesis
    using inv linv hd al'(2,3,4,5) al(1) by (auto simp: sb_inv_def add.commute)
qed

lemma sb_inv_free:
  assumes inv: "sb_inv s U" and u: "u \<in> set U"
  shows "\<exists>s'. sb_deallocate (fst u) s = Some s' \<and> sb_inv s' (remove1 u U)"
proof -
  obtain p n m where u': "u = ((p, n), m)" by (metis prod.exhaust)
  have um: "0 < n" "0 < m" "m < 255" "m \<le> p" "sb_mem s (p - 1) = of_nat m"
    using inv u by (auto simp: sb_inv_def u')
  have sinv: "sa_inv (sb_alloc s) (map raw_block U)" using inv by (simp add: sb_inv_def)
  have r: "(p - m, n + m) \<in> set (map raw_block U)" using u by (force simp: u')
  obtain al where al: "sa_deallocate (p - m, n + m) (sb_alloc s) = Some al"
    "sa_inv al (remove1 (p - m, n + m) (map raw_block U))"
    using sa_inv_deallocate[OF sinv r] by blast
  have "sa_btm (sb_alloc s) \<le> p - m" "p - m + (n + m) \<le> sa_pos (sb_alloc s)"
    using sinv r by (auto simp: sa_inv_def sa_inv0_def)
  then have has: "sa_has_allocated (p, n) (sb_alloc s) = Some True"
    using um(4) by (auto simp: sa_has_allocated_def sa_allocated_def block_contains_def)
  have "sb_deallocate (fst u) s = Some (s\<lparr>sb_alloc := al\<rparr>)"
    using um has al(1) by (simp add: sb_deallocate_def u' unat_small Let_def)
  moreover have "mset (remove1 (p - m, n + m) (map raw_block U)) = mset (map raw_block (remove1 u U))"
    using u by (simp add: u' image_mset_Diff)
  then have "sa_inv al (map raw_block (remove1 u U))" using al(2) sa_inv_mset by blast
  then have "sb_inv (s\<lparr>sb_alloc := al\<rparr>) (remove1 u U)"
    using inv set_remove1_subset[of u U] by (auto simp: sb_inv_def)
  ultimately show ?thesis by blast
qed

lemma sb_inv_write:
  assumes inv: "sb_inv s U" and u: "u \<in> set U" and own: "owns (fst u) x"
  shows "sb_inv (s\<lparr>sb_mem := (sb_mem s)(x := v)\<rparr>) U"
proof -
  have "\<forall>((p, n), m) \<in> set U. ((sb_mem s)(x := v)) (p - 1) = sb_mem s (p - 1)"
    using header_apart[OF inv u _ own] by fastforce
  then show ?thesis using inv by (fastforce simp: sb_inv_def simp del: fun_upd_apply)
qed

lemma sb_step_inv:
  assumes "sb_step (s, U) (s', U')" "sb_inv s U"
  shows "sb_inv s' U'"
proof -
  consider n a b where "0 < n" "0 < a" "sb_allocate n a s = Some (Some b, s')"
      "U' = (b, unat (sb_mem s' (fst b - 1))) # U"
    | u where "u \<in> set U" "sb_deallocate (fst u) s = Some s'" "U' = remove1 u U"
    | u x v where "u \<in> set U" "owns (fst u) x" "s' = s\<lparr>sb_mem := (sb_mem s)(x := v)\<rparr>" "U' = U"
    using assms(1) by (cases rule: sb_step.cases) blast+
  then show ?thesis
  proof cases
    case 1
    then show ?thesis using sb_inv_allocate[OF assms(2) 1(1,2,3)] by simp
  next
    case 2
    then show ?thesis using sb_inv_free[OF assms(2) 2(1)] by auto
  next
    case 3
    then show ?thesis using sb_inv_write[OF assms(2) 3(1,2)] by simp
  qed
qed

lemma sb_reachable_inv:
  assumes "sb_step\<^sup>*\<^sup>* (s0, []) (s, U)" "sb_inv s0 []"
  shows "sb_inv s U"
proof -
  have "case x of (s, U) \<Rightarrow> sb_inv s U" if "sb_step\<^sup>*\<^sup>* (s0, []) x" for x
    using that
  proof (induction rule: rtranclp_induct)
    case base then show ?case using assms(2) by simp
  next
    case (step y z)
    then show ?case using sb_step_inv by (cases y; cases z) auto
  qed
  from this[OF assms(1)] show ?thesis by simp
qed

text \<open>
  C10. The allocator with headers, for any sequence of allocations of non-empty aligned blocks,
  deallocations of live blocks in any order and writes of the users to their blocks: blocks of
  different allocations share no address, the byte in front of every live block still holds the
  size of its padding, and every live block can be deallocated without a failed assertion.
\<close>
theorem stack_byte_allocator_invariant:
  assumes "sa_new blk = Some al" "sb_step\<^sup>*\<^sup>* (\<lparr>sb_alloc = al, sb_mem = mem\<rparr>, []) (s, U)"
  shows "(\<forall>x. length (filter (\<lambda>u. fst (fst u) \<le> x \<and> x < fst (fst u) + snd (fst u)) U) \<le> 1) \<and>
    (\<forall>(b, m) \<in> set U. unat (sb_mem s (fst b - 1)) = m \<and> m \<le> fst b \<and> (\<exists>s'. sb_deallocate b s = Some s'))"
proof -
  have "sb_inv \<lparr>sb_alloc = al, sb_mem = mem\<rparr> []" using sa_new_inv[OF assms(1)] by (simp add: sb_inv_def)
  then have inv: "sb_inv s U" by (rule sb_reachable_inv[OF assms(2)])
  have "length (filter (\<lambda>u. fst (fst u) \<le> x \<and> x < fst (fst u) + snd (fst u)) U) \<le> cover (map raw_block U) x" for x
    by (induction U) (auto simp: cover_def owns_def)
  moreover have "cover (map raw_block U) x \<le> 1" for x
    using inv by (simp add: sb_inv_def sa_inv_def sa_inv0_def)
  moreover have "unat (sb_mem s (fst b - 1)) = m \<and> m \<le> fst b \<and> (\<exists>s'. sb_deallocate b s = Some s')"
    if "(b, m) \<in> set U" for b m
    using sb_inv_free[OF inv that] inv that by (cases b) (auto simp: sb_inv_def unat_small)
  ultimately show ?thesis by (auto intro: order_trans)
qed

lemma stack_byte_allocator_invariant_witness:
  "\<exists>s s'. sb_allocate 10 4 \<lparr>sb_alloc = \<lparr>sa_btm = 100, sa_top = 200, sa_pos = 100, sa_min = 100, sa_dif = 0\<rparr>,
      sb_mem = (\<lambda>_. 0)\<rparr> = Some (Some (104, 10), s) \<and> sb_deallocate (104, 10) s = Some s'"
proof -
  let ?a0 = "\<lparr>sa_btm = 100, sa_top = 200, sa_pos = 100, sa_min = 100, sa_dif = 0\<rparr>"
  let ?s0 = "\<lparr>sb_alloc = ?a0, sb_mem = (\<lambda>_. 0)\<rparr>"
  let ?s1 = "\<lparr>sb_alloc = \<lparr>sa_btm = 100, sa_top = 200, sa_pos = 114, sa_min = 114, sa_dif = 0\<rparr>,
      sb_mem = (\<lambda>_. 0)(103 := 4)\<rparr>"
  have new: "sa_new (100, 100) = Some ?a0" by code_simp
  have al: "sb_allocate 10 4 ?s0 = Some (Some (104, 10), ?s1)"
    by (simp add: sb_allocate_def sa_allocated_size_def sa_allocated_def sa_allocate_def sa_max_size_def
        sa_available_def is_aligned_to_def misalignment_def)
  have "sb_step\<^sup>*\<^sup>* (?s0, []) (?s1, [((104, 10), 4)])"
    using sb_alloc_ok[OF _ _ al, of "[]"] by simp
  from stack_byte_allocator_invariant[OF new this] al show ?thesis by auto
qed

text \<open>When there is no room for a block, the allocator with headers does not return the empty block as
  the other allocators do: the base allocator returns it, and the assertion that the padding fits
  into it fails.\<close>

theorem stack_byte_allocator_full:
  assumes "sa_allocated_size (sb_alloc s) = Some z" "sa_max_size (sb_alloc s) = Some k" "0 < n" "0 < a"
    "k < a - z mod a + n"
  shows "sb_allocate n a s = None"
proof -
  have "\<not> a \<le> z mod a" using assms(4) by (simp add: not_le)
  then show ?thesis using assms by (auto simp: sb_allocate_def Let_def sa_allocate_def)
qed

end
