(* ===== verification/Static_Vector.thy ===== *)
theory Static_Vector
  imports Std_Algorithm
begin

text \<open>
  \<^verbatim>\<open>source/modules/eagine/container/static_vector.cpp\<close>: a vector in an array of a fixed size.
  The capacity \<^verbatim>\<open>N\<close> is the length of the array. \<open>d\<close> stands for \<^verbatim>\<open>T{}\<close>; an element that has been
  moved from keeps its value, as it does for trivially copyable types. A failed assertion and
  an access outside the array give \<open>None\<close>. Iterators are indices.
\<close>

record 'a static_vector =
  sv_array :: "'a list"
  sv_size :: nat

section \<open>The algorithms on the array\<close>

definition std_fill :: "nat \<Rightarrow> nat \<Rightarrow> 'a \<Rightarrow> 'a list \<Rightarrow> 'a list" where
  "std_fill b e x xs = fold (\<lambda>i xs. xs[i := x]) [b..<e] xs"

fun std_move_backward :: "nat \<Rightarrow> nat \<Rightarrow> nat \<Rightarrow> 'a list \<Rightarrow> 'a list" where
  "std_move_backward f l r xs =
     (if f < l then std_move_backward f (l - 1) (r - 1) (xs[r - 1 := xs ! (l - 1)]) else xs)"

function std_move :: "nat \<Rightarrow> nat \<Rightarrow> nat \<Rightarrow> 'a list \<Rightarrow> 'a list" where
  "std_move f l t xs = (if f < l then std_move (f + 1) l (t + 1) (xs[t := xs ! f]) else xs)"
  by pat_completeness auto
termination
  by (relation "measure (\<lambda>(f, l, _). l - f)") auto

fun copy_to :: "nat \<Rightarrow> 'a list \<Rightarrow> 'a list \<Rightarrow> 'a list" where
  "copy_to p [] xs = xs"
| "copy_to p (y # ys) xs = copy_to (p + 1) ys (xs[p := y])"

declare std_move_backward.simps [simp del] std_move.simps [simp del]

section \<open>Operations\<close>

definition sv_new :: "nat \<Rightarrow> 'a \<Rightarrow> 'a static_vector" where
  "sv_new N d = \<lparr>sv_array = replicate N d, sv_size = 0\<rparr>"

definition sv_max_size :: "'a static_vector \<Rightarrow> nat" where
  "sv_max_size v = length (sv_array v)"

definition sv_available :: "'a static_vector \<Rightarrow> nat" where
  "sv_available v = sv_max_size v - sv_size v"

definition sv_resize :: "'a \<Rightarrow> nat \<Rightarrow> 'a static_vector \<Rightarrow> 'a static_vector option" where
  "sv_resize d n v =
     (if n \<le> sv_max_size v
      then Some \<lparr>sv_array = (if n < sv_size v then std_fill n (sv_size v) d (sv_array v) else sv_array v),
                 sv_size = n\<rparr>
      else None)"

definition sv_empty :: "'a static_vector \<Rightarrow> bool" where
  "sv_empty v = (sv_size v = 0)"

definition sv_full :: "'a static_vector \<Rightarrow> bool" where
  "sv_full v = (sv_size v = sv_max_size v)"

definition sv_clear :: "'a \<Rightarrow> 'a static_vector \<Rightarrow> 'a static_vector" where
  "sv_clear d v = \<lparr>sv_array = std_fill 0 (sv_size v) d (sv_array v), sv_size = 0\<rparr>"

definition sv_push_back :: "'a \<Rightarrow> 'a static_vector \<Rightarrow> 'a static_vector option" where
  "sv_push_back x v =
     (if \<not> sv_full v then Some \<lparr>sv_array = (sv_array v)[sv_size v := x], sv_size = sv_size v + 1\<rparr>
      else None)"

definition sv_pop_back :: "'a \<Rightarrow> 'a static_vector \<Rightarrow> 'a static_vector option" where
  "sv_pop_back d v =
     (if \<not> sv_empty v
      then Some \<lparr>sv_array = (sv_array v)[sv_size v - 1 := d], sv_size = sv_size v - 1\<rparr> else None)"

definition sv_valid_pos :: "nat \<Rightarrow> 'a static_vector \<Rightarrow> bool" where
  "sv_valid_pos p v = (p \<le> sv_size v)"

definition sv_insert_range :: "nat \<Rightarrow> 'a list \<Rightarrow> 'a static_vector \<Rightarrow> (nat \<times> 'a static_vector) option" where
  "sv_insert_range p ys v =
     (let cnt = length ys; e = sv_size v
      in if e + cnt \<le> sv_max_size v \<and> p \<le> e
         then Some (p, \<lparr>sv_array = copy_to p ys (std_move_backward p e (e + cnt) (sv_array v)),
                        sv_size = e + cnt\<rparr>)
         else None)"

definition sv_insert :: "nat \<Rightarrow> 'a \<Rightarrow> 'a static_vector \<Rightarrow> (nat \<times> 'a static_vector) option" where
  "sv_insert p x v =
     (if \<not> sv_full v \<and> sv_valid_pos p v
      then Some (p, \<lparr>sv_array = (std_move_backward p (sv_size v) (sv_size v + 1) (sv_array v))[p := x],
                     sv_size = sv_size v + 1\<rparr>)
      else None)"

definition sv_erase_range :: "'a \<Rightarrow> nat \<Rightarrow> nat \<Rightarrow> 'a static_vector \<Rightarrow> (nat \<times> 'a static_vector) option" where
  "sv_erase_range d i e v =
     (if sv_valid_pos i v \<and> sv_valid_pos e v \<and> i \<le> e
      then Some (i, \<lparr>sv_array = std_move (i + (e - i)) (sv_size v) i (std_fill i e d (sv_array v)),
                     sv_size = sv_size v - (e - i)\<rparr>)
      else None)"

text \<open>The assertion lets the end position through, where the code writes past the last element
  and moves an invalid range.\<close>

definition sv_erase :: "'a \<Rightarrow> nat \<Rightarrow> 'a static_vector \<Rightarrow> (nat \<times> 'a static_vector) option" where
  "sv_erase d p v =
     (if sv_valid_pos p v \<and> p \<noteq> sv_size v
      then Some (p, \<lparr>sv_array = std_move (p + 1) (sv_size v) p ((sv_array v)[p := d]),
                     sv_size = sv_size v - 1\<rparr>)
      else None)"

definition sv_front :: "'a static_vector \<Rightarrow> 'a option" where
  "sv_front v = (if \<not> sv_empty v then Some (sv_array v ! 0) else None)"

definition sv_back :: "'a static_vector \<Rightarrow> 'a option" where
  "sv_back v = (if \<not> sv_empty v then Some (sv_array v ! (sv_size v - 1)) else None)"

definition sv_index :: "nat \<Rightarrow> 'a static_vector \<Rightarrow> 'a option" where
  "sv_index i v = (if i < sv_size v then Some (sv_array v ! i) else None)"

text \<open>\<^verbatim>\<open>std::remove_if\<close> moves the kept elements to the front of the range.\<close>

fun remove_if_from :: "('a \<Rightarrow> bool) \<Rightarrow> nat \<Rightarrow> nat \<Rightarrow> nat \<Rightarrow> 'a list \<Rightarrow> nat \<times> 'a list" where
  "remove_if_from P 0 i t xs = (t, xs)"
| "remove_if_from P (Suc n) i t xs =
     (if P (xs ! i) then remove_if_from P n (i + 1) t xs
      else remove_if_from P n (i + 1) (t + 1) (xs[t := xs ! i]))"

definition sv_erase_if :: "'a \<Rightarrow> ('a \<Rightarrow> bool) \<Rightarrow> 'a static_vector \<Rightarrow> (nat \<times> 'a static_vector) option" where
  "sv_erase_if d P v =
     (let (p, xs) = remove_if_from P (sv_size v) 0 0 (sv_array v)
      in map_option (\<lambda>(_, v'). (sv_size v - p, v'))
           (sv_erase_range d p (sv_size v) (v\<lparr>sv_array := xs\<rparr>)))"

section \<open>What the algorithms do\<close>

lemma length_std_fill [simp]: "length (std_fill b e x xs) = length xs"
proof -
  have "length (fold (\<lambda>i xs. xs[i := x]) is xs) = length xs" for "is" by (induction "is" arbitrary: xs) auto
  then show ?thesis by (simp add: std_fill_def)
qed

lemma nth_std_fill: "k < length xs \<Longrightarrow> std_fill b e x xs ! k = (if b \<le> k \<and> k < e then x else xs ! k)"
proof -
  have "k < length xs \<Longrightarrow> fold (\<lambda>i xs. xs[i := x]) is xs ! k = (if k \<in> set is then x else xs ! k)" for "is"
    by (induction "is" arbitrary: xs) (auto simp: nth_list_update)
  then show "k < length xs \<Longrightarrow> std_fill b e x xs ! k = (if b \<le> k \<and> k < e then x else xs ! k)"
    by (simp add: std_fill_def)
qed

lemma length_std_move_backward [simp]: "length (std_move_backward f l r xs) = length xs"
  by (induction f l r xs rule: std_move_backward.induct) (subst std_move_backward.simps, simp)

lemma nth_std_move_backward:
  "f \<le> l \<Longrightarrow> l \<le> r \<Longrightarrow> r \<le> length xs \<Longrightarrow> k < length xs \<Longrightarrow>
   std_move_backward f l r xs ! k = (if f + (r - l) \<le> k \<and> k < r then xs ! (k - (r - l)) else xs ! k)"
proof (induction f l r xs rule: std_move_backward.induct)
  case (1 f l r xs)
  show ?case
  proof (cases "f < l")
    case True
    then have lr: "r - 1 - (l - 1) = r - l" "f \<le> l - 1" "l - 1 \<le> r - 1" "r - 1 \<le> length xs" using 1 by auto
    have "std_move_backward f l r xs ! k =
        std_move_backward f (l - 1) (r - 1) (xs[r - 1 := xs ! (l - 1)]) ! k"
      using True by (subst std_move_backward.simps) simp
    also have "\<dots> = (if f + (r - l) \<le> k \<and> k < r - 1
        then xs[r - 1 := xs ! (l - 1)] ! (k - (r - l)) else xs[r - 1 := xs ! (l - 1)] ! k)"
      using 1(1)[OF True] lr 1(5) by simp
    also have "\<dots> = (if f + (r - l) \<le> k \<and> k < r then xs ! (k - (r - l)) else xs ! k)"
    proof (cases "k = r - 1")
      case k: True
      then have "k - (r - l) = l - 1" "f + (r - l) \<le> k" "k < r" using True 1 by auto
      then show ?thesis using k 1(5) by simp
    next
      case False
      have "f + (r - l) \<le> k \<Longrightarrow> k < r - 1 \<Longrightarrow> k - (r - l) \<noteq> r - 1" using True by auto
      moreover have "(k < r) = (k < r - 1)" using False True 1 by auto
      ultimately show ?thesis using False by (auto simp: nth_list_update_neq[of _ "r - 1"])
    qed
    finally show ?thesis .
  next
    case False
    then show ?thesis using 1 by (subst std_move_backward.simps) auto
  qed
qed

lemma length_std_move [simp]: "length (std_move f l t xs) = length xs"
  by (induction f l t xs rule: std_move.induct) (subst std_move.simps, simp)

lemma nth_std_move:
  "f \<le> l \<Longrightarrow> t \<le> f \<Longrightarrow> l \<le> length xs \<Longrightarrow> k < length xs \<Longrightarrow>
   std_move f l t xs ! k = (if t \<le> k \<and> k < t + (l - f) then xs ! (k + (f - t)) else xs ! k)"
proof (induction f l t xs rule: std_move.induct)
  case (1 f l t xs)
  show ?case
  proof (cases "f < l")
    case True
    then have eqs: "f + 1 - (t + 1) = f - t" "l - f = Suc (l - (f + 1))" by auto
    have "std_move f l t xs ! k = std_move (f + 1) l (t + 1) (xs[t := xs ! f]) ! k"
      using True by (subst std_move.simps) simp
    also have "\<dots> = (if t + 1 \<le> k \<and> k < t + 1 + (l - (f + 1))
        then xs[t := xs ! f] ! (k + (f - t)) else xs[t := xs ! f] ! k)"
      using 1(1)[OF True] 1(2-5) True eqs(1) by simp
    also have "\<dots> = (if t \<le> k \<and> k < t + (l - f) then xs ! (k + (f - t)) else xs ! k)"
      using 1(3,4,5) True eqs(2) by (cases "k = t") (auto simp: nth_list_update)
    finally show ?thesis .
  next
    case False
    then show ?thesis using 1 by (subst std_move.simps) auto
  qed
qed

lemma length_copy_to [simp]: "length (copy_to p ys xs) = length xs"
  by (induction p ys xs rule: copy_to.induct) auto

lemma nth_copy_to:
  "p + length ys \<le> length xs \<Longrightarrow> k < length xs \<Longrightarrow>
   copy_to p ys xs ! k = (if p \<le> k \<and> k < p + length ys then ys ! (k - p) else xs ! k)"
proof (induction p ys xs rule: copy_to.induct)
  case (2 p y ys xs)
  then show ?case by (cases "k = p") (auto simp: nth_Cons' nth_list_update)
qed auto

section \<open>The list a static vector represents\<close>

definition sv_list :: "'a static_vector \<Rightarrow> 'a list" where
  "sv_list v = take (sv_size v) (sv_array v)"

definition sv_invar :: "nat \<Rightarrow> 'a static_vector \<Rightarrow> bool" where
  "sv_invar N v = (length (sv_array v) = N \<and> sv_size v \<le> N)"

text \<open>The elements behind the last one are \<^verbatim>\<open>T{}\<close>.\<close>

definition sv_clean :: "'a \<Rightarrow> 'a static_vector \<Rightarrow> bool" where
  "sv_clean d v = (\<forall>k. sv_size v \<le> k \<and> k < length (sv_array v) \<longrightarrow> sv_array v ! k = d)"

lemma length_sv_list: "sv_invar N v \<Longrightarrow> length (sv_list v) = sv_size v"
  by (simp add: sv_list_def sv_invar_def)

lemma nth_sv_list: "sv_invar N v \<Longrightarrow> k < sv_size v \<Longrightarrow> sv_list v ! k = sv_array v ! k"
  by (simp add: sv_list_def)

lemma sv_new_result:
  "sv_invar N (sv_new N d)" "sv_list (sv_new N d) = []" "sv_clean d (sv_new N d)"
  by (simp_all add: sv_new_def sv_invar_def sv_list_def sv_clean_def)

lemma sv_full_iff: "sv_invar N v \<Longrightarrow> sv_full v \<longleftrightarrow> length (sv_list v) = N"
  by (simp add: sv_full_def sv_max_size_def sv_invar_def sv_list_def)

lemma sv_empty_iff: "sv_invar N v \<Longrightarrow> sv_empty v \<longleftrightarrow> sv_list v = []"
  using length_sv_list[of N v] by (auto simp: sv_empty_def)

lemma sv_resize_result:
  assumes "sv_invar N v" "n \<le> N"
  shows "\<exists>v'. sv_resize d n v = Some v' \<and> sv_invar N v' \<and> (sv_clean d v \<longrightarrow> sv_clean d v') \<and>
    sv_list v' = (if n \<le> sv_size v then take n (sv_list v)
      else sv_list v @ take (n - sv_size v) (drop (sv_size v) (sv_array v))) \<and>
    (sv_clean d v \<longrightarrow> sv_list v' = take n (sv_list v) @ replicate (n - sv_size v) d)"
proof -
  let ?a = "if n < sv_size v then std_fill n (sv_size v) d (sv_array v) else sv_array v"
  let ?v = "\<lparr>sv_array = ?a, sv_size = n\<rparr>"
  have r: "sv_resize d n v = Some ?v" "sv_invar N ?v"
    using assms by (auto simp: sv_resize_def sv_max_size_def sv_invar_def)
  have l: "sv_list ?v = (if n \<le> sv_size v then take n (sv_list v)
      else sv_list v @ take (n - sv_size v) (drop (sv_size v) (sv_array v)))"
  proof (cases "n \<le> sv_size v")
    case True
    then show ?thesis using assms
      by (auto simp: sv_list_def sv_invar_def nth_std_fill intro!: nth_equalityI)
  next
    case False
    then have "take n (sv_array v) = take (sv_size v) (sv_array v) @
        take (n - sv_size v) (drop (sv_size v) (sv_array v))"
      by (metis le_add_diff_inverse nat_le_linear take_add)
    then show ?thesis using False by (simp add: sv_list_def)
  qed
  have "take (n - sv_size v) (drop (sv_size v) (sv_array v)) = replicate (n - sv_size v) d"
    if "sv_clean d v"
    using that assms by (intro nth_equalityI) (auto simp: sv_clean_def sv_invar_def)
  then have c: "sv_clean d v \<Longrightarrow> sv_list ?v = take n (sv_list v) @ replicate (n - sv_size v) d"
    using l length_sv_list[OF assms(1)] by auto
  have "sv_clean d v \<Longrightarrow> sv_clean d ?v"
    using assms by (auto simp: sv_clean_def sv_invar_def nth_std_fill)
  then show ?thesis using r l c by blast
qed

lemma sv_clear_result:
  "sv_invar N v \<Longrightarrow> sv_invar N (sv_clear d v) \<and> sv_list (sv_clear d v) = [] \<and>
    (sv_clean d v \<longrightarrow> sv_clean d (sv_clear d v))"
  by (auto simp: sv_invar_def sv_clear_def sv_list_def sv_clean_def nth_std_fill)

lemma sv_push_back_result:
  assumes "sv_invar N v"
  shows "sv_push_back x v = None \<longleftrightarrow> length (sv_list v) = N"
    and "sv_push_back x v = Some v' \<Longrightarrow> sv_invar N v' \<and> sv_list v' = sv_list v @ [x] \<and>
      (sv_clean d v \<longrightarrow> sv_clean d v')"
proof -
  show "sv_push_back x v = None \<longleftrightarrow> length (sv_list v) = N"
    using sv_full_iff[OF assms] by (simp add: sv_push_back_def)
  assume p: "sv_push_back x v = Some v'"
  then have "sv_size v < N" using assms by (auto simp: sv_push_back_def sv_full_def sv_max_size_def sv_invar_def split: if_splits)
  then show "sv_invar N v' \<and> sv_list v' = sv_list v @ [x] \<and> (sv_clean d v \<longrightarrow> sv_clean d v')"
    using p assms
    by (auto simp: sv_push_back_def sv_invar_def sv_list_def sv_clean_def take_Suc_conv_app_nth
        split: if_splits)
qed

lemma sv_pop_back_result:
  assumes "sv_invar N v" "sv_list v \<noteq> []"
  shows "\<exists>v'. sv_pop_back d v = Some v' \<and> sv_invar N v' \<and> sv_list v' = butlast (sv_list v) \<and>
    (sv_clean d v \<longrightarrow> sv_clean d v')"
  using assms length_sv_list[OF assms(1)] sv_empty_iff[OF assms(1)]
  by (auto simp: sv_pop_back_def sv_invar_def sv_clean_def sv_list_def nth_list_update
      butlast_take min_def intro!: nth_equalityI)

lemma sv_insert_result:
  assumes "sv_invar N v" "length (sv_list v) < N" "p \<le> length (sv_list v)"
  shows "\<exists>v'. sv_insert p x v = Some (p, v') \<and> sv_invar N v' \<and> sv_list v' = vector_insert p x (sv_list v) \<and>
    (sv_clean d v \<longrightarrow> sv_clean d v')"
proof -
  let ?a = "(std_move_backward p (sv_size v) (sv_size v + 1) (sv_array v))[p := x]"
  let ?v = "\<lparr>sv_array = ?a, sv_size = sv_size v + 1\<rparr>"
  have sz: "sv_size v < N" "p \<le> sv_size v" "length (sv_array v) = N"
    using assms length_sv_list[OF assms(1)] by (auto simp: sv_invar_def)
  have nth: "?a ! k = (if k = p then x else if p < k \<and> k \<le> sv_size v then sv_array v ! (k - 1)
      else sv_array v ! k)" if "k < N" for k
    using that sz by (auto simp: nth_list_update nth_std_move_backward)
  have "sv_list ?v = vector_insert p x (sv_list v)"
  proof (rule nth_equalityI)
    show "length (sv_list ?v) = length (vector_insert p x (sv_list v))"
      using sz by (simp add: sv_list_def length_vector_ops)
    fix k assume "k < length (sv_list ?v)"
    then have k: "k < sv_size v + 1" "k < N" using sz by (auto simp: sv_list_def)
    then have "sv_list ?v ! k = ?a ! k" by (simp add: sv_list_def)
    also have "\<dots> = vector_insert p x (sv_list v) ! k"
      unfolding nth[OF k(2)] using k sz
      by (auto simp: vector_insert_def sv_list_def nth_append nth_Cons' min_def)
    finally show "sv_list ?v ! k = vector_insert p x (sv_list v) ! k" .
  qed
  moreover have "sv_clean d v \<Longrightarrow> sv_clean d ?v"
    unfolding sv_clean_def using nth sz by (metis Suc_eq_plus1 Suc_le_lessD Suc_leD length_list_update
        length_std_move_backward less_irrefl not_less order_le_less_trans static_vector.select_convs)
  ultimately show ?thesis
    using sz by (auto simp: sv_insert_def sv_full_def sv_max_size_def sv_valid_pos_def sv_invar_def)
qed

lemma sv_insert_range_result:
  assumes "sv_invar N v" "length (sv_list v) + length ys \<le> N" "p \<le> length (sv_list v)"
  shows "\<exists>v'. sv_insert_range p ys v = Some (p, v') \<and> sv_invar N v' \<and>
    sv_list v' = take p (sv_list v) @ ys @ drop p (sv_list v)"
proof -
  let ?n = "length ys"
  let ?a = "copy_to p ys (std_move_backward p (sv_size v) (sv_size v + ?n) (sv_array v))"
  let ?v = "\<lparr>sv_array = ?a, sv_size = sv_size v + ?n\<rparr>"
  have sz: "sv_size v + ?n \<le> N" "p \<le> sv_size v" "length (sv_array v) = N"
    using assms length_sv_list[OF assms(1)] by (auto simp: sv_invar_def)
  have nth: "?a ! k = (if p \<le> k \<and> k < p + ?n then ys ! (k - p)
      else if p + ?n \<le> k \<and> k < sv_size v + ?n then sv_array v ! (k - ?n) else sv_array v ! k)"
    if "k < N" for k
    using that sz by (subst nth_copy_to) (auto simp: nth_std_move_backward)
  have "sv_list ?v = take p (sv_list v) @ ys @ drop p (sv_list v)"
  proof (rule nth_equalityI)
    show "length (sv_list ?v) = length (take p (sv_list v) @ ys @ drop p (sv_list v))"
      using sz by (simp add: sv_list_def)
    fix k assume "k < length (sv_list ?v)"
    then have k: "k < sv_size v + ?n" "k < N" using sz by (auto simp: sv_list_def)
    then have "sv_list ?v ! k = ?a ! k" by (simp add: sv_list_def)
    also have "\<dots> = (take p (sv_list v) @ ys @ drop p (sv_list v)) ! k"
      unfolding nth[OF k(2)] using k sz
      by (auto simp: sv_list_def nth_append min_def)
    finally show "sv_list ?v ! k = (take p (sv_list v) @ ys @ drop p (sv_list v)) ! k" .
  qed
  then show ?thesis
    using sz by (auto simp: sv_insert_range_def sv_max_size_def sv_invar_def Let_def)
qed

lemma sv_erase_range_result:
  assumes "sv_invar N v" "i \<le> e" "e \<le> length (sv_list v)"
  shows "\<exists>v'. sv_erase_range d i e v = Some (i, v') \<and> sv_invar N v' \<and>
    sv_list v' = vector_erase_range i e (sv_list v)"
proof -
  let ?a = "std_move (i + (e - i)) (sv_size v) i (std_fill i e d (sv_array v))"
  let ?v = "\<lparr>sv_array = ?a, sv_size = sv_size v - (e - i)\<rparr>"
  have sz: "sv_size v \<le> N" "e \<le> sv_size v" "length (sv_array v) = N"
    using assms length_sv_list[OF assms(1)] by (auto simp: sv_invar_def)
  have nth: "?a ! k = (if i \<le> k \<and> k < i + (sv_size v - e) then sv_array v ! (k + (e - i))
      else if i \<le> k \<and> k < e then d else sv_array v ! k)" if "k < N" for k
    using that sz assms(2) by (auto simp: nth_std_move nth_std_fill)
  have "sv_list ?v = vector_erase_range i e (sv_list v)"
  proof (rule nth_equalityI)
    show "length (sv_list ?v) = length (vector_erase_range i e (sv_list v))"
      using sz assms(2) by (simp add: sv_list_def vector_erase_range_def)
    fix k assume "k < length (sv_list ?v)"
    then have k: "k < sv_size v - (e - i)" "k < N" using sz by (auto simp: sv_list_def)
    then have "sv_list ?v ! k = ?a ! k" by (simp add: sv_list_def)
    also have "\<dots> = vector_erase_range i e (sv_list v) ! k"
      unfolding nth[OF k(2)] using k sz assms(2)
      by (auto simp: vector_erase_range_def sv_list_def nth_append min_def add.commute)
    finally show "sv_list ?v ! k = vector_erase_range i e (sv_list v) ! k" .
  qed
  then show ?thesis
    using sz assms(2) by (auto simp: sv_erase_range_def sv_valid_pos_def sv_invar_def)
qed

lemma sv_erase_result:
  assumes "sv_invar N v" "p < length (sv_list v)"
  shows "\<exists>v'. sv_erase d p v = Some (p, v') \<and> sv_invar N v' \<and> sv_list v' = vector_erase p (sv_list v)"
proof -
  have "std_fill p (Suc p) d xs = xs[p := d]" for xs :: "'a list" by (simp add: std_fill_def)
  then have "sv_erase d p v = sv_erase_range d p (p + 1) v"
    using assms length_sv_list[OF assms(1)]
    by (simp add: sv_erase_def sv_erase_range_def sv_valid_pos_def)
  moreover have "vector_erase_range p (p + 1) xs = vector_erase p xs" for xs :: "'a list"
    by (simp add: vector_erase_range_def vector_erase_def)
  ultimately show ?thesis
    using sv_erase_range_result[OF assms(1), of p "p + 1" d] assms(2) by simp
qed

lemma remove_if_from_result:
  "remove_if_from P n i t xs = (q, ys) \<Longrightarrow> t \<le> i \<Longrightarrow> i + n \<le> length xs \<Longrightarrow>
   length ys = length xs \<and> take q ys = take t xs @ filter (\<lambda>x. \<not> P x) (take n (drop i xs)) \<and>
   q = t + length (filter (\<lambda>x. \<not> P x) (take n (drop i xs)))"
proof (induction P n i t xs rule: remove_if_from.induct)
  case (2 P n i t xs)
  have d: "drop i xs = xs ! i # drop (i + 1) xs" using 2(5) by (simp add: Cons_nth_drop_Suc)
  show ?case
  proof (cases "P (xs ! i)")
    case True then show ?thesis using 2 d by auto
  next
    case False
    have "take (t + 1) (xs[t := xs ! i]) = take t xs @ [xs ! i]"
      using 2(4,5) by (simp add: take_Suc_conv_app_nth)
    moreover have "drop (i + 1) (xs[t := xs ! i]) = drop (i + 1) xs" using 2(4) by simp
    ultimately show ?thesis using 2 d False by auto
  qed
qed auto

lemma sv_erase_if_result:
  assumes "sv_invar N v"
  shows "\<exists>v'. sv_erase_if d P v = Some (length (filter P (sv_list v)), v') \<and> sv_invar N v' \<and>
    sv_list v' = filter (\<lambda>x. \<not> P x) (sv_list v)"
proof -
  obtain q ys where r: "remove_if_from P (sv_size v) 0 0 (sv_array v) = (q, ys)" by fastforce
  have sz: "sv_size v \<le> length (sv_array v)" "length (sv_array v) = N" using assms by (auto simp: sv_invar_def)
  then have ys: "length ys = N" "take q ys = filter (\<lambda>x. \<not> P x) (sv_list v)"
    "q = length (filter (\<lambda>x. \<not> P x) (sv_list v))"
    using remove_if_from_result[OF r] by (auto simp: sv_list_def)
  let ?v = "v\<lparr>sv_array := ys\<rparr>"
  have inv: "sv_invar N ?v" using assms ys by (simp add: sv_invar_def)
  have l: "length (sv_list ?v) = sv_size v" using length_sv_list[OF inv] by simp
  have cnt: "sv_size v - q = length (filter P (sv_list v))"
    using sum_length_filter_compl[of P "sv_list v"] length_sv_list[OF assms] ys(3) by linarith
  have q: "q \<le> sv_size v" using ys(3) length_sv_list[OF assms] by (metis length_filter_le)
  obtain v' where "sv_erase_range d q (sv_size v) ?v = Some (q, v')" "sv_invar N v'"
    "sv_list v' = vector_erase_range q (sv_size v) (sv_list ?v)"
    using sv_erase_range_result[OF inv q, of d] l by auto
  moreover have "vector_erase_range q (sv_size v) (sv_list ?v) = take q ys"
    using q l by (simp add: vector_erase_range_def sv_list_def)
  ultimately show ?thesis using ys(2) cnt by (simp add: sv_erase_if_def r)
qed


section \<open>Properties\<close>

text \<open>The elements behind the end, which \<^verbatim>\<open>resize\<close> to a larger size brings back.\<close>

definition sv_spare :: "'a static_vector \<Rightarrow> 'a list" where
  "sv_spare v = drop (sv_size v) (sv_array v)"

definition sv_abs :: "'a static_vector \<Rightarrow> 'a list \<times> 'a list" where
  "sv_abs v = (sv_list v, sv_spare v)"

datatype 'a vec_op = Push_back 'a | Pop_back | Insert_at nat 'a | Insert_range nat "'a list"
  | Erase_at nat | Erase_range nat nat | Erase_if "'a \<Rightarrow> bool" | Clear | Resize nat

primrec sv_step :: "'a \<Rightarrow> 'a vec_op \<Rightarrow> 'a static_vector \<Rightarrow> 'a static_vector option" where
  "sv_step d (Push_back x) v = sv_push_back x v"
| "sv_step d Pop_back v = sv_pop_back d v"
| "sv_step d (Insert_at p x) v = map_option snd (sv_insert p x v)"
| "sv_step d (Insert_range p ys) v = map_option snd (sv_insert_range p ys v)"
| "sv_step d (Erase_at p) v = map_option snd (sv_erase d p v)"
| "sv_step d (Erase_range i e) v = map_option snd (sv_erase_range d i e v)"
| "sv_step d (Erase_if P) v = map_option snd (sv_erase_if d P v)"
| "sv_step d Clear v = Some (sv_clear d v)"
| "sv_step d (Resize n) v = sv_resize d n v"

text \<open>The same operations on a list \<open>xs\<close> with the elements \<open>zs\<close> in reserve. Adding elements uses up the
  reserve; removed elements are replaced by \<open>d\<close> there, except that \<open>erase\<close> leaves the last elements
  as they are.\<close>

fun vec_spec :: "'a \<Rightarrow> 'a vec_op \<Rightarrow> 'a list \<times> 'a list \<Rightarrow> ('a list \<times> 'a list) option" where
  "vec_spec d (Push_back x) (xs, zs) = (if zs \<noteq> [] then Some (xs @ [x], tl zs) else None)"
| "vec_spec d Pop_back (xs, zs) = (if xs \<noteq> [] then Some (butlast xs, d # zs) else None)"
| "vec_spec d (Insert_at p x) (xs, zs) =
     (if zs \<noteq> [] \<and> p \<le> length xs then Some (take p xs @ x # drop p xs, tl zs) else None)"
| "vec_spec d (Insert_range p ys) (xs, zs) =
     (if length ys \<le> length zs \<and> p \<le> length xs
      then Some (take p xs @ ys @ drop p xs, drop (length ys) zs) else None)"
| "vec_spec d (Erase_at p) (xs, zs) =
     (if p < length xs then Some (take p xs @ drop (p + 1) xs, last (xs[p := d]) # zs) else None)"
| "vec_spec d (Erase_range i e) (xs, zs) =
     (if i \<le> e \<and> e \<le> length xs
      then Some (take i xs @ drop e xs,
        drop (length xs - (e - i)) (take i xs @ replicate (e - i) d @ drop e xs) @ zs) else None)"
| "vec_spec d (Erase_if P) (xs, zs) =
     Some (filter (\<lambda>x. \<not> P x) xs, replicate (length (filter P xs)) d @ zs)"
| "vec_spec d Clear (xs, zs) = Some ([], replicate (length xs) d @ zs)"
| "vec_spec d (Resize n) (xs, zs) =
     (if n \<le> length xs then Some (take n xs, replicate (length xs - n) d @ zs)
      else if n - length xs \<le> length zs then Some (xs @ take (n - length xs) zs, drop (n - length xs) zs)
      else None)"

lemma vec_spec_size: "vec_spec d op (xs, zs) = Some (ys, us) \<Longrightarrow> length ys + length us = length xs + length zs"
  using sum_length_filter_compl[of _ xs] by (cases op) (auto split: if_splits simp: add.commute[of "length (filter (\<lambda>x. \<not> _ x) _)"])

text \<open>As long as nothing is erased by position, the reserve holds only \<open>d\<close>, so that \<^verbatim>\<open>resize\<close> adds
  default values.\<close>

lemma vec_spec_fresh:
  assumes "vec_spec d op (xs, replicate k d) = Some (ys, us)" "\<And>p. op \<noteq> Erase_at p" "\<And>i e. op \<noteq> Erase_range i e"
  shows "us = replicate (length us) d"
  using assms by (cases op) (auto split: if_splits simp: replicate_length_same in_set_butlastD simp flip: replicate_add replicate_Suc)

text \<open>An array that is the concatenation of two lists represents both of them.\<close>

lemma sv_abs_append: "sv_abs \<lparr>sv_array = xs @ zs, sv_size = length xs\<rparr> = (xs, zs)"
  by (simp add: sv_abs_def sv_list_def sv_spare_def)

lemma sv_split:
  assumes "sv_invar N v"
  shows "v = \<lparr>sv_array = sv_list v @ sv_spare v, sv_size = length (sv_list v)\<rparr>" "length (sv_list v) + length (sv_spare v) = N"
  using assms by (auto simp: sv_list_def sv_spare_def sv_invar_def)

lemma std_fill_append: "std_fill (length xs) (length xs + length ys) d (xs @ ys @ zs) = xs @ replicate (length ys) d @ zs"
  by (rule nth_equalityI) (auto simp: nth_std_fill nth_append)

lemma std_move_backward_append:
  assumes "length ws = n" "n \<le> length zs"
  shows "\<exists>us. length us = n \<and> std_move_backward (length xs) (length xs + length ys) (length xs + length ys + n) (xs @ ys @ zs) =
    xs @ us @ ys @ drop n zs"
proof -
  let ?a = "std_move_backward (length xs) (length xs + length ys) (length xs + length ys + n) (xs @ ys @ zs)"
  have "?a = xs @ take n (drop (length xs) ?a) @ ys @ drop n zs"
    using assms(2) by (intro nth_equalityI) (auto simp: nth_std_move_backward nth_append add.commute)
  moreover have "length (take n (drop (length xs) ?a)) = n"
    using assms(2) by simp
  ultimately show ?thesis by blast
qed

lemma std_move_append:
  assumes "length ws = n"
  shows "std_move (length xs + n) (length xs + n + length ys) (length xs) (xs @ ws @ ys @ zs) =
    xs @ ys @ drop (length ys) (ws @ ys) @ zs"
  using assms
proof (induction ys arbitrary: xs ws)
  case Nil
  then show ?case by (subst std_move.simps) simp
next
  case (Cons y ys)
  show ?case
  proof (cases ws)
    case Nil
    then show ?thesis
      using Cons.IH[of "[]" "xs @ [y]"] Cons.prems by (subst std_move.simps) (simp add: nth_append list_update_append)
  next
    case (Cons w us)
    then show ?thesis
      using Cons.IH[of "us @ [y]" "xs @ [y]"] Cons.prems by (subst std_move.simps) (auto simp: nth_append list_update_append)
  qed
qed

lemma copy_to_append: "copy_to (length xs) ys (xs @ us @ zs) = xs @ ys @ zs" if "length us = length ys"
  using that by (intro nth_equalityI) (auto simp: nth_copy_to nth_append)

text \<open>The operations on such an array.\<close>

lemma sv_insert_range_append:
  assumes "length ys \<le> length zs"
  shows "sv_insert_range (length as) ys \<lparr>sv_array = (as @ bs) @ zs, sv_size = length as + length bs\<rparr> =
    Some (length as, \<lparr>sv_array = (as @ ys @ bs) @ drop (length ys) zs, sv_size = length as + length bs + length ys\<rparr>)"
proof -
  obtain us where us: "length us = length ys"
    "std_move_backward (length as) (length as + length bs) (length as + length bs + length ys) (as @ bs @ zs) =
      as @ us @ bs @ drop (length ys) zs"
    using std_move_backward_append[OF refl assms] by blast
  then show ?thesis
    using assms copy_to_append[OF us(1)] by (simp add: sv_insert_range_def sv_max_size_def Let_def)
qed

lemma sv_insert_as_range: "sv_insert p x v = sv_insert_range p [x] v" if "sv_invar N v"
  using that by (auto simp: sv_insert_def sv_insert_range_def sv_full_def sv_valid_pos_def sv_max_size_def sv_invar_def Let_def)

lemma sv_erase_range_append:
  "sv_erase_range d (length as) (length as + length ws) \<lparr>sv_array = (as @ ws @ bs) @ zs, sv_size = length (as @ ws @ bs)\<rparr> =
    Some (length as, \<lparr>sv_array = (as @ bs) @ drop (length bs) (replicate (length ws) d @ bs) @ zs, sv_size = length (as @ bs)\<rparr>)"
  using std_fill_append[of as ws d "bs @ zs"]
    std_move_append[of "replicate (length ws) d" "length ws" as bs zs]
  by (simp add: sv_erase_range_def sv_valid_pos_def add.assoc)

lemma drop_last_updated: "p < length xs \<Longrightarrow> drop (length xs - Suc p) (d # drop (Suc p) xs) = [last (xs[p := d])]"
proof (cases "drop (Suc p) xs" rule: rev_cases)
  case (snoc ys y)
  then have "length xs - Suc p = Suc (length ys)"
    by (metis length_append_singleton length_drop)
  moreover assume "p < length xs"
  ultimately show ?thesis
    by (simp add: snoc upd_conv_take_nth_drop)
qed (simp add: upd_conv_take_nth_drop)

lemma sv_erase_as_range: "p < sv_size v \<Longrightarrow> sv_erase d p v = sv_erase_range d p (p + 1) v"
  by (simp add: sv_erase_def sv_erase_range_def sv_valid_pos_def std_fill_def)

lemma remove_if_from_keeps:
  "remove_if_from P n i t xs = (q, ys) \<Longrightarrow> t \<le> i \<Longrightarrow> drop (i + n) ys = drop (i + n) xs"
proof (induction P n i t xs rule: remove_if_from.induct)
  case (2 P n i t xs)
  then show ?case by (cases "P (xs ! i)") auto
qed simp

lemma remove_if_from_all:
  assumes "sv_invar N v"
  obtains us where "remove_if_from P (sv_size v) 0 0 (sv_array v) =
      (length (filter (\<lambda>x. \<not> P x) (sv_list v)), filter (\<lambda>x. \<not> P x) (sv_list v) @ us @ sv_spare v)"
    "length us = length (filter P (sv_list v))"
proof -
  obtain q ys where r: "remove_if_from P (sv_size v) 0 0 (sv_array v) = (q, ys)" by fastforce
  let ?f = "filter (\<lambda>x. \<not> P x) (sv_list v)"
  have sz: "sv_size v \<le> length (sv_array v)" using assms by (simp add: sv_invar_def)
  then have "length ys = length (sv_array v) \<and> take q ys = ?f \<and> q = length ?f"
    using remove_if_from_result[OF r] by (auto simp: sv_list_def)
  then have ys: "length ys = length (sv_array v)" "take q ys = ?f" "q = length ?f" by blast+
  have len: "length ?f + length (filter P (sv_list v)) = sv_size v"
    using sum_length_filter_compl[of P "sv_list v"] length_sv_list[OF assms] by simp
  have "drop (sv_size v) ys = sv_spare v"
    using remove_if_from_keeps[OF r] sz by (simp add: sv_spare_def)
  then have "ys = ?f @ drop q (take (sv_size v) ys) @ sv_spare v"
    using ys len by (metis append_assoc append_take_drop_id le_add1 min.absorb1 take_take)
  then show thesis
    using that[of "drop q (take (sv_size v) ys)"] r ys len sz by auto
qed

interpretation static_vector: op_refinement "sv_invar N" sv_abs "sv_step d" "vec_spec d" for N d
proof
  fix v :: "'a static_vector" and op :: "'a vec_op"
  assume inv: "sv_invar N v"
  define xs zs where "xs = sv_list v" and "zs = sv_spare v"
  have v: "v = \<lparr>sv_array = xs @ zs, sv_size = length xs\<rparr>" and N: "length xs + length zs = N"
    using sv_split[OF inv] by (simp_all add: xs_def zs_def)
  have abs: "sv_abs v = (xs, zs)"
    by (simp add: sv_abs_def xs_def zs_def)
  have done_if: "rel_option (\<lambda>v' x. sv_invar N v' \<and> sv_abs v' = x) (Some \<lparr>sv_array = ys @ us, sv_size = n\<rparr>) (Some (ys, us))"
    if "n = length ys" "length ys + length us = N" for ys us n
    using that by (simp add: sv_abs_append sv_invar_def)
  have erase_range: "rel_option (\<lambda>v' x. sv_invar N v' \<and> sv_abs v' = x)
      (map_option snd (sv_erase_range d i e v)) (vec_spec d (Erase_range i e) (xs, zs))" for i e
  proof (cases "i \<le> e \<and> e \<le> length xs")
    case True
    then obtain l w r where parts: "xs = l @ w @ r" "length l = i" "length l + length w = e"
      by (metis append_take_drop_id[of i xs] append_take_drop_id[of "e - i" "drop i xs"] drop_drop length_drop
          length_take min.absorb2 diff_le_mono le_trans le_add_diff_inverse)
    then show ?thesis
      using sv_erase_range_append[of d l w r zs] done_if[of _ "l @ r" "drop (length r) (replicate (length w) d @ r) @ zs"] N
      by (auto simp: v)
  next
    case False
    then show ?thesis
      by (auto simp: v sv_erase_range_def sv_valid_pos_def)
  qed
  have insert_range: "rel_option (\<lambda>v' x. sv_invar N v' \<and> sv_abs v' = x)
      (map_option snd (sv_insert_range p ys v)) (vec_spec d (Insert_range p ys) (xs, zs))" for p ys
  proof (cases "p \<le> length xs \<and> length ys \<le> length zs")
    case True
    then show ?thesis
      using sv_insert_range_append[of ys zs "take p xs" "drop p xs"] done_if[of "length xs + length ys" "take p xs @ ys @ drop p xs" "drop (length ys) zs"] N
      by (auto simp: v)
  next
    case False
    then show ?thesis
      by (auto simp: v sv_insert_range_def sv_max_size_def Let_def)
  qed
  have "rel_option (\<lambda>v' x. sv_invar N v' \<and> sv_abs v' = x) (sv_step d op v) (vec_spec d op (xs, zs))"
  proof (cases op)
    case (Push_back x)
    then show ?thesis
      using done_if[of _ "xs @ [x]" "tl zs"] N
      by (cases zs) (auto simp: v sv_push_back_def sv_full_def sv_max_size_def)
  next
    case Pop_back
    then show ?thesis
      using done_if[of _ "butlast xs" "d # zs"] N
      by (cases xs rule: rev_cases) (auto simp: v sv_pop_back_def sv_empty_def list_update_append)
  next
    case (Insert_at p x)
    then show ?thesis
      using insert_range[of p "[x]"] sv_insert_as_range[OF inv, of p x] by (cases zs) (auto simp: drop_Suc)
  next
    case (Insert_range p ys)
    then show ?thesis using insert_range by simp
  next
    case (Erase_at p)
    show ?thesis
    proof (cases "p < length xs")
      case True
      then show ?thesis
        using Erase_at erase_range[of p "p + 1"] sv_erase_as_range[of p v d] by (simp add: v drop_last_updated)
    next
      case False
      then show ?thesis using Erase_at by (simp add: v sv_erase_def sv_valid_pos_def)
    qed
  next
    case (Erase_range i e)
    then show ?thesis using erase_range by simp
  next
    case (Erase_if P)
    obtain us where us: "remove_if_from P (sv_size v) 0 0 (sv_array v) =
        (length (filter (\<lambda>x. \<not> P x) xs), filter (\<lambda>x. \<not> P x) xs @ us @ zs)"
      "length us = length (filter P xs)"
      using remove_if_from_all[OF inv, of P] by (auto simp: xs_def zs_def)
    have "length xs = length (filter (\<lambda>x. \<not> P x) xs) + length us"
      using us(2) sum_length_filter_compl[of P xs] by simp
    then show ?thesis
      using Erase_if us sv_erase_range_append[of d "filter (\<lambda>x. \<not> P x) xs" us "[]" zs]
        done_if[of _ "filter (\<lambda>x. \<not> P x) xs" "replicate (length us) d @ zs"] N
      by (simp add: v sv_erase_if_def)
  next
    case Clear
    then show ?thesis
      using done_if[of _ "[]" "replicate (length xs) d @ zs"] std_fill_append[of "[]" xs d zs] N
      by (simp add: v sv_clear_def)
  next
    case (Resize n)
    consider "n \<le> length xs" | "length xs < n" "n - length xs \<le> length zs" | "length zs < n - length xs"
      by linarith
    then show ?thesis
    proof cases
      case 1
      moreover have "std_fill n (length xs) d (xs @ zs) = take n xs @ replicate (length xs - n) d @ zs"
        using std_fill_append[of "take n xs" "drop n xs" d zs] 1 by (simp add: append_assoc[symmetric] del: append_assoc)
      ultimately show ?thesis
        using Resize done_if[of n "take n xs" "replicate (length xs - n) d @ zs"] N
        by (auto simp: v sv_resize_def sv_max_size_def min_def)
    next
      case 2
      then show ?thesis
        using Resize done_if[of n "xs @ take (n - length xs) zs" "drop (n - length xs) zs"] N
        by (auto simp: v sv_resize_def sv_max_size_def)
    next
      case 3
      then show ?thesis
        using Resize by (auto simp: v sv_resize_def sv_max_size_def)
    qed
  qed
  then show "rel_option (\<lambda>v' x. sv_invar N v' \<and> sv_abs v' = x) (sv_step d op v) (vec_spec d op (sv_abs v))"
    by (simp only: abs)
qed

text \<open>
  C11. Every sequence of operations on a new \<^verbatim>\<open>static_vector\<close> behaves as on a list with a reserve, \<open>N\<close>
  elements together: it fails (an assertion, or an access outside the array) exactly where the list
  operation is not possible, and otherwise holds the elements of the list. The elements that
  \<^verbatim>\<open>resize\<close> to a larger size adds are those of the reserve, which are default values unless
  \<^verbatim>\<open>erase\<close> has left others there.
\<close>
theorem static_vector_refines_list:
  "map_option sv_abs (run_ops (sv_step d) ops (sv_new N d)) = run_ops (vec_spec d) ops ([], replicate N d) \<and>
   (\<forall>v. run_ops (sv_step d) ops (sv_new N d) = Some v \<longrightarrow> length (sv_array v) = N \<and> sv_size v \<le> N)"
proof -
  have "sv_abs (sv_new N d) = ([], replicate N d)"
    by (simp add: sv_abs_def sv_list_def sv_spare_def sv_new_def)
  then show ?thesis
    using static_vector.run_represents[OF sv_new_result(1)[of N d], of d ops] by (auto simp: sv_invar_def)
qed

lemma static_vector_refines_list_witness:
  "map_option sv_abs (run_ops (sv_step 0) [Push_back 1, Push_back 2, Insert_at 1 (3::nat), Erase_at 0, Resize 3]
     (sv_new 4 0)) = Some ([3, 2, 2], [0])"
  using static_vector_refines_list[of "0::nat" "[Push_back 1, Push_back 2, Insert_at 1 3, Erase_at 0, Resize 3]" 4]
  by (simp add: numeral_eq_Suc)

text \<open>
  \<^verbatim>\<open>erase\<close> leaves the old last element behind the end instead of a default value: growing
  the vector again with \<^verbatim>\<open>resize\<close> brings it back as a duplicate.
\<close>
theorem static_vector_erase_stale:
  assumes "sv_invar N v" "p + 1 < sv_size v"
  shows "\<exists>v' v''. sv_erase d p v = Some (p, v') \<and> sv_resize d (sv_size v) v' = Some v'' \<and>
    sv_list v'' = take p (sv_list v) @ drop (p + 1) (sv_list v) @ [last (sv_list v)]"
proof -
  have len: "length (sv_list v) = sv_size v" "sv_size v \<le> N" "length (sv_array v) = N"
    using assms(1) length_sv_list by (auto simp: sv_invar_def)
  obtain v' where e: "sv_erase d p v = Some (p, v')" and inv: "sv_invar N v'"
    and l: "sv_list v' = vector_erase p (sv_list v)"
    using sv_erase_result[OF assms(1), of p d] len assms(2) by auto
  have v': "v' = \<lparr>sv_array = std_move (p + 1) (sv_size v) p ((sv_array v)[p := d]), sv_size = sv_size v - 1\<rparr>"
    using e by (auto simp: sv_erase_def split: if_splits)
  have "sv_array v' ! (sv_size v - 1) = sv_array v ! (sv_size v - 1)"
    using assms(2) len by (auto simp: v' nth_std_move nth_list_update)
  moreover have "last (sv_list v) = sv_array v ! (sv_size v - 1)"
    using assms len nth_sv_list[OF assms(1), of "sv_size v - 1"] by (subst last_conv_nth) auto
  ultimately have "take 1 (drop (sv_size v - 1) (sv_array v')) = [last (sv_list v)]"
    using assms(2) len v' by (simp add: take_Suc_conv_app_nth)
  then show ?thesis
    using sv_resize_result[OF inv, of "sv_size v" d] e l len assms(2) v'
    by (auto simp: vector_erase_def)
qed

lemma static_vector_erase_stale_witness:
  "map_option sv_list (Option.bind (sv_erase 0 0 \<lparr>sv_array = [1, 2, 3 :: nat], sv_size = 3\<rparr>)
     (\<lambda>(_, v). sv_resize 0 3 v)) = Some [2, 3, 3]"
  using static_vector_erase_stale[of 3 "\<lparr>sv_array = [1, 2, 3 :: nat], sv_size = 3\<rparr>" 0 0]
  by (auto simp: sv_invar_def sv_list_def numeral_3_eq_3)

end
