(* ===== verification/Chunk_List.thy ===== *)
theory Chunk_List
  imports Static_Vector
begin

text \<open>
  \<^verbatim>\<open>source/modules/eagine/container/chunk_list.cpp\<close>: a sequence stored in chunks, static vectors
  of capacity \<open>N\<close>. The only member is \<^verbatim>\<open>_chunks\<close>, so a chunk list is the list of its chunks.
  An iterator holds the index of its chunk, that of the end of the chunks and the index in the
  chunk (\<open>None\<close> for the value-initialised one of the end position). \<open>d\<close> stands for \<^verbatim>\<open>T{}\<close>; a failed
  assertion gives \<open>None\<close>.
\<close>

type_synonym 'a chunk_list = "'a static_vector list"

record cl_iterator =
  iter_c_p :: nat
  iter_c_e :: nat
  iter_e :: "nat option"

section \<open>Iterators\<close>

definition chunk_size :: "'a chunk_list \<Rightarrow> nat \<Rightarrow> nat" where
  "chunk_size cs c = sv_size (cs ! c)"

function cl_adjust :: "'a chunk_list \<Rightarrow> cl_iterator \<Rightarrow> cl_iterator" where
  "cl_adjust cs it =
     (if iter_c_p it < iter_c_e it
      then (if iter_e it \<noteq> Some (chunk_size cs (iter_c_p it)) then it
            else if iter_c_p it + 1 \<noteq> iter_c_e it
                 then cl_adjust cs (it\<lparr>iter_c_p := iter_c_p it + 1, iter_e := Some 0\<rparr>)
                 else it\<lparr>iter_c_p := iter_c_p it + 1, iter_e := None\<rparr>)
      else it)"
  by pat_completeness auto
termination
  by (relation "measure (\<lambda>(cs, it). iter_c_e it - iter_c_p it)") auto

declare cl_adjust.simps [simp del]

definition cl_begin :: "'a chunk_list \<Rightarrow> cl_iterator" where
  "cl_begin cs =
     (if cs = [] then cl_adjust cs \<lparr>iter_c_p = 0, iter_c_e = length cs, iter_e = None\<rparr>
      else cl_adjust cs \<lparr>iter_c_p = 0, iter_c_e = length cs, iter_e = Some 0\<rparr>)"

definition cl_end :: "'a chunk_list \<Rightarrow> cl_iterator" where
  "cl_end cs = \<lparr>iter_c_p = length cs, iter_c_e = length cs, iter_e = None\<rparr>"

definition cl_deref :: "'a chunk_list \<Rightarrow> cl_iterator \<Rightarrow> 'a option" where
  "cl_deref cs it =
     (if iter_c_p it \<noteq> iter_c_e it
      then Option.bind (iter_e it) (\<lambda>e. sv_index e (cs ! iter_c_p it)) else None)"

definition cl_inc :: "'a chunk_list \<Rightarrow> cl_iterator \<Rightarrow> cl_iterator option" where
  "cl_inc cs it =
     (if iter_c_p it \<noteq> iter_c_e it
      then Some (cl_adjust cs (it\<lparr>iter_e := map_option Suc (iter_e it)\<rparr>)) else None)"

text \<open>The loop of \<^verbatim>\<open>operator+=\<close>: \<open>k\<close> counts the chunks that are left, \<open>c\<close> is the current chunk and
  \<open>avl\<close> the number of elements skipped in it.\<close>

fun cl_advance :: "nat \<Rightarrow> 'a chunk_list \<Rightarrow> nat \<Rightarrow> nat \<Rightarrow> nat \<Rightarrow> nat \<times> nat" where
  "cl_advance 0 cs c n avl = (c, n)"
| "cl_advance (Suc k) cs c n avl =
     (let n = n - avl; c = c + 1
      in if c < length cs
         then (let avl = chunk_size cs c in if n \<le> avl then (c, n) else cl_advance k cs c n avl)
         else (c, n))"

definition cl_plus :: "'a chunk_list \<Rightarrow> cl_iterator \<Rightarrow> nat \<Rightarrow> cl_iterator option" where
  "cl_plus cs it n =
     (case iter_e it of None \<Rightarrow> None | Some e \<Rightarrow>
        if iter_c_p it \<noteq> iter_c_e it
        then (let avl = chunk_size cs (iter_c_p it) - e
              in if n \<le> avl then Some (cl_adjust cs (it\<lparr>iter_e := Some (e + n)\<rparr>))
                 else (let (c, m) = cl_advance (iter_c_e it - iter_c_p it) cs (iter_c_p it) n avl
                       in if c \<noteq> iter_c_e it
                          then Some (cl_adjust cs (it\<lparr>iter_c_p := c, iter_e := Some m\<rparr>))
                          else if m = 0 then Some (cl_adjust cs (it\<lparr>iter_c_p := c, iter_e := None\<rparr>))
                          else None))
        else None)"

definition cl_forward_distance :: "'a chunk_list \<Rightarrow> cl_iterator \<Rightarrow> cl_iterator \<Rightarrow> nat" where
  "cl_forward_distance cs f s =
     (let c = iter_c_p f
      in if c = iter_c_e f then 0
         else if c = iter_c_p s then the (iter_e s) - the (iter_e f)
         else (let r = chunk_size cs c - the (iter_e f);
                   r = r + sum_list (map (chunk_size cs) [c + 1..<iter_c_p s])
               in if iter_c_p s \<noteq> iter_c_e f then r + the (iter_e s) else r))"

text \<open>The comparison \<^verbatim>\<open><=\<close> of the tuples of chunk and element iterator.\<close>

definition cl_le :: "cl_iterator \<Rightarrow> cl_iterator \<Rightarrow> bool" where
  "cl_le a b = (iter_c_p a < iter_c_p b \<or>
     (iter_c_p a = iter_c_p b \<and> (case (iter_e a, iter_e b) of (Some x, Some y) \<Rightarrow> x \<le> y | _ \<Rightarrow> True)))"

definition cl_distance :: "'a chunk_list \<Rightarrow> cl_iterator \<Rightarrow> cl_iterator \<Rightarrow> int" where
  "cl_distance cs f s =
     (if cl_le f s then int (cl_forward_distance cs f s) else - int (cl_forward_distance cs s f))"

text \<open>The loops of \<^verbatim>\<open>lower_bound\<close> and \<^verbatim>\<open>upper_bound\<close>; \<open>p\<close> tells whether to go on behind an element.\<close>

function cl_bound_loop :: "('a \<Rightarrow> bool) \<Rightarrow> 'a chunk_list \<Rightarrow> cl_iterator \<Rightarrow> nat \<Rightarrow> cl_iterator option" where
  "cl_bound_loop p cs first cnt =
     (if cnt > 0
      then (let step = cnt div 2
            in case cl_plus cs first step of None \<Rightarrow> None | Some it \<Rightarrow>
               (case cl_deref cs it of None \<Rightarrow> None | Some x \<Rightarrow>
                  if p x
                  then (case cl_inc cs it of None \<Rightarrow> None | Some it' \<Rightarrow>
                          cl_bound_loop p cs it' (cnt - (step + 1)))
                  else cl_bound_loop p cs first step))
      else Some first)"
  by pat_completeness auto
termination
  by (relation "measure (\<lambda>(p, cs, first, cnt). cnt)") auto

declare cl_bound_loop.simps [simp del]

definition cl_lower_bound ::
    "('k \<Rightarrow> 'k \<Rightarrow> bool) \<Rightarrow> ('a \<Rightarrow> 'k) \<Rightarrow> 'a chunk_list \<Rightarrow> cl_iterator \<Rightarrow> cl_iterator \<Rightarrow> 'k \<Rightarrow> cl_iterator option" where
  "cl_lower_bound lt key cs f l k =
     cl_bound_loop (\<lambda>x. lt (key x) k) cs f (nat (cl_distance cs f l))"

definition cl_upper_bound ::
    "('k \<Rightarrow> 'k \<Rightarrow> bool) \<Rightarrow> ('a \<Rightarrow> 'k) \<Rightarrow> 'a chunk_list \<Rightarrow> cl_iterator \<Rightarrow> cl_iterator \<Rightarrow> 'k \<Rightarrow> cl_iterator option" where
  "cl_upper_bound lt key cs f l k =
     cl_bound_loop (\<lambda>x. \<not> lt k (key x)) cs f (nat (cl_distance cs f l))"

section \<open>The container\<close>

definition cl_size :: "'a chunk_list \<Rightarrow> nat" where
  "cl_size cs = fold (\<lambda>chunk total. total + sv_size chunk) cs 0"

definition cl_empty :: "'a chunk_list \<Rightarrow> bool" where
  "cl_empty cs = (cl_size cs = 0)"

definition cl_clear :: "'a \<Rightarrow> 'a chunk_list \<Rightarrow> 'a chunk_list" where
  "cl_clear d cs = map (sv_clear d) cs"

lemma sv_size_resize: "sv_resize d n v = Some v' \<Longrightarrow> sv_size v' = n"
  by (auto simp: sv_resize_def split: if_splits)

function cl_shrink :: "'a \<Rightarrow> nat \<Rightarrow> 'a chunk_list \<Rightarrow> 'a chunk_list option" where
  "cl_shrink d n cs =
     (if n = 0 then Some cs
      else if cl_empty cs \<or> cs = [] then None
      else (let cnk = last cs; dec = min n (sv_size cnk)
            in case sv_resize d (sv_size cnk - dec) cnk of None \<Rightarrow> None
               | Some cnk' \<Rightarrow> cl_shrink d (n - dec)
                   (if sv_empty cnk' then butlast cs else butlast cs @ [cnk'])))"
  by pat_completeness auto
termination
  by (relation "measure (\<lambda>(d, n, cs). n + length cs)")
    (auto simp: sv_empty_def min_def neq_Nil_conv dest: sv_size_resize split: if_splits)

text \<open>\<open>None\<close> where the loop makes no progress, which needs chunks of capacity zero.\<close>

function cl_grow :: "nat \<Rightarrow> 'a \<Rightarrow> nat \<Rightarrow> 'a chunk_list \<Rightarrow> 'a chunk_list option" where
  "cl_grow N d n cs =
     (if n = 0 then Some cs
      else (let cs = (if cs = [] \<or> sv_full (last cs) then cs @ [sv_new N d] else cs);
                cnk = last cs; inc = min n (sv_available cnk)
            in if inc = 0 then None
               else case sv_resize d (sv_size cnk + inc) cnk of None \<Rightarrow> None
               | Some cnk' \<Rightarrow> cl_grow N d (n - inc) (butlast cs @ [cnk'])))"
  by pat_completeness auto
termination
  by (relation "measure (\<lambda>(N, d, n, cs). n)") auto

declare cl_shrink.simps [simp del] cl_grow.simps [simp del]

definition cl_resize :: "nat \<Rightarrow> 'a \<Rightarrow> nat \<Rightarrow> 'a chunk_list \<Rightarrow> 'a chunk_list option" where
  "cl_resize N d n cs =
     (let osz = cl_size cs
      in if osz > n then cl_shrink d (osz - n) cs
         else if n > osz then cl_grow N d (n - osz) cs else Some cs)"

definition cl_push_back :: "nat \<Rightarrow> 'a \<Rightarrow> 'a \<Rightarrow> 'a chunk_list \<Rightarrow> 'a chunk_list option" where
  "cl_push_back N d x cs =
     (let cs = (if cl_empty cs \<or> sv_full (last cs) then cs @ [sv_new N d] else cs)
      in map_option (\<lambda>cnk. butlast cs @ [cnk]) (sv_push_back x (last cs)))"

text \<open>The last chunk among the first \<open>n\<close> that has elements, and the first one from \<open>i\<close> on.\<close>

fun last_nonempty :: "'a chunk_list \<Rightarrow> nat \<Rightarrow> nat option" where
  "last_nonempty cs 0 = None"
| "last_nonempty cs (Suc n) = (if \<not> sv_empty (cs ! n) then Some n else last_nonempty cs n)"

fun first_nonempty :: "'a chunk_list \<Rightarrow> 'a static_vector option" where
  "first_nonempty [] = None"
| "first_nonempty (c # cs) = (if \<not> sv_empty c then Some c else first_nonempty cs)"

definition cl_pop_back :: "'a \<Rightarrow> 'a chunk_list \<Rightarrow> 'a chunk_list option" where
  "cl_pop_back d cs =
     (if cl_empty cs then None
      else Option.bind (last_nonempty cs (length cs))
        (\<lambda>i. map_option (\<lambda>c. cs[i := c]) (sv_pop_back d (cs ! i))))"

fun cl_push_all :: "nat \<Rightarrow> 'a \<Rightarrow> 'a list \<Rightarrow> 'a chunk_list \<Rightarrow> 'a chunk_list option" where
  "cl_push_all N d [] cs = Some cs"
| "cl_push_all N d (x # xs) cs = Option.bind (cl_push_back N d x cs) (cl_push_all N d xs)"

definition cl_assign :: "nat \<Rightarrow> 'a \<Rightarrow> 'a list \<Rightarrow> 'a chunk_list \<Rightarrow> 'a chunk_list option" where
  "cl_assign N d xs cs = cl_push_all N d xs (cl_clear d cs)"

text \<open>\<^verbatim>\<open>get_insert_position\<close>: the position may be in a chunk that was split or appended.\<close>

definition cl_get_insert_position ::
    "nat \<Rightarrow> 'a \<Rightarrow> cl_iterator \<Rightarrow> 'a chunk_list \<Rightarrow> (cl_iterator \<times> 'a chunk_list) option" where
  "cl_get_insert_position N d pos cs =
     (if cs = [] then Some (\<lparr>iter_c_p = 0, iter_c_e = 1, iter_e = Some 0\<rparr>, [sv_new N d])
      else if iter_c_e pos \<noteq> length cs then None
      else if iter_c_p pos = length cs
      then (let cs = (if sv_full (last cs) then cs @ [sv_new N d] else cs)
            in Some (\<lparr>iter_c_p = length cs - 1, iter_c_e = length cs, iter_e = Some (sv_size (last cs))\<rparr>, cs))
      else if sv_full (cs ! iter_c_p pos)
      then (let c = iter_c_p pos; e_p = the (iter_e pos); split = N div 2; old = cs ! c
            in case sv_insert_range 0 (drop split (sv_list old)) (sv_new N d) of None \<Rightarrow> None
               | Some (_, c_n) \<Rightarrow>
                 (case sv_erase_range d split (sv_size old) old of None \<Rightarrow> None
                  | Some (_, c_p) \<Rightarrow>
                    (let cs' = take c cs @ c_p # c_n # drop (c + 1) cs
                     in if e_p \<le> split
                        then Some (\<lparr>iter_c_p = c, iter_c_e = length cs', iter_e = Some e_p\<rparr>, cs')
                        else Some (\<lparr>iter_c_p = c + 1, iter_c_e = length cs', iter_e = Some (e_p - split)\<rparr>, cs'))))
      else Some (pos, cs))"

definition cl_insert ::
    "nat \<Rightarrow> 'a \<Rightarrow> cl_iterator \<Rightarrow> 'a \<Rightarrow> 'a chunk_list \<Rightarrow> (cl_iterator \<times> 'a chunk_list) option" where
  "cl_insert N d pos x cs =
     Option.bind (cl_get_insert_position N d pos cs) (\<lambda>(pos, cs).
       Option.bind (iter_e pos) (\<lambda>e. map_option (\<lambda>(p, chunk).
         let cs = cs[iter_c_p pos := chunk]
         in (cl_adjust cs \<lparr>iter_c_p = iter_c_p pos, iter_c_e = length cs, iter_e = Some p\<rparr>, cs))
         (sv_insert e x (cs ! iter_c_p pos))))"

definition cl_erase ::
    "'a \<Rightarrow> cl_iterator \<Rightarrow> 'a chunk_list \<Rightarrow> (cl_iterator \<times> 'a chunk_list) option" where
  "cl_erase d pos cs =
     (if iter_c_p pos = iter_c_e pos then Some (cl_end cs, cs)
      else Option.bind (iter_e pos) (\<lambda>e. map_option (\<lambda>(p, chunk).
        let cs = cs[iter_c_p pos := chunk]
        in (cl_adjust cs \<lparr>iter_c_p = iter_c_p pos, iter_c_e = length cs, iter_e = Some p\<rparr>, cs))
        (sv_erase d e (cs ! iter_c_p pos))))"

fun cl_erase_if :: "'a \<Rightarrow> ('a \<Rightarrow> bool) \<Rightarrow> 'a chunk_list \<Rightarrow> (nat \<times> 'a chunk_list) option" where
  "cl_erase_if d P [] = Some (0, [])"
| "cl_erase_if d P (chunk # cs) =
     Option.bind (sv_erase_if d P chunk) (\<lambda>(n, chunk').
       map_option (\<lambda>(m, cs'). (n + m, chunk' # cs')) (cl_erase_if d P cs))"

definition cl_front :: "'a chunk_list \<Rightarrow> 'a option" where
  "cl_front cs = (if cl_empty cs then None else Option.bind (first_nonempty cs) sv_front)"

definition cl_back :: "'a chunk_list \<Rightarrow> 'a option" where
  "cl_back cs = (if cl_empty cs then None
     else Option.bind (last_nonempty cs (length cs)) (\<lambda>i. sv_back (cs ! i)))"

section \<open>The list a chunk list represents\<close>

definition cl_list :: "'a chunk_list \<Rightarrow> 'a list" where
  "cl_list cs = concat (map sv_list cs)"

definition cl_invar :: "nat \<Rightarrow> 'a chunk_list \<Rightarrow> bool" where
  "cl_invar N cs = (\<forall>c \<in> set cs. sv_invar N c)"

text \<open>The number of elements in front of chunk \<open>c\<close>, and the position of an iterator.\<close>

definition chunk_offset :: "'a chunk_list \<Rightarrow> nat \<Rightarrow> nat" where
  "chunk_offset cs c = sum_list (map sv_size (take c cs))"

definition cl_pos :: "'a chunk_list \<Rightarrow> cl_iterator \<Rightarrow> nat" where
  "cl_pos cs it = chunk_offset cs (iter_c_p it) + (case iter_e it of None \<Rightarrow> 0 | Some e \<Rightarrow> e)"

definition cl_valid :: "'a chunk_list \<Rightarrow> cl_iterator \<Rightarrow> bool" where
  "cl_valid cs it = (iter_c_e it = length cs \<and>
     (iter_c_p it = length cs \<and> iter_e it = None \<or>
      iter_c_p it < length cs \<and> (\<exists>e. iter_e it = Some e \<and> e < chunk_size cs (iter_c_p it))))"

lemma chunk_offset_0 [simp]: "chunk_offset cs 0 = 0"
  by (simp add: chunk_offset_def)

lemma chunk_offset_Suc: "c < length cs \<Longrightarrow> chunk_offset cs (Suc c) = chunk_offset cs c + chunk_size cs c"
  by (simp add: chunk_offset_def chunk_size_def take_Suc_conv_app_nth)

lemma chunk_offset_mono: "c \<le> c' \<Longrightarrow> chunk_offset cs c \<le> chunk_offset cs c'"
proof -
  assume "c \<le> c'"
  then obtain k where "c' = c + k" by (metis le_Suc_ex)
  then show ?thesis by (simp add: chunk_offset_def take_add)
qed

lemma cl_list_split: "i < length cs \<Longrightarrow> cl_list cs = cl_list (take i cs) @ sv_list (cs ! i) @ cl_list (drop (i + 1) cs)"
  unfolding cl_list_def by (subst id_take_nth_drop[of i cs]) simp_all

lemma cl_list_update:
  "i < length cs \<Longrightarrow> cl_list (cs[i := c]) = cl_list (take i cs) @ sv_list c @ cl_list (drop (i + 1) cs)"
  unfolding cl_list_def by (simp add: upd_conv_take_nth_drop)

lemma cl_invar_nth: "cl_invar N cs \<Longrightarrow> i < length cs \<Longrightarrow> sv_invar N (cs ! i)"
  by (simp add: cl_invar_def)

lemma cl_invar_update: "cl_invar N cs \<Longrightarrow> sv_invar N c \<Longrightarrow> cl_invar N (cs[i := c])"
  unfolding cl_invar_def by (metis insert_iff set_update_subset_insert subset_code(1))

lemma length_sv_list_nth: "cl_invar N cs \<Longrightarrow> i < length cs \<Longrightarrow> length (sv_list (cs ! i)) = chunk_size cs i"
  using length_sv_list[OF cl_invar_nth] by (simp add: chunk_size_def)

lemma length_cl_list_take: "cl_invar N cs \<Longrightarrow> length (cl_list (take c cs)) = chunk_offset cs c"
proof -
  assume inv: "cl_invar N cs"
  have "map (length \<circ> sv_list) (take c cs) = map sv_size (take c cs)"
    using inv length_sv_list by (auto simp: cl_invar_def dest!: in_set_takeD)
  then show ?thesis unfolding cl_list_def length_concat map_map chunk_offset_def by (rule arg_cong)
qed

lemma length_cl_list: "cl_invar N cs \<Longrightarrow> length (cl_list cs) = chunk_offset cs (length cs)"
  using length_cl_list_take[of N cs "length cs"] by simp

lemma chunk_offset_total: "cl_invar N cs \<Longrightarrow> chunk_offset cs c \<le> length (cl_list cs)"
proof (cases "c \<le> length cs")
  case False
  then show "cl_invar N cs \<Longrightarrow> chunk_offset cs c \<le> length (cl_list cs)"
    by (simp add: length_cl_list) (simp add: chunk_offset_def)
qed (simp add: length_cl_list chunk_offset_mono)

lemma nth_cl_list:
  assumes "cl_invar N cs" "c < length cs" "e < chunk_size cs c"
  shows "cl_list cs ! (chunk_offset cs c + e) = sv_list (cs ! c) ! e"
  using assms cl_list_split[OF assms(2)] length_cl_list_take[OF assms(1), of c]
    length_sv_list_nth[OF assms(1,2)]
  by (simp add: nth_append)

section \<open>Iterators are positions\<close>

lemma cl_adjust_valid:
  assumes "iter_c_e it = length cs" "iter_c_p it < length cs" "iter_e it = Some e"
    "e \<le> chunk_size cs (iter_c_p it)"
  shows "cl_valid cs (cl_adjust cs it) \<and> cl_pos cs (cl_adjust cs it) = cl_pos cs it"
  using assms
proof (induction cs it arbitrary: e rule: cl_adjust.induct)
  case (1 cs it)
  have lt: "iter_c_p it < iter_c_e it" using 1 by simp
  show ?case
  proof (cases "e = chunk_size cs (iter_c_p it)")
    case False
    then have "cl_adjust cs it = it" using 1 lt by (subst cl_adjust.simps) simp
    then show ?thesis using 1 False by (auto simp: cl_valid_def)
  next
    case True
    note off = chunk_offset_Suc[OF 1(3)]
    show ?thesis
    proof (cases "iter_c_p it + 1 = iter_c_e it")
      case last: True
      then have "cl_adjust cs it = it\<lparr>iter_c_p := iter_c_p it + 1, iter_e := None\<rparr>"
        using 1 lt True by (subst cl_adjust.simps) simp
      then show ?thesis using 1 True last off by (auto simp: cl_valid_def cl_pos_def)
    next
      case False
      let ?it = "it\<lparr>iter_c_p := iter_c_p it + 1, iter_e := Some 0\<rparr>"
      have eq: "cl_adjust cs it = cl_adjust cs ?it"
        using 1 lt True False by (subst cl_adjust.simps) simp
      have "cl_pos cs ?it = cl_pos cs it" using 1 True off by (simp add: cl_pos_def)
      moreover have "cl_valid cs (cl_adjust cs ?it) \<and> cl_pos cs (cl_adjust cs ?it) = cl_pos cs ?it"
        by (rule 1(1)[OF lt _ _ , of 0]) (use 1 True False lt in auto)
      ultimately show ?thesis using eq by simp
    qed
  qed
qed

lemma cl_valid_end: "cl_valid cs (cl_end cs)"
  by (simp add: cl_valid_def cl_end_def)

lemma cl_pos_end: "cl_invar N cs \<Longrightarrow> cl_pos cs (cl_end cs) = length (cl_list cs)"
  by (simp add: cl_pos_def cl_end_def length_cl_list)

lemma cl_begin_valid: "cl_valid cs (cl_begin cs) \<and> cl_pos cs (cl_begin cs) = 0"
proof (cases "cs = []")
  case True
  then show ?thesis
    by (simp add: cl_begin_def cl_valid_def cl_pos_def cl_adjust.simps)
next
  case False
  then show ?thesis
    using cl_adjust_valid[of "\<lparr>iter_c_p = 0, iter_c_e = length cs, iter_e = Some 0\<rparr>" cs 0]
    by (simp add: cl_begin_def cl_pos_def)
qed

lemma cl_pos_bounds:
  assumes "cl_invar N cs" "cl_valid cs it"
  shows "cl_pos cs it \<le> length (cl_list cs)"
    and "cl_pos cs it < length (cl_list cs) \<longleftrightarrow> iter_c_p it < length cs"
proof -
  have "cl_pos cs it < length (cl_list cs)" if c: "iter_c_p it < length cs"
  proof -
    obtain e where "iter_e it = Some e" "e < chunk_size cs (iter_c_p it)"
      using assms(2) c by (auto simp: cl_valid_def)
    then have "cl_pos cs it < chunk_offset cs (Suc (iter_c_p it))"
      using chunk_offset_Suc[OF c] by (simp add: cl_pos_def)
    also have "\<dots> \<le> length (cl_list cs)" by (rule chunk_offset_total[OF assms(1)])
    finally show ?thesis .
  qed
  moreover have "iter_c_p it = length cs \<Longrightarrow> cl_pos cs it = length (cl_list cs)"
    using assms by (auto simp: cl_valid_def cl_pos_def length_cl_list)
  ultimately show "cl_pos cs it \<le> length (cl_list cs)"
    "cl_pos cs it < length (cl_list cs) \<longleftrightarrow> iter_c_p it < length cs"
    using assms(2) by (auto simp: cl_valid_def)
qed

lemma cl_deref_valid:
  assumes "cl_invar N cs" "cl_valid cs it" "cl_pos cs it < length (cl_list cs)"
  shows "cl_deref cs it = Some (cl_list cs ! cl_pos cs it)"
proof -
  have c: "iter_c_p it < length cs" using cl_pos_bounds[OF assms(1,2)] assms(3) by simp
  then obtain e where e: "iter_e it = Some e" "e < chunk_size cs (iter_c_p it)" "iter_c_e it = length cs"
    using assms(2) by (auto simp: cl_valid_def)
  show ?thesis
    using c e nth_cl_list[OF assms(1) c e(2)] nth_sv_list[OF cl_invar_nth[OF assms(1) c], of e]
    by (simp add: cl_deref_def cl_pos_def sv_index_def chunk_size_def)
qed

lemma cl_inc_valid:
  assumes "cl_invar N cs" "cl_valid cs it" "cl_pos cs it < length (cl_list cs)"
  shows "\<exists>it'. cl_inc cs it = Some it' \<and> cl_valid cs it' \<and> cl_pos cs it' = cl_pos cs it + 1"
proof -
  have c: "iter_c_p it < length cs" using cl_pos_bounds[OF assms(1,2)] assms(3) by simp
  then obtain e where e: "iter_e it = Some e" "e < chunk_size cs (iter_c_p it)" "iter_c_e it = length cs"
    using assms(2) by (auto simp: cl_valid_def)
  show ?thesis
    using c e cl_adjust_valid[of "it\<lparr>iter_e := Some (e + 1)\<rparr>" cs "e + 1"]
    by (auto simp: cl_inc_def cl_pos_def)
qed

lemma cl_advance_result:
  assumes "cl_invar N cs" "c < length cs" "length cs - c \<le> k" "avl < n"
    "chunk_offset cs (Suc c) + (n - avl) \<le> length (cl_list cs)" "cl_advance k cs c n avl = (c', m)"
  shows "c' < length cs \<and> m \<le> chunk_size cs c' \<and>
    chunk_offset cs c' + m = chunk_offset cs (Suc c) + (n - avl)"
  using assms
proof (induction k cs c n avl rule: cl_advance.induct)
  case (2 k cs c n avl)
  have tot: "length (cl_list cs) = chunk_offset cs (length cs)"
    by (rule length_cl_list[OF 2(2)])
  have c1: "c + 1 < length cs"
  proof (rule ccontr)
    assume "\<not> c + 1 < length cs"
    then have "Suc c = length cs" using 2(3) by simp
    then show False using 2(5,6) tot by simp
  qed
  show ?case
  proof (cases "n - avl \<le> chunk_size cs (c + 1)")
    case True
    then show ?thesis using 2(7) c1 by simp
  next
    case False
    have off: "chunk_offset cs (Suc (c + 1)) = chunk_offset cs (Suc c) + chunk_size cs (c + 1)"
      using chunk_offset_Suc[OF c1] by simp
    have "c' < length cs \<and> m \<le> chunk_size cs c' \<and>
        chunk_offset cs c' + m = chunk_offset cs (Suc (c + 1)) + (n - avl - chunk_size cs (c + 1))"
      by (rule 2(1)[OF refl refl c1 refl False 2(2) c1]) (use 2 c1 False off in auto)
    then show ?thesis using off False by simp
  qed
qed simp


lemma cl_plus_valid:
  assumes inv: "cl_invar N cs" and val: "cl_valid cs it" and pos: "cl_pos cs it < length (cl_list cs)"
    and n: "cl_pos cs it + n \<le> length (cl_list cs)"
  shows "\<exists>it'. cl_plus cs it n = Some it' \<and> cl_valid cs it' \<and> cl_pos cs it' = cl_pos cs it + n"
proof -
  let ?c = "iter_c_p it"
  have c: "?c < length cs" using cl_pos_bounds[OF inv val] pos by simp
  then obtain e where e: "iter_e it = Some e" "e < chunk_size cs ?c" "iter_c_e it = length cs"
    using val by (auto simp: cl_valid_def)
  let ?avl = "chunk_size cs ?c - e"
  show ?thesis
  proof (cases "n \<le> ?avl")
    case True
    then show ?thesis
      using c e cl_adjust_valid[of "it\<lparr>iter_e := Some (e + n)\<rparr>" cs "e + n"]
      by (auto simp: cl_plus_def cl_pos_def Let_def)
  next
    case False
    obtain c' m where adv: "cl_advance (iter_c_e it - ?c) cs ?c n ?avl = (c', m)" by fastforce
    have off: "chunk_offset cs (Suc ?c) + (n - ?avl) = cl_pos cs it + n"
      using chunk_offset_Suc[OF c] e False by (simp add: cl_pos_def)
    have res: "c' < length cs \<and> m \<le> chunk_size cs c' \<and> chunk_offset cs c' + m = cl_pos cs it + n"
      using cl_advance_result[OF inv c _ _ _ adv] False n e(3) off by simp
    then show ?thesis
      using c e False adv cl_adjust_valid[of "it\<lparr>iter_c_p := c', iter_e := Some m\<rparr>" cs m]
      by (auto simp: cl_plus_def cl_pos_def Let_def)
  qed
qed

lemma cl_le_pos:
  assumes inv: "cl_invar N cs" and f: "cl_valid cs f" and s: "cl_valid cs s"
  shows "cl_le f s \<longleftrightarrow> cl_pos cs f \<le> cl_pos cs s"
proof -
  have less: "cl_pos cs a < cl_pos cs b" if "cl_valid cs a" "cl_valid cs b" "iter_c_p a < iter_c_p b" for a b
  proof -
    have c: "iter_c_p a < length cs" using that by (auto simp: cl_valid_def)
    then have "cl_pos cs a < chunk_offset cs (Suc (iter_c_p a))"
      using that(1) chunk_offset_Suc[OF c] by (auto simp: cl_valid_def cl_pos_def)
    also have "\<dots> \<le> chunk_offset cs (iter_c_p b)" using that(3) by (intro chunk_offset_mono) simp
    finally show ?thesis by (simp add: cl_pos_def)
  qed
  consider "iter_c_p f < iter_c_p s" | "iter_c_p s < iter_c_p f" | "iter_c_p f = iter_c_p s" by linarith
  then show ?thesis
  proof cases
    case 1 then show ?thesis using less[OF f s] by (simp add: cl_le_def)
  next
    case 2 then show ?thesis using less[OF s f] by (simp add: cl_le_def)
  next
    case 3 then show ?thesis using f s by (auto simp: cl_le_def cl_pos_def cl_valid_def)
  qed
qed

lemma sum_chunk_sizes:
  "c \<le> c' \<Longrightarrow> c' \<le> length cs \<Longrightarrow>
   chunk_offset cs c + sum_list (map (chunk_size cs) [c..<c']) = chunk_offset cs c'"
  by (induction rule: inc_induct) (auto simp: upt_conv_Cons chunk_offset_Suc)

lemma cl_forward_distance_pos:
  assumes inv: "cl_invar N cs" and f: "cl_valid cs f" and s: "cl_valid cs s" and le: "cl_le f s"
  shows "cl_forward_distance cs f s = cl_pos cs s - cl_pos cs f"
proof -
  have ce: "iter_c_e f = length cs" "iter_c_p f \<le> iter_c_p s" "iter_c_p s \<le> length cs"
    using f s le by (auto simp: cl_valid_def cl_le_def)
  consider "iter_c_p f = length cs" | "iter_c_p f < length cs" "iter_c_p f = iter_c_p s"
    | "iter_c_p f < length cs" "iter_c_p f < iter_c_p s"
    using ce by linarith
  then show ?thesis
  proof cases
    case 1
    then show ?thesis using ce f s by (auto simp: cl_forward_distance_def cl_valid_def cl_pos_def)
  next
    case 2
    then show ?thesis using ce f s by (auto simp: cl_forward_distance_def cl_valid_def cl_pos_def)
  next
    case 3
    have sum: "chunk_offset cs (iter_c_p f) + chunk_size cs (iter_c_p f) +
        sum_list (map (chunk_size cs) [iter_c_p f + 1..<iter_c_p s]) = chunk_offset cs (iter_c_p s)"
      using sum_chunk_sizes[of "Suc (iter_c_p f)" "iter_c_p s" cs] chunk_offset_Suc[OF 3(1)] 3 ce(3) by simp
    obtain e where e: "iter_e f = Some e" "e < chunk_size cs (iter_c_p f)"
      using 3 f by (auto simp: cl_valid_def)
    show ?thesis
    proof (cases "iter_c_p s = length cs")
      case True
      then have "iter_e s = None" using s by (auto simp: cl_valid_def)
      then show ?thesis using 3 ce True sum e by (simp add: cl_forward_distance_def cl_pos_def Let_def)
    next
      case False
      then obtain e' where "iter_e s = Some e'" using s by (auto simp: cl_valid_def)
      then show ?thesis using 3 ce False sum e by (simp add: cl_forward_distance_def cl_pos_def Let_def)
    qed
  qed
qed

lemma cl_distance_pos:
  assumes "cl_invar N cs" "cl_valid cs f" "cl_valid cs s"
  shows "cl_distance cs f s = int (cl_pos cs s) - int (cl_pos cs f)"
proof (cases "cl_le f s")
  case True
  then show ?thesis
    using cl_forward_distance_pos[OF assms True] cl_le_pos[OF assms] by (simp add: cl_distance_def)
next
  case False
  then have "cl_le s f" using cl_le_pos[OF assms] cl_le_pos[OF assms(1,3,2)] by simp
  then show ?thesis
    using False cl_forward_distance_pos[OF assms(1,3,2)] cl_le_pos[OF assms(1,3,2)]
    by (simp add: cl_distance_def)
qed

text \<open>Two valid iterators at the same position are equal.\<close>

lemma cl_valid_unique:
  assumes "cl_invar N cs" "cl_valid cs a" "cl_valid cs b" "cl_pos cs a = cl_pos cs b"
  shows "a = b"
proof -
  have "cl_le a b" "cl_le b a" using cl_le_pos assms by (metis order_refl)+
  then have "iter_c_p a = iter_c_p b" by (auto simp: cl_le_def)
  moreover have "iter_e a = iter_e b"
    using assms(2-4) \<open>iter_c_p a = iter_c_p b\<close> by (auto simp: cl_valid_def cl_pos_def)
  ultimately show ?thesis using assms(2,3) by (auto simp: cl_valid_def)
qed

text \<open>The binary search over iterators finds the position it finds over the whole list.\<close>

lemma cl_bound_loop_result:
  assumes "cl_invar N cs" "cl_valid cs first" "cl_pos cs first + cnt \<le> length (cl_list cs)"
  shows "\<exists>it. cl_bound_loop p cs first cnt = Some it \<and> cl_valid cs it \<and>
    cl_pos cs it = part_point p (cl_list cs) (cl_pos cs first) cnt"
  using assms
proof (induction p "cl_list cs" "cl_pos cs first" cnt arbitrary: first rule: part_point.induct)
  case (1 p cnt first)
  show ?case
  proof (cases "cnt = 0")
    case True
    then show ?thesis using 1 by (subst cl_bound_loop.simps, subst part_point.simps) simp
  next
    case False
    let ?s = "cnt div 2"
    have s: "?s < cnt" using False by simp
    have pos: "cl_pos cs first < length (cl_list cs)" "cl_pos cs first + ?s \<le> length (cl_list cs)"
      using 1(5) False by auto
    obtain it where it: "cl_plus cs first ?s = Some it" "cl_valid cs it" "cl_pos cs it = cl_pos cs first + ?s"
      using cl_plus_valid[OF 1(3,4) pos] by blast
    have lt: "cl_pos cs it < length (cl_list cs)" using it(3) 1(5) s by simp
    have dr: "cl_deref cs it = Some (cl_list cs ! (cl_pos cs first + ?s))"
      using cl_deref_valid[OF 1(3) it(2) lt] it(3) by simp
    show ?thesis
    proof (cases "p (cl_list cs ! (cl_pos cs first + ?s))")
      case True
      obtain it' where it': "cl_inc cs it = Some it'" "cl_valid cs it'" "cl_pos cs it' = cl_pos cs first + ?s + 1"
        using cl_inc_valid[OF 1(3) it(2) lt] it(3) by auto
      have "\<exists>r. cl_bound_loop p cs it' (cnt - (?s + 1)) = Some r \<and> cl_valid cs r \<and>
          cl_pos cs r = part_point p (cl_list cs) (cl_pos cs it') (cnt - (?s + 1))"
        by (rule 1(1)[OF False refl True it'(3)[symmetric] 1(3) it'(2)]) (use it'(3) 1(5) s in simp)
      then show ?thesis
        using it it' dr True False
        by (subst cl_bound_loop.simps, subst part_point.simps) (simp add: Let_def)
    next
      case f: False
      have "\<exists>r. cl_bound_loop p cs first ?s = Some r \<and> cl_valid cs r \<and>
          cl_pos cs r = part_point p (cl_list cs) (cl_pos cs first) ?s"
        by (rule 1(2)[OF False refl f refl 1(3,4)]) (use 1(5) s in simp)
      then show ?thesis
        using it dr f False by (subst cl_bound_loop.simps, subst part_point.simps) (simp add: Let_def)
    qed
  qed
qed


section \<open>The operations on the list\<close>

lemma cl_size_length: "cl_invar N cs \<Longrightarrow> cl_size cs = length (cl_list cs)"
proof -
  assume inv: "cl_invar N cs"
  have "fold (\<lambda>chunk total. total + sv_size chunk) ds t = t + sum_list (map sv_size ds)" for ds :: "'a chunk_list" and t
    by (induction ds arbitrary: t) auto
  then show ?thesis by (simp add: cl_size_def length_cl_list[OF inv] chunk_offset_def)
qed

lemma cl_empty_iff: "cl_invar N cs \<Longrightarrow> cl_empty cs \<longleftrightarrow> cl_list cs = []"
  by (simp add: cl_empty_def cl_size_length)

lemma cl_clear_result: "cl_invar N cs \<Longrightarrow> cl_invar N (cl_clear d cs) \<and> cl_list (cl_clear d cs) = []"
  using sv_clear_result[of N _ d] by (auto simp: cl_invar_def cl_list_def cl_clear_def)

lemma cl_list_snoc: "cl_list (cs @ [c]) = cl_list cs @ sv_list c"
  by (simp add: cl_list_def)

lemma cl_invar_append: "cl_invar N (cs @ ds) \<longleftrightarrow> cl_invar N cs \<and> cl_invar N ds"
  by (auto simp: cl_invar_def)

lemma cl_invar_single: "cl_invar N [c] \<longleftrightarrow> sv_invar N c"
  by (simp add: cl_invar_def)

lemmas cl_invar_snoc = cl_invar_append cl_invar_single

lemma sv_new_not_full: "0 < N \<Longrightarrow> \<not> sv_full (sv_new N d)"
  by (simp add: sv_full_def sv_new_def sv_max_size_def)

text \<open>A list of chunks with room in the last one.\<close>

lemma extended_chunks:
  fixes d :: 'a and b :: bool
  assumes "cl_invar N cs" "0 < N"
  defines "cs' \<equiv> if cs = [] \<or> b \<or> sv_full (last cs) then cs @ [sv_new N d] else cs"
  shows "cs' \<noteq> []" "cl_invar N cs'" "cl_list cs' = cl_list cs" "\<not> sv_full (last cs')"
  using assms sv_new_not_full[of N d] by (auto simp: cl_invar_snoc sv_new_result cl_list_snoc)

lemma cl_push_back_result:
  assumes "cl_invar N cs" "0 < N"
  shows "\<exists>cs'. cl_push_back N d x cs = Some cs' \<and> cl_invar N cs' \<and> cl_list cs' = cl_list cs @ [x]"
proof -
  let ?cs = "if cs = [] \<or> cl_empty cs \<or> sv_full (last cs) then cs @ [sv_new N d] else cs"
  note ext = extended_chunks[OF assms, of "cl_empty cs" d]
  have same: "(if cl_empty cs \<or> sv_full (last cs) then cs @ [sv_new N d] else cs) = ?cs"
    using cl_empty_iff[OF assms(1)] by (auto simp: cl_list_def)
  have inv: "sv_invar N (last ?cs)" using ext(1,2) by (auto simp: cl_invar_def)
  then obtain c where c: "sv_push_back x (last ?cs) = Some c"
    using sv_push_back_result(1)[OF inv] sv_full_iff[OF inv] ext(4) by (metis not_None_eq)
  have "cl_invar N (butlast ?cs @ [last ?cs])" "cl_list (butlast ?cs @ [last ?cs]) = cl_list ?cs"
    using ext(2) by (simp_all only: append_butlast_last_id[OF ext(1)])
  then have "cl_invar N (butlast ?cs)" "cl_list ?cs = cl_list (butlast ?cs) @ sv_list (last ?cs)"
    by (simp_all only: cl_invar_append cl_list_snoc)
  then show ?thesis
    using sv_push_back_result(2)[OF inv c] ext(3) c
    by (simp add: cl_push_back_def Let_def same cl_invar_snoc cl_list_snoc)
qed

lemma last_nonempty_result:
  assumes "cl_invar N cs" "n \<le> length cs" "cl_list (take n cs) \<noteq> []"
  shows "\<exists>i<n. last_nonempty cs n = Some i \<and> sv_list (cs ! i) \<noteq> [] \<and>
    cl_list (take n cs) = cl_list (take i cs) @ sv_list (cs ! i)"
  using assms
proof (induction cs n rule: last_nonempty.induct)
  case (2 cs n)
  then have t: "cl_list (take (Suc n) cs) = cl_list (take n cs) @ sv_list (cs ! n)"
    by (simp add: take_Suc_conv_app_nth cl_list_snoc)
  have emp: "sv_empty (cs ! n) \<longleftrightarrow> sv_list (cs ! n) = []"
    by (rule sv_empty_iff[OF cl_invar_nth[OF 2(2)]]) (use 2(3) in simp)
  show ?case
  proof (cases "sv_empty (cs ! n)")
    case True
    then obtain i where "i < n" "last_nonempty cs n = Some i" "sv_list (cs ! i) \<noteq> []"
      "cl_list (take n cs) = cl_list (take i cs) @ sv_list (cs ! i)"
      using 2 t emp by auto
    then show ?thesis using True t emp by (intro exI[of _ i]) simp
  next
    case False
    then show ?thesis using t emp by (intro exI[of _ n]) simp
  qed
qed (simp add: cl_list_def)

lemma cl_pop_back_result:
  assumes "cl_invar N cs" "cl_list cs \<noteq> []"
  shows "\<exists>cs'. cl_pop_back d cs = Some cs' \<and> cl_invar N cs' \<and> cl_list cs' = butlast (cl_list cs)"
    and "cl_back cs = Some (last (cl_list cs))"
proof -
  obtain i where i: "i < length cs" "last_nonempty cs (length cs) = Some i" "sv_list (cs ! i) \<noteq> []"
    and l: "cl_list cs = cl_list (take i cs) @ sv_list (cs ! i)"
    using last_nonempty_result[OF assms(1), of "length cs"] assms(2) by auto
  note inv = cl_invar_nth[OF assms(1) i(1)]
  have rest: "cl_list (drop (i + 1) cs) = []" using l cl_list_split[OF i(1)] by simp
  obtain c where c: "sv_pop_back d (cs ! i) = Some c" "sv_invar N c" "sv_list c = butlast (sv_list (cs ! i))"
    using sv_pop_back_result[OF inv i(3), of d] by blast
  then show "\<exists>cs'. cl_pop_back d cs = Some cs' \<and> cl_invar N cs' \<and> cl_list cs' = butlast (cl_list cs)"
    using assms i l rest cl_empty_iff[OF assms(1)]
    by (auto simp: cl_pop_back_def cl_invar_update cl_list_update butlast_append)
  have "sv_back (cs ! i) = Some (last (sv_list (cs ! i)))"
    using i(3) sv_empty_iff[OF inv] nth_sv_list[OF inv] length_sv_list[OF inv]
    by (auto simp: sv_back_def sv_empty_def last_conv_nth)
  then show "cl_back cs = Some (last (cl_list cs))"
    using i l assms(2) cl_empty_iff[OF assms(1)] by (simp add: cl_back_def)
qed

lemma cl_front_result: "cl_invar N cs \<Longrightarrow> cl_list cs \<noteq> [] \<Longrightarrow> cl_front cs = Some (hd (cl_list cs))"
proof -
  assume inv: "cl_invar N cs" and ne: "cl_list cs \<noteq> []"
  have "Option.bind (first_nonempty cs) sv_front = Some (hd (cl_list cs))"
    using inv ne
  proof (induction cs)
    case (Cons c cs)
    then have c: "sv_invar N c" "cl_invar N cs" by (auto simp: cl_invar_def)
    have e: "cl_list (c # cs) = sv_list c @ cl_list cs" by (simp add: cl_list_def)
    show ?case
    proof (cases "sv_empty c")
      case True
      then show ?thesis using Cons c e sv_empty_iff[OF c(1)] by simp
    next
      case False
      then have "sv_list c \<noteq> []" using sv_empty_iff[OF c(1)] by simp
      then show ?thesis
        using False e nth_sv_list[OF c(1), of 0] by (simp add: sv_front_def sv_empty_def hd_conv_nth nth_append)
    qed
  qed (simp add: cl_list_def)
  then show ?thesis using ne cl_empty_iff[OF inv] by (simp add: cl_front_def)
qed

lemma cl_erase_if_result:
  "cl_invar N cs \<Longrightarrow> \<exists>cs'. cl_erase_if d P cs = Some (length (filter P (cl_list cs)), cs') \<and>
     cl_invar N cs' \<and> cl_list cs' = filter (\<lambda>x. \<not> P x) (cl_list cs)"
proof (induction cs)
  case (Cons c cs)
  then have c: "sv_invar N c" "cl_invar N cs" by (auto simp: cl_invar_def)
  obtain c' where "sv_erase_if d P c = Some (length (filter P (sv_list c)), c')" "sv_invar N c'"
    "sv_list c' = filter (\<lambda>x. \<not> P x) (sv_list c)"
    using sv_erase_if_result[OF c(1), of d P] by blast
  moreover obtain cs' where "cl_erase_if d P cs = Some (length (filter P (cl_list cs)), cs')"
    "cl_invar N cs'" "cl_list cs' = filter (\<lambda>x. \<not> P x) (cl_list cs)"
    using Cons.IH[OF c(2)] by blast
  ultimately show ?case by (simp add: cl_list_def cl_invar_def)
qed (simp add: cl_list_def cl_invar_def)

lemma cl_push_all_result:
  assumes "cl_invar N cs" "0 < N"
  shows "\<exists>cs'. cl_push_all N d xs cs = Some cs' \<and> cl_invar N cs' \<and> cl_list cs' = cl_list cs @ xs"
  using assms
proof (induction xs arbitrary: cs)
  case (Cons x xs)
  obtain cs' where "cl_push_back N d x cs = Some cs'" "cl_invar N cs'" "cl_list cs' = cl_list cs @ [x]"
    using cl_push_back_result[OF Cons.prems] by blast
  then show ?case using Cons.IH[of cs'] Cons.prems(2) by simp
qed simp

lemma cl_assign_result:
  "cl_invar N cs \<Longrightarrow> 0 < N \<Longrightarrow>
   \<exists>cs'. cl_assign N d xs cs = Some cs' \<and> cl_invar N cs' \<and> cl_list cs' = xs"
  using cl_push_all_result[of N "cl_clear d cs" d xs] cl_clear_result[of N cs d] by (simp add: cl_assign_def)


lemma chunk_offset_update: "c \<le> i \<Longrightarrow> chunk_offset (cs[i := v]) c = chunk_offset cs c"
  by (simp add: chunk_offset_def)

lemma vector_insert_mid:
  "e \<le> length B \<Longrightarrow> vector_insert (length A + e) x (A @ B @ C) = A @ vector_insert e x B @ C"
  by (simp add: vector_insert_def)

lemma vector_erase_mid:
  "e < length B \<Longrightarrow> vector_erase (length A + e) (A @ B @ C) = A @ vector_erase e B @ C"
  by (simp add: vector_erase_def)

text \<open>What \<^verbatim>\<open>get_insert_position\<close> establishes: a chunk with room, the same list and position.\<close>

definition insert_ready :: "nat \<Rightarrow> 'a chunk_list \<Rightarrow> cl_iterator \<Rightarrow> 'a chunk_list \<Rightarrow> cl_iterator \<Rightarrow> bool" where
  "insert_ready N cs pos cs' pos' = (cl_invar N cs' \<and> cl_list cs' = cl_list cs \<and>
     cl_pos cs' pos' = cl_pos cs pos \<and> iter_c_p pos' < length cs' \<and> \<not> sv_full (cs' ! iter_c_p pos') \<and>
     (\<exists>e. iter_e pos' = Some e \<and> e \<le> chunk_size cs' (iter_c_p pos')))"

lemma split_chunk:
  assumes "sv_invar N old" "sv_full old" "2 \<le> N"
  shows "\<exists>c_n c_p. sv_insert_range 0 (drop (N div 2) (sv_list old)) (sv_new N d) = Some (0, c_n) \<and>
    sv_erase_range d (N div 2) (sv_size old) old = Some (N div 2, c_p) \<and>
    sv_invar N c_n \<and> sv_invar N c_p \<and> sv_list c_p = take (N div 2) (sv_list old) \<and>
    sv_list c_n = drop (N div 2) (sv_list old)"
proof -
  have len: "length (sv_list old) = N" "sv_size old = N"
    using assms sv_full_iff length_sv_list by metis+
  obtain c_n where "sv_insert_range 0 (drop (N div 2) (sv_list old)) (sv_new N d) = Some (0, c_n)"
    "sv_invar N c_n" "sv_list c_n = drop (N div 2) (sv_list old)"
    using sv_insert_range_result[OF sv_new_result(1)[of N d], of "drop (N div 2) (sv_list old)" 0] len
    by (auto simp: sv_new_result)
  moreover obtain c_p where "sv_erase_range d (N div 2) (sv_size old) old = Some (N div 2, c_p)"
    "sv_invar N c_p" "sv_list c_p = take (N div 2) (sv_list old)"
    using sv_erase_range_result[OF assms(1), of "N div 2" N d] len
    by (auto simp: vector_erase_range_def)
  ultimately show ?thesis by blast
qed

lemma get_insert_position_split:
  assumes inv: "cl_invar N cs" and N: "2 \<le> N" and c: "iter_c_p pos < length cs"
    and pos: "iter_c_e pos = length cs" "iter_e pos = Some e" "e < chunk_size cs (iter_c_p pos)"
    and full: "sv_full (cs ! iter_c_p pos)"
  shows "\<exists>pos' cs'. cl_get_insert_position N d pos cs = Some (pos', cs') \<and> insert_ready N cs pos cs' pos'"
proof -
  let ?c = "iter_c_p pos" and ?s = "N div 2"
  let ?old = "cs ! ?c"
  have old: "sv_invar N ?old" by (rule cl_invar_nth[OF inv c])
  have len: "length (sv_list ?old) = N" using sv_full_iff[OF old] full by simp
  obtain c_n c_p where ch: "sv_insert_range 0 (drop ?s (sv_list ?old)) (sv_new N d) = Some (0, c_n)"
    "sv_erase_range d ?s (sv_size ?old) ?old = Some (?s, c_p)" "sv_invar N c_n" "sv_invar N c_p"
    "sv_list c_p = take ?s (sv_list ?old)" "sv_list c_n = drop ?s (sv_list ?old)"
    using split_chunk[OF old full N] by blast
  have sz: "sv_size c_p = ?s" "sv_size c_n = N - ?s" "?s < N" "0 < ?s" "e < N"
    using ch(5,6) len length_sv_list[OF ch(3)] length_sv_list[OF ch(4)] N pos(3)
      length_sv_list_nth[OF inv c] by auto
  let ?cs = "take ?c cs @ c_p # c_n # drop (?c + 1) cs"
  have inv': "cl_invar N ?cs"
    using inv ch(3,4) by (auto simp: cl_invar_def dest: in_set_takeD in_set_dropD)
  have list': "cl_list ?cs = cl_list cs"
    using cl_list_split[OF c] ch(5,6) by (simp add: cl_list_def)
  have nth: "?cs ! ?c = c_p" "?cs ! (?c + 1) = c_n" "length ?cs = length cs + 1"
    using c by (auto simp: nth_append)
  have off: "chunk_offset ?cs ?c = chunk_offset cs ?c" "chunk_offset ?cs (?c + 1) = chunk_offset cs ?c + ?s"
    using c sz(1) by (simp_all add: chunk_offset_def)
  have nf: "\<not> sv_full c_p" "\<not> sv_full c_n"
    using ch(3,4) sz by (auto simp: sv_full_def sv_max_size_def sv_invar_def)
  have ne: "cs \<noteq> []" "?c \<noteq> length cs" using c by auto
  show ?thesis
  proof (cases "e \<le> ?s")
    case True
    then show ?thesis
      using ne pos full ch(1,2) inv' list' nth off nf sz c
      by (simp add: cl_get_insert_position_def insert_ready_def Let_def cl_pos_def chunk_size_def)
  next
    case False
    then show ?thesis
      using ne pos full ch(1,2) inv' list' nth off nf sz c
      by (simp add: cl_get_insert_position_def insert_ready_def Let_def cl_pos_def chunk_size_def)
  qed
qed

lemma cl_get_insert_position_result:
  assumes inv: "cl_invar N cs" and N: "2 \<le> N" and val: "cl_valid cs pos"
  shows "\<exists>pos' cs'. cl_get_insert_position N d pos cs = Some (pos', cs') \<and> insert_ready N cs pos cs' pos'"
proof -
  consider "cs = []" | "cs \<noteq> []" "iter_c_p pos = length cs"
    | e where "iter_c_p pos < length cs" "iter_e pos = Some e" "e < chunk_size cs (iter_c_p pos)"
    using val by (auto simp: cl_valid_def)
  then show ?thesis
  proof cases
    case 1
    then have "cl_pos cs pos = 0" using val by (simp add: cl_valid_def cl_pos_def)
    then show ?thesis
      using 1 N sv_new_not_full[of N d] sv_new_result(1,2)[of N d]
      by (simp add: cl_get_insert_position_def insert_ready_def cl_invar_single cl_pos_def cl_list_def)
  next
    case 2
    let ?cs = "if cs = [] \<or> False \<or> sv_full (last cs) then cs @ [sv_new N d] else cs"
    have "0 < N" using N by simp
    note ext = extended_chunks[OF inv this, of False d]
    let ?i = "length ?cs - 1"
    have i: "?i < length ?cs" "?cs ! ?i = last ?cs" using ext(1) by (auto simp: last_conv_nth)
    have "chunk_offset ?cs ?i + chunk_size ?cs ?i = length (cl_list ?cs)"
      using chunk_offset_Suc[OF i(1)] length_cl_list[OF ext(2)] ext(1) by auto
    moreover have "cl_pos cs pos = length (cl_list cs)"
      using 2 val length_cl_list[OF inv] by (auto simp: cl_valid_def cl_pos_def)
    ultimately show ?thesis
      using 2 val ext i
      by (auto simp: cl_get_insert_position_def insert_ready_def cl_valid_def cl_pos_def chunk_size_def Let_def)
  next
    case 3
    have ce: "iter_c_e pos = length cs" "cs \<noteq> []" "iter_c_p pos \<noteq> length cs"
      using val 3 by (auto simp: cl_valid_def)
    show ?thesis
    proof (cases "sv_full (cs ! iter_c_p pos)")
      case True
      then show ?thesis using get_insert_position_split[OF inv N 3(1) ce(1) 3(2,3)] by blast
    next
      case False
      then have "cl_get_insert_position N d pos cs = Some (pos, cs)"
        using ce by (simp add: cl_get_insert_position_def)
      then show ?thesis using 3 inv False by (simp add: insert_ready_def)
    qed
  qed
qed

text \<open>After a change in chunk \<open>c\<close> the iterator at \<open>e\<close> in it is adjusted.\<close>

lemma cl_update_position:
  assumes "c < length cs" "e \<le> sv_size v"
  shows "cl_valid (cs[c := v]) (cl_adjust (cs[c := v]) \<lparr>iter_c_p = c, iter_c_e = length cs, iter_e = Some e\<rparr>)"
    and "cl_pos (cs[c := v]) (cl_adjust (cs[c := v]) \<lparr>iter_c_p = c, iter_c_e = length cs, iter_e = Some e\<rparr>) =
      chunk_offset cs c + e"
  using cl_adjust_valid[of "\<lparr>iter_c_p = c, iter_c_e = length cs, iter_e = Some e\<rparr>" "cs[c := v]" e] assms
  by (simp_all add: chunk_size_def cl_pos_def chunk_offset_update)

lemma cl_insert_result:
  assumes inv: "cl_invar N cs" and N: "2 \<le> N" and val: "cl_valid cs pos"
  shows "\<exists>it cs'. cl_insert N d pos x cs = Some (it, cs') \<and> cl_invar N cs' \<and>
    cl_list cs' = vector_insert (cl_pos cs pos) x (cl_list cs) \<and>
    cl_valid cs' it \<and> cl_pos cs' it = cl_pos cs pos"
proof -
  obtain p cs1 where g: "cl_get_insert_position N d pos cs = Some (p, cs1)" "insert_ready N cs pos cs1 p"
    using cl_get_insert_position_result[OF assms] by blast
  then obtain e where e: "iter_e p = Some e" "e \<le> chunk_size cs1 (iter_c_p p)"
    and c: "iter_c_p p < length cs1" and inv1: "cl_invar N cs1" and l1: "cl_list cs1 = cl_list cs"
    and nf: "\<not> sv_full (cs1 ! iter_c_p p)" and ps: "cl_pos cs1 p = cl_pos cs pos"
    by (auto simp: insert_ready_def)
  let ?c = "iter_c_p p"
  note ci = cl_invar_nth[OF inv1 c] and cl = length_sv_list_nth[OF inv1 c]
  have room: "length (sv_list (cs1 ! ?c)) < N"
    using nf sv_full_iff[OF ci] cl ci by (auto simp: sv_invar_def chunk_size_def)
  obtain v where v: "sv_insert e x (cs1 ! ?c) = Some (e, v)" "sv_invar N v"
    "sv_list v = vector_insert e x (sv_list (cs1 ! ?c))"
    using sv_insert_result[OF ci room, of e x d] e(2) cl by auto
  have off: "length (cl_list (take ?c cs1)) = chunk_offset cs1 ?c" by (rule length_cl_list_take[OF inv1])
  have "cl_list (cs1[?c := v]) = vector_insert (chunk_offset cs1 ?c + e) x (cl_list cs1)"
    using vector_insert_mid[of e "sv_list (cs1 ! ?c)" "cl_list (take ?c cs1)" x "cl_list (drop (?c + 1) cs1)"]
      e(2) cl off by (simp add: cl_list_update[OF c] cl_list_split[OF c] v(3))
  moreover have "chunk_offset cs1 ?c + e = cl_pos cs pos" using ps e(1) by (simp add: cl_pos_def)
  moreover have "e \<le> sv_size v"
    using length_sv_list[OF v(2)] v(3) e(2) cl by (simp add: length_vector_ops)
  ultimately show ?thesis
    using cl_update_position[OF c, of e v] g(1) e(1) v(1,2) cl_invar_update[OF inv1 v(2)] l1
    by (simp add: cl_insert_def Let_def)
qed

lemma cl_erase_result:
  assumes inv: "cl_invar N cs" and val: "cl_valid cs pos" and p: "cl_pos cs pos < length (cl_list cs)"
  shows "\<exists>it cs'. cl_erase d pos cs = Some (it, cs') \<and> cl_invar N cs' \<and>
    cl_list cs' = vector_erase (cl_pos cs pos) (cl_list cs) \<and>
    cl_valid cs' it \<and> cl_pos cs' it = cl_pos cs pos"
proof -
  let ?c = "iter_c_p pos"
  have c: "?c < length cs" using cl_pos_bounds[OF inv val] p by simp
  then obtain e where e: "iter_e pos = Some e" "e < chunk_size cs ?c" and ne: "?c \<noteq> iter_c_e pos"
    using val by (auto simp: cl_valid_def)
  note ci = cl_invar_nth[OF inv c] and cl = length_sv_list_nth[OF inv c]
  obtain v where v: "sv_erase d e (cs ! ?c) = Some (e, v)" "sv_invar N v"
    "sv_list v = vector_erase e (sv_list (cs ! ?c))"
    using sv_erase_result[OF ci, of e d] e(2) cl by auto
  have off: "length (cl_list (take ?c cs)) = chunk_offset cs ?c" by (rule length_cl_list_take[OF inv])
  have "cl_list (cs[?c := v]) = vector_erase (chunk_offset cs ?c + e) (cl_list cs)"
    using vector_erase_mid[of e "sv_list (cs ! ?c)" "cl_list (take ?c cs)" "cl_list (drop (?c + 1) cs)"]
      e(2) cl off by (simp add: cl_list_update[OF c] cl_list_split[OF c] v(3))
  moreover have "e \<le> sv_size v"
    using length_sv_list[OF v(2)] v(3) e(2) cl by (simp add: length_vector_ops)
  ultimately show ?thesis
    using cl_update_position[OF c, of e v] e(1) v(1,2) cl_invar_update[OF inv v(2)] ne
    by (simp add: cl_erase_def cl_pos_def Let_def)
qed


lemma cl_butlast:
  assumes "cl_invar N cs" "cs \<noteq> []"
  shows "cl_invar N (butlast cs)" "sv_invar N (last cs)" "cl_list cs = cl_list (butlast cs) @ sv_list (last cs)"
proof -
  have "cl_invar N (butlast cs @ [last cs])" "cl_list (butlast cs @ [last cs]) = cl_list cs"
    using assms(1) by (simp_all only: append_butlast_last_id[OF assms(2)])
  then show "cl_invar N (butlast cs)" "sv_invar N (last cs)" "cl_list cs = cl_list (butlast cs) @ sv_list (last cs)"
    by (simp_all only: cl_invar_snoc cl_list_snoc)
qed

lemma take_twice:
  assumes "a \<le> n" "n \<le> length xs"
  shows "take (length (take (length xs - a) xs) - (n - a)) (take (length xs - a) xs) = take (length xs - n) xs"
proof -
  have "length xs - a - (n - a) = length xs - n" "length xs - n \<le> length xs - a" using assms by auto
  then show ?thesis by (simp add: min_absorb1)
qed

lemma cl_shrink_result:
  "cl_invar N cs \<Longrightarrow> n \<le> length (cl_list cs) \<Longrightarrow>
   \<exists>cs'. cl_shrink d n cs = Some cs' \<and> cl_invar N cs' \<and> cl_list cs' = take (length (cl_list cs) - n) (cl_list cs)"
proof (induction d n cs rule: cl_shrink.induct)
  case (1 d n cs)
  show ?case
  proof (cases "n = 0")
    case True then show ?thesis using 1 by (simp add: cl_shrink.simps)
  next
    case False
    then have ne: "cl_list cs \<noteq> []" using 1(3) by (cases "cl_list cs") auto
    then have ne: "cl_list cs \<noteq> []" "cs \<noteq> []" by (auto simp: cl_list_def)
    have emp: "\<not> (cl_empty cs \<or> cs = [])" using cl_empty_iff[OF 1(2)] ne by simp
    note bl = cl_butlast[OF 1(2) ne(2)]
    let ?c = "last cs" and ?b = "butlast cs"
    let ?dec = "min n (sv_size ?c)"
    have len: "length (sv_list ?c) = sv_size ?c" by (rule length_sv_list[OF bl(2)])
    have "sv_size ?c - ?dec \<le> N" using bl(2) by (auto simp: sv_invar_def)
    then obtain c' where c': "sv_resize d (sv_size ?c - ?dec) ?c = Some c'" "sv_invar N c'"
      "sv_list c' = take (sv_size ?c - ?dec) (sv_list ?c)"
      using sv_resize_result[OF bl(2), of "sv_size ?c - ?dec" d] by auto
    let ?cs = "if sv_empty c' then ?b else ?b @ [c']"
    have "sv_empty c' \<longleftrightarrow> sv_list c' = []" by (rule sv_empty_iff[OF c'(2)])
    then have l': "cl_list ?cs = cl_list ?b @ sv_list c'" by (simp add: cl_list_snoc)
    have inv': "cl_invar N ?cs" using bl(1) c'(2) by (simp add: cl_invar_snoc)
    have keep: "cl_list ?cs = take (length (cl_list cs) - ?dec) (cl_list cs)"
      unfolding l' c'(3) bl(3) using len by simp
    have "\<exists>cs'. cl_shrink d (n - ?dec) ?cs = Some cs' \<and> cl_invar N cs' \<and>
        cl_list cs' = take (length (cl_list ?cs) - (n - ?dec)) (cl_list ?cs)"
      by (rule 1(1)[OF False emp refl refl c'(1) inv']) (use 1(3) keep in simp)
    moreover have "take (length (cl_list ?cs) - (n - ?dec)) (cl_list ?cs) = take (length (cl_list cs) - n) (cl_list cs)"
      unfolding keep by (rule take_twice) (use 1(3) in auto)
    ultimately show ?thesis
      using False emp c'(1) by (subst cl_shrink.simps) (simp add: Let_def del: cl_shrink.simps)
  qed
qed

lemma cl_grow_result:
  "cl_invar N cs \<Longrightarrow> 0 < N \<Longrightarrow>
   \<exists>cs' ys. cl_grow N d n cs = Some cs' \<and> cl_invar N cs' \<and> cl_list cs' = cl_list cs @ ys \<and> length ys = n"
proof (induction N d n cs rule: cl_grow.induct)
  case (1 N d n cs)
  show ?case
  proof (cases "n = 0")
    case True then show ?thesis using 1 by (simp add: cl_grow.simps)
  next
    case False
    let ?cs = "if cs = [] \<or> sv_full (last cs) then cs @ [sv_new N d] else cs"
    note ext = extended_chunks[OF 1(2,3), of False d, simplified]
    note bl = cl_butlast[OF ext(2,1)]
    let ?c = "last ?cs" and ?inc = "min n (sv_available (last ?cs))"
    have room: "sv_size ?c < N" "sv_max_size ?c = N"
      using bl(2) ext(4) by (auto simp: sv_full_def sv_max_size_def sv_invar_def)
    then have inc: "?inc \<noteq> 0" "sv_size ?c + ?inc \<le> N" using False by (auto simp: sv_available_def)
    obtain c' where c': "sv_resize d (sv_size ?c + ?inc) ?c = Some c'" "sv_invar N c'"
      "sv_list c' = sv_list ?c @ take ?inc (drop (sv_size ?c) (sv_array ?c))"
      using sv_resize_result[OF bl(2) inc(2), of d] inc(1) by auto
    have len: "length (take ?inc (drop (sv_size ?c) (sv_array ?c))) = ?inc"
      using bl(2) room inc by (auto simp: sv_invar_def)
    have inv': "cl_invar N (butlast ?cs @ [c'])" using bl(1) c'(2) by (simp add: cl_invar_snoc)
    obtain cs' ys where r: "cl_grow N d (n - ?inc) (butlast ?cs @ [c']) = Some cs'" "cl_invar N cs'"
      "cl_list cs' = cl_list (butlast ?cs @ [c']) @ ys" "length ys = n - ?inc"
      using 1(1)[OF False refl refl refl inc(1) c'(1) inv' 1(3)] by blast
    have l: "cl_list (butlast ?cs @ [c']) = cl_list cs @ take ?inc (drop (sv_size ?c) (sv_array ?c))"
      using bl(3) ext(3) c'(3) by (simp add: cl_list_snoc)
    have step: "cl_grow N d n cs = cl_grow N d (n - ?inc) (butlast ?cs @ [c'])"
      by (subst cl_grow.simps) (simp only: Let_def False inc(1) c'(1) if_False option.case)
    show ?thesis
      unfolding step using r l len
      by (intro exI[of _ cs'] exI[of _ "take ?inc (drop (sv_size ?c) (sv_array ?c)) @ ys"]) simp
  qed
qed

lemma cl_resize_result:
  assumes "cl_invar N cs" "0 < N"
  shows "\<exists>cs'. cl_resize N d n cs = Some cs' \<and> cl_invar N cs' \<and> length (cl_list cs') = n \<and>
    take n (cl_list cs) = take (length (cl_list cs)) (cl_list cs')"
proof -
  have sz: "cl_size cs = length (cl_list cs)" by (rule cl_size_length[OF assms(1)])
  consider "n < cl_size cs" | "n = cl_size cs" | "cl_size cs < n" by linarith
  then show ?thesis
  proof cases
    case 1
    then show ?thesis
      using cl_shrink_result[OF assms(1), of "cl_size cs - n" d] sz by (auto simp: cl_resize_def Let_def)
  next
    case 2 then show ?thesis using assms sz by (simp add: cl_resize_def Let_def)
  next
    case 3
    then show ?thesis
      using cl_grow_result[OF assms, of d "n - cl_size cs"] sz by (auto simp: cl_resize_def Let_def)
  qed
qed

section \<open>Properties\<close>

text \<open>The iterator \<open>n\<close> increments behind \<^verbatim>\<open>begin()\<close>.\<close>

primrec cl_nth_iter :: "'a chunk_list \<Rightarrow> nat \<Rightarrow> cl_iterator option" where
  "cl_nth_iter cs 0 = Some (cl_begin cs)"
| "cl_nth_iter cs (Suc n) = Option.bind (cl_nth_iter cs n) (cl_inc cs)"

lemma cl_nth_iter_result:
  assumes "cl_invar N cs"
  shows "if n \<le> length (cl_list cs) then \<exists>it. cl_nth_iter cs n = Some it \<and> cl_valid cs it \<and> cl_pos cs it = n
    else cl_nth_iter cs n = None"
proof (induction n)
  case 0 then show ?case using cl_begin_valid[of cs] by simp
next
  case (Suc n)
  show ?case
  proof (cases "n < length (cl_list cs)")
    case True
    then obtain it where "cl_nth_iter cs n = Some it" "cl_valid cs it" "cl_pos cs it = n" using Suc by auto
    then show ?thesis using True cl_inc_valid[OF assms, of it] by auto
  next
    case False
    have "cl_inc cs it = None" if it: "cl_valid cs it" "cl_pos cs it = n" for it
    proof -
      have "iter_c_p it = length cs" "iter_c_e it = length cs"
        using cl_pos_bounds[OF assms it(1)] it False by (auto simp: cl_valid_def)
      then show ?thesis by (simp add: cl_inc_def)
    qed
    then show ?thesis using Suc False by (auto split: if_splits)
  qed
qed

datatype 'a cl_op = CL_push 'a | CL_pop | CL_insert nat 'a | CL_erase nat | CL_erase_if "'a \<Rightarrow> bool"
  | CL_clear | CL_assign "'a list" | CL_resize nat

primrec cl_step :: "nat \<Rightarrow> 'a \<Rightarrow> 'a cl_op \<Rightarrow> 'a chunk_list \<Rightarrow> 'a chunk_list option" where
  "cl_step N d (CL_push x) cs = cl_push_back N d x cs"
| "cl_step N d CL_pop cs = cl_pop_back d cs"
| "cl_step N d (CL_insert p x) cs =
     Option.bind (cl_nth_iter cs p) (\<lambda>it. map_option snd (cl_insert N d it x cs))"
| "cl_step N d (CL_erase p) cs = Option.bind (cl_nth_iter cs p) (\<lambda>it. map_option snd (cl_erase d it cs))"
| "cl_step N d (CL_erase_if P) cs = map_option snd (cl_erase_if d P cs)"
| "cl_step N d CL_clear cs = Some (cl_clear d cs)"
| "cl_step N d (CL_assign xs) cs = cl_assign N d xs cs"
| "cl_step N d (CL_resize n) cs = cl_resize N d n cs"

text \<open>What the operations do to the list. The elements that \<^verbatim>\<open>resize\<close> adds are not specified: the
  chunks do not reset the elements they give up.\<close>

primrec cl_allows :: "'a cl_op \<Rightarrow> 'a list \<Rightarrow> 'a list option \<Rightarrow> bool" where
  "cl_allows (CL_push x) xs r = (r = Some (xs @ [x]))"
| "cl_allows CL_pop xs r = (r = (if xs \<noteq> [] then Some (butlast xs) else None))"
| "cl_allows (CL_insert p x) xs r = (r = (if p \<le> length xs then Some (take p xs @ x # drop p xs) else None))"
| "cl_allows (CL_erase p) xs r = (r = (if p \<le> length xs then Some (take p xs @ drop (p + 1) xs) else None))"
| "cl_allows (CL_erase_if P) xs r = (r = Some (filter (\<lambda>x. \<not> P x) xs))"
| "cl_allows CL_clear xs r = (r = Some [])"
| "cl_allows (CL_assign ys) xs r = (r = Some ys)"
| "cl_allows (CL_resize n) xs r = (case r of None \<Rightarrow> False | Some ys \<Rightarrow> resized n xs ys)"

lemma cl_step_simulates:
  assumes inv: "cl_invar N cs" and N: "2 \<le> N"
  shows "cl_allows op (cl_list cs) (map_option cl_list (cl_step N d op cs)) \<and>
    (\<forall>cs'. cl_step N d op cs = Some cs' \<longrightarrow> cl_invar N cs')"
proof (cases op)
  case (CL_push x) then show ?thesis using cl_push_back_result[OF inv, of d x] N by auto
next
  case CL_pop
  show ?thesis
  proof (cases "cl_list cs = []")
    case True
    then show ?thesis using CL_pop cl_empty_iff[OF inv] by (simp add: cl_pop_back_def)
  next
    case False
    then show ?thesis using CL_pop cl_pop_back_result(1)[OF inv False, of d] by auto
  qed
next
  case (CL_insert p x)
  show ?thesis
  proof (cases "p \<le> length (cl_list cs)")
    case True
    then obtain it where "cl_nth_iter cs p = Some it" "cl_valid cs it" "cl_pos cs it = p"
      using cl_nth_iter_result[OF inv, of p] by auto
    then show ?thesis
      using CL_insert True cl_insert_result[OF inv N, of it d x] by (auto simp: vector_insert_def)
  qed (use CL_insert cl_nth_iter_result[OF inv, of p] in auto)
next
  case (CL_erase p)
  show ?thesis
  proof (cases "p \<le> length (cl_list cs)")
    case True
    then obtain it where it: "cl_nth_iter cs p = Some it" "cl_valid cs it" "cl_pos cs it = p"
      using cl_nth_iter_result[OF inv, of p] by auto
    show ?thesis
    proof (cases "p = length (cl_list cs)")
      case end': True
      then have "iter_c_p it = iter_c_e it"
        using cl_pos_bounds[OF inv it(2)] it by (auto simp: cl_valid_def)
      then show ?thesis using CL_erase end' it(1) inv by (simp add: cl_erase_def)
    next
      case False
      then show ?thesis
        using CL_erase True it cl_erase_result[OF inv it(2), of d] by (auto simp: vector_erase_def)
    qed
  qed (use CL_erase cl_nth_iter_result[OF inv, of p] in auto)
next
  case (CL_erase_if P) then show ?thesis using cl_erase_if_result[OF inv, of d P] by auto
next
  case CL_clear then show ?thesis using cl_clear_result[OF inv, of d] by simp
next
  case (CL_assign xs) then show ?thesis using cl_assign_result[OF inv, of d xs] N by auto
next
  case (CL_resize n)
  then show ?thesis
    using cl_resize_result[OF inv, of d n] N by (auto simp: resized_def)
qed

text \<open>The class asserts \<^verbatim>\<open>N >= 4\<close>; a larger capacity is written \<open>4 + n\<close>.\<close>

interpretation chunk_list: op_simulation "cl_invar (4 + n)" cl_list "cl_step (4 + n) d" cl_allows for n d
  by unfold_locales (use cl_step_simulates[where N = "4 + n" and d = d] in simp_all)

text \<open>
  C2. Every sequence of operations on an empty \<^verbatim>\<open>chunk_list\<close> with chunks of at least four
  elements behaves as on a list without a bound: appending and removing at the end, inserting
  and erasing at the \<open>p\<close>-th iterator, with chunks split where they are full, \<^verbatim>\<open>erase_if\<close>, \<^verbatim>\<open>clear\<close>,
  \<^verbatim>\<open>assign\<close> and \<^verbatim>\<open>resize\<close>, which gives the required size and keeps the elements, and whose
  added elements are not specified. Exactly the operations that are not possible on the list fail,
  and no chunk exceeds its capacity.
\<close>
theorem chunk_list_refines_list:
  fixes d :: 'a
  assumes "4 \<le> N"
  shows "run_allowed cl_allows ops [] (map_option cl_list (run_ops (cl_step N d) ops [])) \<and>
    (\<forall>cs. run_ops (cl_step N d) ops [] = Some cs \<longrightarrow>
      (\<forall>c \<in> set cs. length (sv_array c) = N \<and> sv_size c \<le> N))"
proof -
  obtain n where N: "N = 4 + n" using assms by (metis le_Suc_ex)
  have "cl_invar N ([] :: 'a chunk_list)" "cl_list ([] :: 'a chunk_list) = []" by (simp_all add: cl_invar_def cl_list_def)
  then show ?thesis
    using chunk_list.run_allows[where n = n and s = "[]" and d = d and ops = ops]
      chunk_list.run_keeps[where n = n and s = "[]" and d = d and ops = ops]
    by (auto simp: N cl_invar_def sv_invar_def)
qed

lemma chunk_list_refines_list_witness:
  "map_option cl_list (run_ops (cl_step 4 0) [CL_assign [1, 2, 3, 4 :: nat], CL_insert 1 5, CL_erase 0, CL_resize 3] []) =
   Some [5, 2, 3]"
proof -
  let ?r = "map_option cl_list (run_ops (cl_step 4 0) [CL_assign [1, 2, 3, 4 :: nat], CL_insert 1 5, CL_erase 0, CL_resize 3] [])"
  have "run_allowed cl_allows [CL_assign [1, 2, 3, 4 :: nat], CL_insert 1 5, CL_erase 0, CL_resize 3] [] ?r"
    using chunk_list_refines_list[of 4 "[CL_assign [1, 2, 3, 4], CL_insert 1 5, CL_erase 0, CL_resize 3]" "0::nat"]
    by (rule conjunct1) simp
  then show ?thesis
    by (auto simp: resized_def numeral_3_eq_3 split: option.splits)
qed

text \<open>
  C30. The searches of a chunk list, which move its iterators across the chunks, return valid
  iterators at the positions that the binary search finds in the whole list, and the distance of
  two iterators is the difference of their positions.
\<close>
theorem chunk_list_search:
  assumes "\<forall>c \<in> set cs. sv_invar N c" "cl_valid cs f" "cl_valid cs l" "cl_pos cs f \<le> cl_pos cs l"
  shows "cl_distance cs f l = int (cl_pos cs l - cl_pos cs f) \<and>
    (\<exists>it. cl_lower_bound lt key cs f l k = Some it \<and> cl_valid cs it \<and>
       cl_pos cs it = std_lower_bound lt key (cl_list cs) (cl_pos cs f) (cl_pos cs l) k) \<and>
    (\<exists>it. cl_upper_bound lt key cs f l k = Some it \<and> cl_valid cs it \<and>
       cl_pos cs it = std_upper_bound lt key (cl_list cs) (cl_pos cs f) (cl_pos cs l) k)"
proof -
  have inv: "cl_invar N cs" using assms(1) by (simp add: cl_invar_def)
  have dist: "cl_distance cs f l = int (cl_pos cs l - cl_pos cs f)"
    using cl_distance_pos[OF inv assms(2,3)] assms(4) by simp
  have len: "cl_pos cs f + nat (cl_distance cs f l) \<le> length (cl_list cs)"
    using dist assms(4) cl_pos_bounds(1)[OF inv assms(3)] by simp
  show ?thesis
    using dist cl_bound_loop_result[OF inv assms(2) len]
    by (simp add: cl_lower_bound_def cl_upper_bound_def std_lower_bound_def std_upper_bound_def)
qed

lemma chunk_list_search_witness:
  "\<exists>cs it. cl_assign 4 0 [1, 3, 5, 7, 9, 11 :: nat] [] = Some cs \<and>
     cl_lower_bound (<) id cs (cl_begin cs) (cl_end cs) 8 = Some it \<and> cl_pos cs it = 4"
proof -
  obtain cs where cs: "cl_assign 4 0 [1, 3, 5, 7, 9, 11 :: nat] [] = Some cs" "cl_invar 4 cs"
    "cl_list cs = [1, 3, 5, 7, 9, 11]"
    using cl_assign_result[of 4 "[]" 0 "[1, 3, 5, 7, 9, 11 :: nat]"] by (auto simp: cl_invar_def)
  have pos: "cl_pos cs (cl_begin cs) = 0" "cl_pos cs (cl_end cs) = 6"
    using cl_begin_valid[of cs] cl_pos_end[OF cs(2)] cs(3) by simp_all
  have "std_lower_bound (<) id [1, 3, 5, 7, 9, 11 :: nat] 0 6 8 = 4" by code_simp
  then show ?thesis
    using chunk_list_search[of cs 4 "cl_begin cs" "cl_end cs" "(<)" id 8] cs pos cl_begin_valid[of cs]
      cl_valid_end[of cs] by (auto simp: cl_invar_def)
qed

end
