(* ===== verification/Sudoku.thy ===== *)
theory Sudoku
  imports Chunk_List
begin

text \<open>
  \<^verbatim>\<open>source/modules/eagine/utility/sudoku.cpp\<close>: glyphs, boards, the calculation of alternatives and the
  board generator, for boards of \<open>S\<close> times \<open>S\<close> blocks of \<open>S\<close> times \<open>S\<close> cells. A cell is a set of
  glyphs, as the bits of an unsigned integer \<^verbatim>\<open>cell_type\<close>, here the type parameter \<open>'c\<close>. Glyph
  indices come from \<^verbatim>\<open>integer_range(glyph_count)\<close>, where the assertions on them hold. A random
  number distribution is a sequence of numbers with the number of those already drawn.
\<close>

type_synonym coord = "nat \<times> nat \<times> nat \<times> nat"
type_synonym 'c board = "'c word list list"

section \<open>Glyphs\<close>

definition to_cell_type :: "nat \<Rightarrow> 'c::len word" where
  "to_cell_type index = ucast (push_bit index (1 :: u32))"

definition glyph_is_empty :: "'c::len word \<Rightarrow> bool" where
  "glyph_is_empty v = (v = 0)"

definition is_pot :: "'c::len word \<Rightarrow> bool" where
  "is_pot v = (v \<noteq> 0 \<and> v AND (v - 1) = 0)"

definition glyph_is_single :: "'c::len word \<Rightarrow> bool" where
  "glyph_is_single v = is_pot v"

definition glyph_is_multiple :: "'c::len word \<Rightarrow> bool" where
  "glyph_is_multiple v = (\<not> glyph_is_empty v \<and> \<not> glyph_is_single v)"

definition glyph_get_index :: "nat \<Rightarrow> 'c::len word \<Rightarrow> nat option" where
  "glyph_get_index S v =
     (if \<not> glyph_is_single v then None
      else Some (case List.find (\<lambda>index. to_cell_type index = v) [0..<S * S] of Some i \<Rightarrow> i | None \<Rightarrow> S))"

definition glyph_set :: "nat \<Rightarrow> 'c::len word \<Rightarrow> 'c word" where
  "glyph_set index v = to_cell_type index"

definition glyph_add :: "nat \<Rightarrow> 'c::len word \<Rightarrow> 'c word" where
  "glyph_add index v = v OR to_cell_type index"

text \<open>The indices that the function of \<^verbatim>\<open>for_each_alternative\<close> is called with.\<close>

definition glyph_alternatives :: "nat \<Rightarrow> 'c::len word \<Rightarrow> nat list" where
  "glyph_alternatives S v = filter (\<lambda>index. let msk = to_cell_type index in v AND msk = msk) [0..<S * S]"

lemma clear_lowest_less:
  fixes v :: "'c::len word"
  assumes "v \<noteq> 0"
  shows "v AND (v - 1) < v"
proof -
  have "v AND (v - 1) \<le> v - 1" by (rule word_and_le1)
  also have "v - 1 < v" using assms by (simp add: measure_unat word_less_nat_alt)
  finally show ?thesis .
qed

function alternative_loop :: "'c::len word \<Rightarrow> nat \<Rightarrow> nat" where
  "alternative_loop bits n = (if bits \<noteq> 0 then alternative_loop (bits AND (bits - 1)) (n + 1) else n)"
  by pat_completeness auto
termination
  by (relation "measure (\<lambda>(bits, n). unat bits)") (auto simp: clear_lowest_less simp flip: word_less_nat_alt)

declare alternative_loop.simps [simp del]

definition glyph_alternative_count :: "'c::len word \<Rightarrow> nat" where
  "glyph_alternative_count v = alternative_loop v 0"

section \<open>Boards\<close>

definition board_block :: "nat \<Rightarrow> 'c board \<Rightarrow> nat \<Rightarrow> nat \<Rightarrow> 'c word list" where
  "board_block S b x y = b ! (y * S + x)"

definition block_cell :: "nat \<Rightarrow> 'c word list \<Rightarrow> nat \<Rightarrow> nat \<Rightarrow> 'c word" where
  "block_cell S block x y = block ! (y * S + x)"

fun cell_val :: "nat \<Rightarrow> 'c board \<Rightarrow> coord \<Rightarrow> 'c word" where
  "cell_val S b (bx, by, cx, cy) = block_cell S (board_block S b bx by) cx cy"

definition board_get :: "nat \<Rightarrow> coord \<Rightarrow> 'c board \<Rightarrow> 'c word" where
  "board_get S c b = cell_val S b c"

fun board_set :: "nat \<Rightarrow> coord \<Rightarrow> 'c word \<Rightarrow> 'c board \<Rightarrow> 'c board" where
  "board_set S (bx, by, cx, cy) v b = b[by * S + bx := (board_block S b bx by)[cy * S + cx := v]]"

definition get_block :: "nat \<Rightarrow> nat \<Rightarrow> nat \<Rightarrow> 'c board \<Rightarrow> 'c word list" where
  "get_block S bx by b = board_block S b bx by"

text \<open>The coordinates of a block are below \<open>S\<close>; the code is undefined for others.\<close>

definition set_block :: "nat \<Rightarrow> nat \<Rightarrow> nat \<Rightarrow> 'c word list \<Rightarrow> 'c board \<Rightarrow> 'c board" where
  "set_block S bx by block b = b[by * S + bx := block]"

definition invalid_coord :: "nat \<Rightarrow> coord" where
  "invalid_coord S = (S, S, S, S)"

text \<open>The order of the four loops; the function returns whether to go on, and the captured state.\<close>

definition sudoku_coords :: "nat \<Rightarrow> coord list" where
  "sudoku_coords S =
     [(bx, by, cx, cy). by \<leftarrow> [0..<S], bx \<leftarrow> [0..<S], cy \<leftarrow> [0..<S], cx \<leftarrow> [0..<S]]"

fun coord_loop :: "(coord \<Rightarrow> 's \<Rightarrow> bool \<times> 's) \<Rightarrow> coord list \<Rightarrow> 's \<Rightarrow> 's" where
  "coord_loop f [] s = s"
| "coord_loop f (c # cs) s = (case f c s of (go, s') \<Rightarrow> if go then coord_loop f cs s' else s')"

definition for_each_coord :: "nat \<Rightarrow> (coord \<Rightarrow> 's \<Rightarrow> bool \<times> 's) \<Rightarrow> 's \<Rightarrow> 's" where
  "for_each_coord S f s = coord_loop f (sudoku_coords S) s"

definition board_new :: "nat \<Rightarrow> 'c::len board" where
  "board_new S =
     for_each_coord S (\<lambda>c b. (True, board_set S c 0 b)) (replicate (S * S) (replicate (S * S) 0))"

fun is_possible :: "nat \<Rightarrow> 'c board \<Rightarrow> coord \<Rightarrow> 'c word \<Rightarrow> bool" where
  "is_possible S b (cbx, cby, ccx, ccy) v =
     (list_all (\<lambda>cy. list_all (\<lambda>cx. (cx \<noteq> ccx \<or> cy \<noteq> ccy) \<longrightarrow> cell_val S b (cbx, cby, cx, cy) \<noteq> v)
        [0..<S]) [0..<S] \<and>
      list_all (\<lambda>bx. list_all (\<lambda>cx. (bx \<noteq> cbx \<or> cx \<noteq> ccx) \<longrightarrow> cell_val S b (bx, cby, cx, ccy) \<noteq> v)
        [0..<S]) [0..<S] \<and>
      list_all (\<lambda>by. list_all (\<lambda>cy. (by \<noteq> cby \<or> cy \<noteq> ccy) \<longrightarrow> cell_val S b (cbx, by, ccx, cy) \<noteq> v)
        [0..<S]) [0..<S])"

definition board_is_solved :: "nat \<Rightarrow> 'c::len board \<Rightarrow> bool" where
  "board_is_solved S b =
     for_each_coord S (\<lambda>c r. if \<not> glyph_is_single (board_get S c b) then (False, False) else (True, r)) True"

definition has_empty :: "nat \<Rightarrow> 'c::len board \<Rightarrow> bool" where
  "has_empty S b =
     for_each_coord S (\<lambda>c r. if glyph_is_empty (board_get S c b) then (False, True) else (True, r)) False"

definition set_available_alternatives :: "nat \<Rightarrow> coord \<Rightarrow> 'c::len board \<Rightarrow> 'c board" where
  "set_available_alternatives S c b =
     board_set S c
       (fold (\<lambda>v alts. if is_possible S b c (to_cell_type v) then glyph_add v alts else alts) [0..<S * S] 0) b"

definition calculate_alternatives :: "nat \<Rightarrow> 'c::len board \<Rightarrow> 'c board" where
  "calculate_alternatives S b =
     for_each_coord S (\<lambda>c b. (True, if \<not> glyph_is_single (board_get S c b)
       then set_available_alternatives S c b else b)) b"

definition find_unsolved :: "nat \<Rightarrow> 'c::len board \<Rightarrow> coord" where
  "find_unsolved S b =
     fst (for_each_coord S (\<lambda>c (result, min_alt).
       (True, let num_alt = glyph_alternative_count (board_get S c b)
              in if num_alt \<noteq> 0
                 then (if num_alt > 1 \<and> min_alt > num_alt then (c, num_alt) else (result, min_alt))
                 else (result, min_alt)))
       (invalid_coord S, S * S + 1))"

text \<open>The candidates that the function of \<^verbatim>\<open>for_each_alternative\<close> is called with.\<close>

definition board_alternatives :: "nat \<Rightarrow> coord \<Rightarrow> 'c::len board \<Rightarrow> 'c board list" where
  "board_alternatives S c b =
     (if c \<noteq> invalid_coord S
      then concat (map (\<lambda>index.
        (let alt = to_cell_type index; candidate = board_set S c alt b
         in if is_possible S candidate c alt
            then (let candidate = calculate_alternatives S candidate
                  in if \<not> has_empty S candidate then [candidate] else [])
            else [])) (glyph_alternatives S (board_get S c b)))
      else [])"

definition board_alternative_count :: "nat \<Rightarrow> 'c::len board \<Rightarrow> nat" where
  "board_alternative_count S b =
     for_each_coord S (\<lambda>c n. (True, let cell = board_get S c b
       in if \<not> glyph_is_single cell then n + glyph_alternative_count cell else n)) 0"

section \<open>The board generator\<close>

partial_function (option) generate_value ::
    "nat \<Rightarrow> 'c::len board \<Rightarrow> coord \<Rightarrow> (nat \<Rightarrow> nat) \<Rightarrow> nat \<Rightarrow> (nat \<times> nat) option" where
  "generate_value S b c glyph_dist j =
     (if is_possible S b c (to_cell_type (glyph_dist j)) then Some (glyph_dist j, j + 1)
      else generate_value S b c glyph_dist (j + 1))"

partial_function (option) generate_loop ::
    "nat \<Rightarrow> (nat \<Rightarrow> nat) \<Rightarrow> (nat \<Rightarrow> nat) \<Rightarrow> nat \<Rightarrow> nat \<Rightarrow> nat \<Rightarrow> 'c::len board \<Rightarrow> 'c board option" where
  "generate_loop S coord_dist glyph_dist i j n b =
     (if n = 0 then Some b
      else (let c = (coord_dist i, coord_dist (i + 1), coord_dist (i + 2), coord_dist (i + 3))
            in if \<not> glyph_is_single (board_get S c b)
               then Option.bind (generate_value S b c glyph_dist j) (\<lambda>(v, j').
                 generate_loop S coord_dist glyph_dist (i + 4) j' (n - 1)
                   (calculate_alternatives S (board_set S c (to_cell_type v) b)))
               else generate_loop S coord_dist glyph_dist (i + 4) j n b))"

definition board_generate :: "nat \<Rightarrow> (nat \<Rightarrow> nat) \<Rightarrow> (nat \<Rightarrow> nat) \<Rightarrow> nat \<Rightarrow> 'c::len board option" where
  "board_generate S coord_dist glyph_dist n =
     generate_loop S coord_dist glyph_dist 0 0 n (calculate_alternatives S (board_new S))"

definition generate_one :: "nat \<Rightarrow> (nat \<Rightarrow> nat) \<Rightarrow> (nat \<Rightarrow> nat) \<Rightarrow> 'c::len board option" where
  "generate_one S cd gd = board_generate S cd gd 1"

definition generate_few :: "nat \<Rightarrow> (nat \<Rightarrow> nat) \<Rightarrow> (nat \<Rightarrow> nat) \<Rightarrow> 'c::len board option" where
  "generate_few S cd gd = board_generate S cd gd (S + S)"

definition generate_medium :: "nat \<Rightarrow> (nat \<Rightarrow> nat) \<Rightarrow> (nat \<Rightarrow> nat) \<Rightarrow> 'c::len board option" where
  "generate_medium S cd gd = board_generate S cd gd (S * S + S + S)"

definition generate_many :: "nat \<Rightarrow> (nat \<Rightarrow> nat) \<Rightarrow> (nat \<Rightarrow> nat) \<Rightarrow> 'c::len board option" where
  "generate_many S cd gd = board_generate S cd gd (S * S * S + S + S + S)"

section \<open>Board traits\<close>

record board_traits =
  traits_glyphs :: "string list"
  traits_multi_glyphs :: "string list"
  traits_empty_glyph :: string

definition default_sudoku_board_traits_2 :: board_traits where
  "default_sudoku_board_traits_2 = \<lparr>traits_glyphs = map (\<lambda>c. [c]) ''1234'',
     traits_multi_glyphs = replicate 2 ''?'', traits_empty_glyph = ''.''\<rparr>"

definition default_sudoku_board_traits_3 :: board_traits where
  "default_sudoku_board_traits_3 =
     \<lparr>traits_glyphs = map (\<lambda>c. [c]) ''123456789'',
      traits_multi_glyphs = replicate 3 ''?'', traits_empty_glyph = ''.''\<rparr>"

definition default_sudoku_board_traits_4 :: board_traits where
  "default_sudoku_board_traits_4 =
     \<lparr>traits_glyphs = map (\<lambda>c. [c]) ''0123456789ABCDEF'',
      traits_multi_glyphs = replicate 4 ''?'', traits_empty_glyph = ''.''\<rparr>"

definition default_sudoku_board_traits_5 :: board_traits where
  "default_sudoku_board_traits_5 =
     \<lparr>traits_glyphs = map (\<lambda>c. [c]) ''ABCDEFGHIJKLMNOPQRSTUVWXY'',
      traits_multi_glyphs = replicate 5 ''?'', traits_empty_glyph = ''.''\<rparr>"

definition make_diagonal :: "nat \<Rightarrow> 'c::len board" where
  "make_diagonal S =
     calculate_alternatives S
       (fst (fold (\<lambda>(b, c) (result, g). (board_set S (b, b, c, c) (to_cell_type g) result, g + 1))
         [(b, c). b \<leftarrow> [0..<S], c \<leftarrow> [0..<S]] (board_new S, 0)))"

text \<open>An index outside of the glyphs of the traits is undefined: \<open>None\<close> behind the assertion.\<close>

definition glyph_to_string :: "nat \<Rightarrow> board_traits \<Rightarrow> 'c::len word \<Rightarrow> string option" where
  "glyph_to_string S tr v =
     (if glyph_is_single v
      then Option.bind (glyph_get_index S v)
        (\<lambda>i. if i < length (traits_glyphs tr) then Some (traits_glyphs tr ! i) else None)
      else None)"

definition glyph_print :: "nat \<Rightarrow> board_traits \<Rightarrow> 'c::len word \<Rightarrow> string" where
  "glyph_print S tr v =
     (if glyph_is_single v then (case glyph_get_index S v of Some i \<Rightarrow> traits_glyphs tr ! i | None \<Rightarrow> [])
      else if glyph_is_empty v then traits_empty_glyph tr
      else traits_multi_glyphs tr ! 0)"

definition board_print :: "nat \<Rightarrow> board_traits \<Rightarrow> 'c::len board \<Rightarrow> string" where
  "board_print S tr b =
     concat (map (\<lambda>by.
       concat (map (\<lambda>cy.
         concat (map (\<lambda>bx.
           concat (map (\<lambda>cx. '' '' @ glyph_print S tr (board_get S (bx, by, cx, cy) b)) [0..<S]) @
           (if bx + 1 < S then '' |'' else [])) [0..<S]) @ [CHR 0x0A]) [0..<S]) @
       (if by + 1 < S
        then concat (map (\<lambda>s1.
          concat (map (\<lambda>s2. if s1 = 0 \<and> s2 = 0 then '' -'' else ''--'') [0..<S]) @
          (if s1 + 1 < S then ''-+'' else [])) [0..<S]) @ [CHR 0x0A]
        else [])) [0..<S])"

section \<open>Glyphs as sets of indices\<close>

text \<open>The ranks for which the masks of all glyphs fit into the cell type and into \<^verbatim>\<open>1U << index\<close>.\<close>

definition rank_ok :: "nat \<Rightarrow> 'c::len itself \<Rightarrow> bool" where
  "rank_ok S TYPE('c) = (0 < S \<and> S * S \<le> 32 \<and> S * S \<le> LENGTH('c))"

lemma bit_to_cell_type:
  "i < 32 \<Longrightarrow> i < LENGTH('c) \<Longrightarrow> bit (to_cell_type i :: 'c::len word) n \<longleftrightarrow> n = i"
  by (auto simp: to_cell_type_def bit_simps)

lemma bit_unat: "bit (unat (v :: 'c::len word)) n \<longleftrightarrow> bit v n"
  using bit_imp_le_length[of v n] by (auto simp: bit_unsigned_iff)

lemma is_pot_iff:
  fixes v :: "'c::len word"
  shows "is_pot v \<longleftrightarrow> (\<exists>i. \<forall>n. bit v n \<longleftrightarrow> n = i)"
proof
  assume pot: "is_pot v"
  let ?B = "{n. bit v n}"
  have fin: "finite ?B" by (rule finite_subset[of _ "{..<LENGTH('c)}"]) (auto dest: bit_imp_le_length)
  have ne: "?B \<noteq> {}" using pot by (auto simp: is_pot_def bit_eq_iff)
  define i where "i = Max ?B"
  have i: "bit v i" using Max_in[OF fin ne] by (simp add: i_def)
  then have il: "i < LENGTH('c)" by (rule bit_imp_le_length)
  have top: "n \<le> i" if "bit v n" for n using Max_ge[OF fin, of n] that by (simp add: i_def)
  have v: "unat v = 2 ^ i" 
  proof (rule ccontr)
    assume ne2: "unat v \<noteq> 2 ^ i"
    have ge: "2 ^ i \<le> unat v"
    proof (rule ccontr)
      assume "\<not> 2 ^ i \<le> unat v"
      then have "\<not> bit (unat v) i" by (simp add: bit_iff_odd)
      then show False using i by (simp add: bit_unat)
    qed
    have lt: "unat v < 2 ^ (i + 1)"
    proof -
      have "take_bit (i + 1) (unat v) = unat v"
        using top by (auto simp: bit_eq_iff bit_take_bit_iff bit_unat less_Suc_eq_le)
      then show ?thesis by (metis take_bit_nat_less_exp)
    qed
    have "unat (v - 1) = unat v - 1" using pot by (simp add: is_pot_def unat_minus_one)
    then have "2 ^ i \<le> unat (v - 1)" "unat (v - 1) < 2 ^ (i + 1)" using ge ne2 lt by auto
    then have "unat (v - 1) div 2 ^ i = 1" by (simp add: div_nat_eqI)
    then have "bit (unat (v - 1)) i" by (simp add: bit_iff_odd)
    then have "bit (v - 1) i" by (simp add: bit_unat)
    with i have "bit (v AND (v - 1)) i" by (simp add: bit_simps)
    then show False using pot by (simp add: is_pot_def)
  qed
  have "bit v n \<longleftrightarrow> n = i" for n
  proof -
    have "bit v n \<longleftrightarrow> bit (unat v) n" by (simp add: bit_unat)
    then show ?thesis by (simp add: v bit_simps)
  qed
  then show "\<exists>i. \<forall>n. bit v n \<longleftrightarrow> n = i" by blast
next
  assume "\<exists>i. \<forall>n. bit v n \<longleftrightarrow> n = i"
  then obtain i where i: "\<And>n. bit v n \<longleftrightarrow> n = i" by blast
  have il: "i < LENGTH('c)" using i bit_imp_le_length by blast
  have "v = 2 ^ i" using il by (intro bit_word_eqI) (auto simp: i bit_simps)
  then have "v - 1 = mask i" by (simp add: mask_eq_exp_minus_1)
  moreover have "v AND mask i = 0" by (intro bit_word_eqI) (auto simp: i bit_simps)
  moreover have "v \<noteq> 0" using i[of i] by auto
  ultimately show "is_pot v" by (simp add: is_pot_def)
qed

lemma single_bits: "is_pot v \<Longrightarrow> bit v i \<Longrightarrow> bit v n \<longleftrightarrow> n = i"
  by (auto simp: is_pot_iff)

lemma pot_to_cell_type: "i < 32 \<Longrightarrow> i < LENGTH('c) \<Longrightarrow> is_pot (to_cell_type i :: 'c::len word)"
  by (auto simp: is_pot_iff bit_to_cell_type)

lemma single_is_cell_type:
  fixes v :: "'c::len word"
  shows "is_pot v \<Longrightarrow> bit v i \<Longrightarrow> i < 32 \<Longrightarrow> v = to_cell_type i"
  using bit_imp_le_length[of v i] by (intro bit_word_eqI) (simp add: bit_to_cell_type single_bits)

lemma alternative_loop_add: "alternative_loop v (n + m) = n + alternative_loop v m"
proof (induction v m rule: alternative_loop.induct)
  case (1 v m)
  then show ?case
    by (cases "v = 0") (simp_all add: alternative_loop.simps[of v] alternative_loop.simps[of 0])
qed

lemma alternative_count_rec:
  "v \<noteq> 0 \<Longrightarrow> glyph_alternative_count v = Suc (glyph_alternative_count (v AND (v - 1)))"
  using alternative_loop_add[of "v AND (v - 1)" 1 0]
  by (simp add: glyph_alternative_count_def alternative_loop.simps[of v 0])

lemma alternative_count_0: "glyph_alternative_count 0 = 0"
  by (simp add: glyph_alternative_count_def alternative_loop.simps[of 0])

lemma alternative_count_gt_1: "glyph_alternative_count v > 1 \<longleftrightarrow> v \<noteq> 0 \<and> \<not> is_pot v"
proof (cases "v = 0")
  case False
  then show ?thesis
    by (cases "v AND (v - 1) = 0") (simp_all add: alternative_count_rec is_pot_def alternative_count_0)
qed (simp add: alternative_count_0)

lemma alternative_count_le: "glyph_alternative_count v \<le> card {n. bit v n}"
proof (induction "unat v" arbitrary: v rule: less_induct)
  case less
  show ?case
  proof (cases "v = 0")
    case False
    let ?w = "v AND (v - 1)"
    have lt: "?w < v" by (rule clear_lowest_less[OF False])
    have fin: "finite {n. bit v n}" by (rule finite_subset[of _ "{..<LENGTH('a)}"]) (auto dest: bit_imp_le_length)
    have "{n. bit ?w n} \<subseteq> {n. bit v n}" by (auto simp: bit_and_iff)
    moreover have "{n. bit ?w n} \<noteq> {n. bit v n}" 
    proof
      assume "{n. bit ?w n} = {n. bit v n}"
      then have "?w = v" by (intro bit_word_eqI) blast
      then show False using lt by simp
    qed
    ultimately have "card {n. bit ?w n} < card {n. bit v n}" using fin by (intro psubset_card_mono) auto
    moreover have "glyph_alternative_count ?w \<le> card {n. bit ?w n}"
      using lt by (intro less) (simp add: word_less_nat_alt)
    ultimately show ?thesis using False by (simp add: alternative_count_rec)
  qed (simp add: alternative_count_0)
qed

section \<open>Boards as functions from coordinates to cells\<close>

fun valid_coord :: "nat \<Rightarrow> coord \<Rightarrow> bool" where
  "valid_coord S (bx, by, cx, cy) = (bx < S \<and> by < S \<and> cx < S \<and> cy < S)"

text \<open>The cells in the same block, row or column.\<close>

fun sees :: "coord \<Rightarrow> coord \<Rightarrow> bool" where
  "sees (bx, by, cx, cy) (bx', by', cx', cy') =
     ((bx, by, cx, cy) \<noteq> (bx', by', cx', cy') \<and>
      (bx = bx' \<and> by = by' \<or> by = by' \<and> cy = cy' \<or> bx = bx' \<and> cx = cx'))"

definition glyphs_below :: "nat \<Rightarrow> 'c::len word \<Rightarrow> bool" where
  "glyphs_below G v = (\<forall>n. bit v n \<longrightarrow> n < G)"

definition wf_board :: "nat \<Rightarrow> 'c::len board \<Rightarrow> bool" where
  "wf_board S b = (length b = S * S \<and>
     (\<forall>block \<in> set b. length block = S * S \<and> (\<forall>v \<in> set block. glyphs_below (S * S) v)))"

lemma sees_sym: "sees c d \<longleftrightarrow> sees d c"
  by (cases c; cases d) auto

lemma pair_index_less: "y < S \<Longrightarrow> x < S \<Longrightarrow> y * S + x < S * (S :: nat)"
proof -
  assume "y < S" "x < S"
  then have "y * S + x < y * S + S" by simp
  also have "\<dots> = (y + 1) * S" by simp
  also have "\<dots> \<le> S * S" using \<open>y < S\<close> by (intro mult_le_mono1) simp
  finally show ?thesis .
qed

lemma pair_index_div: "x < S \<Longrightarrow> (y * S + x) div S = y \<and> (y * S + x) mod S = (x :: nat)"
  by simp

lemma pair_index_eq: "x < S \<Longrightarrow> x' < S \<Longrightarrow> y * S + x = y' * S + x' \<longleftrightarrow> y = y' \<and> x = (x' :: nat)"
  using pair_index_div[of x S y] pair_index_div[of x' S y'] by metis

lemma set_sudoku_coords: "set (sudoku_coords S) = {c. valid_coord S c}"
  by (force simp: sudoku_coords_def)

lemma cell_val_board_set:
  assumes "wf_board S b" "valid_coord S c" "valid_coord S d"
  shows "cell_val S (board_set S c v b) d = (if d = c then v else cell_val S b d)"
proof -
  obtain bx "by" cx cy where c: "c = (bx, by, cx, cy)" by (cases c) auto
  obtain bx' by' cx' cy' where d: "d = (bx', by', cx', cy')" by (cases d) auto
  have len: "length b = S * S" "length (b ! (by * S + bx)) = S * S"
    using assms by (auto simp: wf_board_def c pair_index_less)
  show ?thesis
  proof (cases "by' * S + bx' = by * S + bx")
    case True
    then have bb: "by' = by" "bx' = bx" using assms by (auto simp: c d pair_index_eq)
    then show ?thesis using assms len
      by (auto simp: c d board_block_def block_cell_def pair_index_less pair_index_eq nth_list_update)
  next
    case False
    then show ?thesis by (auto simp: c d board_block_def block_cell_def nth_list_update)
  qed
qed

lemma wf_board_set:
  assumes "wf_board S b" "valid_coord S c" "glyphs_below (S * S) v"
  shows "wf_board S (board_set S c v b)"
proof -
  obtain bx "by" cx cy where c: "c = (bx, by, cx, cy)" by (cases c) auto
  let ?block = "b ! (by * S + bx)"
  have "by * S + bx < length b" using assms by (auto simp: wf_board_def c pair_index_less)
  then have "?block \<in> set b" by simp
  then have "length ?block = S * S" "\<forall>v \<in> set ?block. glyphs_below (S * S) v"
    using assms(1) by (auto simp: wf_board_def)
  then have "length (?block[cy * S + cx := v]) = S * S \<and> (\<forall>u \<in> set (?block[cy * S + cx := v]). glyphs_below (S * S) u)"
    using assms(3) set_update_subset_insert[of ?block "cy * S + cx" v] by auto
  then show ?thesis
    using assms(1) set_update_subset_insert[of b "by * S + bx" "?block[cy * S + cx := v]"]
    by (auto simp: wf_board_def c board_block_def)
qed

lemma wf_cell: "wf_board S b \<Longrightarrow> valid_coord S c \<Longrightarrow> glyphs_below (S * S) (cell_val S b c)"
proof -
  assume wf: "wf_board S b" and v: "valid_coord S c"
  obtain bx "by" cx cy where c: "c = (bx, by, cx, cy)" by (cases c) auto
  have "b ! (by * S + bx) \<in> set b" using wf v by (auto simp: c wf_board_def pair_index_less)
  then have "length (b ! (by * S + bx)) = S * S" "\<forall>v \<in> set (b ! (by * S + bx)). glyphs_below (S * S) v"
    using wf by (auto simp: wf_board_def)
  then show ?thesis using v by (simp add: c board_block_def block_cell_def pair_index_less)
qed

lemma glyphs_below_0 [simp]: "glyphs_below G 0"
  by (simp add: glyphs_below_def)

lemma rank_glyph:
  assumes "rank_ok S TYPE('c::len)" "i < S * S"
  shows "bit (to_cell_type i :: 'c word) n \<longleftrightarrow> n = i"
  using assms by (intro bit_to_cell_type) (auto simp: rank_ok_def)

lemma rank_pot:
  assumes "rank_ok S TYPE('c::len)" "i < S * S"
  shows "is_pot (to_cell_type i :: 'c word)"
  using rank_glyph[OF assms] by (auto simp: is_pot_iff)

lemma rank_glyph_below:
  assumes "rank_ok S TYPE('c::len)" "i < S * S"
  shows "glyphs_below (S * S) (to_cell_type i :: 'c word)"
  using assms by (simp add: glyphs_below_def rank_glyph)

lemma rank_single:
  fixes v :: "'c::len word"
  assumes "rank_ok S TYPE('c)" "is_pot v" "glyphs_below (S * S) v"
  obtains i where "i < S * S" "v = to_cell_type i"
proof -
  obtain i where i: "bit v i" using assms(2) by (auto simp: is_pot_iff)
  then have "i < S * S" using assms(3) by (simp add: glyphs_below_def)
  then show thesis using that single_is_cell_type[OF assms(2) i] assms(1) by (auto simp: rank_ok_def)
qed

section \<open>The loops over the coordinates\<close>

lemma coord_loop_fold: "coord_loop (\<lambda>c s. (True, f c s)) cs s = fold f cs s"
  by (induction cs arbitrary: s) auto

lemma board_is_solved_iff: "board_is_solved S b \<longleftrightarrow> (\<forall>c. valid_coord S c \<longrightarrow> is_pot (cell_val S b c))"
proof -
  have "coord_loop (\<lambda>c r. if \<not> glyph_is_single (board_get S c b) then (False, False) else (True, r)) cs True \<longleftrightarrow>
      (\<forall>c \<in> set cs. is_pot (cell_val S b c))" for cs
    by (induction cs) (auto simp: glyph_is_single_def board_get_def)
  then show ?thesis by (simp add: board_is_solved_def for_each_coord_def set_sudoku_coords)
qed

lemma has_empty_iff: "has_empty S b \<longleftrightarrow> (\<exists>c. valid_coord S c \<and> cell_val S b c = 0)"
proof -
  have "coord_loop (\<lambda>c r. if glyph_is_empty (board_get S c b) then (False, True) else (True, r)) cs False \<longleftrightarrow>
      (\<exists>c \<in> set cs. cell_val S b c = 0)" for cs
    by (induction cs) (auto simp: glyph_is_empty_def board_get_def)
  then show ?thesis by (simp add: has_empty_def for_each_coord_def set_sudoku_coords)
qed

lemma is_possible_iff:
  assumes "valid_coord S c"
  shows "is_possible S b c v \<longleftrightarrow> (\<forall>d. valid_coord S d \<longrightarrow> sees c d \<longrightarrow> cell_val S b d \<noteq> v)"
proof -
  obtain bx "by" cx cy where c: "c = (bx, by, cx, cy)" by (cases c) auto
  have all: "list_all P [0..<S] \<longleftrightarrow> (\<forall>i < S. P i)" for P by (auto simp: list_all_iff)
  have "is_possible S b c v \<longleftrightarrow>
      (\<forall>y < S. \<forall>x < S. x \<noteq> cx \<or> y \<noteq> cy \<longrightarrow> cell_val S b (bx, by, x, y) \<noteq> v) \<and>
      (\<forall>x' < S. \<forall>x < S. x' \<noteq> bx \<or> x \<noteq> cx \<longrightarrow> cell_val S b (x', by, x, cy) \<noteq> v) \<and>
      (\<forall>y' < S. \<forall>y < S. y' \<noteq> by \<or> y \<noteq> cy \<longrightarrow> cell_val S b (bx, y', cx, y) \<noteq> v)"
    unfolding c is_possible.simps all ..
  also have "\<dots> \<longleftrightarrow> (\<forall>d. valid_coord S d \<longrightarrow> sees c d \<longrightarrow> cell_val S b d \<noteq> v)"
    (is "?L \<longleftrightarrow> ?R")
  proof
    assume ?L
    then show ?R by (auto simp: c simp del: cell_val.simps)
  next
    assume R: ?R
    have "cell_val S b (x', y', x, y) \<noteq> v" if "x' < S" "y' < S" "x < S" "y < S" "sees c (x', y', x, y)" for x' y' x y
      using R that by (simp del: cell_val.simps)
    then show ?L using assms by (intro conjI allI impI) (auto simp: c simp del: cell_val.simps)
  qed
  finally show ?thesis .
qed

text \<open>The search for an unsolved cell finds one with at least two alternatives, if there is one.\<close>

lemma find_unsolved_result:
  fixes b :: "'c::len board"
  assumes "wf_board S b"
  shows "find_unsolved S b = invalid_coord S \<and> (\<forall>c. valid_coord S c \<longrightarrow> cell_val S b c = 0 \<or> is_pot (cell_val S b c)) \<or>
    valid_coord S (find_unsolved S b) \<and> cell_val S b (find_unsolved S b) \<noteq> 0 \<and> \<not> is_pot (cell_val S b (find_unsolved S b))"
proof -
  define step where "step = (\<lambda>c (result, min_alt).
       let num_alt = glyph_alternative_count (board_get S c b)
              in if num_alt \<noteq> 0
                 then (if num_alt > 1 \<and> min_alt > num_alt then (c, num_alt) else (result, min_alt))
                 else (result, min_alt))"
  have le: "glyph_alternative_count (cell_val S b c) \<le> S * S" if "valid_coord S c" for c
  proof -
    have "card {n. bit (cell_val S b c) n} \<le> card {..<S * S}"
      using wf_cell[OF assms that] by (intro card_mono) (auto simp: glyphs_below_def)
    then show ?thesis using alternative_count_le[of "cell_val S b c"] by simp
  qed
  have "case fold step cs (invalid_coord S, S * S + 1) of (r, m) \<Rightarrow>
      (r = invalid_coord S \<and> m = S * S + 1 \<and> (\<forall>c \<in> set cs. \<not> glyph_alternative_count (cell_val S b c) > 1)) \<or>
      (r \<in> set cs \<and> glyph_alternative_count (cell_val S b r) > 1)"
    if "set cs \<subseteq> {c. valid_coord S c}" for cs
    using that
  proof (induction cs rule: rev_induct)
    case (snoc c cs)
    then show ?case using le[of c]
      by (auto simp: step_def board_get_def Let_def split: prod.splits if_splits)
  qed simp
  from this[of "sudoku_coords S"]
  have r: "case fold step (sudoku_coords S) (invalid_coord S, S * S + 1) of (r, m) \<Rightarrow>
      (r = invalid_coord S \<and> m = S * S + 1 \<and> (\<forall>c. valid_coord S c \<longrightarrow> \<not> glyph_alternative_count (cell_val S b c) > 1)) \<or>
      (valid_coord S r \<and> glyph_alternative_count (cell_val S b r) > 1)"
    by (simp add: set_sudoku_coords)
  have "find_unsolved S b = fst (fold step (sudoku_coords S) (invalid_coord S, S * S + 1))"
    unfolding find_unsolved_def for_each_coord_def step_def
    by (subst coord_loop_fold[symmetric]) (simp add: case_prod_unfold)
  with r show ?thesis unfolding alternative_count_gt_1 by (auto split: prod.splits)
qed

section \<open>Consistent boards and their completions\<close>

declare split_paired_All [simp del] split_paired_Ex [simp del]
declare cell_val.simps [simp del] board_set.simps [simp del] is_possible.simps [simp del]
declare valid_coord.simps [simp del] sees.simps [simp del]

lemma sees_ne: "sees c d \<Longrightarrow> d \<noteq> c"
  by (cases c; cases d) (auto simp: sees.simps)

text \<open>No two cells of a block, row or column hold the same single glyph.\<close>

definition consistent :: "nat \<Rightarrow> 'c::len board \<Rightarrow> bool" where
  "consistent S b = (\<forall>c d. valid_coord S c \<and> valid_coord S d \<and> sees c d \<and> is_pot (cell_val S b c) \<longrightarrow>
     cell_val S b c \<noteq> cell_val S b d)"

text \<open>The single glyphs of the first board are in the second.\<close>

definition extends :: "nat \<Rightarrow> 'c::len board \<Rightarrow> 'c board \<Rightarrow> bool" where
  "extends S b b' = (\<forall>c. valid_coord S c \<and> is_pot (cell_val S b c) \<longrightarrow> cell_val S b' c = cell_val S b c)"

text \<open>A filling of the whole board by the rules, that has the single glyphs of a board.\<close>

definition filling :: "nat \<Rightarrow> (coord \<Rightarrow> nat) \<Rightarrow> bool" where
  "filling S f = ((\<forall>c. valid_coord S c \<longrightarrow> f c < S * S) \<and>
     (\<forall>c d. valid_coord S c \<and> valid_coord S d \<and> sees c d \<longrightarrow> f c \<noteq> f d))"

definition completes :: "nat \<Rightarrow> 'c::len board \<Rightarrow> (coord \<Rightarrow> nat) \<Rightarrow> bool" where
  "completes S b f = (filling S f \<and>
     (\<forall>c. valid_coord S c \<and> is_pot (cell_val S b c) \<longrightarrow> cell_val S b c = to_cell_type (f c)))"

definition admits :: "nat \<Rightarrow> 'c::len board \<Rightarrow> (coord \<Rightarrow> nat) \<Rightarrow> bool" where
  "admits S b f = (\<forall>c. valid_coord S c \<longrightarrow> bit (cell_val S b c) (f c))"

lemma extends_refl: "extends S b b"
  by (simp add: extends_def)

lemma extends_trans: "extends S a b \<Longrightarrow> extends S b c \<Longrightarrow> extends S a c"
  by (auto simp: extends_def)

lemma bit_available:
  assumes "rank_ok S TYPE('c::len)" "n \<le> S * S"
  shows "bit (fold (\<lambda>v alts. if is_possible S b c (to_cell_type v) then glyph_add v alts else alts) [0..<n] (a :: 'c word)) i
     \<longleftrightarrow> bit a i \<or> i < n \<and> is_possible S b c (to_cell_type i)"
  using assms(2)
proof (induction n)
  case (Suc n)
  then show ?case using rank_glyph[OF assms(1), of n] by (auto simp: glyph_add_def bit_or_iff less_Suc_eq)
qed simp

lemma step_cell:
  fixes b :: "'c::len board"
  assumes "rank_ok S TYPE('c)" "wf_board S b" "valid_coord S c"
  shows "wf_board S (set_available_alternatives S c b)"
    and "valid_coord S d \<Longrightarrow> d \<noteq> c \<Longrightarrow> cell_val S (set_available_alternatives S c b) d = cell_val S b d"
    and "bit (cell_val S (set_available_alternatives S c b) c) i \<longleftrightarrow>
      i < S * S \<and> (\<forall>d. valid_coord S d \<longrightarrow> sees c d \<longrightarrow> cell_val S b d \<noteq> to_cell_type i)"
proof -
  let ?v = "fold (\<lambda>v alts. if is_possible S b c (to_cell_type v) then glyph_add v alts else alts) [0..<S * S] (0 :: 'c word)"
  have bits: "bit ?v i \<longleftrightarrow> i < S * S \<and> (\<forall>d. valid_coord S d \<longrightarrow> sees c d \<longrightarrow> cell_val S b d \<noteq> to_cell_type i)" for i
    using bit_available[OF assms(1), of "S * S" b c 0 i] unfolding is_possible_iff[OF assms(3), symmetric] by simp
  show "wf_board S (set_available_alternatives S c b)"
    unfolding set_available_alternatives_def
    by (rule wf_board_set[OF assms(2,3)]) (auto simp: glyphs_below_def bits)
  show "valid_coord S d \<Longrightarrow> d \<noteq> c \<Longrightarrow> cell_val S (set_available_alternatives S c b) d = cell_val S b d"
    unfolding set_available_alternatives_def by (simp add: cell_val_board_set[OF assms(2,3)])
  show "bit (cell_val S (set_available_alternatives S c b) c) i \<longleftrightarrow>
      i < S * S \<and> (\<forall>d. valid_coord S d \<longrightarrow> sees c d \<longrightarrow> cell_val S b d \<noteq> to_cell_type i)"
    unfolding set_available_alternatives_def by (simp add: cell_val_board_set[OF assms(2,3,3)] bits)
qed

text \<open>What one step of the calculation keeps, and what it gives for the cell it is about.\<close>

definition calc_step :: "nat \<Rightarrow> coord \<Rightarrow> 'c::len board \<Rightarrow> 'c board" where
  "calc_step S c b = (if \<not> glyph_is_single (board_get S c b) then set_available_alternatives S c b else b)"

lemma calc_step_cells:
  fixes b :: "'c::len board"
  assumes rank: "rank_ok S TYPE('c)" and wf: "wf_board S b" and c: "valid_coord S c"
  shows "wf_board S (calc_step S c b)"
    "valid_coord S d \<Longrightarrow> d \<noteq> c \<Longrightarrow> cell_val S (calc_step S c b) d = cell_val S b d"
    "is_pot (cell_val S b c) \<Longrightarrow> calc_step S c b = b"
    "\<not> is_pot (cell_val S b c) \<Longrightarrow> bit (cell_val S (calc_step S c b) c) i \<longleftrightarrow>
      i < S * S \<and> (\<forall>d. valid_coord S d \<longrightarrow> sees c d \<longrightarrow> cell_val S b d \<noteq> to_cell_type i)"
proof -
  show "wf_board S (calc_step S c b)" using step_cell(1)[OF assms] wf by (simp add: calc_step_def)
  show "valid_coord S d \<Longrightarrow> d \<noteq> c \<Longrightarrow> cell_val S (calc_step S c b) d = cell_val S b d"
    using step_cell(2)[OF assms] by (simp add: calc_step_def)
  show "is_pot (cell_val S b c) \<Longrightarrow> calc_step S c b = b"
    by (simp add: calc_step_def glyph_is_single_def board_get_def)
  show "\<not> is_pot (cell_val S b c) \<Longrightarrow> bit (cell_val S (calc_step S c b) c) i \<longleftrightarrow>
      i < S * S \<and> (\<forall>d. valid_coord S d \<longrightarrow> sees c d \<longrightarrow> cell_val S b d \<noteq> to_cell_type i)"
    using step_cell(3)[OF assms, of i] by (simp add: calc_step_def glyph_is_single_def board_get_def)
qed

lemma calc_step_extends:
  fixes b :: "'c::len board"
  assumes "rank_ok S TYPE('c)" "wf_board S b" "valid_coord S c"
  shows "extends S b (calc_step S c b)"
  using calc_step_cells(2,3)[OF assms] unfolding extends_def by metis

lemma calc_step_new_single:
  fixes b :: "'c::len board"
  assumes rank: "rank_ok S TYPE('c)" and wf: "wf_board S b" and c: "valid_coord S c"
    and new: "\<not> is_pot (cell_val S b c)" "is_pot (cell_val S (calc_step S c b) c)"
    and d: "valid_coord S d" "sees c d"
  shows "cell_val S b d \<noteq> cell_val S (calc_step S c b) c"
proof -
  let ?v = "cell_val S (calc_step S c b) c"
  obtain i where i: "i < S * S" "?v = to_cell_type i"
    using rank_single[OF rank new(2) wf_cell[OF calc_step_cells(1)[OF rank wf c] c]] by blast
  then have "bit ?v i" using rank_glyph[OF rank i(1)] by simp
  then show ?thesis using calc_step_cells(4)[OF rank wf c new(1), of i] d unfolding i(2) by blast
qed

lemma consistent_change:
  assumes con: "consistent S b" and c: "valid_coord S c"
    and same: "\<And>d. valid_coord S d \<Longrightarrow> d \<noteq> c \<Longrightarrow> cell_val S b' d = cell_val S b d"
    and new: "\<And>d. is_pot (cell_val S b' c) \<Longrightarrow> valid_coord S d \<Longrightarrow> sees c d \<Longrightarrow> cell_val S b d \<noteq> cell_val S b' c"
  shows "consistent S b'"
  unfolding consistent_def
proof (intro allI impI)
  fix d e assume de: "valid_coord S d \<and> valid_coord S e \<and> sees d e \<and> is_pot (cell_val S b' d)"
  have ne: "d \<noteq> e" using de sees_ne by blast
  consider "d = c" | "e = c" | "d \<noteq> c" "e \<noteq> c" by blast
  then show "cell_val S b' d \<noteq> cell_val S b' e"
  proof cases
    case 1
    then show ?thesis using new[of e] de same[of e] ne by auto
  next
    case 2
    then have "cell_val S b d \<noteq> cell_val S b' c \<or> \<not> is_pot (cell_val S b' c)"
      using new[of d] de sees_sym by blast
    then show ?thesis using 2 de same[of d] ne by auto
  next
    case 3
    then show ?thesis using con de same[of d] same[of e] unfolding consistent_def by metis
  qed
qed

lemma calc_step_consistent:
  fixes b :: "'c::len board"
  assumes rank: "rank_ok S TYPE('c)" and wf: "wf_board S b" and c: "valid_coord S c" and con: "consistent S b"
  shows "consistent S (calc_step S c b)"
proof (cases "is_pot (cell_val S b c)")
  case True
  then show ?thesis using con calc_step_cells(3)[OF rank wf c] by simp
next
  case False
  show ?thesis
    by (rule consistent_change[OF con c calc_step_cells(2)[OF rank wf c] calc_step_new_single[OF rank wf c False]])
qed

lemma completes_distinct:
  fixes b :: "'c::len board"
  assumes rank: "rank_ok S TYPE('c)" and comp: "completes S b f"
    and cd: "valid_coord S c" "valid_coord S d" "sees c d"
  shows "cell_val S b d \<noteq> to_cell_type (f c)"
proof
  have f: "f c < S * S" "f d < S * S" using comp cd by (auto simp: completes_def filling_def)
  assume "cell_val S b d = to_cell_type (f c)"
  then have "to_cell_type (f c) = (to_cell_type (f d) :: 'c word)"
    using comp cd(2) rank_pot[OF rank f(1)] by (auto simp: completes_def)
  then have "f c = f d" using rank_glyph[OF rank f(1)] rank_glyph[OF rank f(2)] by metis
  then show False using comp cd by (auto simp: completes_def filling_def)
qed

lemma calc_step_completes:
  fixes b :: "'c::len board"
  assumes rank: "rank_ok S TYPE('c)" and wf: "wf_board S b" and c: "valid_coord S c" and comp: "completes S b f"
  shows "bit (cell_val S (calc_step S c b) c) (f c)" "completes S (calc_step S c b) f"
proof -
  let ?v = "cell_val S (calc_step S c b) c"
  have f: "f c < S * S" using comp c by (auto simp: completes_def filling_def)
  show fc: "bit ?v (f c)"
  proof (cases "is_pot (cell_val S b c)")
    case True
    then show ?thesis
      using calc_step_cells(3)[OF rank wf c] comp c rank_glyph[OF rank f] by (auto simp: completes_def)
  next
    case False
    have "cell_val S b d \<noteq> to_cell_type (f c)" if "valid_coord S d" "sees c d" for d
      by (rule completes_distinct[OF rank comp c that])
    then show ?thesis using calc_step_cells(4)[OF rank wf c False, of "f c"] f by blast
  qed
  have "f c < 32" using f rank by (simp add: rank_ok_def)
  then have "is_pot ?v \<longrightarrow> ?v = to_cell_type (f c)" using single_is_cell_type fc by blast
  then show "completes S (calc_step S c b) f"
    using comp calc_step_cells(2)[OF rank wf c] unfolding completes_def by metis
qed

lemma calculate_alternatives_fold: "calculate_alternatives S b = fold (calc_step S) (sudoku_coords S) b"
  unfolding calculate_alternatives_def for_each_coord_def coord_loop_fold
  by (rule fold_cong) (simp_all add: calc_step_def fun_eq_iff)

lemma calculate_alternatives_result:
  fixes b :: "'c::len board"
  assumes rank: "rank_ok S TYPE('c)" and wf: "wf_board S b"
  shows "wf_board S (calculate_alternatives S b) \<and> extends S b (calculate_alternatives S b) \<and>
    (consistent S b \<longrightarrow> consistent S (calculate_alternatives S b)) \<and>
    (completes S b f \<longrightarrow> completes S (calculate_alternatives S b) f \<and> admits S (calculate_alternatives S b) f)"
proof -
  have "wf_board S (fold (calc_step S) cs b) \<and> extends S b (fold (calc_step S) cs b) \<and>
      (consistent S b \<longrightarrow> consistent S (fold (calc_step S) cs b)) \<and>
      (completes S b f \<longrightarrow> completes S (fold (calc_step S) cs b) f \<and>
        (\<forall>c \<in> set cs. bit (cell_val S (fold (calc_step S) cs b) c) (f c)))"
    if "set cs \<subseteq> {c. valid_coord S c}" for cs
    using that
  proof (induction cs rule: rev_induct)
    case (snoc c cs)
    let ?b = "fold (calc_step S) cs b"
    have ih: "wf_board S ?b" "extends S b ?b" "consistent S b \<longrightarrow> consistent S ?b"
      "completes S b f \<longrightarrow> completes S ?b f \<and> (\<forall>c \<in> set cs. bit (cell_val S ?b c) (f c))"
      using snoc by auto
    have c: "valid_coord S c" using snoc by simp
    have "bit (cell_val S (calc_step S c ?b) d) (f d)" if "completes S b f" "d \<in> set (cs @ [c])" for d
      using that ih(4) calc_step_completes(1)[OF rank ih(1) c, of f] calc_step_cells(2)[OF rank ih(1) c, of d] snoc.prems
      by (cases "d = c") auto
    then show ?case
      using calc_step_cells(1)[OF rank ih(1) c] calc_step_consistent[OF rank ih(1) c]
        calc_step_completes(2)[OF rank ih(1) c, of f] ih extends_trans[OF ih(2) calc_step_extends[OF rank ih(1) c]] by simp
  qed (simp_all add: wf extends_refl)
  from this[of "sudoku_coords S"] show ?thesis
    by (simp add: set_sudoku_coords calculate_alternatives_fold admits_def)
qed

section \<open>Candidates\<close>

lemma glyph_alternatives_iff:
  fixes v :: "'c::len word"
  assumes "rank_ok S TYPE('c)"
  shows "i \<in> set (glyph_alternatives S v) \<longleftrightarrow> i < S * S \<and> bit v i"
proof -
  have "v AND to_cell_type i = to_cell_type i \<longleftrightarrow> bit v i" if "i < S * S"
  proof
    assume "v AND to_cell_type i = to_cell_type i"
    then have "bit (v AND to_cell_type i) i" using rank_glyph[OF assms that] by simp
    then show "bit v i" by (simp add: bit_and_iff)
  next
    assume "bit v i"
    then show "v AND to_cell_type i = to_cell_type i"
      using rank_glyph[OF assms that] by (intro bit_word_eqI) (auto simp: bit_and_iff)
  qed
  then show ?thesis by (auto simp: glyph_alternatives_def Let_def)
qed

lemma board_alternatives_iff:
  fixes b :: "'c::len board"
  assumes rank: "rank_ok S TYPE('c)" and wf: "wf_board S b" and c: "valid_coord S c"
  shows "cand \<in> set (board_alternatives S c b) \<longleftrightarrow>
    (\<exists>i < S * S. bit (cell_val S b c) i \<and>
       (\<forall>d. valid_coord S d \<longrightarrow> sees c d \<longrightarrow> cell_val S b d \<noteq> to_cell_type i) \<and>
       cand = calculate_alternatives S (board_set S c (to_cell_type i) b) \<and> \<not> has_empty S cand)"
proof -
  have "c \<noteq> invalid_coord S" using c by (auto simp: invalid_coord_def valid_coord.simps)
  moreover have "is_possible S (board_set S c v b) c v \<longleftrightarrow>
      (\<forall>d. valid_coord S d \<longrightarrow> sees c d \<longrightarrow> cell_val S b d \<noteq> v)" for v
    unfolding is_possible_iff[OF c] using cell_val_board_set[OF wf c] sees_ne[of c] by auto
  ultimately show ?thesis
    by (auto simp: board_alternatives_def Let_def glyph_alternatives_iff[OF rank] board_get_def split: if_splits)
qed

lemma board_alternatives_sound:
  fixes b :: "'c::len board"
  assumes rank: "rank_ok S TYPE('c)" and wf: "wf_board S b" and c: "valid_coord S c"
    and unsolved: "\<not> is_pot (cell_val S b c)" and cand: "cand \<in> set (board_alternatives S c b)"
  shows "wf_board S cand \<and> extends S b cand \<and> (consistent S b \<longrightarrow> consistent S cand) \<and>
    \<not> has_empty S cand \<and> is_pot (cell_val S cand c)"
proof -
  obtain i where i: "i < S * S" "\<And>d. valid_coord S d \<Longrightarrow> sees c d \<Longrightarrow> cell_val S b d \<noteq> to_cell_type i"
    and cand': "cand = calculate_alternatives S (board_set S c (to_cell_type i) b)" "\<not> has_empty S cand"
    using cand board_alternatives_iff[OF rank wf c] by blast
  let ?b = "board_set S c (to_cell_type i) b"
  have wf': "wf_board S ?b" by (rule wf_board_set[OF wf c rank_glyph_below[OF rank i(1)]])
  have cells: "cell_val S ?b d = (if d = c then to_cell_type i else cell_val S b d)" if "valid_coord S d" for d
    by (rule cell_val_board_set[OF wf c that])
  have ext: "extends S b ?b" unfolding extends_def using cells unsolved by auto
  have con: "consistent S ?b" if "consistent S b"
    by (rule consistent_change[OF that c]) (use cells c i(2) in auto)
  note calc = calculate_alternatives_result[OF rank wf']
  have "is_pot (cell_val S ?b c)" using cells[OF c] rank_pot[OF rank i(1)] by simp
  then have "is_pot (cell_val S cand c)" using calc c unfolding extends_def cand'(1) by metis
  then show ?thesis using calc con extends_trans[OF ext] cand' by blast
qed

lemma board_alternatives_complete:
  fixes b :: "'c::len board"
  assumes rank: "rank_ok S TYPE('c)" and wf: "wf_board S b" and c: "valid_coord S c"
    and f: "completes S b f" "admits S b f"
  shows "\<exists>cand \<in> set (board_alternatives S c b). completes S cand f \<and> admits S cand f"
proof -
  have fc: "f c < S * S" using f c by (auto simp: completes_def filling_def)
  let ?b = "board_set S c (to_cell_type (f c)) b"
  have wf': "wf_board S ?b" by (rule wf_board_set[OF wf c rank_glyph_below[OF rank fc]])
  have "completes S ?b f"
    using f(1) cell_val_board_set[OF wf c] unfolding completes_def by metis
  then have cand: "completes S (calculate_alternatives S ?b) f" "admits S (calculate_alternatives S ?b) f"
    using calculate_alternatives_result[OF rank wf'] by blast+
  then have "\<not> has_empty S (calculate_alternatives S ?b)"
    unfolding has_empty_iff admits_def by (metis bit_0_eq bot_apply bot_bool_def)
  moreover have "bit (cell_val S b c) (f c)" using f(2) c by (simp add: admits_def)
  ultimately have "calculate_alternatives S ?b \<in> set (board_alternatives S c b)"
    using board_alternatives_iff[OF rank wf c] fc completes_distinct[OF rank f(1) c] by blast
  then show ?thesis using cand by blast
qed

lemma length_concat_le: "(\<And>x. x \<in> set xs \<Longrightarrow> length (g x) \<le> 1) \<Longrightarrow> length (concat (map g xs)) \<le> length xs"
  by (induction xs) (auto, fastforce)

lemma length_board_alternatives: "length (board_alternatives S c b) \<le> S * S"
proof -
  have "length (board_alternatives S c b) \<le> length (glyph_alternatives S (board_get S c b))"
    unfolding board_alternatives_def by (auto simp: Let_def intro!: length_concat_le)
  also have "\<dots> \<le> S * S"
    unfolding glyph_alternatives_def using length_filter_le[of _ "[0..<S * S]"] by (metis diff_zero length_upt)
  finally show ?thesis .
qed

section \<open>New boards and the generator\<close>

lemma wf_board_new: "wf_board S (board_new S :: 'c::len board)"
proof -
  have "wf_board S (fold (\<lambda>c. board_set S c 0) cs b)"
    if "set cs \<subseteq> {c. valid_coord S c}" "wf_board S b" for cs and b :: "'c board"
    using that by (induction cs arbitrary: b) (simp_all add: wf_board_set)
  moreover have "wf_board S (replicate (S * S) (replicate (S * S) (0 :: 'c word)))" by (simp add: wf_board_def)
  ultimately show ?thesis
    by (simp add: board_new_def for_each_coord_def coord_loop_fold set_sudoku_coords)
qed

lemma cell_board_new:
  assumes "valid_coord S c"
  shows "cell_val S (board_new S :: 'c::len board) c = 0"
proof -
  have "wf_board S b \<Longrightarrow> cell_val S b c = 0 \<Longrightarrow> cell_val S (fold (\<lambda>c. board_set S c 0) cs b) c = 0"
    if "set cs \<subseteq> {c. valid_coord S c}" for cs and b :: "'c board"
    using that by (induction cs arbitrary: b) (simp_all add: wf_board_set cell_val_board_set[OF _ _ assms])
  moreover have "cell_val S (replicate (S * S) (replicate (S * S) (0 :: 'c word))) c = 0"
    using assms by (cases c) (simp add: cell_val.simps valid_coord.simps board_block_def block_cell_def pair_index_less)
  ultimately show ?thesis
    by (simp add: board_new_def for_each_coord_def coord_loop_fold set_sudoku_coords wf_board_def)
qed

lemma zero_not_pot [simp]: "\<not> is_pot 0"
  by (simp add: is_pot_def)

lemma consistent_new: "consistent S (board_new S)"
  by (simp add: consistent_def cell_board_new)

lemma wf_make_diagonal:
  assumes "rank_ok S TYPE('c::len)"
  shows "wf_board S (make_diagonal S :: 'c board)"
proof -
  let ?f = "\<lambda>(b, c) (result :: 'c board, g). (board_set S (b, b, c, c) (to_cell_type g) result, g + 1)"
  have "wf_board S (fst (fold ?f ps (r, g)))"
    if "wf_board S r" "g + length ps \<le> S * S" "\<forall>(b, c) \<in> set ps. b < S \<and> c < S" for ps r g
    using that
  proof (induction ps arbitrary: r g)
    case (Cons p ps)
    obtain x y where p: "p = (x, y)" by (cases p)
    have "wf_board S (board_set S (x, x, y, y) (to_cell_type g) r)"
      using Cons.prems by (intro wf_board_set rank_glyph_below[OF assms]) (auto simp: p valid_coord.simps)
    then show ?case using Cons by (auto simp: p)
  qed simp
  moreover have "length [(b, c). b \<leftarrow> [0..<S], c \<leftarrow> [0..<S]] = S * S"
    by (simp add: length_concat comp_def sum_list_triv)
  ultimately show ?thesis
    unfolding make_diagonal_def
    by (intro conjunct1[OF calculate_alternatives_result[OF assms]]) (auto simp: wf_board_new)
qed

text \<open>The number of cells with a single glyph.\<close>

definition single_count :: "nat \<Rightarrow> 'c::len board \<Rightarrow> nat" where
  "single_count S b = card {c. valid_coord S c \<and> is_pot (cell_val S b c)}"

lemma finite_valid_coord: "finite {c. valid_coord S c \<and> P c}"
proof -
  have "finite {c. valid_coord S c}" unfolding set_sudoku_coords[symmetric] by (rule finite_set)
  then show ?thesis by (rule finite_subset[rotated]) blast
qed

lemma single_count_extends:
  assumes "extends S b b'" "valid_coord S c" "\<not> is_pot (cell_val S b c)" "is_pot (cell_val S b' c)"
  shows "single_count S b < single_count S b'"
  unfolding single_count_def
proof (rule psubset_card_mono[OF finite_valid_coord])
  have "{c. valid_coord S c \<and> is_pot (cell_val S b c)} \<subseteq> {c. valid_coord S c \<and> is_pot (cell_val S b' c)}"
    using assms(1) by (auto simp: extends_def)
  then show "{c. valid_coord S c \<and> is_pot (cell_val S b c)} \<subset> {c. valid_coord S c \<and> is_pot (cell_val S b' c)}"
    using assms(2,3,4) by blast
qed

text \<open>Setting an unsolved cell to a possible glyph.\<close>

lemma set_possible:
  fixes b :: "'c::len board"
  assumes rank: "rank_ok S TYPE('c)" and wf: "wf_board S b" and c: "valid_coord S c"
    and unsolved: "\<not> is_pot (cell_val S b c)" and i: "i < S * S" "is_possible S b c (to_cell_type i)"
  defines "b' \<equiv> calculate_alternatives S (board_set S c (to_cell_type i) b)"
  shows "wf_board S b' \<and> extends S b b' \<and> (consistent S b \<longrightarrow> consistent S b') \<and> single_count S b < single_count S b'"
proof -
  let ?b = "board_set S c (to_cell_type i) b"
  have wf': "wf_board S ?b" by (rule wf_board_set[OF wf c rank_glyph_below[OF rank i(1)]])
  have cells: "cell_val S ?b d = (if d = c then to_cell_type i else cell_val S b d)" if "valid_coord S d" for d
    by (rule cell_val_board_set[OF wf c that])
  have ext: "extends S b ?b" unfolding extends_def using cells unsolved by auto
  have free: "cell_val S b d \<noteq> to_cell_type i" if "valid_coord S d" "sees c d" for d
    using i(2) that unfolding is_possible_iff[OF c] by blast
  have con: "consistent S ?b" if "consistent S b"
    by (rule consistent_change[OF that c]) (use cells c free in simp_all)
  note calc = calculate_alternatives_result[OF rank wf', folded b'_def]
  have "is_pot (cell_val S ?b c)" using cells[OF c] rank_pot[OF rank i(1)] by simp
  then have pot: "is_pot (cell_val S b' c)" using calc c unfolding extends_def by metis
  have e: "extends S b b'" using calc extends_trans[OF ext] by blast
  then show ?thesis using calc con single_count_extends[OF e c unsolved pot] by blast
qed

lemma generate_value_possible:
  assumes "generate_value S b c gd j = Some r"
  shows "is_possible S b c (to_cell_type (fst r)) \<and> (\<exists>k. fst r = gd k)"
  by (rule generate_value.raw_induct[where P = "\<lambda>S b c gd j r.
      is_possible S b c (to_cell_type (fst r)) \<and> (\<exists>k. fst r = gd k)", OF _ assms]) (auto split: if_splits)

text \<open>The inner loop does not return if no glyph is possible.\<close>

lemma generate_value_stuck:
  assumes "\<And>k. \<not> is_possible S b c (to_cell_type (gd k))"
  shows "generate_value S b c gd j = None"
  using generate_value_possible[of S b c gd j] assms by (metis not_None_eq)

lemma generate_loop_result:
  fixes b :: "'c::len board"
  assumes rank: "rank_ok S TYPE('c)" and cd: "\<And>k. cd k < S" and gd: "\<And>k. gd k < S * S"
    and run: "generate_loop S cd gd i j n b = Some r" and b: "wf_board S b" "consistent S b"
  shows "wf_board S r \<and> consistent S r \<and> single_count S b + n \<le> single_count S r"
proof -
  define P where "P = (\<lambda>S' cd' gd' (i :: nat) (j :: nat) n (b :: 'c board) (r :: 'c board). S' = S \<longrightarrow> cd' = cd \<longrightarrow> gd' = gd \<longrightarrow>
    wf_board S b \<longrightarrow> consistent S b \<longrightarrow>
    wf_board S r \<and> consistent S r \<and> single_count S b + n \<le> single_count S r)"
  have "P S cd gd i j n b r"
  proof (rule generate_loop.raw_induct[where P = P, OF _ run])
    fix f S' cd' gd' i j n b r
    assume IH: "\<And>S' cd' gd' i j n b r. f S' cd' gd' i j n b = Some r \<Longrightarrow> P S' cd' gd' i j n b r"
      and run: "(if n = 0 then Some b
        else (let c = (cd' i, cd' (i + 1), cd' (i + 2), cd' (i + 3))
            in if \<not> glyph_is_single (board_get S' c b)
               then Option.bind (generate_value S' b c gd' j) (\<lambda>(v, j').
                 f S' cd' gd' (i + 4) j' (n - 1) (calculate_alternatives S' (board_set S' c (to_cell_type v) b)))
               else f S' cd' gd' (i + 4) j n b)) = Some r"
    show "P S' cd' gd' i j n b r"
      unfolding P_def
    proof (intro impI)
      assume eq: "S' = S" "cd' = cd" "gd' = gd" and b: "wf_board S b" "consistent S b"
      let ?c = "(cd i, cd (i + 1), cd (i + 2), cd (i + 3))"
      have c: "valid_coord S ?c" using cd by (simp add: valid_coord.simps)
      consider "n = 0" "r = b" | "n \<noteq> 0" "is_pot (cell_val S b ?c)" "f S cd gd (i + 4) j n b = Some r"
        | v j' where "n \<noteq> 0" "\<not> is_pot (cell_val S b ?c)" "generate_value S b ?c gd j = Some (v, j')"
          "f S cd gd (i + 4) j' (n - 1) (calculate_alternatives S (board_set S ?c (to_cell_type v) b)) = Some r"
        using run by (auto simp: eq glyph_is_single_def board_get_def Let_def bind_eq_Some_conv split: if_splits)
      then show "wf_board S r \<and> consistent S r \<and> single_count S b + n \<le> single_count S r"
      proof cases
        case 1
        then show ?thesis using b by simp
      next
        case 2
        then show ?thesis using IH[OF 2(3)] b by (simp add: P_def)
      next
        case 3
        have "is_possible S b ?c (to_cell_type v)" "v < S * S"
          using generate_value_possible[OF 3(3)] gd by auto
        note sp = set_possible[OF rank b(1) c 3(2) this(2,1)]
        show ?thesis using IH[OF 3(4)] sp b 3(1) by (auto simp: P_def)
      qed
    qed
  qed
  then show ?thesis using b by (simp add: P_def)
qed

lemma wf_set_block:
  assumes "wf_board S b" "length block = S * S" "\<forall>v \<in> set block. glyphs_below (S * S) v"
  shows "wf_board S (set_block S x y block b)"
  using assms set_update_subset_insert[of b "y * S + x" block] by (auto simp: wf_board_def set_block_def)

lemma wf_get_block:
  assumes "wf_board S b" "x < S" "y < S"
  shows "length (get_block S x y b) = S * S \<and> (\<forall>v \<in> set (get_block S x y b). glyphs_below (S * S) v)"
proof -
  have "b ! (y * S + x) \<in> set b" using assms by (auto simp: wf_board_def pair_index_less)
  then show ?thesis using assms by (auto simp: wf_board_def get_block_def board_block_def)
qed

section \<open>Properties of boards\<close>

text \<open>
  C16. The type of boards of a rank whose glyphs fit into the cell type and into 32 bits: \<open>S * S\<close> blocks
  of \<open>S * S\<close> cells that hold only glyphs below \<open>S * S\<close>. New boards and diagonal boards have it,
  and setting a cell to a glyph, copying blocks between boards, calculating alternatives and
  making candidates keep it.
\<close>
theorem sudoku_board_type:
  assumes "rank_ok S TYPE('c::len)"
  shows "wf_board S (board_new S :: 'c board) \<and> wf_board S (make_diagonal S :: 'c board) \<and>
    (\<forall>b :: 'c board. wf_board S b \<longrightarrow> wf_board S (calculate_alternatives S b) \<and>
       (\<forall>c i. valid_coord S c \<and> i < S * S \<longrightarrow> wf_board S (board_set S c (to_cell_type i) b)) \<and>
       (\<forall>b' x y x' y'. wf_board S b' \<and> x < S \<and> y < S \<and> x' < S \<and> y' < S \<longrightarrow> wf_board S (set_block S x' y' (get_block S x y b') b)) \<and>
       (\<forall>cand \<in> set (board_alternatives S (find_unsolved S b) b). wf_board S cand))"
proof -
  have "wf_board S cand" if wf: "wf_board S b" and cand: "cand \<in> set (board_alternatives S (find_unsolved S b) b)"
    for b cand :: "'c board"
  proof -
    have "find_unsolved S b \<noteq> invalid_coord S" using cand by (auto simp: board_alternatives_def)
    then show ?thesis
      using find_unsolved_result[OF wf] board_alternatives_sound[OF assms wf _ _ cand] by blast
  qed
  moreover have "wf_board S (calculate_alternatives S b)" if "wf_board S b" for b :: "'c board"
    using calculate_alternatives_result[OF assms that] by blast
  moreover have "wf_board S (board_set S c (to_cell_type i) b)"
    if "wf_board S b" "valid_coord S c" "i < S * S" for b :: "'c board" and c i
    by (rule wf_board_set[OF that(1,2) rank_glyph_below[OF assms that(3)]])
  moreover have "wf_board S (set_block S x' y' (get_block S x y b') b)"
    if "wf_board S b" "wf_board S b'" "x < S" "y < S" for b b' :: "'c board" and x y x' y'
    using wf_set_block[OF that(1)] wf_get_block[OF that(2,3,4)] by blast
  ultimately show ?thesis using wf_board_new wf_make_diagonal[OF assms] by blast
qed

lemma sudoku_board_type_witness: "wf_board 3 (make_diagonal 3 :: 16 board)"
proof -
  have "rank_ok 3 TYPE(16)" by (simp add: rank_ok_def)
  from sudoku_board_type[OF this] show ?thesis by blast
qed

text \<open>
  C35. What the generator of boards returns, whatever the random numbers: a board without
  conflicts in blocks, rows and columns, with at least the requested number of single glyphs.
\<close>
theorem sudoku_generate_consistent:
  assumes "rank_ok S TYPE('c::len)" "\<And>k. coord_dist k < S" "\<And>k. glyph_dist k < S * S"
    "board_generate S coord_dist glyph_dist n = Some (b :: 'c board)"
  shows "wf_board S b \<and> consistent S b \<and> n \<le> single_count S b"
proof -
  let ?b = "calculate_alternatives S (board_new S) :: 'c board"
  have "wf_board S ?b" "consistent S ?b"
    using calculate_alternatives_result[OF assms(1) wf_board_new] consistent_new by blast+
  then show ?thesis
    using generate_loop_result[OF assms(1,2,3) assms(4)[unfolded board_generate_def]] by simp
qed

text \<open>All glyphs are alternatives in the cells of a new board of rank two or more.\<close>

lemma not_pot_two_bits: "bit v i \<Longrightarrow> bit v j \<Longrightarrow> i \<noteq> j \<Longrightarrow> \<not> is_pot v"
  using single_bits by blast

lemma no_single_in_new_board:
  assumes rank: "rank_ok S TYPE('c::len)" and "2 \<le> S"
  shows "valid_coord S c \<Longrightarrow> \<not> is_pot (cell_val S (calculate_alternatives S (board_new S) :: 'c board) c)"
proof -
  have "2 * 2 \<le> S * S" using assms(2) by (intro mult_le_mono)
  then have two: "0 < S * S" "1 < S * S" by linarith+
  have "wf_board S (fold (calc_step S) cs b) \<and> (\<forall>c. valid_coord S c \<longrightarrow> \<not> is_pot (cell_val S (fold (calc_step S) cs b) c))"
    if "set cs \<subseteq> {c. valid_coord S c}" "wf_board S b" "\<forall>c. valid_coord S c \<longrightarrow> \<not> is_pot (cell_val S b c)"
    for cs and b :: "'c board"
    using that
  proof (induction cs arbitrary: b)
    case (Cons c cs)
    then have c: "valid_coord S c" by simp
    note cells = calc_step_cells[OF rank Cons.prems(2) c]
    have "cell_val S b d \<noteq> to_cell_type i" if "valid_coord S d" "i < S * S" for d i
      using Cons.prems(3) that rank_pot[OF rank that(2)] by metis
    then have "bit (cell_val S (calc_step S c b) c) i" if "i < S * S" for i
      using cells(4)[of i] Cons.prems(3) c that by blast
    then have "bit (cell_val S (calc_step S c b) c) 0" "bit (cell_val S (calc_step S c b) c) 1" using two by blast+
    then have "\<not> is_pot (cell_val S (calc_step S c b) c)" using not_pot_two_bits[of _ 0 1] by simp
    then have "\<not> is_pot (cell_val S (calc_step S c b) d)" if "valid_coord S d" for d
      using cells(2)[OF that] Cons.prems(3) that by (cases "d = c") auto
    then show ?case using Cons cells(1) by simp
  qed simp
  from this[of "sudoku_coords S" "board_new S"]
  show "valid_coord S c \<Longrightarrow> \<not> is_pot (cell_val S (calculate_alternatives S (board_new S) :: 'c board) c)"
    by (simp add: calculate_alternatives_fold set_sudoku_coords wf_board_new cell_board_new)
qed

lemma sudoku_generate_consistent_witness:
  "\<exists>b :: 16 board. generate_one 3 (\<lambda>_. 1) (\<lambda>_. 7) = Some b \<and> consistent 3 b \<and> 1 \<le> single_count 3 b"
proof -
  let ?b0 = "calculate_alternatives 3 (board_new 3) :: 16 board"
  have rank: "rank_ok 3 TYPE(16)" by (simp add: rank_ok_def)
  have valid: "valid_coord 3 (1, 1, 1, 1)" by (simp add: valid_coord.simps)
  have none: "\<not> is_pot (cell_val 3 ?b0 c)" if "valid_coord 3 c" for c
    by (rule no_single_in_new_board[OF rank _ that]) simp
  have pot: "is_pot (to_cell_type 7 :: 16 word)" using rank_pot[OF rank, of 7] by simp
  have "is_possible 3 ?b0 (1, 1, 1, 1) (to_cell_type 7)"
    unfolding is_possible_iff[OF valid] using none pot by metis
  then have v: "generate_value 3 ?b0 (1, 1, 1, 1) (\<lambda>_. 7) 0 = Some (7, 1)"
    by (subst generate_value.simps) simp
  have fin: "generate_loop 3 (\<lambda>_. 1) (\<lambda>_. 7) 4 1 0 b = Some b" for b :: "16 board"
    by (subst generate_loop.simps) simp
  have "board_generate 3 (\<lambda>_. 1) (\<lambda>_. 7) 1 =
      Some (calculate_alternatives 3 (board_set 3 (1, 1, 1, 1) (to_cell_type 7) ?b0))"
    unfolding board_generate_def
    by (subst generate_loop.simps)
      (simp add: Let_def none[OF valid] glyph_is_single_def board_get_def v fin del: One_nat_def)
  then obtain b :: "16 board" where b: "board_generate 3 (\<lambda>_. 1) (\<lambda>_. 7) 1 = Some b" by blast
  from sudoku_generate_consistent[OF rank _ _ b] b show ?thesis by (simp add: generate_one_def)
qed

end
