(* ===== verification/Sudoku_Solver.thy ===== *)
theory Sudoku_Solver
  imports Sudoku
begin

text \<open>
  \<^verbatim>\<open>source/modules/eagine/utility/sudoku.cpp\<close>, the solver: a depth-first search whose open boards
  are kept in a \<^verbatim>\<open>chunk_list<board_type, 256>\<close>, used as a stack. A failed assertion and an access
  to an empty list give \<open>None\<close>.
\<close>

section \<open>The solver\<close>

record 'b solution_state =
  ss_solutions :: "'b chunk_list"
  ss_done :: bool

text \<open>Elements of chunks that hold no board are default constructed.\<close>

abbreviation solutions_push :: "nat \<Rightarrow> 'c::len board \<Rightarrow> 'c board chunk_list \<Rightarrow> 'c board chunk_list option" where
  "solutions_push S \<equiv> cl_push_back 256 (board_new S)"

definition ss_new :: "nat \<Rightarrow> 'c::len board \<Rightarrow> 'c board solution_state option" where
  "ss_new S b = map_option (\<lambda>cs. \<lparr>ss_solutions = cs, ss_done = False\<rparr>) (solutions_push S b [])"

definition ss_is_done :: "'c board solution_state \<Rightarrow> bool" where
  "ss_is_done s = (ss_done s \<or> cl_empty (ss_solutions s))"

definition ss_is_solved :: "nat \<Rightarrow> 'c::len board solution_state \<Rightarrow> bool" where
  "ss_is_solved S s = (\<not> cl_empty (ss_solutions s) \<and>
     (case cl_back (ss_solutions s) of Some b \<Rightarrow> board_is_solved S b | None \<Rightarrow> False))"

text \<open>The function that \<^verbatim>\<open>next\<close> calls for each candidate.\<close>

definition ss_add_candidate :: "nat \<Rightarrow> 'c::len board \<Rightarrow> 'c board solution_state \<Rightarrow> 'c board solution_state option" where
  "ss_add_candidate S candidate s =
     (if \<not> ss_done s
      then map_option (\<lambda>cs. \<lparr>ss_solutions = cs, ss_done = board_is_solved S candidate\<rparr>)
        (solutions_push S candidate (ss_solutions s))
      else Some s)"

fun ss_add_candidates :: "nat \<Rightarrow> 'c::len board list \<Rightarrow> 'c board solution_state \<Rightarrow> 'c board solution_state option" where
  "ss_add_candidates S [] s = Some s"
| "ss_add_candidates S (b # bs) s = Option.bind (ss_add_candidate S b s) (ss_add_candidates S bs)"

definition ss_next :: "nat \<Rightarrow> 'c::len board solution_state \<Rightarrow> 'c board solution_state option" where
  "ss_next S s =
     Option.bind (cl_back (ss_solutions s)) (\<lambda>current.
     Option.bind (cl_pop_back (board_new S) (ss_solutions s)) (\<lambda>cs.
       ss_add_candidates S (board_alternatives S (find_unsolved S current) current) (s\<lparr>ss_solutions := cs\<rparr>)))"

definition ss_reset :: "nat \<Rightarrow> 'c::len board \<Rightarrow> 'c board solution_state \<Rightarrow> 'c board solution_state option" where
  "ss_reset S b s =
     map_option (\<lambda>cs. \<lparr>ss_solutions = cs, ss_done = False\<rparr>)
       (solutions_push S b (cl_clear (board_new S) (ss_solutions s)))"

definition ss_board :: "'c board solution_state \<Rightarrow> 'c board option" where
  "ss_board s = (if cl_empty (ss_solutions s) then None else cl_back (ss_solutions s))"

partial_function (option) ss_run :: "nat \<Rightarrow> 'c::len board solution_state \<Rightarrow> 'c board solution_state option" where
  "ss_run S s = (if \<not> ss_is_done s then Option.bind (ss_next S s) (ss_run S) else Some s)"

definition sudoku_solve :: "nat \<Rightarrow> 'c::len board \<Rightarrow> 'c board option" where
  "sudoku_solve S b = Option.bind (ss_new S b) (\<lambda>s. Option.bind (ss_run S s) ss_board)"

section \<open>The search on a list of boards\<close>

text \<open>The abstract state of the search: the open boards as a list, the last one on top.\<close>

definition ss_rel :: "'c::len board solution_state \<Rightarrow> 'c board list \<Rightarrow> bool \<Rightarrow> bool" where
  "ss_rel s bs d = (cl_invar 256 (ss_solutions s) \<and> cl_list (ss_solutions s) = bs \<and> ss_done s = d)"

text \<open>Of the candidates, those behind the first solved one are not added.\<close>

fun until_solved :: "nat \<Rightarrow> 'c::len board list \<Rightarrow> 'c board list" where
  "until_solved S [] = []"
| "until_solved S (b # bs) = (if board_is_solved S b then [b] else b # until_solved S bs)"

lemma ss_rel_push:
  assumes "cl_invar 256 cs"
  shows "\<exists>cs'. solutions_push S b cs = Some cs' \<and> cl_invar 256 cs' \<and> cl_list cs' = cl_list cs @ [b]"
  using cl_push_back_result[OF assms] by simp

lemma ss_new_rel: "\<exists>s. ss_new S b = Some s \<and> ss_rel s [b] False"
  using ss_rel_push[of "[]" S b] by (auto simp: ss_new_def ss_rel_def cl_invar_def cl_list_def)

lemma ss_add_done: "ss_done s \<Longrightarrow> ss_add_candidates S bs s = Some s"
  by (induction bs) (auto simp: ss_add_candidate_def)

lemma ss_add_candidates_rel:
  assumes "ss_rel s xs False"
  shows "\<exists>s'. ss_add_candidates S bs s = Some s' \<and>
    ss_rel s' (xs @ until_solved S bs) (\<exists>b \<in> set bs. board_is_solved S b)"
  using assms
proof (induction bs arbitrary: s xs)
  case (Cons b bs)
  obtain cs where cs: "solutions_push S b (ss_solutions s) = Some cs" "cl_invar 256 cs" "cl_list cs = xs @ [b]"
    using ss_rel_push[of "ss_solutions s" S b] Cons.prems by (auto simp: ss_rel_def)
  let ?s = "\<lparr>ss_solutions = cs, ss_done = board_is_solved S b\<rparr>"
  have add: "ss_add_candidate S b s = Some ?s"
    using cs Cons.prems by (simp add: ss_add_candidate_def ss_rel_def)
  show ?case
  proof (cases "board_is_solved S b")
    case True
    then show ?thesis using add cs by (simp add: ss_add_done ss_rel_def)
  next
    case False
    then have "ss_rel ?s (xs @ [b]) False" using cs by (simp add: ss_rel_def)
    from Cons.IH[OF this] False show ?thesis using add by simp
  qed
qed auto

lemma ss_next_rel:
  assumes "ss_rel s (xs @ [b]) False"
  shows "\<exists>s'. ss_next S s = Some s' \<and>
    ss_rel s' (xs @ until_solved S (board_alternatives S (find_unsolved S b) b))
      (\<exists>c \<in> set (board_alternatives S (find_unsolved S b) b). board_is_solved S c)"
proof -
  have inv: "cl_invar 256 (ss_solutions s)" "cl_list (ss_solutions s) = xs @ [b]" using assms by (auto simp: ss_rel_def)
  obtain cs where cs: "cl_pop_back (board_new S) (ss_solutions s) = Some cs" "cl_invar 256 cs" "cl_list cs = xs"
    using cl_pop_back_result(1)[OF inv(1), of "board_new S"] inv(2) by auto
  have "cl_back (ss_solutions s) = Some b" using cl_pop_back_result(2)[OF inv(1)] inv(2) by simp
  moreover have "ss_rel (s\<lparr>ss_solutions := cs\<rparr>) xs False" using cs assms by (simp add: ss_rel_def)
  ultimately show ?thesis using cs(1) ss_add_candidates_rel by (simp add: ss_next_def)
qed

lemma ss_is_done_rel: "ss_rel s bs d \<Longrightarrow> ss_is_done s \<longleftrightarrow> d \<or> bs = []"
  by (auto simp: ss_rel_def ss_is_done_def cl_empty_iff)

lemma ss_board_rel: "ss_rel s bs d \<Longrightarrow> ss_board s = (if bs = [] then None else Some (last bs))"
  using cl_pop_back_result(2)[of 256 "ss_solutions s"]
  by (auto simp: ss_rel_def ss_board_def cl_empty_iff)

section \<open>The search terminates\<close>

text \<open>A board with \<open>u\<close> unsolved cells weighs \<open>(S * S + 1) ^ u\<close>: more than all its candidates.\<close>

definition unsolved_count :: "nat \<Rightarrow> 'c::len board \<Rightarrow> nat" where
  "unsolved_count S b = card {c. valid_coord S c \<and> \<not> is_pot (cell_val S b c)}"

definition search_weight :: "nat \<Rightarrow> 'c::len board list \<Rightarrow> nat" where
  "search_weight S bs = (\<Sum>b \<leftarrow> bs. (S * S + 1) ^ unsolved_count S b)"

lemma unsolved_count_extends:
  assumes "extends S b b'" "valid_coord S c" "\<not> is_pot (cell_val S b c)" "is_pot (cell_val S b' c)"
  shows "unsolved_count S b' < unsolved_count S b"
  unfolding unsolved_count_def
proof (rule psubset_card_mono[OF finite_valid_coord])
  have "{c. valid_coord S c \<and> \<not> is_pot (cell_val S b' c)} \<subseteq> {c. valid_coord S c \<and> \<not> is_pot (cell_val S b c)}"
    using assms(1) by (auto simp: extends_def)
  then show "{c. valid_coord S c \<and> \<not> is_pot (cell_val S b' c)} \<subset> {c. valid_coord S c \<and> \<not> is_pot (cell_val S b c)}"
    using assms(2,3,4) by blast
qed

lemma until_solved_subset: "set (until_solved S bs) \<subseteq> set bs"
  by (induction bs) auto

lemma length_until_solved: "length (until_solved S bs) \<le> length bs"
  by (induction bs) auto

lemma search_weight_candidates:
  assumes "length bs \<le> S * S" "\<And>b'. b' \<in> set bs \<Longrightarrow> unsolved_count S b' < unsolved_count S b"
  shows "search_weight S bs < (S * S + 1) ^ unsolved_count S b"
proof (cases "bs = []")
  case False
  then obtain u where u: "unsolved_count S b = Suc u"
    using assms(2) by (metis list.set_sel(1) less_nat_zero_code not0_implies_Suc)
  have le: "(S * S + 1) ^ unsolved_count S b' \<le> (S * S + 1) ^ u" if "b' \<in> set bs" for b'
    using assms(2)[OF that] u by (intro power_increasing) auto
  have "search_weight S bs \<le> (\<Sum>b' \<leftarrow> bs. (S * S + 1) ^ u)"
    unfolding search_weight_def by (rule sum_list_mono[OF le])
  also have "\<dots> = length bs * (S * S + 1) ^ u" by (simp add: sum_list_triv)
  also have "\<dots> \<le> S * S * (S * S + 1) ^ u" using assms(1) by (rule mult_le_mono1)
  also have "\<dots> < (S * S + 1) ^ unsolved_count S b" by (simp add: u)
  finally show ?thesis .
qed (simp add: search_weight_def)

section \<open>Soundness and completeness of the search\<close>

text \<open>\<open>F\<close> is the set of the fillings that the search does not lose.\<close>

definition search_inv ::
    "nat \<Rightarrow> 'c::len board \<Rightarrow> (coord \<Rightarrow> nat) set \<Rightarrow> 'c board list \<Rightarrow> bool \<Rightarrow> bool" where
  "search_inv S b0 F bs d =
     ((\<forall>b \<in> set bs. wf_board S b \<and> consistent S b \<and> extends S b0 b) \<and>
      (d \<longrightarrow> bs \<noteq> [] \<and> board_is_solved S (last bs)) \<and>
      (\<not> d \<longrightarrow> (\<forall>b \<in> set bs. \<not> board_is_solved S b) \<and>
         (\<forall>f \<in> F. \<exists>b \<in> set bs. completes S b f \<and> admits S b f)))"

lemma until_solved_last:
  "\<exists>b \<in> set bs. board_is_solved S b \<Longrightarrow> until_solved S bs \<noteq> [] \<and> board_is_solved S (last (until_solved S bs))"
  by (induction bs) auto

lemma until_solved_none: "\<forall>b \<in> set bs. \<not> board_is_solved S b \<Longrightarrow> until_solved S bs = bs"
  by (induction bs) auto

lemma candidates_result:
  fixes b :: "'c::len board"
  assumes rank: "rank_ok S TYPE('c)" and wf: "wf_board S b" and cand: "b' \<in> set (board_alternatives S (find_unsolved S b) b)"
  shows "wf_board S b' \<and> extends S b b' \<and> (consistent S b \<longrightarrow> consistent S b') \<and> unsolved_count S b' < unsolved_count S b"
proof -
  let ?c = "find_unsolved S b"
  have "?c \<noteq> invalid_coord S" using cand by (auto simp: board_alternatives_def)
  then have c: "valid_coord S ?c" "\<not> is_pot (cell_val S b ?c)" using find_unsolved_result[OF wf] by auto
  show ?thesis
    using board_alternatives_sound[OF rank wf c cand] unsolved_count_extends[of S b b' ?c] c by blast
qed

lemma candidates_complete:
  fixes b :: "'c::len board"
  assumes rank: "rank_ok S TYPE('c)" and wf: "wf_board S b" and open_: "\<not> board_is_solved S b"
    and f: "completes S b f" "admits S b f"
  shows "\<exists>b' \<in> set (board_alternatives S (find_unsolved S b) b). completes S b' f \<and> admits S b' f"
proof -
  have "\<exists>c. valid_coord S c \<and> cell_val S b c \<noteq> 0 \<and> \<not> is_pot (cell_val S b c)"
    using open_ f(2) unfolding board_is_solved_iff admits_def by (metis bit_0_eq bot_apply bot_bool_def)
  then have "valid_coord S (find_unsolved S b)" using find_unsolved_result[OF wf] by blast
  from board_alternatives_complete[OF rank wf this f] show ?thesis .
qed

text \<open>One step of the search keeps the invariant.\<close>

lemma search_step:
  fixes b0 :: "'c::len board"
  assumes rank: "rank_ok S TYPE('c)" and inv: "search_inv S b0 F (xs @ [b]) False"
  defines "cands \<equiv> board_alternatives S (find_unsolved S b) b"
  shows "search_inv S b0 F (xs @ until_solved S cands) (\<exists>c \<in> set cands. board_is_solved S c)"
    "search_weight S (xs @ until_solved S cands) < search_weight S (xs @ [b])"
proof -
  have b: "wf_board S b" "consistent S b" "extends S b0 b" "\<not> board_is_solved S b"
    using inv by (auto simp: search_inv_def)
  have cands: "wf_board S c \<and> extends S b c \<and> consistent S c \<and> unsolved_count S c < unsolved_count S b"
    if "c \<in> set cands" for c
    using candidates_result[OF rank b(1)] that b(2) unfolding cands_def by blast
  have all: "\<forall>c \<in> set (xs @ until_solved S cands). wf_board S c \<and> consistent S c \<and> extends S b0 c"
    using inv cands until_solved_subset[of S cands] extends_trans[OF b(3)] by (auto simp: search_inv_def)
  show "search_inv S b0 F (xs @ until_solved S cands) (\<exists>c \<in> set cands. board_is_solved S c)"
  proof (cases "\<exists>c \<in> set cands. board_is_solved S c")
    case True
    then show ?thesis using all until_solved_last[OF True] by (simp add: search_inv_def)
  next
    case False
    have "\<exists>c \<in> set (xs @ cands). completes S c f \<and> admits S c f" if "f \<in> F" for f
    proof -
      have "\<exists>c \<in> set (xs @ [b]). completes S c f \<and> admits S c f" using inv that by (simp add: search_inv_def)
      then consider c where "c \<in> set xs" "completes S c f" "admits S c f" | "completes S b f" "admits S b f" by auto
      then show ?thesis
      proof cases
        case 2
        from candidates_complete[OF rank b(1,4) 2] show ?thesis by (auto simp: cands_def)
      qed auto
    qed
    moreover have "until_solved S cands = cands" using False by (intro until_solved_none) blast
    ultimately show ?thesis using all False inv unfolding search_inv_def by auto
  qed
  have "search_weight S (until_solved S cands) < (S * S + 1) ^ unsolved_count S b"
  proof (rule search_weight_candidates)
    show "length (until_solved S cands) \<le> S * S"
      using length_until_solved[of S cands] length_board_alternatives[of S] unfolding cands_def by (rule order_trans)
  qed (use cands until_solved_subset[of S cands] in blast)
  then show "search_weight S (xs @ until_solved S cands) < search_weight S (xs @ [b])"
    by (simp add: search_weight_def)
qed

lemma ss_run_result:
  fixes b0 :: "'c::len board"
  assumes rank: "rank_ok S TYPE('c)" and "ss_rel s bs d" "search_inv S b0 F bs d"
  shows "\<exists>s' bs' d'. ss_run S s = Some s' \<and> ss_rel s' bs' d' \<and> search_inv S b0 F bs' d' \<and> (d' \<or> bs' = [])"
  using assms(2,3)
proof (induction "search_weight S bs" arbitrary: s bs d rule: less_induct)
  case less
  show ?case
  proof (cases "d \<or> bs = []")
    case True
    then have "ss_run S s = Some s" using ss_is_done_rel[OF less.prems(1)] by (subst ss_run.simps) simp
    then show ?thesis using less.prems True by blast
  next
    case False
    then obtain xs b where bs: "bs = xs @ [b]" by (meson rev_exhaust)
    have d: "\<not> d" using False by simp
    let ?cands = "board_alternatives S (find_unsolved S b) b"
    obtain s' where s': "ss_next S s = Some s'"
      "ss_rel s' (xs @ until_solved S ?cands) (\<exists>c \<in> set ?cands. board_is_solved S c)"
      using ss_next_rel[of s xs b S] less.prems(1) d by (auto simp: bs)
    have inv: "search_inv S b0 F (xs @ [b]) False" using less.prems(2) d by (simp add: bs)
    from less.hyps[OF _ s'(2) search_step(1)[OF rank inv]] search_step(2)[OF rank inv]
    obtain s'' bs'' d'' where r: "ss_run S s' = Some s''" "ss_rel s'' bs'' d''" "search_inv S b0 F bs'' d''" "d'' \<or> bs'' = []"
      unfolding bs by blast
    have "\<not> ss_is_done s" using ss_is_done_rel[OF less.prems(1)] False by simp
    then have "ss_run S s = ss_run S s'" using s'(1) by (subst ss_run.simps) simp
    then show ?thesis using r by auto
  qed
qed

text \<open>A solved board without conflicts is a filling.\<close>

lemma solved_completes:
  fixes r :: "'c::len board"
  assumes rank: "rank_ok S TYPE('c)" and r: "wf_board S r" "consistent S r" "board_is_solved S r" "extends S b0 r"
  shows "\<exists>f. completes S b0 f"
proof -
  define f where "f = (\<lambda>c. SOME i. i < S * S \<and> cell_val S r c = to_cell_type i)"
  have f: "f c < S * S \<and> cell_val S r c = to_cell_type (f c)" if c: "valid_coord S c" for c
  proof -
    have "is_pot (cell_val S r c)" using r(3) c by (simp add: board_is_solved_iff)
    then obtain i where "i < S * S \<and> cell_val S r c = to_cell_type i"
      using rank_single[OF rank _ wf_cell[OF r(1) c]] by metis
    then show ?thesis unfolding f_def by (rule someI)
  qed
  have "f c \<noteq> f d" if "valid_coord S c" "valid_coord S d" "sees c d" for c d
  proof -
    have "is_pot (cell_val S r c)" using r(3) that(1) by (simp add: board_is_solved_iff)
    then have "cell_val S r c \<noteq> cell_val S r d" using r(2) that unfolding consistent_def by blast
    then show ?thesis using f[OF that(1)] f[OF that(2)] by auto
  qed
  then have "completes S b0 f" using f r(4) unfolding completes_def filling_def extends_def by metis
  then show ?thesis by blast
qed

section \<open>Properties of the solver\<close>

lemma open_board_inv:
  fixes b :: "'c::len board"
  assumes "wf_board S b" "consistent S b" "extends S b0 b" "\<not> board_is_solved S b"
    "\<And>f. f \<in> F \<Longrightarrow> completes S b f \<and> admits S b f"
  shows "search_inv S b0 F [b] False"
  using assms by (auto simp: search_inv_def)

text \<open>
  C1. The solver is sound and complete: for every board without conflicts whose alternatives are
  calculated and which this calculation alone does not solve, \<^verbatim>\<open>solve\<close> returns a board exactly
  if the given glyphs can be completed to a filling of the whole board by the rules; the returned
  board is solved, has no conflicts and keeps the given glyphs.
\<close>
theorem sudoku_solver_correct:
  assumes "rank_ok S TYPE('c::len)" "wf_board S (b0 :: 'c board)" "consistent S b0"
    "\<not> board_is_solved S (calculate_alternatives S b0)"
  shows "((\<exists>r. sudoku_solve S (calculate_alternatives S b0) = Some r) \<longleftrightarrow> (\<exists>f. completes S b0 f)) \<and>
    (\<forall>r. sudoku_solve S (calculate_alternatives S b0) = Some r \<longrightarrow>
       board_is_solved S r \<and> consistent S r \<and> wf_board S r \<and> extends S b0 r)"
proof -
  let ?b = "calculate_alternatives S b0" and ?F = "{f. completes S b0 f}"
  have calc: "wf_board S ?b" "consistent S ?b" "extends S b0 ?b"
    "\<And>f. completes S b0 f \<Longrightarrow> completes S ?b f \<and> admits S ?b f"
    using calculate_alternatives_result[OF assms(1,2)] assms(3) by blast+
  obtain s where s: "ss_new S ?b = Some s" "ss_rel s [?b] False" using ss_new_rel by blast
  have "search_inv S b0 ?F [?b] False" using calc assms(4) by (intro open_board_inv) auto
  from ss_run_result[OF assms(1) s(2) this]
  obtain s' bs d where r: "ss_run S s = Some s'" "ss_rel s' bs d" "search_inv S b0 ?F bs d" "d \<or> bs = []"
    by blast
  have run: "sudoku_solve S ?b = (if bs = [] then None else Some (last bs))"
    using s(1) r(1) ss_board_rel[OF r(2)] by (simp add: sudoku_solve_def)
  have ok: "board_is_solved S r \<and> consistent S r \<and> wf_board S r \<and> extends S b0 r"
    if "sudoku_solve S ?b = Some r" for r
  proof -
    have "bs \<noteq> []" "r = last bs" using that run by (auto split: if_splits)
    then show ?thesis using r(3,4) by (auto simp: search_inv_def)
  qed
  have "bs \<noteq> []" if "completes S b0 f" for f using r(3,4) that by (auto simp: search_inv_def)
  then have "(\<exists>r. sudoku_solve S ?b = Some r) \<longleftrightarrow> (\<exists>f. completes S b0 f)"
    using run ok solved_completes[OF assms(1)] by (metis option.distinct(1))
  then show ?thesis using ok by blast
qed

text \<open>Glyphs of a board of rank two.\<close>

definition filling_2 :: "coord \<Rightarrow> nat" where
  "filling_2 = (\<lambda>(bx, by, cx, cy). (2 * cy + by + 2 * bx + cx) mod 4)"

lemma filling_2_filling: "filling 2 filling_2"
proof -
  have "list_all (\<lambda>c. filling_2 c < 4 \<and> list_all (\<lambda>d. sees c d \<longrightarrow> filling_2 c \<noteq> filling_2 d) (sudoku_coords 2)) (sudoku_coords 2)"
    by code_simp
  then show ?thesis by (simp add: filling_def list_all_iff set_sudoku_coords)
qed

lemma sudoku_solver_correct_witness:
  "\<exists>r :: 8 board. sudoku_solve 2 (calculate_alternatives 2 (board_new 2)) = Some r \<and>
     board_is_solved 2 r \<and> consistent 2 r"
proof -
  have rank: "rank_ok 2 TYPE(8)" by (simp add: rank_ok_def)
  have "valid_coord 2 (0, 0, 0, 0)" by (simp add: valid_coord.simps)
  then have "\<not> board_is_solved 2 (calculate_alternatives 2 (board_new 2) :: 8 board)"
    using no_single_in_new_board[OF rank, of "(0, 0, 0, 0)"] unfolding board_is_solved_iff by blast
  note correct = sudoku_solver_correct[OF rank wf_board_new consistent_new this]
  have "completes 2 (board_new 2 :: 8 board) filling_2"
    unfolding completes_def using filling_2_filling cell_board_new zero_not_pot by metis
  then obtain r :: "8 board" where "sudoku_solve 2 (calculate_alternatives 2 (board_new 2)) = Some r"
    using correct by blast
  then show ?thesis using correct by blast
qed

text \<open>
  C19. The search of the solver ends for every board without conflicts: it comes to a state that is
  done, without an access to an empty list on the way.
\<close>
theorem sudoku_solver_terminates:
  assumes "rank_ok S TYPE('c::len)" "wf_board S (b :: 'c board)" "consistent S b"
  shows "\<exists>s s'. ss_new S b = Some s \<and> ss_run S s = Some s' \<and> ss_is_done s'"
proof -
  obtain s where s: "ss_new S b = Some s" "ss_rel s [b] False" using ss_new_rel by blast
  show ?thesis
  proof (cases "board_is_solved S b")
    case False
    have "search_inv S b {} [b] False" by (rule open_board_inv[OF assms(2,3) extends_refl False]) simp
    from ss_run_result[OF assms(1) s(2) this] ss_is_done_rel s(1) show ?thesis by blast
  next
    case True
    then have "find_unsolved S b = invalid_coord S"
      using find_unsolved_result[OF assms(2)] by (auto simp: board_is_solved_iff)
    then obtain s1 where s1: "ss_next S s = Some s1" "ss_rel s1 [] False"
      using ss_next_rel[of s "[]" b S] s(2) by (auto simp: board_alternatives_def)
    then have "ss_run S s1 = Some s1" "ss_is_done s1"
      using ss_is_done_rel[OF s1(2)] by (subst ss_run.simps, simp_all)
    moreover have "ss_run S s = ss_run S s1"
      using ss_is_done_rel[OF s(2)] s1(1) by (subst ss_run.simps) simp
    ultimately show ?thesis using s(1) by auto
  qed
qed

lemma sudoku_solver_terminates_witness:
  "\<exists>s s'. ss_new 3 (board_new 3 :: 16 board) = Some s \<and> ss_run 3 s = Some s' \<and> ss_is_done s'"
proof -
  have "rank_ok 3 TYPE(16)" by (simp add: rank_ok_def)
  from sudoku_solver_terminates[OF this wf_board_new consistent_new] show ?thesis .
qed

text \<open>
  A board that is solved from the start (or by the calculation of its alternatives) cannot be
  passed to the solver: the first step removes it without looking whether it is solved, and the
  assertion of \<^verbatim>\<open>board\<close> that there is a board fails.
\<close>
theorem sudoku_solve_solved_board:
  assumes "wf_board S (b :: 'c::len board)" "board_is_solved S b"
  shows "sudoku_solve S b = None"
proof -
  obtain s where s: "ss_new S b = Some s" "ss_rel s [b] False" using ss_new_rel by blast
  have "find_unsolved S b = invalid_coord S"
    using find_unsolved_result[OF assms(1)] assms(2) by (auto simp: board_is_solved_iff)
  then obtain s1 where s1: "ss_next S s = Some s1" "ss_rel s1 [] False"
    using ss_next_rel[of s "[]" b S] s(2) by (auto simp: board_alternatives_def)
  have "ss_run S s1 = Some s1" using ss_is_done_rel[OF s1(2)] by (subst ss_run.simps) simp
  then have "ss_run S s = Some s1"
    using ss_is_done_rel[OF s(2)] s1(1) by (subst ss_run.simps) simp
  then show ?thesis using s(1) ss_board_rel[OF s1(2)] by (simp add: sudoku_solve_def)
qed

lemma sudoku_solve_solved_board_witness:
  "sudoku_solve 2 ([[1, 2, 4, 8], [4, 8, 1, 2], [2, 1, 8, 4], [8, 4, 2, 1]] :: 8 board) = None"
proof -
  let ?b = "[[1, 2, 4, 8], [4, 8, 1, 2], [2, 1, 8, 4], [8, 4, 2, 1]] :: 8 board"
  have bits: "glyphs_below 4 (2 ^ k :: 8 word)" if "k < 4" for k
    using that by (auto simp: glyphs_below_def bit_simps)
  have "wf_board 2 ?b" using bits[of 0] bits[of 1] bits[of 2] bits[of 3] by (simp add: wf_board_def)
  moreover have "board_is_solved 2 ?b" by code_simp
  ultimately show ?thesis by (rule sudoku_solve_solved_board)
qed

end
