(* ===== verification/Sudoku_Tiling.thy ===== *)
theory Sudoku_Tiling
  imports Sudoku_Solver Flat_Map "HOL-Library.Product_Lexorder" "HOL-Library.Signed_Division"
begin

text \<open>
  \<^verbatim>\<open>source/modules/eagine/utility/sudoku.cpp\<close>, the tiling: boards at integer coordinates that share
  blocks with their neighbours, solved step by step as they are asked for, and patches that are
  filled with the glyphs of the boards. The boards are in a \<^verbatim>\<open>flat_map\<close>, a tile is a search or a
  finished board. The references that \<^verbatim>\<open>_get\<close> returns are modelled by the boards themselves: they
  are used only when both neighbours are finished boards, and then no tile was added in between.
\<close>

section \<open>Tiles\<close>

datatype 'b tile = Tile_solution "'b solution_state" | Tile_board 'b

type_synonym 'b tile_map = "(int \<times> int, 'b tile) flat_map"

text \<open>The loops that copy blocks of a neighbour: within the block column \<open>tx\<close> from the column \<open>sx\<close>,
  and within the block row \<open>ty\<close> from the row \<open>sy\<close>.\<close>

definition copy_column :: "nat \<Rightarrow> nat \<Rightarrow> nat \<Rightarrow> nat list \<Rightarrow> 'c board \<Rightarrow> 'c board \<Rightarrow> 'c board" where
  "copy_column S tx sx rows from added =
     fold (\<lambda>y b. set_block S tx y (get_block S sx y from) b) rows added"

definition copy_row :: "nat \<Rightarrow> nat \<Rightarrow> nat \<Rightarrow> nat list \<Rightarrow> 'c board \<Rightarrow> 'c board \<Rightarrow> 'c board" where
  "copy_row S ty sy cols from added =
     fold (\<lambda>x b. set_block S x ty (get_block S x sy from) b) cols added"

definition tile_do_enqueue :: "nat \<Rightarrow> int \<Rightarrow> int \<Rightarrow> 'c::len board \<Rightarrow> 'c board tile_map \<Rightarrow> 'c board tile_map option" where
  "tile_do_enqueue S x y b m =
     map_option (\<lambda>s. snd (fm_emplace (<) (x, y) (Tile_solution s) m)) (ss_new S (calculate_alternatives S b))"

definition with_one :: "'b option \<times> 'm \<Rightarrow> ('b \<Rightarrow> 'm \<Rightarrow> 'm option) \<Rightarrow> 'm option" where
  "with_one r f = (case r of (Some b, m) \<Rightarrow> f b m | (None, m) \<Rightarrow> Some m)"

definition with_both :: "'b option \<Rightarrow> 'b option \<times> 'm \<Rightarrow> ('b \<Rightarrow> 'b \<Rightarrow> 'm \<Rightarrow> 'm option) \<Rightarrow> 'm option" where
  "with_both l r f = (case (l, r) of (Some a, (Some b, m)) \<Rightarrow> f a b m | (_, (_, m)) \<Rightarrow> Some m)"

function tile_get :: "nat \<Rightarrow> int \<Rightarrow> int \<Rightarrow> 'c::len board tile_map \<Rightarrow> ('c board option \<times> 'c board tile_map) option"
  and tile_enqueue :: "nat \<Rightarrow> int \<Rightarrow> int \<Rightarrow> 'c::len board tile_map \<Rightarrow> 'c board tile_map option" where
  "tile_get S x y m =
     (let pos = fm_find (<) m (x, y)
      in if pos \<noteq> length m
         then (case snd (m ! pos) of
             Tile_board b \<Rightarrow> Some (Some b, m)
           | Tile_solution s \<Rightarrow>
               if ss_is_done s
               then (if ss_is_solved S s
                     then map_option (\<lambda>b. (None, m[pos := (fst (m ! pos), Tile_board b)])) (ss_board s)
                     else map_option (\<lambda>(_, m'). (None, m')) (fm_erase_at pos m))
               else map_option (\<lambda>s'. (None, m[pos := (fst (m ! pos), Tile_solution s')])) (ss_next S s))
         else map_option (Pair None) (tile_enqueue S x y m))"
| "tile_enqueue S x y m =
     (let added = board_new S
      in if y > 0 then
           if x > 0 then
             Option.bind (tile_get S (x - 1) y m) (\<lambda>(l, m1).
             Option.bind (tile_get S x (y - 1) m1) (\<lambda>r.
               with_both l r (\<lambda>l d. tile_do_enqueue S x y
                 (copy_row S (S - 1) 0 [1..<S] d (copy_column S 0 (S - 1) [0..<S - 1] l added)))))
           else if x < 0 then
             Option.bind (tile_get S (x + 1) y m) (\<lambda>(r, m1).
             Option.bind (tile_get S x (y - 1) m1) (\<lambda>d.
               with_both r d (\<lambda>r d. tile_do_enqueue S x y
                 (copy_row S (S - 1) 0 [0..<S - 1] d (copy_column S (S - 1) 0 [0..<S - 1] r added)))))
           else
             Option.bind (tile_get S x (y - 1) m) (\<lambda>d.
               with_one d (\<lambda>d. tile_do_enqueue S x y (copy_row S (S - 1) 0 [0..<S] d added)))
         else if y < 0 then
           if x > 0 then
             Option.bind (tile_get S (x - 1) y m) (\<lambda>(l, m1).
             Option.bind (tile_get S x (y + 1) m1) (\<lambda>u.
               with_both l u (\<lambda>l u. tile_do_enqueue S x y
                 (copy_row S 0 (S - 1) [1..<S] u (copy_column S 0 (S - 1) [1..<S] l added)))))
           else if x < 0 then
             Option.bind (tile_get S (x + 1) y m) (\<lambda>(r, m1).
             Option.bind (tile_get S x (y + 1) m1) (\<lambda>u.
               with_both r u (\<lambda>r u. tile_do_enqueue S x y
                 (copy_row S 0 (S - 1) [0..<S - 1] u (copy_column S (S - 1) 0 [1..<S] r added)))))
           else
             Option.bind (tile_get S x (y + 1) m) (\<lambda>u.
               with_one u (\<lambda>u. tile_do_enqueue S x y (copy_row S 0 (S - 1) [0..<S] u added)))
         else if x > 0 then
           Option.bind (tile_get S (x - 1) y m) (\<lambda>l.
             with_one l (\<lambda>l. tile_do_enqueue S x y (copy_column S 0 (S - 1) [0..<S] l added)))
         else if x < 0 then
           Option.bind (tile_get S (x + 1) y m) (\<lambda>r.
             with_one r (\<lambda>r. tile_do_enqueue S x y (copy_column S (S - 1) 0 [0..<S] r added)))
         else Some m)"
  by pat_completeness auto
termination
  by (relation "measure (\<lambda>a. case a of Inl (S, x, y, m) \<Rightarrow> 2 * nat (\<bar>x\<bar> + \<bar>y\<bar>) + 1
      | Inr (S, x, y, m) \<Rightarrow> 2 * nat (\<bar>x\<bar> + \<bar>y\<bar>))") auto

declare tile_get.simps [simp del] tile_enqueue.simps [simp del]

section \<open>The tiling\<close>

definition tiling_new_from :: "nat \<Rightarrow> 'c::len board \<Rightarrow> 'c board tile_map option" where
  "tiling_new_from S b = tile_do_enqueue S 0 0 b []"

definition tiling_new :: "nat \<Rightarrow> 'c::len board tile_map option" where
  "tiling_new S = tile_do_enqueue S 0 0 (make_diagonal S) []"

fun tile_get_all :: "nat \<Rightarrow> (int \<times> int) list \<Rightarrow> 'c::len board tile_map \<Rightarrow> 'c board tile_map option" where
  "tile_get_all S [] m = Some m"
| "tile_get_all S ((x, y) # ps) m = Option.bind (tile_get S x y m) (\<lambda>(_, m'). tile_get_all S ps m')"

definition tiling_generate :: "nat \<Rightarrow> int \<Rightarrow> int \<Rightarrow> int \<Rightarrow> int \<Rightarrow> 'c::len board tile_map \<Rightarrow> 'c board tile_map option" where
  "tiling_generate S xmin ymin xmax ymax m = tile_get_all S [(x, y). y \<leftarrow> [ymin..ymax], x \<leftarrow> [xmin..xmax]] m"

section \<open>Patches\<close>

record tile_patch =
  patch_width :: nat
  patch_height :: nat
  patch_cells :: "byte list"

definition tile_patch_new :: "nat \<Rightarrow> nat \<Rightarrow> nat \<Rightarrow> tile_patch option" where
  "tile_patch_new S w h =
     (let M = S * (S - 2);
          width = (if w mod M \<noteq> 0 then (1 + w div M) * M else w);
          height = (if h mod M \<noteq> 0 then (1 + w div M) * M else h)
      in if width > 0 \<and> height > 0
         then Some \<lparr>patch_width = width, patch_height = height, patch_cells = replicate (width * height) 0\<rparr>
         else None)"

definition patch_get :: "nat \<Rightarrow> nat \<Rightarrow> tile_patch \<Rightarrow> nat option" where
  "patch_get x y p =
     (if x < patch_width p \<and> y < patch_height p
      then Some (unat (patch_cells p ! (y * patch_width p + x))) else None)"

definition patch_get_glyph :: "nat \<Rightarrow> nat \<Rightarrow> tile_patch \<Rightarrow> 'c::len word option" where
  "patch_get_glyph x y p = map_option to_cell_type (patch_get x y p)"

definition patch_print :: "nat \<Rightarrow> board_traits \<Rightarrow> 'c::len itself \<Rightarrow> tile_patch \<Rightarrow> string" where
  "patch_print S tr _ p =
     concat (map (\<lambda>y. concat (map (\<lambda>x.
         glyph_print S tr (to_cell_type (unat (patch_cells p ! (y * patch_width p + x))) :: 'c word))
       [0..<patch_width p]) @ [CHR 0x0A]) [0..<patch_height p])"

text \<open>The division of \<^verbatim>\<open>int\<close> truncates.\<close>

definition flr_div :: "int \<Rightarrow> int \<Rightarrow> int" where
  "flr_div num den =
     (if num * den > 0 then num sdiv den
      else if num smod den \<noteq> 0 then num sdiv den - 1 else num sdiv den)"

definition pos_mod :: "int \<Rightarrow> int \<Rightarrow> int" where
  "pos_mod num den = (num smod den + den) smod den"

definition patch_cell_coord :: "int \<Rightarrow> int \<Rightarrow> tile_patch \<Rightarrow> nat \<Rightarrow> int \<times> int" where
  "patch_cell_coord xmin ymin p k = (xmin + int (k mod patch_width p), ymin + int (k div patch_width p))"

definition patch_board_coord :: "nat \<Rightarrow> int \<Rightarrow> int \<Rightarrow> int \<times> int" where
  "patch_board_coord S kx ky =
     (let cell_per_side = int S * int (S - 1) in (flr_div kx cell_per_side, flr_div ky cell_per_side))"

definition patch_in_board_coord :: "nat \<Rightarrow> int \<Rightarrow> int \<Rightarrow> coord" where
  "patch_in_board_coord S kx ky =
     (nat (pos_mod (flr_div kx (int S)) (int (S - 1))), nat (pos_mod (flr_div ky (int S)) (int (S - 1))),
      nat (pos_mod kx (int S)), nat (pos_mod ky (int S)))"

definition patch_is_done :: "tile_patch \<Rightarrow> nat \<Rightarrow> bool" where
  "patch_is_done p k = (\<not> k < length (patch_cells p))"

text \<open>\<^verbatim>\<open>next\<close> of the fill state: the patch, the position and the tiling it refers to.\<close>

definition patch_next ::
    "nat \<Rightarrow> int \<Rightarrow> int \<Rightarrow> tile_patch \<times> nat \<times> 'c::len board tile_map \<Rightarrow> (tile_patch \<times> nat \<times> 'c board tile_map) option" where
  "patch_next S xmin ymin =
     (\<lambda>(p, k, m).
        (let (gx, gy) = patch_cell_coord xmin ymin p k; (x, y) = patch_board_coord S gx gy
         in Option.bind (tile_get S x y m) (\<lambda>(board, m').
              case board of None \<Rightarrow> Some (p, k, m')
              | Some b \<Rightarrow>
                  Option.bind (glyph_get_index S (board_get S (patch_in_board_coord S gx gy) b)) (\<lambda>i.
                    if i < 256
                    then Some (p\<lparr>patch_cells := (patch_cells p)[k := of_nat i]\<rparr>, k + 1, m') else None))))"

partial_function (option) patch_fill_loop ::
    "nat \<Rightarrow> int \<Rightarrow> int \<Rightarrow> tile_patch \<times> nat \<times> 'c::len board tile_map \<Rightarrow> (tile_patch \<times> nat \<times> 'c board tile_map) option" where
  "patch_fill_loop S xmin ymin st =
     (if \<not> patch_is_done (fst st) (fst (snd st))
      then Option.bind (patch_next S xmin ymin st) (patch_fill_loop S xmin ymin) else Some st)"

definition patch_fill ::
    "nat \<Rightarrow> int \<Rightarrow> int \<Rightarrow> tile_patch \<Rightarrow> 'c::len board tile_map \<Rightarrow> (tile_patch \<times> 'c board tile_map) option" where
  "patch_fill S xmin ymin p m = map_option (\<lambda>(p, k, m). (p, m)) (patch_fill_loop S xmin ymin (p, 0, m))"

section \<open>The geometry of the copied blocks\<close>

text \<open>
  The neighbours towards the origin of the board at \<open>(x, y)\<close> are \<open>(x - sgn x, y)\<close> and
  \<open>(x, y - sgn y)\<close>. The block column \<open>tile_tx\<close> is that of the first one's \<open>tile_sx\<close>, in the rows
  \<open>tile_rows\<close>; the block row \<open>tile_ty\<close> is that of the second one's \<open>tile_sy\<close>, in the columns
  \<open>tile_cols\<close>. Away from the axes the corner between the two is not shared.
\<close>

definition tile_tx :: "nat \<Rightarrow> int \<Rightarrow> nat" where "tile_tx S x = (if x > 0 then 0 else S - 1)"
definition tile_sx :: "nat \<Rightarrow> int \<Rightarrow> nat" where "tile_sx S x = (if x > 0 then S - 1 else 0)"
definition tile_ty :: "nat \<Rightarrow> int \<Rightarrow> nat" where "tile_ty S y = (if y > 0 then S - 1 else 0)"
definition tile_sy :: "nat \<Rightarrow> int \<Rightarrow> nat" where "tile_sy S y = (if y > 0 then 0 else S - 1)"

definition tile_rows :: "nat \<Rightarrow> int \<Rightarrow> int \<Rightarrow> nat list" where
  "tile_rows S x y = (if x = 0 then [] else if y = 0 then [0..<S] else if y > 0 then [0..<S - 1] else [1..<S])"

definition tile_cols :: "nat \<Rightarrow> int \<Rightarrow> int \<Rightarrow> nat list" where
  "tile_cols S x y = (if y = 0 then [] else if x = 0 then [0..<S] else if x > 0 then [1..<S] else [0..<S - 1])"

lemmas tile_geometry_defs = tile_tx_def tile_sx_def tile_ty_def tile_sy_def tile_rows_def tile_cols_def

lemma tile_geometry:
  assumes "0 < S"
  shows "tile_tx S x < S" "tile_sx S x < S" "tile_ty S y < S" "tile_sy S y < S"
    "set (tile_rows S x y) \<subseteq> {..<S}" "set (tile_cols S x y) \<subseteq> {..<S}"
    "x \<noteq> 0 \<Longrightarrow> y \<noteq> 0 \<Longrightarrow> tile_ty S y \<notin> set (tile_rows S x y)"
    "x \<noteq> 0 \<Longrightarrow> y \<noteq> 0 \<Longrightarrow> tile_tx S x \<notin> set (tile_cols S x y)"
  using assms by (auto simp: tile_geometry_defs)

text \<open>The board that is enqueued.\<close>

definition tile_added :: "nat \<Rightarrow> int \<Rightarrow> int \<Rightarrow> 'c::len board \<Rightarrow> 'c board \<Rightarrow> 'c board" where
  "tile_added S x y l d =
     copy_row S (tile_ty S y) (tile_sy S y) (tile_cols S x y) d
       (copy_column S (tile_tx S x) (tile_sx S x) (tile_rows S x y) l (board_new S))"

lemma tile_enqueue_shape:
  "tile_enqueue S x y m =
     (if x \<noteq> 0 \<and> y \<noteq> 0 then
        Option.bind (tile_get S (x - sgn x) y m) (\<lambda>(l, m1).
        Option.bind (tile_get S x (y - sgn y) m1) (\<lambda>r.
          with_both l r (\<lambda>l d. tile_do_enqueue S x y (tile_added S x y l d))))
      else if x \<noteq> 0 then
        Option.bind (tile_get S (x - sgn x) y m) (\<lambda>r. with_one r (\<lambda>l. tile_do_enqueue S x y (tile_added S x y l l)))
      else if y \<noteq> 0 then
        Option.bind (tile_get S x (y - sgn y) m) (\<lambda>r. with_one r (\<lambda>d. tile_do_enqueue S x y (tile_added S x y d d)))
      else Some m)"
proof -
  have row0: "copy_row S ty sy [] f b = b" and col0: "copy_column S tx sx [] f b = b"
    for ty sy tx sx and f b :: "'a board"
    by (simp_all add: copy_row_def copy_column_def)
  consider "x > 0" | "x < 0" | "x = 0" by linarith
  then show ?thesis
  proof cases
    case 1
    then show ?thesis by (cases "y > 0"; cases "y < 0")
      (simp_all add: tile_enqueue.simps Let_def tile_added_def tile_geometry_defs row0 col0)
  next
    case 2
    then show ?thesis by (cases "y > 0"; cases "y < 0")
      (simp_all add: tile_enqueue.simps Let_def tile_added_def tile_geometry_defs row0 col0)
  next
    case 3
    then show ?thesis by (cases "y > 0"; cases "y < 0")
      (simp_all add: tile_enqueue.simps Let_def tile_added_def tile_geometry_defs row0 col0)
  qed
qed

lemma cell_set_block:
  assumes "wf_board S b" "valid_coord S (bx, by, cx, cy)" "x < S" "y < S"
  shows "cell_val S (set_block S x y block b) (bx, by, cx, cy) =
    (if bx = x \<and> by = y then block_cell S block cx cy else cell_val S b (bx, by, cx, cy))"
proof -
  have "by * S + bx < length b" using assms by (simp add: wf_board_def valid_coord.simps pair_index_less)
  moreover have "y * S + x = by * S + bx \<longleftrightarrow> y = by \<and> x = bx"
    using assms by (intro pair_index_eq) (auto simp: valid_coord.simps)
  ultimately show ?thesis
    by (auto simp: cell_val.simps set_block_def board_block_def nth_list_update)
qed

lemma get_block_cell: "block_cell S (get_block S x y b) cx cy = cell_val S b (x, y, cx, cy)"
  by (simp add: get_block_def cell_val.simps)

lemma copy_column_result:
  assumes src: "wf_board S src" and "tx < S" "sx < S"
  shows "wf_board S b \<Longrightarrow> set rows \<subseteq> {..<S} \<Longrightarrow> wf_board S (copy_column S tx sx rows src b) \<and>
    (\<forall>bx by cx cy. valid_coord S (bx, by, cx, cy) \<longrightarrow> cell_val S (copy_column S tx sx rows src b) (bx, by, cx, cy) =
      (if bx = tx \<and> by \<in> set rows then cell_val S src (sx, by, cx, cy) else cell_val S b (bx, by, cx, cy)))"
proof (induction rows arbitrary: b)
  case (Cons r rows)
  let ?b = "set_block S tx r (get_block S sx r src) b"
  have r: "r < S" and rows: "set rows \<subseteq> {..<S}" using Cons.prems(2) by auto
  have wf: "wf_board S ?b" using wf_set_block[OF Cons.prems(1)] wf_get_block[OF src assms(3) r] by blast
  have "copy_column S tx sx (r # rows) src b = copy_column S tx sx rows src ?b" by (simp add: copy_column_def)
  then show ?case
    using Cons.IH[OF wf rows] cell_set_block[OF Cons.prems(1) _ assms(2) r] by (auto simp: get_block_cell)
qed (simp add: copy_column_def)

lemma copy_row_result:
  assumes src: "wf_board S src" and "ty < S" "sy < S"
  shows "wf_board S b \<Longrightarrow> set cols \<subseteq> {..<S} \<Longrightarrow> wf_board S (copy_row S ty sy cols src b) \<and>
    (\<forall>bx by cx cy. valid_coord S (bx, by, cx, cy) \<longrightarrow> cell_val S (copy_row S ty sy cols src b) (bx, by, cx, cy) =
      (if by = ty \<and> bx \<in> set cols then cell_val S src (bx, sy, cx, cy) else cell_val S b (bx, by, cx, cy)))"
proof (induction cols arbitrary: b)
  case (Cons r cols)
  let ?b = "set_block S r ty (get_block S r sy src) b"
  have r: "r < S" and cols: "set cols \<subseteq> {..<S}" using Cons.prems(2) by auto
  have wf: "wf_board S ?b" using wf_set_block[OF Cons.prems(1)] wf_get_block[OF src r assms(3)] by blast
  have "copy_row S ty sy (r # cols) src b = copy_row S ty sy cols src ?b" by (simp add: copy_row_def)
  then show ?case
    using Cons.IH[OF wf cols] cell_set_block[OF Cons.prems(1) _ r assms(2)] by (auto simp: get_block_cell)
qed (simp add: copy_row_def)

lemma tile_added_cells:
  fixes l d :: "'c::len board"
  assumes "0 < S" "wf_board S l" "wf_board S d"
  shows "wf_board S (tile_added S x y l d)"
    "valid_coord S (bx, by, cx, cy) \<Longrightarrow> cell_val S (tile_added S x y l d) (bx, by, cx, cy) =
      (if by = tile_ty S y \<and> bx \<in> set (tile_cols S x y) then cell_val S d (bx, tile_sy S y, cx, cy)
       else if bx = tile_tx S x \<and> by \<in> set (tile_rows S x y) then cell_val S l (tile_sx S x, by, cx, cy) else 0)"
proof -
  note g = tile_geometry[OF assms(1)]
  let ?b = "copy_column S (tile_tx S x) (tile_sx S x) (tile_rows S x y) l (board_new S)"
  note col = copy_column_result[OF assms(2) g(1,2)[of x] wf_board_new g(5)[of x y]]
  note row = copy_row_result[OF assms(3) g(3,4)[of y] conjunct1[OF col] g(6)[of x y]]
  show "wf_board S (tile_added S x y l d)" using row by (simp add: tile_added_def)
  assume v: "valid_coord S (bx, by, cx, cy)"
  have b: "cell_val S ?b (bx, by, cx, cy) =
      (if bx = tile_tx S x \<and> by \<in> set (tile_rows S x y) then cell_val S l (tile_sx S x, by, cx, cy) else 0)"
    using spec[OF spec[OF spec[OF spec[OF conjunct2[OF col]]]], of bx "by" cx cy] v by (simp add: cell_board_new)
  have r: "cell_val S (tile_added S x y l d) (bx, by, cx, cy) =
      (if by = tile_ty S y \<and> bx \<in> set (tile_cols S x y) then cell_val S d (bx, tile_sy S y, cx, cy)
       else cell_val S ?b (bx, by, cx, cy))"
    using mp[OF spec[OF spec[OF spec[OF spec[OF conjunct2[OF row]]]], of bx "by" cx cy] v]
    unfolding tile_added_def .
  show "cell_val S (tile_added S x y l d) (bx, by, cx, cy) =
      (if by = tile_ty S y \<and> bx \<in> set (tile_cols S x y) then cell_val S d (bx, tile_sy S y, cx, cy)
       else if bx = tile_tx S x \<and> by \<in> set (tile_rows S x y) then cell_val S l (tile_sx S x, by, cx, cy) else 0)"
    unfolding r b ..
qed

lemma tile_added_consistent:
  fixes l d :: "'c::len board"
  assumes S: "0 < S" and wf: "wf_board S l" "wf_board S d" and con: "consistent S l" "consistent S d"
  shows "consistent S (tile_added S x y l d)"
  unfolding consistent_def
proof (intro allI impI)
  let ?a = "tile_added S x y l d"
  fix c e assume ce: "valid_coord S c \<and> valid_coord S e \<and> sees c e \<and> is_pot (cell_val S ?a c)"
  obtain bx "by" cx cy where c: "c = (bx, by, cx, cy)" by (cases c) auto
  obtain ex ey fx fy where e: "e = (ex, ey, fx, fy)" by (cases e) auto
  define R where "R = (\<lambda>bx by. by = tile_ty S y \<and> bx \<in> set (tile_cols S x y))"
  define C where "C = (\<lambda>bx by. bx = tile_tx S x \<and> by \<in> set (tile_rows S x y))"
  note g = tile_geometry[OF S]
  have cells: "cell_val S ?a (bx, by, cx, cy) = (if R bx by then cell_val S d (bx, tile_sy S y, cx, cy)
       else if C bx by then cell_val S l (tile_sx S x, by, cx, cy) else 0)"
    if "valid_coord S (bx, by, cx, cy)" for bx "by" cx cy
    using tile_added_cells(2)[OF S wf that, of x y] unfolding R_def C_def .
  have conD: "cell_val S b c1 \<noteq> cell_val S b c2"
    if "consistent S b" "is_pot (cell_val S b c1)" "valid_coord S c1 \<and> valid_coord S c2 \<and> sees c1 c2"
    for b :: "'c board" and c1 c2
    using that unfolding consistent_def by blast
  have apart: "\<not> sees (bx, by, cx, cy) (ex, ey, fx, fy)" if "R bx by" "C ex ey" for bx "by" cx cy ex ey fx fy
  proof -
    have "x \<noteq> 0" "y \<noteq> 0" using that by (auto simp: R_def C_def tile_rows_def tile_cols_def split: if_splits)
    then have "by \<noteq> ey" "bx \<noteq> ex" using that g(7,8)[of x y] by (auto simp: R_def C_def)
    then show ?thesis by (simp add: sees.simps)
  qed
  have v: "valid_coord S (bx, by, cx, cy)" "valid_coord S (ex, ey, fx, fy)"
    and s: "sees (bx, by, cx, cy) (ex, ey, fx, fy)" and pot: "is_pot (cell_val S ?a (bx, by, cx, cy))"
    using ce by (auto simp: c e)
  have s': "sees (ex, ey, fx, fy) (bx, by, cx, cy)" using s sees_sym by blast
  consider "R bx by" "R ex ey" | "R bx by" "\<not> R ex ey" "\<not> C ex ey" | "\<not> R bx by" "C bx by" "\<not> R ex ey" "C ex ey"
    | "\<not> R bx by" "C bx by" "\<not> R ex ey" "\<not> C ex ey"
    using apart[of bx "by" ex ey cx cy fx fy] apart[of ex ey bx "by" fx fy cx cy] s s' pot cells[OF v(1)]
    by (auto split: if_splits)
  then have "cell_val S ?a (bx, by, cx, cy) \<noteq> cell_val S ?a (ex, ey, fx, fy)"
  proof cases
    case 1
    have "valid_coord S (bx, tile_sy S y, cx, cy) \<and> valid_coord S (ex, tile_sy S y, fx, fy) \<and>
        sees (bx, tile_sy S y, cx, cy) (ex, tile_sy S y, fx, fy)"
      using v s g(4)[of y] 1 by (auto simp: valid_coord.simps sees.simps R_def)
    from conD[OF con(2) _ this] show ?thesis using cells[OF v(1)] cells[OF v(2)] pot 1 by simp
  next
    case 3
    have "valid_coord S (tile_sx S x, by, cx, cy) \<and> valid_coord S (tile_sx S x, ey, fx, fy) \<and>
        sees (tile_sx S x, by, cx, cy) (tile_sx S x, ey, fx, fy)"
      using v s g(2)[of x] 3 by (auto simp: valid_coord.simps sees.simps C_def)
    from conD[OF con(1) _ this] show ?thesis using cells[OF v(1)] cells[OF v(2)] pot 3 by simp
  qed (use cells[OF v(2)] pot in \<open>auto simp del: zero_not_pot\<close>, (metis zero_not_pot)+)
  then show "cell_val S ?a c \<noteq> cell_val S ?a e" by (simp add: c e)
qed

section \<open>The invariant of the tiling\<close>

declare split_paired_All [simp del] split_paired_Ex [simp del]

fun tile_boards :: "'b tile \<Rightarrow> 'b set" where
  "tile_boards (Tile_board b) = {b}"
| "tile_boards (Tile_solution s) = set (cl_list (ss_solutions s))"

definition shares_column :: "nat \<Rightarrow> int \<Rightarrow> int \<Rightarrow> 'c board \<Rightarrow> 'c board \<Rightarrow> bool" where
  "shares_column S x y l b = (\<forall>r \<in> set (tile_rows S x y). \<forall>cx < S. \<forall>cy < S.
     cell_val S b (tile_tx S x, r, cx, cy) = cell_val S l (tile_sx S x, r, cx, cy))"

definition shares_row :: "nat \<Rightarrow> int \<Rightarrow> int \<Rightarrow> 'c board \<Rightarrow> 'c board \<Rightarrow> bool" where
  "shares_row S x y d b = (\<forall>r \<in> set (tile_cols S x y). \<forall>cx < S. \<forall>cy < S.
     cell_val S b (r, tile_ty S y, cx, cy) = cell_val S d (r, tile_sy S y, cx, cy))"

text \<open>The boards of a tile are well-formed, have no conflicts and share blocks with the finished
  neighbours towards the origin.\<close>

definition tile_ok :: "nat \<Rightarrow> 'c::len board tile_map \<Rightarrow> int \<times> int \<Rightarrow> 'c board tile \<Rightarrow> bool" where
  "tile_ok S m p t = ((\<forall>b \<in> tile_boards t. wf_board S b \<and> consistent S b) \<and>
     (case t of Tile_board b \<Rightarrow> board_is_solved S b | Tile_solution s \<Rightarrow> cl_invar 256 (ss_solutions s)) \<and>
     (fst p \<noteq> 0 \<longrightarrow> (\<exists>l. map_of m (fst p - sgn (fst p), snd p) = Some (Tile_board l) \<and>
        (\<forall>b \<in> tile_boards t. shares_column S (fst p) (snd p) l b))) \<and>
     (snd p \<noteq> 0 \<longrightarrow> (\<exists>d. map_of m (fst p, snd p - sgn (snd p)) = Some (Tile_board d) \<and>
        (\<forall>b \<in> tile_boards t. shares_row S (fst p) (snd p) d b))))"

definition tiling_inv :: "nat \<Rightarrow> 'c::len board tile_map \<Rightarrow> bool" where
  "tiling_inv S m = (fm_invar (<) m \<and> (\<forall>p t. map_of m p = Some t \<longrightarrow> tile_ok S m p t))"

text \<open>Finished boards stay.\<close>

definition keeps_boards :: "'b tile_map \<Rightarrow> 'b tile_map \<Rightarrow> bool" where
  "keeps_boards m m' = (\<forall>p b. map_of m p = Some (Tile_board b) \<longrightarrow> map_of m' p = Some (Tile_board b))"

lemma keeps_refl: "keeps_boards m m" and keeps_trans: "keeps_boards a b \<Longrightarrow> keeps_boards b c \<Longrightarrow> keeps_boards a c"
  by (auto simp: keeps_boards_def)

lemma tile_ok_keeps: "keeps_boards m m' \<Longrightarrow> tile_ok S m p t \<Longrightarrow> tile_ok S m' p t"
  unfolding tile_ok_def keeps_boards_def by blast

lemma tiling_inv_update:
  assumes "tiling_inv S m" "fm_invar (<) m'" "keeps_boards m m'"
    "\<And>p t. map_of m' p = Some t \<Longrightarrow> map_of m p = Some t \<or> tile_ok S m p t"
  shows "tiling_inv S m'"
  using assms tile_ok_keeps[OF assms(3)] unfolding tiling_inv_def by metis

lemma tiling_inv_board:
  "tiling_inv S m \<Longrightarrow> map_of m p = Some (Tile_board b) \<Longrightarrow> wf_board S b \<and> consistent S b \<and> board_is_solved S b"
  unfolding tiling_inv_def tile_ok_def by fastforce

lemma shares_added:
  fixes l d :: "'c::len board"
  assumes "0 < S" "wf_board S l" "wf_board S d"
  shows "x \<noteq> 0 \<Longrightarrow> shares_column S x y l (tile_added S x y l d)"
    and "y \<noteq> 0 \<Longrightarrow> shares_row S x y d (tile_added S x y l d)"
proof -
  note g = tile_geometry[OF assms(1)]
  assume x: "x \<noteq> 0"
  have "\<not> (r = tile_ty S y \<and> tile_tx S x \<in> set (tile_cols S x y))" for r
    using g(8)[of x y] x by (cases "y = 0") (auto simp: tile_cols_def)
  moreover have "r < S" if "r \<in> set (tile_rows S x y)" for r using g(5)[of x y] that by auto
  ultimately show "shares_column S x y l (tile_added S x y l d)"
    unfolding shares_column_def using tile_added_cells(2)[OF assms, of _ _ _ _ x y] g(1)[of x]
    by (auto simp: valid_coord.simps)
next
  note g = tile_geometry[OF assms(1)]
  assume "y \<noteq> 0"
  have "r < S" if "r \<in> set (tile_cols S x y)" for r using g(6)[of x y] that by auto
  then show "shares_row S x y d (tile_added S x y l d)"
    unfolding shares_row_def using tile_added_cells(2)[OF assms, of _ _ _ _ x y] g(3)[of y]
    by (auto simp: valid_coord.simps)
qed

lemma shares_extends:
  assumes "0 < S" "board_is_solved S l" "extends S b b'"
  shows "shares_column S x y l b \<Longrightarrow> shares_column S x y l b'"
    and "shares_row S x y l b \<Longrightarrow> shares_row S x y l b'"
proof -
  note g = tile_geometry[OF assms(1)]
  have keep: "cell_val S b' c = cell_val S l e"
    if "cell_val S b c = cell_val S l e" "valid_coord S c" "valid_coord S e" for c e
    using that assms(2,3) by (auto simp: board_is_solved_iff extends_def)
  show "shares_column S x y l b \<Longrightarrow> shares_column S x y l b'"
    unfolding shares_column_def using g(1,2)[of x] g(5)[of x y] by (auto intro!: keep simp: valid_coord.simps)
  show "shares_row S x y l b \<Longrightarrow> shares_row S x y l b'"
    unfolding shares_row_def using g(3,4)[of y] g(6)[of x y] by (auto intro!: keep simp: valid_coord.simps)
qed

text \<open>A tile whose boards come from, or extend, those of a tile of the map.\<close>

lemma tile_ok_from:
  assumes inv: "tiling_inv S m" and S: "0 < S" and old: "map_of m p = Some t" and
    new: "\<And>b'. b' \<in> tile_boards t' \<Longrightarrow> wf_board S b' \<and> (\<exists>b \<in> tile_boards t. extends S b b' \<and> (consistent S b \<longrightarrow> consistent S b'))"
    and kind: "case t' of Tile_board b \<Rightarrow> board_is_solved S b | Tile_solution s \<Rightarrow> cl_invar 256 (ss_solutions s)"
  shows "tile_ok S m p t'"
proof -
  have ok: "tile_ok S m p t" using inv old by (simp add: tiling_inv_def)
  have solved: "board_is_solved S l" if "map_of m q = Some (Tile_board l)" for q l
    using tiling_inv_board[OF inv that] by simp
  have "\<forall>b' \<in> tile_boards t'. wf_board S b' \<and> consistent S b'" using ok new unfolding tile_ok_def by blast
  moreover have "\<forall>b' \<in> tile_boards t'. shares_column S x y l b'"
    if "map_of m q = Some (Tile_board l)" "\<forall>b \<in> tile_boards t. shares_column S x y l b" for x y l q
    using new shares_extends(1)[OF S solved[OF that(1)]] that(2) by blast
  moreover have "\<forall>b' \<in> tile_boards t'. shares_row S x y l b'"
    if "map_of m q = Some (Tile_board l)" "\<forall>b \<in> tile_boards t. shares_row S x y l b" for x y l q
    using new shares_extends(2)[OF S solved[OF that(1)]] that(2) by blast
  ultimately show ?thesis using ok kind unfolding tile_ok_def by meson
qed

section \<open>Changing the map of tiles\<close>

lemma fm_invar_update: "fm_invar lt m \<Longrightarrow> p < length m \<Longrightarrow> fst (m ! p) = k \<Longrightarrow> fm_invar lt (m[p := (k, v)])"
  by (simp add: fm_invar_def map_update) (metis list_update_id nth_map)

lemma tiling_inv_replace:
  assumes inv: "tiling_inv S m" and pos: "fm_find (<) m p \<noteq> length m"
    and old: "map_of m p = Some (Tile_solution s)" and ok: "tile_ok S m p t"
  shows "tiling_inv S (m[fm_find (<) m p := (fst (m ! fm_find (<) m p), t)]) \<and>
    keeps_boards m (m[fm_find (<) m p := (fst (m ! fm_find (<) m p), t)])"
proof -
  have fm: "fm_invar (<) m" using inv by (simp add: tiling_inv_def)
  have at: "fm_find (<) m p < length m" "fst (m ! fm_find (<) m p) = p"
    using std_less.fm_find_lookup[OF fm, of p] old by auto
  let ?m = "m[fm_find (<) m p := (fst (m ! fm_find (<) m p), t)]"
  have fm': "fm_invar (<) ?m" using fm_invar_update[OF fm at] at(2) by simp
  have upd: "map_of ?m = (map_of m)(p \<mapsto> t)"
    using map_of_list_update[OF std_less.fm_invar_distinct[OF fm] at] at(2) by simp
  have keeps: "keeps_boards m ?m" using old by (auto simp: keeps_boards_def upd)
  moreover have "tiling_inv S ?m"
    by (rule tiling_inv_update[OF inv fm' keeps]) (use ok in \<open>auto simp: upd split: if_splits\<close>)
  ultimately show ?thesis by simp
qed

lemma tiling_inv_erase:
  assumes inv: "tiling_inv S m" and old: "map_of m p = Some (Tile_solution s)"
  shows "\<exists>r m'. fm_erase_at (fm_find (<) m p) m = Some (r, m') \<and> tiling_inv S m' \<and> keeps_boards m m'"
proof -
  have fm: "fm_invar (<) m" using inv by (simp add: tiling_inv_def)
  have at: "fm_find (<) m p < length m" using std_less.fm_find_lookup[OF fm, of p] old by auto
  have dom: "p \<in> dom (map_of m)" using old by auto
  obtain m' where m': "m' = vector_erase (fm_find (<) m p) m" "fm_invar (<) m'" "map_of m' = (map_of m)(p := None)"
    using std_less.fm_erase_result[OF fm, of p] dom by auto
  have keeps: "keeps_boards m m'" using old by (auto simp: keeps_boards_def m'(3))
  have "tiling_inv S m'"
    by (rule tiling_inv_update[OF inv m'(2) keeps]) (auto simp: m'(3) split: if_splits)
  then show ?thesis using keeps at m'(1) by (simp add: fm_erase_at_def)
qed

lemma tile_do_enqueue_result:
  fixes m :: "'c::len board tile_map"
  assumes rank: "rank_ok S TYPE('c)" and inv: "tiling_inv S m"
    and l: "map_of m pl = Some (Tile_board l)" and d: "map_of m pd = Some (Tile_board d)"
    and pl: "x \<noteq> 0 \<longrightarrow> pl = (x - sgn x, y)" and pd: "y \<noteq> 0 \<longrightarrow> pd = (x, y - sgn y)"
  shows "\<exists>m'. tile_do_enqueue S x y (tile_added S x y l d) m = Some m' \<and> tiling_inv S m' \<and> keeps_boards m m'"
proof -
  have S: "0 < S" using rank by (simp add: rank_ok_def)
  have lb: "wf_board S l" "consistent S l" "board_is_solved S l" and db: "wf_board S d" "consistent S d" "board_is_solved S d"
    using tiling_inv_board[OF inv l] tiling_inv_board[OF inv d] by auto
  let ?a = "tile_added S x y l d" and ?b = "calculate_alternatives S (tile_added S x y l d)"
  have b: "wf_board S ?b" "extends S ?a ?b" "consistent S ?b"
    using calculate_alternatives_result[OF rank tile_added_cells(1)[OF S lb(1) db(1)]]
      tile_added_consistent[OF S lb(1) db(1) lb(2) db(2)] by blast+
  obtain s where s: "ss_new S ?b = Some s" "ss_rel s [?b] False" using ss_new_rel by blast
  have boards: "tile_boards (Tile_solution s) = {?b}" using s(2) by (simp add: ss_rel_def)
  have ok: "tile_ok S m (x, y) (Tile_solution s)"
    using b l d pl pd s(2) shares_extends[OF S lb(3) b(2)] shares_extends[OF S db(3) b(2)]
      shares_added(1)[OF S lb(1) db(1), of x y] shares_added(2)[OF S lb(1) db(1), of y x]
    unfolding tile_ok_def boards by (auto simp: ss_rel_def)
  let ?m = "snd (fm_emplace (<) (x, y) (Tile_solution s) m)"
  have fm: "fm_invar (<) m" using inv by (simp add: tiling_inv_def)
  note em = std_less.fm_emplace_result[OF fm, of "(x, y)" "Tile_solution s"]
  have keeps: "keeps_boards m ?m" unfolding keeps_boards_def em(2) by auto
  have "tiling_inv S ?m"
    by (rule tiling_inv_update[OF inv em(1) keeps]) (use ok in \<open>auto simp: em(2) split: if_splits\<close>)
  then show ?thesis using keeps s(1) by (simp add: tile_do_enqueue_def)
qed

section \<open>Asking for boards keeps the invariant\<close>

definition get_ok :: "nat \<Rightarrow> 'c::len board tile_map \<Rightarrow> int \<Rightarrow> int \<Rightarrow> ('c board option \<times> 'c board tile_map) option \<Rightarrow> bool" where
  "get_ok S m x y res = (\<exists>r m'. res = Some (r, m') \<and> tiling_inv S m' \<and> keeps_boards m m' \<and>
     (\<forall>b. r = Some b \<longrightarrow> m' = m \<and> map_of m (x, y) = Some (Tile_board b)))"

definition enqueue_ok :: "nat \<Rightarrow> 'c::len board tile_map \<Rightarrow> 'c board tile_map option \<Rightarrow> bool" where
  "enqueue_ok S m res = (\<exists>m'. res = Some m' \<and> tiling_inv S m' \<and> keeps_boards m m')"

lemma tile_get_solution:
  fixes m :: "'c::len board tile_map"
  assumes rank: "rank_ok S TYPE('c)" and inv: "tiling_inv S m" and old: "map_of m (x, y) = Some (Tile_solution s)"
  shows "get_ok S m x y (tile_get S x y m)"
proof -
  let ?p = "fm_find (<) m (x, y)"
  have S: "0 < S" using rank by (simp add: rank_ok_def)
  have at: "?p \<noteq> length m" "m ! ?p = ((x, y), Tile_solution s)"
    using std_less.fm_find_lookup[of m "(x, y)"] inv old by (auto simp: tiling_inv_def)
  have ok: "tile_ok S m (x, y) (Tile_solution s)" using inv old by (simp add: tiling_inv_def)
  have rel: "ss_rel s (cl_list (ss_solutions s)) (ss_done s)" using ok by (simp add: ss_rel_def tile_ok_def)
  note rep = tiling_inv_replace[OF inv at(1) old]
  consider "ss_is_done s" "ss_is_solved S s" | "ss_is_done s" "\<not> ss_is_solved S s" | "\<not> ss_is_done s" by blast
  then show ?thesis
  proof cases
    case 1
    have ne: "cl_list (ss_solutions s) \<noteq> []" and last: "cl_back (ss_solutions s) = Some (last (cl_list (ss_solutions s)))"
      using 1(2) rel cl_empty_iff cl_pop_back_result(2) by (auto simp: ss_is_solved_def ss_rel_def)
    let ?b = "last (cl_list (ss_solutions s))"
    have b: "ss_board s = Some ?b" "board_is_solved S ?b" "?b \<in> tile_boards (Tile_solution s)"
      using 1(2) last ne ss_board_rel[OF rel] by (auto simp: ss_is_solved_def)
    have wf: "wf_board S ?b" using ok b(3) unfolding tile_ok_def by blast
    have "tile_ok S m (x, y) (Tile_board ?b)"
    proof (rule tile_ok_from[OF inv S old])
      fix b' assume "b' \<in> tile_boards (Tile_board ?b)"
      then show "wf_board S b' \<and> (\<exists>b \<in> tile_boards (Tile_solution s). extends S b b' \<and> (consistent S b \<longrightarrow> consistent S b'))"
        using wf b(3) extends_refl by (simp del: tile_boards.simps(2)) blast
    qed (use b(2) in simp)
    from rep[OF this] show ?thesis
      using at 1 b(1) by (simp add: get_ok_def tile_get.simps Let_def)
  next
    case 2
    then show ?thesis
      using at tiling_inv_erase[OF inv old] by (auto simp: get_ok_def tile_get.simps Let_def)
  next
    case 3
    then have d: "\<not> ss_done s" "cl_list (ss_solutions s) \<noteq> []" using ss_is_done_rel[OF rel] by auto
    then obtain xs b where xs: "cl_list (ss_solutions s) = xs @ [b]" by (meson rev_exhaust)
    let ?cands = "board_alternatives S (find_unsolved S b) b"
    obtain s' d' where s': "ss_next S s = Some s'" "ss_rel s' (xs @ until_solved S ?cands) d'"
      using ss_next_rel[of s xs b S] rel d(1) xs by auto
    have wf: "wf_board S b'" if "b' \<in> tile_boards (Tile_solution s)" for b' using ok that by (simp add: tile_ok_def)
    have "\<exists>c \<in> tile_boards (Tile_solution s). extends S c b' \<and> (consistent S c \<longrightarrow> consistent S b')" "wf_board S b'"
      if "b' \<in> tile_boards (Tile_solution s')" for b'
    proof -
      have "b' \<in> set xs \<or> b' \<in> set ?cands"
        using that s'(2) until_solved_subset[of S ?cands] by (auto simp: ss_rel_def)
      moreover have "wf_board S b" using wf xs by simp
      ultimately have "b' \<in> set xs \<or> wf_board S b' \<and> extends S b b' \<and> (consistent S b \<longrightarrow> consistent S b')"
        using candidates_result[OF rank, of b b'] by blast
      then show "\<exists>c \<in> tile_boards (Tile_solution s). extends S c b' \<and> (consistent S c \<longrightarrow> consistent S b')" "wf_board S b'"
        using xs wf extends_refl by auto
    qed
    then have "tile_ok S m (x, y) (Tile_solution s')"
      using s'(2) by (intro tile_ok_from[OF inv S old]) (auto simp: ss_rel_def)
    from rep[OF this] show ?thesis using at 3 s'(1) by (simp add: get_ok_def tile_get.simps Let_def)
  qed
qed

lemma tile_get_from_enqueue:
  fixes m :: "'c::len board tile_map"
  assumes rank: "rank_ok S TYPE('c)" and inv: "tiling_inv S m" and enq: "enqueue_ok S m (tile_enqueue S x y m)"
  shows "get_ok S m x y (tile_get S x y m)"
proof (cases "map_of m (x, y)")
  case None
  then have "fm_find (<) m (x, y) = length m"
    using std_less.fm_find_lookup[of m "(x, y)"] inv by (auto simp: tiling_inv_def)
  then show ?thesis using enq by (auto simp: get_ok_def enqueue_ok_def tile_get.simps Let_def)
next
  case (Some t)
  show ?thesis
  proof (cases t)
    case (Tile_board b)
    then have "fm_find (<) m (x, y) \<noteq> length m" "m ! fm_find (<) m (x, y) = ((x, y), Tile_board b)"
      using std_less.fm_find_lookup[of m "(x, y)"] inv Some by (auto simp: tiling_inv_def)
    then show ?thesis using inv keeps_refl Some Tile_board by (auto simp: get_ok_def tile_get.simps Let_def)
  next
    case (Tile_solution s)
    then show ?thesis using tile_get_solution[OF rank inv] Some by simp
  qed
qed

lemma tile_enqueue_from_get:
  fixes m :: "'c::len board tile_map"
  assumes rank: "rank_ok S TYPE('c)" and inv: "tiling_inv S m"
    and get_x: "\<And>m :: 'c board tile_map. x \<noteq> 0 \<Longrightarrow> tiling_inv S m \<Longrightarrow> get_ok S m (x - sgn x) y (tile_get S (x - sgn x) y m)"
    and get_y: "\<And>m :: 'c board tile_map. y \<noteq> 0 \<Longrightarrow> tiling_inv S m \<Longrightarrow> get_ok S m x (y - sgn y) (tile_get S x (y - sgn y) m)"
  shows "enqueue_ok S m (tile_enqueue S x y m)"
proof -
  note doenq = tile_do_enqueue_result[OF rank]
  consider "x \<noteq> 0" "y \<noteq> 0" | "x \<noteq> 0" "y = 0" | "x = 0" "y \<noteq> 0" | "x = 0" "y = 0" by blast
  then show ?thesis
  proof cases
    case 1
    obtain l m1 where l: "tile_get S (x - sgn x) y m = Some (l, m1)" "tiling_inv S m1" "keeps_boards m m1"
      "\<And>b. l = Some b \<Longrightarrow> m1 = m \<and> map_of m (x - sgn x, y) = Some (Tile_board b)"
      using get_x[OF 1(1) inv] by (auto simp: get_ok_def)
    obtain d m2 where d: "tile_get S x (y - sgn y) m1 = Some (d, m2)" "tiling_inv S m2" "keeps_boards m1 m2"
      "\<And>b. d = Some b \<Longrightarrow> m2 = m1 \<and> map_of m1 (x, y - sgn y) = Some (Tile_board b)"
      using get_y[OF 1(2) l(2)] by (auto simp: get_ok_def)
    have eq: "tile_enqueue S x y m = with_both l (d, m2) (\<lambda>l d. tile_do_enqueue S x y (tile_added S x y l d))"
      using 1 l(1) d(1) by (simp add: tile_enqueue_shape)
    show ?thesis
    proof (cases "l = None \<or> d = None")
      case True
      then have "tile_enqueue S x y m = Some m2"
        unfolding eq by (auto simp: with_both_def split: option.splits)
      then show ?thesis using d(2) keeps_trans[OF l(3) d(3)] by (simp add: enqueue_ok_def)
    next
      case False
      then obtain a b where ab: "l = Some a" "d = Some b" by auto
      then have m: "m2 = m" "map_of m (x - sgn x, y) = Some (Tile_board a)" "map_of m (x, y - sgn y) = Some (Tile_board b)"
        using l(4) d(4) by auto
      show ?thesis
        using doenq[OF inv m(2,3)] unfolding eq by (simp add: ab m(1) with_both_def enqueue_ok_def)
    qed
  next
    case 2
    obtain l m1 where l: "tile_get S (x - sgn x) y m = Some (l, m1)" "tiling_inv S m1" "keeps_boards m m1"
      "\<And>b. l = Some b \<Longrightarrow> m1 = m \<and> map_of m (x - sgn x, y) = Some (Tile_board b)"
      using get_x[OF 2(1) inv] by (auto simp: get_ok_def)
    then show ?thesis
      using doenq[OF inv, of "(x - sgn x, y)" _ "(x - sgn x, y)" _ x y] 2
      by (cases l) (auto simp: tile_enqueue_shape with_one_def enqueue_ok_def)
  next
    case 3
    obtain d m1 where d: "tile_get S x (y - sgn y) m = Some (d, m1)" "tiling_inv S m1" "keeps_boards m m1"
      "\<And>b. d = Some b \<Longrightarrow> m1 = m \<and> map_of m (x, y - sgn y) = Some (Tile_board b)"
      using get_y[OF 3(2) inv] by (auto simp: get_ok_def)
    then show ?thesis
      using doenq[OF inv, of "(x, y - sgn y)" _ "(x, y - sgn y)" _ x y] 3
      by (cases d) (auto simp: tile_enqueue_shape with_one_def enqueue_ok_def)
  next
    case 4
    then show ?thesis using inv keeps_refl by (auto simp: tile_enqueue_shape enqueue_ok_def)
  qed
qed

lemma tile_get_ok:
  assumes rank: "rank_ok S TYPE('c::len)"
  shows "tiling_inv S (m :: 'c board tile_map) \<Longrightarrow> get_ok S m x y (tile_get S x y m)"
proof (induction "nat (\<bar>x\<bar> + \<bar>y\<bar>)" arbitrary: x y m rule: less_induct)
  case less
  have "nat (\<bar>x - sgn x\<bar> + \<bar>y\<bar>) < nat (\<bar>x\<bar> + \<bar>y\<bar>)" if "x \<noteq> 0" using that by (auto simp: sgn_if)
  moreover have "nat (\<bar>x\<bar> + \<bar>y - sgn y\<bar>) < nat (\<bar>x\<bar> + \<bar>y\<bar>)" if "y \<noteq> 0" using that by (auto simp: sgn_if)
  ultimately have "enqueue_ok S m (tile_enqueue S x y m)"
    using less by (intro tile_enqueue_from_get[OF rank]) blast+
  then show ?case by (rule tile_get_from_enqueue[OF rank less.prems])
qed

text \<open>The tilings that can be reached by asking for boards.\<close>

inductive tile_step :: "nat \<Rightarrow> 'c::len board tile_map \<Rightarrow> 'c board tile_map \<Rightarrow> bool" for S where
  tile_step_get: "tile_get S x y m = Some (r, m') \<Longrightarrow> tile_step S m m'"

lemma tiling_new_inv:
  assumes rank: "rank_ok S TYPE('c::len)" and b: "wf_board S (b :: 'c board)" "consistent S b"
    and new: "tiling_new_from S b = Some m"
  shows "tiling_inv S m"
proof -
  let ?b = "calculate_alternatives S b"
  have wf: "wf_board S ?b \<and> consistent S ?b" using calculate_alternatives_result[OF rank b(1)] b(2) by blast
  obtain s where s: "ss_new S ?b = Some s" "ss_rel s [?b] False" using ss_new_rel by blast
  have m: "m = snd (fm_emplace (<) (0, 0) (Tile_solution s) [])"
    using new s(1) by (simp add: tiling_new_from_def tile_do_enqueue_def)
  have e: "fm_invar (<) ([] :: 'c board tile_map)" by (simp add: fm_invar_def fs_invar_def)
  note em = std_less.fm_emplace_result[OF e, of "(0, 0)" "Tile_solution s"]
  have "tile_ok S [] (0, 0) (Tile_solution s)" using s(2) wf by (simp add: tile_ok_def ss_rel_def)
  then have "tile_ok S m (0, 0) (Tile_solution s)" by (rule tile_ok_keeps[rotated]) (simp add: keeps_boards_def)
  then show ?thesis using em by (auto simp: tiling_inv_def m split: if_splits)
qed

lemma tiling_reachable_inv:
  assumes rank: "rank_ok S TYPE('c::len)" and "(tile_step S)\<^sup>*\<^sup>* m0 (m :: 'c board tile_map)" and "tiling_inv S m0"
  shows "tiling_inv S m"
  using assms(2,3)
proof (induction rule: rtranclp_induct)
  case (step m m')
  from step.hyps(2) obtain x y r where "tile_get S x y m = Some (r, m')" by (auto elim: tile_step.cases)
  then show ?case using tile_get_ok[OF rank step.IH[OF step.prems], of x y] by (simp add: get_ok_def)
qed

lemma get_block_eq:
  assumes "wf_board S b" "wf_board S l" "x < S" "y < S" "x' < S" "y' < S"
    "\<forall>cx < S. \<forall>cy < S. cell_val S b (x, y, cx, cy) = cell_val S l (x', y', cx, cy)"
  shows "get_block S x y b = get_block S x' y' l"
proof (rule nth_equalityI)
  show "length (get_block S x y b) = length (get_block S x' y' l)"
    using wf_get_block[OF assms(1,3,4)] wf_get_block[OF assms(2,5,6)] by simp
  fix i assume "i < length (get_block S x y b)"
  then have i: "i < S * S" using wf_get_block[OF assms(1,3,4)] by simp
  then have "0 < S" by (cases S) auto
  then have "i mod S < S" "i div S < S" using i by (auto simp: less_mult_imp_div_less)
  then have "cell_val S b (x, y, i mod S, i div S) = cell_val S l (x', y', i mod S, i div S)" using assms(7) by blast
  then show "get_block S x y b ! i = get_block S x' y' l ! i"
    by (simp add: cell_val.simps block_cell_def get_block_def)
qed

section \<open>Coordinates of patches\<close>

text \<open>The two functions are the division and the remainder that round down.\<close>

lemma flr_div_div:
  assumes "0 < den"
  shows "flr_div num den = num div den"
proof (cases "0 \<le> num")
  case True
  then show ?thesis using assms by (auto simp: flr_div_def signed_divide_int_def signed_modulo_int_def sgn_if)
next
  case False
  then have "num * den \<le> 0" "num < 0" using assms by (auto simp: mult_nonpos_nonneg)
  moreover have "num mod den \<noteq> den" using assms pos_mod_bound[of den num] by linarith
  ultimately show ?thesis
    using assms by (auto simp: flr_div_def signed_divide_int_def signed_modulo_int_def sgn_if zdiv_zminus1_eq_if zmod_zminus1_eq_if
        zdiv_zminus2_eq_if split: if_splits)
qed

lemma pos_mod_mod:
  assumes "0 < den"
  shows "pos_mod num den = num mod den"
proof -
  have x: "(num smod den + den) mod den = num mod den"
    by (metis mod_add_self2 mod_mult_self4 mult_sdiv_smod_eq)
  have nn: "0 \<le> num smod den + den"
    using assms pos_mod_sign[OF assms, of num] by (simp add: signed_modulo_int_eq_modulo_int)
  have "a smod den = a mod den" if "0 \<le> a" for a
    using assms that by (cases "a = 0") (auto simp: signed_modulo_int_def)
  from this[OF nn] x show ?thesis by (simp add: pos_mod_def)
qed

lemma glyph_index_single:
  fixes v :: "'c::len word"
  assumes rank: "rank_ok S TYPE('c)" and v: "is_pot v" "glyphs_below (S * S) v"
  shows "\<exists>i < S * S. glyph_get_index S v = Some i \<and> v = to_cell_type i"
proof -
  obtain i where i: "i < S * S" "v = to_cell_type i" using rank_single[OF rank v] by blast
  then have "List.find (\<lambda>index. to_cell_type index = v) [0..<S * S] \<noteq> None" by (auto simp: find_None_iff)
  then obtain k where k: "List.find (\<lambda>index. to_cell_type index = v) [0..<S * S] = Some k" by blast
  then have "k < S * S" "to_cell_type k = v" by (auto simp: find_Some_iff)
  then show ?thesis using k v(1) by (auto simp: glyph_get_index_def glyph_is_single_def)
qed

lemma patch_coords:
  assumes "2 \<le> S"
  shows "patch_board_coord S kx ky = (kx div (int S * int (S - 1)), ky div (int S * int (S - 1)))"
    "\<exists>bx by cx cy. patch_in_board_coord S kx ky = (bx, by, cx, cy) \<and> bx < S - 1 \<and> by < S - 1 \<and> cx < S \<and> cy < S \<and>
      int bx = kx div int S mod int (S - 1) \<and> int by = ky div int S mod int (S - 1) \<and>
      int cx = kx mod int S \<and> int cy = ky mod int S"
proof -
  have S: "0 < int S" "0 < int (S - 1)" using assms by auto
  then have "0 < int S * int (S - 1)" by (rule mult_pos_pos)
  then show "patch_board_coord S kx ky = (kx div (int S * int (S - 1)), ky div (int S * int (S - 1)))"
    unfolding patch_board_coord_def Let_def by (simp only: flr_div_div)
  have nn: "nat (a mod int n) < n \<and> int (nat (a mod int n)) = a mod int n" if "0 < int n" for a n
    using that pos_mod_bound[OF that, of a] pos_mod_sign[OF that, of a] by linarith
  show "\<exists>bx by cx cy. patch_in_board_coord S kx ky = (bx, by, cx, cy) \<and> bx < S - 1 \<and> by < S - 1 \<and> cx < S \<and> cy < S \<and>
      int bx = kx div int S mod int (S - 1) \<and> int by = ky div int S mod int (S - 1) \<and>
      int cx = kx mod int S \<and> int cy = ky mod int S"
    unfolding patch_in_board_coord_def flr_div_div[OF S(1)] pos_mod_mod[OF S(1)] pos_mod_mod[OF S(2)]
    using nn[OF S(1)] nn[OF S(2)] by (intro exI conjI) (rule refl, blast+)
qed

section \<open>Properties of tilings\<close>

text \<open>
  C7. In every tiling that can be reached from a board without conflicts by asking for boards at any
  coordinates, in any order: no further request fails, and every finished board is solved, has no
  conflicts, keeps the shared blocks of its neighbours towards the origin, and these are
  finished too. Finished boards do not change.
\<close>
theorem sudoku_tiling_shares_blocks:
  assumes "rank_ok S TYPE('c::len)" "wf_board S (b0 :: 'c board)" "consistent S b0"
    "tiling_new_from S b0 = Some m0" "(tile_step S)\<^sup>*\<^sup>* m0 m"
  shows "(\<forall>x y. \<exists>r m'. tile_get S x y m = Some (r, m') \<and> keeps_boards m m') \<and>
    (\<forall>x y b. map_of m (x, y) = Some (Tile_board b) \<longrightarrow> board_is_solved S b \<and> consistent S b \<and>
       (x \<noteq> 0 \<longrightarrow> (\<exists>l. map_of m (x - sgn x, y) = Some (Tile_board l) \<and>
          (\<forall>by \<in> set (tile_rows S x y). get_block S (tile_tx S x) by b = get_block S (tile_sx S x) by l))) \<and>
       (y \<noteq> 0 \<longrightarrow> (\<exists>d. map_of m (x, y - sgn y) = Some (Tile_board d) \<and>
          (\<forall>bx \<in> set (tile_cols S x y). get_block S bx (tile_ty S y) b = get_block S bx (tile_sy S y) d))))"
proof -
  have inv: "tiling_inv S m"
    by (rule tiling_reachable_inv[OF assms(1,5) tiling_new_inv[OF assms(1-4)]])
  have S: "0 < S" using assms(1) by (simp add: rank_ok_def)
  note g = tile_geometry[OF S]
  have "board_is_solved S b \<and> consistent S b \<and>
       (x \<noteq> 0 \<longrightarrow> (\<exists>l. map_of m (x - sgn x, y) = Some (Tile_board l) \<and>
          (\<forall>by \<in> set (tile_rows S x y). get_block S (tile_tx S x) by b = get_block S (tile_sx S x) by l))) \<and>
       (y \<noteq> 0 \<longrightarrow> (\<exists>d. map_of m (x, y - sgn y) = Some (Tile_board d) \<and>
          (\<forall>bx \<in> set (tile_cols S x y). get_block S bx (tile_ty S y) b = get_block S bx (tile_sy S y) d)))"
    if b: "map_of m (x, y) = Some (Tile_board b)" for x y b
  proof -
    have ok: "tile_ok S m (x, y) (Tile_board b)" using inv b by (simp add: tiling_inv_def)
    have wf: "wf_board S b" "\<And>q l. map_of m q = Some (Tile_board l) \<Longrightarrow> wf_board S l"
      using tiling_inv_board[OF inv] b by blast+
    have col: "get_block S (tile_tx S x) r b = get_block S (tile_sx S x) r l"
      if "map_of m q = Some (Tile_board l)" "shares_column S x y l b" "r \<in> set (tile_rows S x y)" for q l r
      using that g(1,2)[of x] g(5)[of x y]
      by (intro get_block_eq[OF wf(1) wf(2)[OF that(1)]]) (auto simp: shares_column_def)
    have row: "get_block S r (tile_ty S y) b = get_block S r (tile_sy S y) d"
      if "map_of m q = Some (Tile_board d)" "shares_row S x y d b" "r \<in> set (tile_cols S x y)" for q d r
      using that g(3,4)[of y] g(6)[of x y]
      by (intro get_block_eq[OF wf(1) wf(2)[OF that(1)]]) (auto simp: shares_row_def)
    show ?thesis using tiling_inv_board[OF inv b] ok col row unfolding tile_ok_def by fastforce
  qed
  then show ?thesis using tile_get_ok[OF assms(1) inv] unfolding get_ok_def by blast
qed

lemma sudoku_tiling_shares_blocks_witness:
  "\<exists>m r m'. tiling_new_from 3 (board_new 3 :: 16 board) = Some m \<and> tile_get 3 4 (- 2) m = Some (r, m')"
proof -
  have rank: "rank_ok 3 TYPE(16)" by (simp add: rank_ok_def)
  obtain m where m: "tiling_new_from 3 (board_new 3 :: 16 board) = Some m"
    using ss_new_rel[of 3 "calculate_alternatives 3 (board_new 3) :: 16 board"]
    by (auto simp: tiling_new_from_def tile_do_enqueue_def)
  from sudoku_tiling_shares_blocks[OF rank wf_board_new consistent_new m rtranclp.rtrancl_refl] m
  show ?thesis by blast
qed

text \<open>
  Filling a patch from such a tiling, step by step: no step fails; a step either leaves the patch
  as it is or writes, at its position, the glyph of the finished board that contains the cell, from
  one of the first \<open>S - 1\<close> block columns and rows of the board, by coordinates that round down.
\<close>
theorem sudoku_patch_next_cell:
  assumes "rank_ok S TYPE('c::len)" "2 \<le> S" "wf_board S (b0 :: 'c board)" "consistent S b0"
    "tiling_new_from S b0 = Some m0" "(tile_step S)\<^sup>*\<^sup>* m0 m"
    "patch_cell_coord xmin ymin p k = (gx, gy)"
  defines "side \<equiv> int S * int (S - 1)"
  shows "\<exists>p' k' m'. patch_next S xmin ymin (p, k, m) = Some (p', k', m') \<and>
    (p' = p \<and> k' = k \<or>
     (\<exists>b bx by cx cy i. k' = k + 1 \<and> map_of m (gx div side, gy div side) = Some (Tile_board b) \<and>
        bx < S - 1 \<and> by < S - 1 \<and> cx < S \<and> cy < S \<and>
        int bx = gx div int S mod int (S - 1) \<and> int by = gy div int S mod int (S - 1) \<and>
        int cx = gx mod int S \<and> int cy = gy mod int S \<and>
        i < S * S \<and> cell_val S b (bx, by, cx, cy) = to_cell_type i \<and>
        p' = p\<lparr>patch_cells := (patch_cells p)[k := of_nat i]\<rparr>))"
proof -
  have inv: "tiling_inv S m"
    by (rule tiling_reachable_inv[OF assms(1,6) tiling_new_inv[OF assms(1,3,4,5)]])
  note coords = patch_coords[OF assms(2), of gx gy, folded side_def]
  obtain bx "by" cx cy where c: "patch_in_board_coord S gx gy = (bx, by, cx, cy)" "bx < S - 1" "by < S - 1" "cx < S" "cy < S"
    "int bx = gx div int S mod int (S - 1)" "int by = gy div int S mod int (S - 1)" "int cx = gx mod int S" "int cy = gy mod int S"
    using coords(2) by blast
  obtain r m' where get: "tile_get S (gx div side) (gy div side) m = Some (r, m')"
    "\<And>b. r = Some b \<Longrightarrow> m' = m \<and> map_of m (gx div side, gy div side) = Some (Tile_board b)"
    using tile_get_ok[OF assms(1) inv, of "gx div side" "gy div side"] by (auto simp: get_ok_def)
  show ?thesis
  proof (cases r)
    case None
    then show ?thesis using get(1) by (simp add: patch_next_def assms(7) coords(1))
  next
    case (Some b)
    then have m: "map_of m (gx div side, gy div side) = Some (Tile_board b)" using get(2) by simp
    have valid: "valid_coord S (bx, by, cx, cy)" using c(2-5) by (auto simp: valid_coord.simps)
    have b: "wf_board S b" "is_pot (cell_val S b (bx, by, cx, cy))"
      using tiling_inv_board[OF inv m] valid by (auto simp: board_is_solved_iff)
    obtain i where i: "i < S * S" "glyph_get_index S (cell_val S b (bx, by, cx, cy)) = Some i"
      "cell_val S b (bx, by, cx, cy) = to_cell_type i"
      using glyph_index_single[OF assms(1) b(2) wf_cell[OF b(1) valid]] by blast
    have "i < 256" using i(1) assms(1) by (simp add: rank_ok_def)
    then have "patch_next S xmin ymin (p, k, m) = Some (p\<lparr>patch_cells := (patch_cells p)[k := of_nat i]\<rparr>, k + 1, m')"
      using get(1) Some i(2) by (simp add: patch_next_def assms(7) coords(1) c(1) board_get_def)
    then show ?thesis using m c i by blast
  qed
qed

lemma sudoku_patch_next_cell_witness:
  "\<exists>m p' k' m'. tiling_new_from 3 (board_new 3 :: 16 board) = Some m \<and>
     patch_next 3 0 0 (\<lparr>patch_width = 3, patch_height = 3, patch_cells = replicate 9 0\<rparr>, 0, m) = Some (p', k', m')"
proof -
  have rank: "rank_ok 3 TYPE(16)" by (simp add: rank_ok_def)
  obtain m where m: "tiling_new_from 3 (board_new 3 :: 16 board) = Some m"
    using ss_new_rel[of 3 "calculate_alternatives 3 (board_new 3) :: 16 board"]
    by (auto simp: tiling_new_from_def tile_do_enqueue_def)
  let ?p = "\<lparr>patch_width = 3, patch_height = 3, patch_cells = replicate 9 0\<rparr>"
  have "patch_cell_coord 0 0 ?p 0 = (0, 0)" by (simp add: patch_cell_coord_def)
  from sudoku_patch_next_cell[OF rank _ wf_board_new consistent_new m rtranclp.rtrancl_refl this] m
  show ?thesis by fastforce
qed

text \<open>The height of a patch is rounded up from its width: it can be too low for the requested cells.\<close>

lemma tile_patch_height_from_width:
  "map_option patch_height (tile_patch_new 3 3 10) = Some 6"
  by (simp add: tile_patch_new_def Let_def)

end
