(* ===== verification/Trie.thy ===== *)
theory Trie
  imports Flat_Map
begin

text \<open>
  \<^verbatim>\<open>source/modules/eagine/container/trie.cpp\<close>: a dictionary of strings over a fixed set of
  characters. The nodes are in one vector, node 0 is the root; a node has one index per character,
  0 for no child, and an optional object. A \<^verbatim>\<open>char\<close> is a signed byte. The character set is a
  string literal \<open>chars\<close> whose size counts the terminating zero. Failures of assertions and accesses
  outside of arrays are \<open>None\<close>.
\<close>

section \<open>Indices of characters\<close>

type_synonym char_index = "8 word"

definition invalid_char_index :: char_index where
  "invalid_char_index = - 1"

definition trie_pivot :: "nat \<Rightarrow> nat" where
  "trie_pivot n = (if n = 0 then 0 else if n = 1 then 0 else n div 2)"

function do_find_char_index :: "byte list \<Rightarrow> byte \<Rightarrow> nat \<Rightarrow> nat \<Rightarrow> nat \<Rightarrow> char_index" where
  "do_find_char_index chars c ofs piv len =
     (if piv = len then invalid_char_index
      else if piv = 0 \<and> len = 1 then
        if c = chars ! ofs then of_nat ofs else invalid_char_index
      else if sint c < sint (chars ! (ofs + piv)) then
        if piv > 0 then do_find_char_index chars c ofs (trie_pivot piv) piv
        else invalid_char_index
      else if sint c > sint (chars ! (ofs + piv)) then
        if piv + 1 < len
        then do_find_char_index chars c (ofs + piv + 1) (trie_pivot (len - piv - 1)) (len - piv - 1)
        else invalid_char_index
      else of_nat (ofs + piv))"
  by pat_completeness auto
termination
  by (relation "measure (\<lambda>(chars, c, ofs, piv, len). if piv < len then 2 * len else 2 * piv + 1)")
    (auto simp: trie_pivot_def)

declare do_find_char_index.simps [simp del]

definition find_char_index :: "byte list \<Rightarrow> byte \<Rightarrow> char_index" where
  "find_char_index chars c =
     do_find_char_index chars c 0 (trie_pivot (length chars - 1)) (length chars - 1)"

definition is_valid_char :: "byte list \<Rightarrow> byte \<Rightarrow> bool" where
  "is_valid_char chars c = (find_char_index chars c \<noteq> invalid_char_index)"

definition get_char_map :: "byte list \<Rightarrow> nat \<Rightarrow> char_index list" where
  "get_char_map chars n = map (\<lambda>i. find_char_index chars (word_of_nat i)) [0..<n]"

section \<open>Nodes\<close>

record ('i, 'v) trie_node =
  next_idx :: "'i list"
  object :: "'v option"

record ('i, 'v) trie =
  char_map :: "char_index list"
  nodes :: "('i, 'v) trie_node list"

definition node_type :: "byte list \<Rightarrow> ('i::len word, 'v) trie_node" where
  "node_type chars = \<lparr>next_idx = replicate (length chars) 0, object = None\<rparr>"

definition trie_init :: "byte list \<Rightarrow> ('i::len word, 'v) trie" where
  "trie_init chars = \<lparr>char_map = get_char_map chars 128, nodes = [node_type chars]\<rparr>"

definition valid_chars :: "byte list \<Rightarrow> byte list" where
  "valid_chars chars = take (length chars - 1) chars"

definition is_valid_key :: "byte list \<Rightarrow> byte list \<Rightarrow> bool" where
  "is_valid_key chars key = list_all (is_valid_char chars) key"

text \<open>The outer option is the access to the map, the inner one the result.\<close>

definition get_char_index :: "('i, 'v) trie \<Rightarrow> byte \<Rightarrow> nat option option" where
  "get_char_index t c =
     (if 0 \<le> sint c \<and> sint c < 128 \<and> nat (sint c) < length (char_map t)
      then let idx = char_map t ! nat (sint c)
           in Some (if idx \<noteq> invalid_char_index then Some (unat idx) else None)
      else None)"

definition is_no_index :: "nat \<Rightarrow> bool" where
  "is_no_index idx = (idx = 0)"

definition is_valid_index :: "('i, 'v) trie \<Rightarrow> nat \<Rightarrow> bool" where
  "is_valid_index t idx = (idx < length (nodes t))"

definition node_next :: "('i::len word, 'v) trie \<Rightarrow> nat \<Rightarrow> nat \<Rightarrow> nat option" where
  "node_next t i c =
     (if i < length (nodes t) \<and> c < length (next_idx (nodes t ! i))
      then Some (unat (next_idx (nodes t ! i) ! c)) else None)"

function find_insert_pos_from ::
    "('i::len word, 'v) trie \<Rightarrow> byte list \<Rightarrow> nat \<Rightarrow> nat \<Rightarrow> (nat \<times> nat \<times> bool) option" where
  "find_insert_pos_from t key iidx offs =
     (if offs < length key
      then Option.bind (get_char_index t (key ! offs)) (\<lambda>cidx.
             case cidx of
               Some c \<Rightarrow> Option.bind (node_next t iidx c) (\<lambda>next.
                 if is_no_index next then Some (iidx, offs, True)
                 else if is_valid_index t next then find_insert_pos_from t key next (offs + 1)
                 else None)
             | None \<Rightarrow> Some (iidx, offs, False))
      else Some (iidx, offs, True))"
  by pat_completeness auto
termination by (relation "measure (\<lambda>(t, key, iidx, offs). length key - offs)") auto

declare find_insert_pos_from.simps [simp del]

definition find_insert_pos :: "('i::len word, 'v) trie \<Rightarrow> byte list \<Rightarrow> (nat \<times> nat \<times> bool) option" where
  "find_insert_pos t key = find_insert_pos_from t key 0 0"

section \<open>Changing the dictionary\<close>

definition get_next_idx :: "byte list \<Rightarrow> ('i::len word, 'v) trie \<Rightarrow> nat \<times> ('i word, 'v) trie" where
  "get_next_idx chars t = (length (nodes t), t\<lparr>nodes := nodes t @ [node_type chars]\<rparr>)"

definition index_limit_cast :: "nat \<Rightarrow> 'i::len word option" where
  "index_limit_cast n = (if n < 2 ^ LENGTH('i) then Some (of_nat n) else None)"

definition set_node_next ::
    "('i::len word, 'v) trie \<Rightarrow> nat \<Rightarrow> nat \<Rightarrow> 'i word \<Rightarrow> ('i word, 'v) trie option" where
  "set_node_next t i c w =
     (if i < length (nodes t) \<and> c < length (next_idx (nodes t ! i))
      then Some (t\<lparr>nodes := (nodes t)[i := (nodes t ! i)\<lparr>next_idx := (next_idx (nodes t ! i))[c := w]\<rparr>]\<rparr>)
      else None)"

definition set_object :: "('i, 'v) trie \<Rightarrow> nat \<Rightarrow> 'v option \<Rightarrow> ('i, 'v) trie option" where
  "set_object t i v =
     (if i < length (nodes t)
      then Some (t\<lparr>nodes := (nodes t)[i := (nodes t ! i)\<lparr>object := v\<rparr>]\<rparr>) else None)"

text \<open>The loop of \<^verbatim>\<open>insert\<close> returns the node and offset it ends at, and whether it could insert.\<close>

function insert_nodes ::
    "byte list \<Rightarrow> byte list \<Rightarrow> ('i::len word, 'v) trie \<Rightarrow> nat \<Rightarrow> nat \<Rightarrow>
     (nat \<times> nat \<times> bool \<times> ('i word, 'v) trie) option" where
  "insert_nodes chars key t iidx offs =
     (if offs < length key
      then Option.bind (get_char_index t (key ! offs)) (\<lambda>cidx.
             case cidx of
               None \<Rightarrow> Some (iidx, offs, False, t)
             | Some c \<Rightarrow>
                 (let (next, t1) = get_next_idx chars t
                  in Option.bind (index_limit_cast next) (\<lambda>w.
                     Option.bind (set_node_next t1 iidx c w) (\<lambda>t2.
                       insert_nodes chars key t2 next (offs + 1)))))
      else Some (iidx, offs, True, t))"
  by pat_completeness auto
termination by (relation "measure (\<lambda>(chars, key, t, iidx, offs). length key - offs)") auto

declare insert_nodes.simps [simp del]

definition trie_insert ::
    "byte list \<Rightarrow> byte list \<Rightarrow> 'v \<Rightarrow> ('i::len word, 'v) trie \<Rightarrow> (bool \<times> ('i word, 'v) trie) option" where
  "trie_insert chars key v t =
     Option.bind (find_insert_pos t key) (\<lambda>(iidx, offs, can_insert).
       if can_insert
       then Option.bind (insert_nodes chars key t iidx offs) (\<lambda>(iidx, offs, can_insert, t).
              if offs = length key
              then map_option (Pair can_insert) (set_object t iidx (Some v))
              else Some (can_insert, t))
       else Some (can_insert, t))"

definition trie_add ::
    "byte list \<Rightarrow> byte list \<Rightarrow> 'v \<Rightarrow> ('i::len word, 'v) trie \<Rightarrow> ('i word, 'v) trie option" where
  "trie_add chars key v t = map_option snd (trie_insert chars key v t)"

definition node_object :: "('i, 'v) trie \<Rightarrow> nat \<Rightarrow> 'v option option" where
  "node_object t i = (if i < length (nodes t) then Some (object (nodes t ! i)) else None)"

definition trie_contains :: "('i::len word, 'v) trie \<Rightarrow> byte list \<Rightarrow> bool option" where
  "trie_contains t key =
     Option.bind (find_insert_pos t key) (\<lambda>(iidx, offs, is_valid).
       if is_valid \<and> offs = length key
       then map_option (\<lambda>v. v \<noteq> None) (node_object t iidx) else Some False)"

definition trie_find :: "('i::len word, 'v) trie \<Rightarrow> byte list \<Rightarrow> 'v option option" where
  "trie_find t key =
     Option.bind (find_insert_pos t key) (\<lambda>(fidx, offs, is_valid).
       if is_valid \<and> offs = length key then node_object t fidx else Some None)"

definition trie_remove ::
    "byte list \<Rightarrow> ('i::len word, 'v) trie \<Rightarrow> (bool \<times> ('i word, 'v) trie) option" where
  "trie_remove key t =
     Option.bind (find_insert_pos t key) (\<lambda>(fidx, offs, is_valid).
       if is_valid \<and> offs = length key
       then Option.bind (node_object t fidx) (\<lambda>ob.
              if ob \<noteq> None then map_option (Pair True) (set_object t fidx None)
              else Some (False, t))
       else Some (False, t))"

definition node_count :: "('i, 'v) trie \<Rightarrow> nat" where
  "node_count t = length (nodes t)"

definition value_node_count :: "('i, 'v) trie \<Rightarrow> nat" where
  "value_node_count t = length (filter (\<lambda>n. object n \<noteq> None) (nodes t))"

definition internal_node_count :: "('i, 'v) trie \<Rightarrow> nat" where
  "internal_node_count t = length (filter (\<lambda>n. \<not> (object n \<noteq> None)) (nodes t))"

section \<open>Traversal\<close>

text \<open>
  The inner loop of \<^verbatim>\<open>_do_traverse\<close>: the next character from \<open>c\<close> on with a child.
\<close>

function next_child :: "('i::len word, 'v) trie_node \<Rightarrow> nat \<Rightarrow> nat \<Rightarrow> nat" where
  "next_child n sz c =
     (if c < sz \<and> is_no_index (unat (next_idx n ! c)) then next_child n sz (c + 1) else c)"
  by pat_completeness auto
termination by (relation "measure (\<lambda>(n, sz, c). sz - c)") auto

declare next_child.simps [simp del]

definition object_call :: "('i, 'v) trie_node \<Rightarrow> byte list \<Rightarrow> (byte list \<times> 'v) list" where
  "object_call n str = (case object n of Some v \<Rightarrow> [(str, v)] | None \<Rightarrow> [])"

fun bump_top :: "(nat \<times> nat) list \<Rightarrow> (nat \<times> nat) list" where
  "bump_top [] = []"
| "bump_top ((c, n) # idx) = (c + 1, n) # idx"

text \<open>
  The calls of the function and whether the loop returned; otherwise its behaviour became undefined
  after these calls. The stack \<open>idx\<close> has its back in front. Its capacity \<open>cap\<close> is at least the 16
  elements that are reserved: a \<^verbatim>\<open>push_back\<close> beyond it reallocates the vector, and the character is
  read through a reference into the old one. The string must not be empty for \<^verbatim>\<open>pop_back\<close>.
\<close>

partial_function (option) do_traverse ::
    "nat \<Rightarrow> byte list \<Rightarrow> ('i::len word, 'v) trie \<Rightarrow> byte list \<Rightarrow> (nat \<times> nat) list \<Rightarrow>
     ((byte list \<times> 'v) list \<times> bool) option" where
  "do_traverse cap chars t str idx =
     (case idx of
        [] \<Rightarrow> Some ([], True)
      | (c, n) # rest \<Rightarrow>
          if n < length (nodes t)
          then let node = nodes t ! n; c = next_child node (length chars) c; call = object_call node str
               in if c = length chars
                  then if str = [] then Some (call, False)
                       else Option.bind (do_traverse cap chars t (butlast str) (bump_top rest))
                              (\<lambda>(calls, ok). Some (call @ calls, ok))
                  else if length idx = cap then Some (call, False)
                  else Option.bind (do_traverse cap chars t (str @ [chars ! c])
                                      ((0, unat (next_idx node ! c)) # (c, n) # rest))
                         (\<lambda>(calls, ok). Some (call @ calls, ok))
          else Some ([], False))"

definition trie_traverse ::
    "nat \<Rightarrow> byte list \<Rightarrow> ('i::len word, 'v) trie \<Rightarrow> ((byte list \<times> 'v) list \<times> bool) option" where
  "trie_traverse cap chars t = do_traverse cap chars t [] [(0, 0)]"

text \<open>The character sets of the aliases at the end of the file.\<close>

definition c_literal :: "string \<Rightarrow> byte list" where
  "c_literal s = map of_char s @ [0]"

definition dec_identifier_trie_chars :: "byte list" where
  "dec_identifier_trie_chars = c_literal ''0123456789''"

definition lc_identifier_trie_chars :: "byte list" where
  "lc_identifier_trie_chars = c_literal ''0123456789_abcdefghijklmnopqrstuvwxyz''"

definition identifier_trie_chars :: "byte list" where
  "identifier_trie_chars =
     c_literal ''0123456789ABCDEFGHIJKLMNOPQRSTUVWXYZ_abcdefghijklmnopqrstuvwxyz''"
section \<open>Searching a character\<close>

text \<open>
  What the code requires of the literal: its characters are sorted (asserted at compile time), each
  occurs once, an index of one of them fits below the invalid index, and none is negative.
\<close>

definition trie_charset :: "byte list \<Rightarrow> bool" where
  "trie_charset chars =
     (chars \<noteq> [] \<and> length chars \<le> 256 \<and>
      sorted_wrt (\<lambda>a b. sint a < sint b) (valid_chars chars) \<and>
      list_all (\<lambda>c. 0 \<le> sint c) (valid_chars chars))"

lemma length_valid_chars [simp]: "length (valid_chars chars) = length chars - 1"
  by (simp add: valid_chars_def)

lemma nth_valid_chars [simp]: "k < length chars - 1 \<Longrightarrow> valid_chars chars ! k = chars ! k"
  by (simp add: valid_chars_def)

lemma charset_less:
  "trie_charset chars \<Longrightarrow> i < j \<Longrightarrow> j < length chars - 1 \<Longrightarrow> sint (chars ! i) < sint (chars ! j)"
  unfolding trie_charset_def sorted_wrt_iff_nth_less by fastforce

lemma charset_inj:
  assumes "trie_charset chars" "i < length chars - 1" "j < length chars - 1" "chars ! i = chars ! j"
  shows "i = j"
  using charset_less[of chars i j] charset_less[of chars j i] assms by (cases i j rule: linorder_cases) auto

lemma do_find_char_index_spec:
  assumes "trie_charset chars" "ofs + len \<le> length chars - 1" "len = 0 \<and> piv = 0 \<or> piv < len"
  shows "(\<forall>k. ofs \<le> k \<and> k < ofs + len \<and> chars ! k = c \<longrightarrow>
            do_find_char_index chars c ofs piv len = of_nat k) \<and>
         ((\<forall>k. ofs \<le> k \<and> k < ofs + len \<longrightarrow> chars ! k \<noteq> c) \<longrightarrow>
            do_find_char_index chars c ofs piv len = invalid_char_index)"
  using assms
proof (induction chars c ofs piv len rule: do_find_char_index.induct)
  case (1 chars c ofs piv len)
  note less = charset_less[OF 1(3)]
  note unf = do_find_char_index.simps[of chars c ofs piv len]
  let ?m = "chars ! (ofs + piv)"
  consider "piv = len" | "piv < len" "piv = 0" "len = 1"
    | "piv < len" "\<not> (piv = 0 \<and> len = 1)" "sint c < sint ?m"
    | "piv < len" "\<not> (piv = 0 \<and> len = 1)" "sint c > sint ?m"
    | "piv < len" "\<not> (piv = 0 \<and> len = 1)" "c = ?m"
    using 1(5) word_eq_iff_signed[of c ?m]
    by (cases "sint c" "sint ?m" rule: linorder_cases) (auto simp del: One_nat_def)
  then show ?case
  proof cases
    case 3
    have above: "\<not> (ofs + piv \<le> k \<and> k < ofs + len \<and> chars ! k = c)" for k
      using less[of "ofs + piv" k] 3(1,3) 1(4) by (cases "k = ofs + piv") auto
    show ?thesis
    proof (cases "piv > 0")
      case True
      have "trie_pivot piv < piv"
        using True by (auto simp: trie_pivot_def)
      moreover have eq: "do_find_char_index chars c ofs piv len = do_find_char_index chars c ofs (trie_pivot piv) piv"
        using True 3 by (subst unf) simp
      ultimately have "(\<forall>k. ofs \<le> k \<and> k < ofs + piv \<and> chars ! k = c \<longrightarrow>
            do_find_char_index chars c ofs piv len = of_nat k) \<and>
         ((\<forall>k. ofs \<le> k \<and> k < ofs + piv \<longrightarrow> chars ! k \<noteq> c) \<longrightarrow>
            do_find_char_index chars c ofs piv len = invalid_char_index)"
        unfolding eq using True 1(3,4) 3 by (intro 1(1)) auto
      then show ?thesis using above 3(1)
        by (metis add_less_mono1 add.commute less_trans not_le)
    next
      case False
      then have "do_find_char_index chars c ofs piv len = invalid_char_index"
        using 3 by (subst unf) simp
      then show ?thesis using above False by auto
    qed
  next
    case 4
    have below: "\<not> (ofs \<le> k \<and> k < ofs + piv + 1 \<and> chars ! k = c)" for k
      using less[of k "ofs + piv"] 4(1,3) 1(4) by (cases "k = ofs + piv") auto
    have "trie_pivot (len - piv - 1) < len - piv - 1 \<or> len - piv - 1 = 0"
      by (auto simp: trie_pivot_def)
    moreover have eq: "piv + 1 < len \<Longrightarrow> do_find_char_index chars c ofs piv len =
        do_find_char_index chars c (ofs + piv + 1) (trie_pivot (len - piv - 1)) (len - piv - 1)"
      using 4 by (subst unf) simp
    ultimately have ih: "piv + 1 < len \<Longrightarrow>
        (\<forall>k. ofs + piv + 1 \<le> k \<and> k < ofs + len \<and> chars ! k = c \<longrightarrow>
            do_find_char_index chars c ofs piv len = of_nat k) \<and>
         ((\<forall>k. ofs + piv + 1 \<le> k \<and> k < ofs + len \<longrightarrow> chars ! k \<noteq> c) \<longrightarrow>
            do_find_char_index chars c ofs piv len = invalid_char_index)"
      using 1(2)[OF _ _ _ _ _ 1(3)] 1(4) 4 by (simp add: eq add.assoc)
    have none: "piv + 1 = len \<Longrightarrow> do_find_char_index chars c ofs piv len = invalid_char_index"
      using 4 by (subst unf) auto
    show ?thesis
    proof (cases "piv + 1 < len")
      case True
      show ?thesis
      proof -
        have "ofs \<le> k \<Longrightarrow> k < ofs + len \<Longrightarrow> chars ! k = c \<Longrightarrow> ofs + piv + 1 \<le> k" for k
          using below[of k] by linarith
        then show ?thesis using ih[OF True] by auto
      qed
    next
      case False
      then have "piv + 1 = len" using 4 by simp
      then have "chars ! k \<noteq> c" if "ofs \<le> k" "k < ofs + len" for k
        using below[of k] that by linarith
      with \<open>piv + 1 = len\<close> show ?thesis using none by blast
    qed
  next
    case 5
    have "k = ofs + piv" if "ofs \<le> k" "k < ofs + len" "chars ! k = c" for k
      using charset_inj[OF 1(3), of k "ofs + piv"] 5 that 1(4) by simp
    moreover have "do_find_char_index chars c ofs piv len = of_nat (ofs + piv)"
      using 5 by (subst unf) auto
    moreover have "ofs \<le> ofs + piv" "ofs + piv < ofs + len"
      using 5 by auto
    ultimately show ?thesis
      using 5(3) by metis
  qed (use unf 1(5) in \<open>auto simp: less_Suc_eq_le dest: le_antisym\<close>)
qed

lemma find_char_index_spec:
  assumes "trie_charset chars"
  shows "k < length chars - 1 \<Longrightarrow> chars ! k = c \<Longrightarrow> find_char_index chars c = of_nat k"
    and "c \<notin> set (valid_chars chars) \<Longrightarrow> find_char_index chars c = invalid_char_index"
proof -
  have "0 + (length chars - 1) \<le> length chars - 1"
    and "length chars - 1 = 0 \<and> trie_pivot (length chars - 1) = 0 \<or>
      trie_pivot (length chars - 1) < length chars - 1"
    by (auto simp: trie_pivot_def)
  note spec = do_find_char_index_spec[OF assms this, of c]
  show "k < length chars - 1 \<Longrightarrow> chars ! k = c \<Longrightarrow> find_char_index chars c = of_nat k"
    using spec by (simp add: find_char_index_def)
  assume "c \<notin> set (valid_chars chars)"
  then have "chars ! k \<noteq> c" if "k < length chars - 1" for k
    using that by (metis in_set_conv_nth length_valid_chars nth_valid_chars)
  then show "find_char_index chars c = invalid_char_index"
    using spec by (simp add: find_char_index_def)
qed

lemma unat_minus_one_word_8: "unat (- 1 :: 8 word) = 255"
  by (simp add: unsigned_minus_1_eq_mask mask_eq_exp_minus_1)

lemma index_not_invalid:
  assumes "trie_charset chars" "k < length chars - 1"
  shows "(of_nat k :: char_index) \<noteq> invalid_char_index" "unat (of_nat k :: char_index) = k"
proof -
  have "k < 255" using assms by (auto simp: trie_charset_def)
  then show u: "unat (of_nat k :: char_index) = k"
    by (simp add: unat_of_nat)
  show "(of_nat k :: char_index) \<noteq> invalid_char_index"
  proof
    assume "(of_nat k :: char_index) = invalid_char_index"
    then have "unat (of_nat k :: char_index) = 255"
      by (simp add: invalid_char_index_def unat_minus_one_word_8)
    then show False using u \<open>k < 255\<close> by simp
  qed
qed

lemma is_valid_char_iff:
  assumes "trie_charset chars"
  shows "is_valid_char chars c \<longleftrightarrow> c \<in> set (valid_chars chars)"
proof (cases "c \<in> set (valid_chars chars)")
  case True
  then obtain k where "k < length chars - 1" "chars ! k = c"
    by (metis in_set_conv_nth length_valid_chars nth_valid_chars)
  then show ?thesis
    using True find_char_index_spec(1)[OF assms] index_not_invalid(1)[OF assms] by (simp add: is_valid_char_def)
qed (simp add: is_valid_char_def find_char_index_spec(2)[OF assms])

lemma is_valid_key_iff: "trie_charset chars \<Longrightarrow> is_valid_key chars key \<longleftrightarrow> set key \<subseteq> set (valid_chars chars)"
  by (auto simp: is_valid_key_def list_all_iff is_valid_char_iff)
section \<open>The tree of nodes\<close>

text \<open>The child of node \<open>i\<close> for the character with index \<open>c\<close>, 0 if there is none.\<close>

definition edge :: "('i::len word, 'v) trie \<Rightarrow> nat \<Rightarrow> nat \<Rightarrow> nat" where
  "edge t i c = (case node_next t i c of Some n \<Rightarrow> n | None \<Rightarrow> 0)"

text \<open>
  Children have larger indices than their parents, no child is shared, every node but the root is a
  child, and the zero at the end of the literal has no children.
\<close>

definition trie_inv :: "byte list \<Rightarrow> ('i::len word, 'v) trie \<Rightarrow> bool" where
  "trie_inv chars t =
     (char_map t = get_char_map chars 128 \<and> nodes t \<noteq> [] \<and> length (nodes t) \<le> 2 ^ LENGTH('i) \<and>
      (\<forall>n \<in> set (nodes t). length (next_idx n) = length chars) \<and>
      (\<forall>i c. edge t i c \<noteq> 0 \<longrightarrow> c < length chars - 1 \<and> i < edge t i c \<and> edge t i c < length (nodes t)) \<and>
      (\<forall>i c j d. edge t i c \<noteq> 0 \<and> edge t i c = edge t j d \<longrightarrow> i = j \<and> c = d) \<and>
      (\<forall>k. 0 < k \<and> k < length (nodes t) \<longrightarrow> (\<exists>i c. edge t i c = k)))"

text \<open>The node a string leads to from a node, and the strings with their objects.\<close>

fun trie_walk :: "('i::len word, 'v) trie \<Rightarrow> nat \<Rightarrow> byte list \<Rightarrow> nat option" where
  "trie_walk t i [] = Some i"
| "trie_walk t i (c # s) =
     (case get_char_index t c of
        Some (Some k) \<Rightarrow> if edge t i k = 0 then None else trie_walk t (edge t i k) s
      | _ \<Rightarrow> None)"

definition trie_map :: "('i::len word, 'v) trie \<Rightarrow> byte list \<rightharpoonup> 'v" where
  "trie_map t s = Option.bind (trie_walk t 0 s) (\<lambda>i. object (nodes t ! i))"

definition ascii :: "byte list \<Rightarrow> bool" where
  "ascii s = list_all (\<lambda>c. 0 \<le> sint c) s"

lemma trie_invD:
  assumes "trie_inv chars t"
  shows "char_map t = get_char_map chars 128" and "0 < length (nodes t)"
    and "i < length (nodes t) \<Longrightarrow> length (next_idx (nodes t ! i)) = length chars"
    and "edge t i c \<noteq> 0 \<Longrightarrow> c < length chars - 1"
    and "edge t i c \<noteq> 0 \<Longrightarrow> i < edge t i c"
    and "edge t i c \<noteq> 0 \<Longrightarrow> edge t i c < length (nodes t)"
    and "edge t i c \<noteq> 0 \<Longrightarrow> edge t i c = edge t j d \<Longrightarrow> i = j \<and> c = d"
    and "0 < k \<Longrightarrow> k < length (nodes t) \<Longrightarrow> \<exists>i c. edge t i c = k"
proof -
  note inv = assms[unfolded trie_inv_def]
  show "char_map t = get_char_map chars 128" "0 < length (nodes t)"
    using inv by simp_all
  show "i < length (nodes t) \<Longrightarrow> length (next_idx (nodes t ! i)) = length chars"
    using inv nth_mem by blast
  show "edge t i c \<noteq> 0 \<Longrightarrow> c < length chars - 1" "edge t i c \<noteq> 0 \<Longrightarrow> i < edge t i c"
    "edge t i c \<noteq> 0 \<Longrightarrow> edge t i c < length (nodes t)"
    "edge t i c \<noteq> 0 \<Longrightarrow> edge t i c = edge t j d \<Longrightarrow> i = j \<and> c = d"
    "0 < k \<Longrightarrow> k < length (nodes t) \<Longrightarrow> \<exists>i c. edge t i c = k"
    using inv by blast+
qed

lemma edge_eq:
  "trie_inv chars t \<Longrightarrow> i < length (nodes t) \<Longrightarrow> c < length chars \<Longrightarrow>
     edge t i c = unat (next_idx (nodes t ! i) ! c) \<and> node_next t i c = Some (edge t i c)"
  using trie_invD(3)[of chars t i] by (simp add: edge_def node_next_def)

subsection \<open>Looking up characters\<close>

lemma sint_byte: "- 128 \<le> sint c \<and> sint c < 128" for c :: byte
  using sint_range_size[of c] by (simp add: word_size)

lemma get_char_index_eq:
  assumes "trie_inv chars t" "0 \<le> sint c"
  shows "get_char_index t c =
     (let idx = find_char_index chars c in Some (if idx \<noteq> invalid_char_index then Some (unat idx) else None))"
proof -
  have "nat (sint c) < 128"
    using sint_byte[of c] by linarith
  moreover have "word_of_nat (nat (sint c)) = c"
    using assms(2) by simp
  ultimately show ?thesis
    using assms sint_byte[of c] by (simp add: get_char_index_def trie_invD(1)[OF assms(1)] get_char_map_def)
qed

lemma get_char_index_cases:
  assumes "trie_charset chars" "trie_inv chars t"
  shows "0 \<le> sint c \<Longrightarrow> c \<notin> set (valid_chars chars) \<Longrightarrow> get_char_index t c = Some None"
    and "k < length chars - 1 \<Longrightarrow> get_char_index t (chars ! k) = Some (Some k)"
    and "get_char_index t c = Some (Some k) \<longleftrightarrow> k < length chars - 1 \<and> chars ! k = c"
    and "sint c < 0 \<Longrightarrow> get_char_index t c = None"
proof -
  show absent: "get_char_index t c = Some None" if "0 \<le> sint c" "c \<notin> set (valid_chars chars)" for c
    using that find_char_index_spec(2)[OF assms(1)] by (simp add: get_char_index_eq[OF assms(2)])
  show present: "get_char_index t (chars ! k) = Some (Some k)" if "k < length chars - 1" for k
  proof -
    have "0 \<le> sint (chars ! k)"
      using that assms(1) by (auto simp: trie_charset_def list_all_length)
    then show ?thesis
      using that find_char_index_spec(1)[OF assms(1) that refl] index_not_invalid[OF assms(1) that]
      by (simp add: get_char_index_eq[OF assms(2)])
  qed
  show negative: "get_char_index t c = None" if "sint c < 0" for c
    using that by (simp add: get_char_index_def)
  show "get_char_index t c = Some (Some k) \<longleftrightarrow> k < length chars - 1 \<and> chars ! k = c"
  proof
    assume eq: "get_char_index t c = Some (Some k)"
    then have "0 \<le> sint c"
      using negative[of c] by (cases "sint c < 0") auto
    then have "c \<in> set (valid_chars chars)"
      using absent eq by fastforce
    then obtain l where l: "l < length chars - 1" "chars ! l = c"
      by (metis in_set_conv_nth length_valid_chars nth_valid_chars)
    then show "k < length chars - 1 \<and> chars ! k = c"
      using present[OF l(1)] eq by auto
  qed (use present in auto)
qed
subsection \<open>Walking\<close>

lemma trie_walk_append:
  "trie_walk t i (s @ s') = Option.bind (trie_walk t i s) (\<lambda>j. trie_walk t j s')"
  by (induction s arbitrary: i) (auto split: option.splits)

lemma trie_walk_snoc:
  "trie_walk t i (s @ [c]) = Some n \<longleftrightarrow>
     (\<exists>j k. trie_walk t i s = Some j \<and> get_char_index t c = Some (Some k) \<and> edge t j k = n \<and> n \<noteq> 0)"
  by (cases "trie_walk t i s"; cases "get_char_index t c"; cases "the (get_char_index t c)")
    (auto simp: trie_walk_append)

lemma trie_walk_less:
  assumes "trie_inv chars t" "trie_walk t i s = Some j" "i < length (nodes t)"
  shows "j < length (nodes t) \<and> i + length s \<le> j"
  using assms(2,3)
proof (induction s arbitrary: i)
  case (Cons c s)
  then obtain k where "edge t i k \<noteq> 0" "trie_walk t (edge t i k) s = Some j"
    by (auto split: option.splits if_splits)
  then show ?case
    using Cons.IH[of "edge t i k"] trie_invD(5,6)[OF assms(1), of i k] by fastforce
qed simp

lemma trie_walk_root:
  "trie_inv chars t \<Longrightarrow> trie_walk t 0 s = Some j \<Longrightarrow> j < length (nodes t) \<and> length s \<le> j"
  using trie_walk_less[of chars t 0 s j] trie_invD(2)[of chars t] by simp

lemma trie_walk_inj:
  assumes "trie_charset chars" "trie_inv chars t" "trie_walk t 0 s = Some i" "trie_walk t 0 s' = Some i"
  shows "s = s'"
  using assms(3,4)
proof (induction s arbitrary: s' i rule: rev_induct)
  case Nil
  then show ?case using trie_walk_root[OF assms(2) Nil(2)] by simp
next
  case (snoc c s)
  then have "i \<noteq> 0" by (auto simp: trie_walk_snoc)
  then obtain d r where s': "s' = r @ [d]"
    using snoc.prems(2) by (cases s' rule: rev_cases) auto
  from snoc.prems obtain j k j' k' where
    walks: "trie_walk t 0 s = Some j" "get_char_index t c = Some (Some k)" "edge t j k = i"
      "trie_walk t 0 r = Some j'" "get_char_index t d = Some (Some k')" "edge t j' k' = i"
    unfolding s' trie_walk_snoc by blast
  then have "j = j' \<and> k = k'"
    using trie_invD(7)[OF assms(2), of j k j' k'] \<open>i \<noteq> 0\<close> by simp
  moreover have "c = d"
    using walks(2,5) calculation get_char_index_cases(3)[OF assms(1,2)] by metis
  ultimately show ?case
    using snoc.IH[of j r] walks s' by simp
qed

lemma trie_walk_surj:
  assumes "trie_charset chars" "trie_inv chars t" "i < length (nodes t)"
  shows "\<exists>s. trie_walk t 0 s = Some i"
  using assms(3)
proof (induction i rule: less_induct)
  case (less i)
  show ?case
  proof (cases "i = 0")
    case True
    then show ?thesis by (intro exI[of _ "[]"]) simp
  next
    case False
    then obtain j k where "edge t j k = i"
      using trie_invD(8)[OF assms(2)] less.prems by blast
    then have jk: "j < i" "k < length chars - 1" "edge t j k = i"
      using trie_invD(4,5)[OF assms(2), of j k] False by auto
    then obtain s where "trie_walk t 0 s = Some j"
      using less.IH[of j] less.prems by auto
    then have "trie_walk t 0 (s @ [chars ! k]) = Some i"
      using get_char_index_cases(2)[OF assms(1,2) jk(2)] jk(3) False by (auto simp: trie_walk_snoc)
    then show ?thesis by blast
  qed
qed

lemma trie_walk_chars:
  assumes "trie_charset chars" "trie_inv chars t" "trie_walk t i s = Some j"
  shows "set s \<subseteq> set (valid_chars chars)"
  using assms(3)
proof (induction s arbitrary: i)
  case (Cons c s)
  then obtain k where k: "get_char_index t c = Some (Some k)" "trie_walk t (edge t i k) s = Some j"
    by (auto split: option.splits if_splits)
  then have "c \<in> set (valid_chars chars)"
    using get_char_index_cases(3)[OF assms(1,2)] nth_mem[of k "valid_chars chars"] by auto
  then show ?case using Cons.IH[OF k(2)] by simp
qed simp

subsection \<open>Adding a node\<close>

definition add_node :: "byte list \<Rightarrow> nat \<Rightarrow> nat \<Rightarrow> ('i::len word, 'v) trie \<Rightarrow> ('i word, 'v) trie" where
  "add_node chars i c t =
     t\<lparr>nodes := (nodes t @ [node_type chars])
        [i := (nodes t ! i)\<lparr>next_idx := (next_idx (nodes t ! i))[c := of_nat (length (nodes t))]\<rparr>]\<rparr>"

locale trie_add_node =
  fixes chars :: "byte list" and t :: "('i::len word, 'v) trie" and i c :: nat
  assumes charset: "trie_charset chars" and inv: "trie_inv chars t" and i: "i < length (nodes t)"
    and c: "c < length chars - 1" and free: "edge t i c = 0" and room: "length (nodes t) < 2 ^ LENGTH('i)"
begin

abbreviation "t' \<equiv> add_node chars i c t"

lemma c': "c < length chars"
  using c by simp

lemma length_nodes: "length (nodes t') = length (nodes t) + 1"
  by (simp add: add_node_def)

lemma char_index: "get_char_index t' = get_char_index t"
  by (rule ext) (simp add: get_char_index_def add_node_def)

lemma edge: "edge t' j d = (if j = i \<and> d = c then length (nodes t) else edge t j d)"
proof -
  have "unat (of_nat (length (nodes t)) :: 'i word) = length (nodes t)"
    using room by (simp add: unat_of_nat take_bit_nat_eq_self)
  then show ?thesis
    using i c' trie_invD(3)[OF inv i]
    by (cases "j < length (nodes t)"; cases "j = length (nodes t)")
      (auto simp: edge_def node_next_def add_node_def node_type_def nth_append nth_list_update)
qed

lemma inv': "trie_inv chars t'"
  unfolding trie_inv_def
proof (intro conjI allI impI ballI)
  show "char_map t' = get_char_map chars 128"
    using trie_invD(1)[OF inv] by (simp add: add_node_def)
  show "nodes t' \<noteq> []" "length (nodes t') \<le> 2 ^ LENGTH('i)"
    using length_nodes room by auto
  show "length (next_idx n) = length chars" if "n \<in> set (nodes t')" for n
    using that i trie_invD(3)[OF inv]
    by (auto simp: in_set_conv_nth add_node_def nth_list_update nth_append node_type_def)
  fix j d
  show "d < length chars - 1" "j < edge t' j d" "edge t' j d < length (nodes t')" if "edge t' j d \<noteq> 0"
    using that c i trie_invD(4,5,6)[OF inv, of j d] unfolding edge length_nodes by (auto split: if_splits)
  have old: "edge t j d < length (nodes t)" for j d
    using trie_invD(2)[OF inv] trie_invD(6)[OF inv, of j d] by (cases "edge t j d = 0") auto
  show "j = k" "d = e" if "edge t' j d \<noteq> 0 \<and> edge t' j d = edge t' k e" for k e
    using that old[of j d] old[of k e] trie_invD(7)[OF inv, of j d k e] unfolding edge
    by (auto split: if_splits)
  show "\<exists>j d. edge t' j d = k" if k: "0 < k \<and> k < length (nodes t')" for k
  proof (cases "k = length (nodes t)")
    case True
    then show ?thesis by (metis edge)
  next
    case False
    then obtain j d where "edge t j d = k"
      using k length_nodes trie_invD(8)[OF inv, of k] by auto
    then have "edge t' j d = k"
      using k free by (auto simp: edge)
    then show ?thesis by blast
  qed
qed

lemma object: "object (nodes t' ! k) = (if k < length (nodes t) then object (nodes t ! k) else
    if k = length (nodes t) then None else object (nodes t' ! k))"
  using i by (auto simp: add_node_def nth_append nth_list_update node_type_def)

lemma walk_mono: "trie_walk t j s = Some k \<Longrightarrow> trie_walk t' j s = Some k"
proof (induction s arbitrary: j)
  case (Cons d s)
  then obtain e where "get_char_index t d = Some (Some e)" "edge t j e \<noteq> 0" "trie_walk t (edge t j e) s = Some k"
    by (auto split: option.splits if_splits)
  then show ?case
    using Cons.IH[of "edge t j e"] free by (auto simp: char_index edge)
qed simp

lemma walk_old: "trie_walk t' 0 s = Some k \<Longrightarrow> k < length (nodes t) \<Longrightarrow> trie_walk t 0 s = Some k"
proof -
  assume k: "trie_walk t' 0 s = Some k" "k < length (nodes t)"
  then obtain s' where "trie_walk t 0 s' = Some k"
    using trie_walk_surj[OF charset inv] by blast
  then show ?thesis
    using trie_walk_inj[OF charset inv' k(1) walk_mono] by simp
qed

lemma walk_new: "trie_walk t 0 s = Some i \<Longrightarrow> trie_walk t' 0 (s @ [chars ! c]) = Some (length (nodes t))"
  using walk_mono[of 0 s i] get_char_index_cases(2)[OF charset inv c] trie_invD(2)[OF inv]
  by (auto simp: trie_walk_snoc char_index edge)

lemma trie_map: "trie_map t' = trie_map t"
proof
  fix s
  show "trie_map t' s = trie_map t s"
  proof (cases "trie_walk t' 0 s")
    case None
    then have "trie_walk t 0 s = None"
      using walk_mono[of 0 s] by (cases "trie_walk t 0 s") auto
    then show ?thesis using None by (simp add: trie_map_def)
  next
    case (Some k)
    show ?thesis
    proof (cases "k < length (nodes t)")
      case True
      then show ?thesis using walk_old[OF Some] Some by (simp add: trie_map_def object)
    next
      case False
      then have k: "k = length (nodes t)"
        using trie_walk_root[OF inv' Some] length_nodes by simp
      have "trie_walk t 0 s = None"
        using walk_mono[of 0 s] trie_walk_root[OF inv, of s] Some k by (cases "trie_walk t 0 s") auto
      then show ?thesis using Some k by (simp add: trie_map_def object)
    qed
  qed
qed

end
subsection \<open>Setting an object\<close>

lemma trie_inv_cong:
  fixes t :: "('i::len word, 'v) trie" and t' :: "('i word, 'w) trie"
  assumes "trie_inv chars t" "char_map t' = char_map t" "length (nodes t') = length (nodes t)"
    and "edge t' = edge t" "\<forall>n \<in> set (nodes t'). length (next_idx n) = length chars"
  shows "trie_inv chars t'"
proof -
  have "nodes t' \<noteq> []"
    using assms(3) trie_invD(2)[OF assms(1)] by auto
  then show ?thesis
    using assms(1,5) unfolding trie_inv_def assms(2-4) by - (elim conjE, intro conjI; assumption)
qed

lemma set_object_result:
  assumes "trie_charset chars" "trie_inv chars t" "trie_walk t 0 s = Some i"
  shows "\<exists>t'. set_object t i v = Some t' \<and> trie_inv chars t' \<and> trie_map t' = (trie_map t)(s := v) \<and>
    length (nodes t') = length (nodes t)"
proof -
  have i: "i < length (nodes t)"
    using trie_walk_root[OF assms(2,3)] by simp
  let ?t = "t\<lparr>nodes := (nodes t)[i := (nodes t ! i)\<lparr>object := v\<rparr>]\<rparr>"
  have edge: "edge ?t j d = edge t j d" for j d
    by (cases "j = i") (auto simp: edge_def node_next_def nth_list_update)
  have index: "get_char_index ?t = get_char_index t"
    by (rule ext) (simp add: get_char_index_def)
  have walk: "trie_walk ?t j s' = trie_walk t j s'" for j s'
    by (induction s' arbitrary: j) (auto simp: edge index split: option.split)
  have "trie_inv chars ?t"
  proof (rule trie_inv_cong[OF assms(2)])
    show "edge ?t = edge t"
      by (intro ext) (rule edge)
    show "\<forall>n \<in> set (nodes ?t). length (next_idx n) = length chars"
      using i trie_invD(3)[OF assms(2)] by (auto simp: in_set_conv_nth nth_list_update)
  qed simp_all
  moreover have "trie_map ?t = (trie_map t)(s := v)"
  proof
    fix s'
    show "trie_map ?t s' = ((trie_map t)(s := v)) s'"
      using trie_walk_inj[OF assms(1,2,3), of s'] assms(3) i
      by (cases "trie_walk t 0 s'") (auto simp: trie_map_def walk nth_list_update)
  qed
  ultimately show ?thesis
    using i by (simp add: set_object_def)
qed

subsection \<open>Finding the position of a key\<close>

definition at_insert_pos :: "byte list \<Rightarrow> ('i::len word, 'v) trie \<Rightarrow> byte list \<Rightarrow> nat \<Rightarrow> nat \<Rightarrow> bool \<Rightarrow> bool" where
  "at_insert_pos chars t key i offs can =
     (offs \<le> length key \<and> trie_walk t 0 (take offs key) = Some i \<and>
      (\<not> can \<longrightarrow> offs < length key \<and> key ! offs \<notin> set (valid_chars chars)) \<and>
      (can \<and> offs < length key \<longrightarrow>
         (\<exists>k < length chars - 1. chars ! k = key ! offs \<and> edge t i k = 0)))"

lemma ascii_index:
  assumes "trie_charset chars" "trie_inv chars t" "ascii key" "offs < length key"
  shows "key ! offs \<notin> set (valid_chars chars) \<and> get_char_index t (key ! offs) = Some None \<or>
    (\<exists>k < length chars - 1. chars ! k = key ! offs \<and> get_char_index t (key ! offs) = Some (Some k))"
proof (cases "key ! offs \<in> set (valid_chars chars)")
  case True
  then obtain k where k: "k < length chars - 1" "chars ! k = key ! offs"
    by (metis in_set_conv_nth length_valid_chars nth_valid_chars)
  then show ?thesis
    using get_char_index_cases(2)[OF assms(1,2) k(1)] by auto
next
  case False
  have "0 \<le> sint (key ! offs)"
    using assms(3,4) by (simp add: ascii_def list_all_length)
  then show ?thesis
    using False get_char_index_cases(1)[OF assms(1,2)] by blast
qed

lemma find_insert_pos_from_result:
  assumes "trie_charset chars" "trie_inv chars t" "ascii key"
    and "offs \<le> length key" "trie_walk t 0 (take offs key) = Some iidx"
  shows "\<exists>i o' can. find_insert_pos_from t key iidx offs = Some (i, o', can) \<and> at_insert_pos chars t key i o' can"
  using assms(4,5)
proof (induction "length key - offs" arbitrary: iidx offs)
  case 0
  then show ?case by (auto simp: find_insert_pos_from.simps[of t key iidx offs] at_insert_pos_def)
next
  case (Suc n)
  note unf = find_insert_pos_from.simps[of t key iidx offs]
  have offs: "offs < length key" and iidx: "iidx < length (nodes t)"
    using Suc.hyps(2) trie_walk_root[OF assms(2) Suc.prems(2)] by auto
  consider "key ! offs \<notin> set (valid_chars chars)" "get_char_index t (key ! offs) = Some None"
    | k where "k < length chars - 1" "chars ! k = key ! offs" "get_char_index t (key ! offs) = Some (Some k)"
    using ascii_index[OF assms(1-3) offs] by blast
  then show ?case
  proof cases
    case 1
    then show ?thesis using offs Suc.prems by (intro exI[of _ iidx] exI[of _ offs] exI[of _ False]) (simp add: unf at_insert_pos_def)
  next
    case 2
    have next_: "node_next t iidx k = Some (edge t iidx k)"
      using edge_eq[OF assms(2) iidx] 2 by simp
    show ?thesis
    proof (cases "edge t iidx k = 0")
      case True
      then show ?thesis using 2 offs Suc.prems next_ by (auto simp: unf at_insert_pos_def is_no_index_def)
    next
      case False
      then have "trie_walk t 0 (take (offs + 1) key) = Some (edge t iidx k)"
        using 2 Suc.prems(2) offs by (simp add: take_Suc_conv_app_nth trie_walk_snoc)
      then have "\<exists>i o' can. find_insert_pos_from t key (edge t iidx k) (offs + 1) = Some (i, o', can) \<and>
          at_insert_pos chars t key i o' can"
        using Suc.hyps offs by (intro Suc.hyps(1)) auto
      then show ?thesis
        using False 2(3) next_ offs trie_invD(6)[OF assms(2) False]
        by (simp add: unf is_no_index_def is_valid_index_def)
    qed
  qed
qed

lemma find_insert_pos_result:
  assumes "trie_charset chars" "trie_inv chars t" "ascii key"
  obtains i offs can where "find_insert_pos t key = Some (i, offs, can)" "at_insert_pos chars t key i offs can"
  using find_insert_pos_from_result[OF assms, of 0 0] by (auto simp: find_insert_pos_def)

lemma at_insert_pos_walk:
  assumes "trie_charset chars" "trie_inv chars t" "at_insert_pos chars t key i offs can"
  shows "trie_walk t 0 key = (if can \<and> offs = length key then Some i else None)"
proof (cases "offs = length key")
  case False
  then have key: "key = take offs key @ key ! offs # drop (Suc offs) key" "trie_walk t 0 (take offs key) = Some i"
    "offs < length key"
    using assms(3) by (auto simp: at_insert_pos_def id_take_nth_drop)
  have "trie_walk t i (key ! offs # drop (Suc offs) key) = None"
  proof (cases can)
    case True
    then obtain k where k: "k < length chars - 1" "chars ! k = key ! offs" "edge t i k = 0"
      using assms(3) key(3) by (auto simp: at_insert_pos_def)
    then show ?thesis
      using get_char_index_cases(2)[OF assms(1,2) k(1)] by simp
  next
    case can: False
    then have "key ! offs \<notin> set (valid_chars chars)"
      using assms(3) by (auto simp: at_insert_pos_def)
    then show ?thesis
      using trie_walk_chars[OF assms(1,2), of i "key ! offs # drop (Suc offs) key"]
      by (cases "trie_walk t i (key ! offs # drop (Suc offs) key)") auto
  qed
  then have "trie_walk t 0 (take offs key @ key ! offs # drop (Suc offs) key) = None"
    by (simp only: trie_walk_append key(2) bind.simps)
  then show ?thesis
    using False key(1) by simp
qed (use assms(3) in \<open>auto simp: at_insert_pos_def\<close>)
section \<open>Operations on the dictionary\<close>

lemma trie_init_inv:
  assumes "trie_charset chars"
  shows "trie_inv chars (trie_init chars :: ('i::len word, 'v) trie)" "trie_map (trie_init chars :: ('i word, 'v) trie) = Map.empty"
proof -
  let ?t = "trie_init chars :: ('i word, 'v) trie"
  have edge: "edge ?t i c = 0" for i c
    by (cases "i = 0"; cases "c < length chars") (auto simp: edge_def node_next_def trie_init_def node_type_def)
  show inv: "trie_inv chars ?t"
    unfolding trie_inv_def edge by (auto simp: trie_init_def node_type_def)
  show "trie_map ?t = Map.empty"
  proof
    fix s
    have "object (nodes ?t ! 0) = None"
      by (simp add: trie_init_def node_type_def)
    then show "trie_map ?t s = None"
      by (cases s) (auto simp: trie_map_def edge split: option.splits)
  qed
qed

lemma insert_nodes_result:
  fixes t :: "('i::len word, 'v) trie"
  assumes "trie_charset chars" "ascii key"
    and "trie_inv chars t" "at_insert_pos chars t key iidx offs can"
    and "can" "length (nodes t) + (length key - offs) \<le> 2 ^ LENGTH('i)"
  shows "\<exists>i o' can' t'. insert_nodes chars key t iidx offs = Some (i, o', can', t') \<and> trie_inv chars t' \<and>
    trie_map t' = trie_map t \<and> at_insert_pos chars t' key i o' can' \<and> (can' \<longrightarrow> o' = length key) \<and>
    length (nodes t') \<le> length (nodes t) + (length key - offs)"
  using assms(3-)
proof (induction "length key - offs" arbitrary: iidx offs t can)
  case 0
  then have "offs = length key" by (auto simp: at_insert_pos_def)
  then show ?case
    using 0 by (intro exI[of _ iidx] exI[of _ "length key"] exI[of _ True] exI[of _ t])
      (simp add: insert_nodes.simps[of chars key t iidx])
next
  case (Suc n)
  note unf = insert_nodes.simps[of chars key t iidx offs]
  have offs: "offs < length key" and walk: "trie_walk t 0 (take offs key) = Some iidx"
    using Suc.hyps(2) Suc.prems(2) by (auto simp: at_insert_pos_def)
  have iidx: "iidx < length (nodes t)"
    using trie_walk_root[OF Suc.prems(1) walk] by simp
  obtain k where k: "k < length chars - 1" "chars ! k = key ! offs" "edge t iidx k = 0"
    using Suc.prems(2,3) offs by (auto simp: at_insert_pos_def)
  have room: "length (nodes t) < 2 ^ LENGTH('i)"
    using Suc.prems(4) offs by linarith
  have loc: "trie_add_node chars t iidx k"
    using assms(1) Suc.prems(1) iidx k room by unfold_locales auto
  let ?t = "add_node chars iidx k t"
  have walk': "trie_walk ?t 0 (take (offs + 1) key) = Some (length (nodes t))"
    using trie_add_node.walk_new[OF loc walk] offs k(2) by (simp add: take_Suc_conv_app_nth)
  have "k < length chars"
    using k(1) by linarith
  have step: "insert_nodes chars key t iidx offs = insert_nodes chars key ?t (length (nodes t)) (offs + 1)"
    using get_char_index_cases(2)[OF assms(1) Suc.prems(1) k(1)] k offs room iidx \<open>k < length chars\<close>
      trie_invD(3)[OF Suc.prems(1) iidx]
    by (simp add: unf get_next_idx_def index_limit_cast_def set_node_next_def add_node_def nth_append)
  note inv' = trie_add_node.inv'[OF loc] and len = trie_add_node.length_nodes[OF loc]
  show ?case
  proof (cases "offs + 1 < length key \<and> key ! (offs + 1) \<notin> set (valid_chars chars)")
    case True
    then have "at_insert_pos chars ?t key (length (nodes t)) (offs + 1) False"
      using walk' by (simp add: at_insert_pos_def)
    moreover have "insert_nodes chars key ?t (length (nodes t)) (offs + 1) =
        Some (length (nodes t), offs + 1, False, ?t)"
    proof -
      have "get_char_index ?t (key ! (offs + 1)) = Some None"
        using True ascii_index[OF assms(1) inv' assms(2), of "offs + 1"] nth_mem[of _ "valid_chars chars"]
        by fastforce
      then show ?thesis
        using True by (subst insert_nodes.simps) simp
    qed
    ultimately show ?thesis
      using step inv' trie_add_node.trie_map[OF loc] len offs by (intro exI) auto
  next
    case False
    have free: "edge ?t (length (nodes t)) d = 0" for d
      using iidx trie_invD(5,6)[OF Suc.prems(1), of "length (nodes t)" d]
      by (cases "edge t (length (nodes t)) d = 0") (auto simp: trie_add_node.edge[OF loc])
    have "at_insert_pos chars ?t key (length (nodes t)) (offs + 1) True"
      using walk' offs False free
      by (auto simp: at_insert_pos_def in_set_conv_nth dest: nth_valid_chars)
    then have "\<exists>i o' can' t'. insert_nodes chars key ?t (length (nodes t)) (offs + 1) = Some (i, o', can', t') \<and>
        trie_inv chars t' \<and> trie_map t' = trie_map ?t \<and> at_insert_pos chars t' key i o' can' \<and>
        (can' \<longrightarrow> o' = length key) \<and> length (nodes t') \<le> length (nodes ?t) + (length key - (offs + 1))"
      using Suc.hyps(2) Suc.prems(4) inv' len offs by (intro Suc.hyps(1)) auto
    moreover have "length (nodes ?t) + (length key - (offs + 1)) = length (nodes t) + (length key - offs)"
      using len offs by linarith
    ultimately show ?thesis
      unfolding step trie_add_node.trie_map[OF loc] by simp
  qed
qed

lemma trie_insert_result:
  fixes t :: "('i::len word, 'v) trie"
  assumes "trie_charset chars" "trie_inv chars t" "ascii key" "length (nodes t) + length key \<le> 2 ^ LENGTH('i)"
  shows "\<exists>t'. trie_insert chars key v t = Some (is_valid_key chars key, t') \<and> trie_inv chars t' \<and>
    trie_map t' = (if is_valid_key chars key then (trie_map t)(key \<mapsto> v) else trie_map t) \<and>
    length (nodes t') \<le> length (nodes t) + length key"
proof -
  obtain i offs can where find: "find_insert_pos t key = Some (i, offs, can)" "at_insert_pos chars t key i offs can"
    using find_insert_pos_result[OF assms(1-3)] .
  have invalid: "\<not> is_valid_key chars key" if "at_insert_pos chars t key i offs False" for t :: "('i word, 'v) trie" and i offs
    
  proof -
    have "key ! offs \<in> set key" "key ! offs \<notin> set (valid_chars chars)"
      using that by (auto simp: at_insert_pos_def)
    then show ?thesis by (auto simp: is_valid_key_iff[OF assms(1)])
  qed
  show ?thesis
  proof (cases can)
    case False
    then show ?thesis
      using find invalid assms(2) by (simp add: trie_insert_def)
  next
    case True
    have "length (nodes t) + (length key - offs) \<le> 2 ^ LENGTH('i)"
      using assms(4) by linarith
    then obtain i' o' can' t' where ins: "insert_nodes chars key t i offs = Some (i', o', can', t')"
        "trie_inv chars t'" "trie_map t' = trie_map t" "at_insert_pos chars t' key i' o' can'"
        "can' \<longrightarrow> o' = length key" "length (nodes t') \<le> length (nodes t) + (length key - offs)"
      using insert_nodes_result[OF assms(1,3,2) find(2) True] by blast
    show ?thesis
    proof (cases can')
      case False
      then show ?thesis
        using find(1) ins True invalid[of t' i' o'] by (auto simp: trie_insert_def at_insert_pos_def)
    next
      case can': True
      have "trie_walk t' 0 key = Some i'"
        using ins(4,5) can' by (auto simp: at_insert_pos_def)
      then obtain u where "set_object t' i' (Some v) = Some u" "trie_inv chars u"
          "trie_map u = (trie_map t)(key \<mapsto> v)" "length (nodes u) = length (nodes t')"
        using set_object_result[OF assms(1) ins(2), of key i' "Some v"] ins(3) by auto
      moreover have "is_valid_key chars key"
        using trie_walk_chars[OF assms(1) ins(2) \<open>trie_walk t' 0 key = Some i'\<close>]
        by (simp add: is_valid_key_iff[OF assms(1)])
      ultimately show ?thesis
        using find(1) ins True can' by (auto simp: trie_insert_def)
    qed
  qed
qed

lemma trie_lookup_results:
  assumes "trie_charset chars" "trie_inv chars t" "ascii key"
  shows "trie_contains t key = Some (trie_map t key \<noteq> None)" and "trie_find t key = Some (trie_map t key)"
    and "\<exists>t'. trie_remove key t = Some (trie_map t key \<noteq> None, t') \<and> trie_inv chars t' \<and>
      trie_map t' = (trie_map t)(key := None) \<and> length (nodes t') = length (nodes t)"
proof -
  obtain i offs can where find: "find_insert_pos t key = Some (i, offs, can)" "at_insert_pos chars t key i offs can"
    using find_insert_pos_result[OF assms] .
  note walk = at_insert_pos_walk[OF assms(1,2) find(2)]
  have i: "can \<and> offs = length key \<Longrightarrow> node_object t i = Some (object (nodes t ! i))"
    using trie_walk_root[OF assms(2), of key i] walk by (auto simp: node_object_def)
  show "trie_contains t key = Some (trie_map t key \<noteq> None)" and "trie_find t key = Some (trie_map t key)"
    using find(1) walk i by (auto simp: trie_contains_def trie_find_def trie_map_def)
  show "\<exists>t'. trie_remove key t = Some (trie_map t key \<noteq> None, t') \<and> trie_inv chars t' \<and>
      trie_map t' = (trie_map t)(key := None) \<and> length (nodes t') = length (nodes t)"
  proof (cases "trie_map t key = None")
    case True
    then have "trie_remove key t = Some (False, t)"
      using find(1) walk i by (auto simp: trie_remove_def trie_map_def split: if_splits)
    then show ?thesis using True assms(2) by (auto simp: fun_upd_idem)
  next
    case False
    then have "trie_walk t 0 key = Some i" "can \<and> offs = length key"
      using walk by (auto simp: trie_map_def split: if_splits)
    then show ?thesis
      using False find(1) i set_object_result[OF assms(1,2), of key i None]
      by (auto simp: trie_remove_def trie_map_def)
  qed
qed
section \<open>Refinement of a map\<close>

datatype 'v trie_op = Insert_key "byte list" 'v | Remove_key "byte list" | Contains_key "byte list" | Find_key "byte list"

datatype 'v trie_answer = Answer bool | Value "'v option"

primrec op_key :: "'v trie_op \<Rightarrow> byte list" where
  "op_key (Insert_key key v) = key"
| "op_key (Remove_key key) = key"
| "op_key (Contains_key key) = key"
| "op_key (Find_key key) = key"

primrec trie_step ::
    "byte list \<Rightarrow> 'v trie_op \<Rightarrow> ('i::len word, 'v) trie \<times> 'v trie_answer list \<Rightarrow>
     (('i word, 'v) trie \<times> 'v trie_answer list) option" where
  "trie_step chars (Insert_key key v) s =
     map_option (\<lambda>(r, t). (t, snd s @ [Answer r])) (trie_insert chars key v (fst s))"
| "trie_step chars (Remove_key key) s =
     map_option (\<lambda>(r, t). (t, snd s @ [Answer r])) (trie_remove key (fst s))"
| "trie_step chars (Contains_key key) s =
     map_option (\<lambda>r. (fst s, snd s @ [Answer r])) (trie_contains (fst s) key)"
| "trie_step chars (Find_key key) s =
     map_option (\<lambda>r. (fst s, snd s @ [Value r])) (trie_find (fst s) key)"

primrec map_step ::
    "byte list \<Rightarrow> 'v trie_op \<Rightarrow> (byte list \<rightharpoonup> 'v) \<times> 'v trie_answer list \<Rightarrow>
     (byte list \<rightharpoonup> 'v) \<times> 'v trie_answer list" where
  "map_step chars (Insert_key key v) s =
     (if set key \<subseteq> set (valid_chars chars) then ((fst s)(key \<mapsto> v), snd s @ [Answer True])
      else (fst s, snd s @ [Answer False]))"
| "map_step chars (Remove_key key) s =
     ((fst s)(key := None), snd s @ [Answer (key \<in> dom (fst s))])"
| "map_step chars (Contains_key key) s = (fst s, snd s @ [Answer (key \<in> dom (fst s))])"
| "map_step chars (Find_key key) s = (fst s, snd s @ [Value (fst s key)])"

text \<open>
  A machine whose operations succeed as long as a budget lasts, and then do what is specified.
\<close>

locale budget_refinement =
  fixes invar :: "'s \<Rightarrow> bool" and repr :: "'s \<Rightarrow> 'a"
    and impl :: "'o \<Rightarrow> 's \<Rightarrow> 's option" and spec :: "'o \<Rightarrow> 'a \<Rightarrow> 'a"
    and admissible :: "'o \<Rightarrow> bool" and cost :: "'o \<Rightarrow> nat" and used :: "'s \<Rightarrow> nat" and limit :: nat
  assumes step: "invar s \<Longrightarrow> admissible op \<Longrightarrow> used s + cost op \<le> limit \<Longrightarrow>
    \<exists>s'. impl op s = Some s' \<and> invar s' \<and> repr s' = spec op (repr s) \<and> used s' \<le> used s + cost op"
begin

lemma run_within_budget:
  "invar s \<Longrightarrow> list_all admissible ops \<Longrightarrow> used s + sum_list (map cost ops) \<le> limit \<Longrightarrow>
    \<exists>s'. run_ops impl ops s = Some s' \<and> invar s' \<and> repr s' = fold spec ops (repr s)"
proof (induction ops arbitrary: s)
  case (Cons op ops)
  then obtain s' where s': "impl op s = Some s'" "invar s'" "repr s' = spec op (repr s)"
      "used s' \<le> used s + cost op"
    using step[of s op] by auto
  then show ?case
    using Cons.IH[OF s'(2)] Cons.prems by auto
qed simp

end

locale trie_chars =
  fixes chars :: "byte list"
  assumes charset: "trie_charset chars"
begin

lemma step_result:
  fixes t :: "('i::len word, 'v) trie"
  assumes "trie_inv chars t" "ascii (op_key op)" "length (nodes t) + length (op_key op) \<le> 2 ^ LENGTH('i)"
  shows "\<exists>t' as'. trie_step chars op (t, as) = Some (t', as') \<and> trie_inv chars t' \<and>
    (trie_map t', as') = map_step chars op (trie_map t, as) \<and>
    length (nodes t') \<le> length (nodes t) + length (op_key op)"
proof (cases op)
  case (Insert_key key v)
  then show ?thesis
    using trie_insert_result[OF charset assms(1), of key v] assms(2,3)
    by (auto simp: is_valid_key_iff[OF charset] split: if_splits)
next
  case (Remove_key key)
  then show ?thesis
    using trie_lookup_results(3)[OF charset assms(1), of key] assms(2,3) by (auto simp: domIff)
qed (use trie_lookup_results(1,2)[OF charset assms(1)] assms in \<open>auto simp: domIff\<close>)

end

sublocale trie_chars \<subseteq> run: budget_refinement
  "\<lambda>s :: ('i::len word, 'v) trie \<times> 'v trie_answer list. trie_inv chars (fst s)"
  "map_prod trie_map id" "trie_step chars" "map_step chars"
  "\<lambda>op. ascii (op_key op)" "\<lambda>op. length (op_key op)" "\<lambda>s. length (nodes (fst s))" "2 ^ LENGTH('i)"
proof
  fix s :: "('i word, 'v) trie \<times> 'v trie_answer list" and op :: "'v trie_op"
  obtain t as where s: "s = (t, as)" by (cases s)
  assume "trie_inv chars (fst s)" "ascii (op_key op)" "length (nodes (fst s)) + length (op_key op) \<le> 2 ^ LENGTH('i)"
  then show "\<exists>s'. trie_step chars op s = Some s' \<and> trie_inv chars (fst s') \<and>
      map_prod trie_map id s' = map_step chars op (map_prod trie_map id s) \<and>
      length (nodes (fst s')) \<le> length (nodes (fst s)) + length (op_key op)"
    using step_result[of t op as] by (auto simp: s)
qed

context trie_chars begin

lemma run_refines_map:
  assumes "list_all (\<lambda>op. ascii (op_key op)) ops"
    and "1 + sum_list (map (\<lambda>op. length (op_key op)) ops) \<le> 2 ^ LENGTH('i)"
  shows "\<exists>s'. run_ops (trie_step chars) ops (trie_init chars :: ('i::len word, 'v) trie, []) = Some s' \<and>
    trie_inv chars (fst s') \<and> map_prod trie_map id s' = fold (map_step chars) ops (Map.empty, [])"
proof -
  let ?s = "(trie_init chars :: ('i word, 'v) trie, [] :: 'v trie_answer list)"
  have "length (nodes (fst ?s)) = 1"
    by (simp add: trie_init_def)
  then show ?thesis
    using run.run_within_budget[of ?s ops] trie_init_inv[OF charset, where 'i = 'i and 'v = 'v] assms by auto
qed

end

text \<open>The character sets of the aliases satisfy the requirements.\<close>

interpretation dec_identifier_trie: trie_chars dec_identifier_trie_chars
  by unfold_locales (simp add: trie_charset_def valid_chars_def dec_identifier_trie_chars_def c_literal_def)

interpretation lc_identifier_trie: trie_chars lc_identifier_trie_chars
  by unfold_locales (simp add: trie_charset_def valid_chars_def lc_identifier_trie_chars_def c_literal_def)

interpretation identifier_trie: trie_chars identifier_trie_chars
  by unfold_locales (simp add: trie_charset_def valid_chars_def identifier_trie_chars_def c_literal_def)

text \<open>The first node that insertion adds to a new trie.\<close>

interpretation first_node: trie_add_node dec_identifier_trie_chars
  "trie_init dec_identifier_trie_chars :: (32 word, 'v) trie" 0 0
proof
  show "trie_inv dec_identifier_trie_chars (trie_init dec_identifier_trie_chars :: (32 word, 'v) trie)"
    by (rule trie_init_inv(1)[OF dec_identifier_trie.charset])
  show "edge (trie_init dec_identifier_trie_chars :: (32 word, 'v) trie) 0 0 = 0"
    by (simp add: edge_def node_next_def trie_init_def node_type_def dec_identifier_trie_chars_def c_literal_def)
qed (rule dec_identifier_trie.charset,
    simp_all add: trie_init_def node_type_def dec_identifier_trie_chars_def c_literal_def)

text \<open>
  C4. Every sequence of insertions, removals and lookups on a new trie whose keys have no negative
  characters and fit into the index type together succeeds, gives the answers of a map from strings
  to values (insertion fails exactly for keys with other characters and then changes nothing), and
  ends in a well-formed trie of that map.
\<close>

theorem trie_refines_map:
  assumes "trie_charset chars" and "list_all (\<lambda>op. ascii (op_key op)) ops"
    and "1 + sum_list (map (\<lambda>op. length (op_key op)) ops) \<le> 2 ^ LENGTH('i)"
  shows "\<exists>t as. run_ops (trie_step chars) ops (trie_init chars :: ('i::len word, 'v) trie, []) = Some (t, as) \<and>
    trie_inv chars t \<and> (trie_map t, as) = fold (map_step chars) ops (Map.empty, [])"
  using trie_chars.run_refines_map[OF trie_chars.intro[OF assms(1)] assms(2,3)]
  by (auto simp: map_prod_def split: prod.splits)

theorem trie_refines_map_witness:
  "\<exists>t as. run_ops (trie_step dec_identifier_trie_chars)
      [Insert_key [49, 50] True, Insert_key [49, 65] False, Find_key [49, 50], Contains_key [49], Remove_key [49, 50]]
      (trie_init dec_identifier_trie_chars :: (32 word, bool) trie, []) = Some (t, as) \<and>
    as = [Answer True, Answer False, Value (Some True), Answer False, Answer True] \<and> trie_map t = Map.empty"
proof -
  let ?ops = "[Insert_key [49, 50] True, Insert_key [49, 65] False, Find_key [49, 50], Contains_key [49], Remove_key [49, 50]]"
  have "fold (map_step dec_identifier_trie_chars) ?ops (Map.empty, []) =
      (Map.empty, [Answer True, Answer False, Value (Some True), Answer False, Answer True])"
    by (simp add: valid_chars_def dec_identifier_trie_chars_def c_literal_def)
  then show ?thesis
    using trie_refines_map[where 'i = 32, OF dec_identifier_trie.charset, of ?ops] by (auto simp: ascii_def)
qed
section \<open>Counting nodes\<close>

text \<open>
  In a well-formed trie the number of nodes with a value is the number of keys, and the nodes
  with and without a value are all the nodes.
\<close>

lemma trie_node_counts:
  assumes "trie_charset chars" "trie_inv chars t"
  shows "value_node_count t = card (dom (trie_map t))"
    and "value_node_count t + internal_node_count t = node_count t"
proof -
  let ?I = "{i. i < length (nodes t) \<and> object (nodes t ! i) \<noteq> None}"
  have "bij_betw (\<lambda>s. the (trie_walk t 0 s)) (dom (trie_map t)) ?I"
    unfolding bij_betw_def
  proof
    show "inj_on (\<lambda>s. the (trie_walk t 0 s)) (dom (trie_map t))"
      using trie_walk_inj[OF assms] by (auto simp: inj_on_def trie_map_def bind_eq_Some_conv)
    show "(\<lambda>s. the (trie_walk t 0 s)) ` dom (trie_map t) = ?I"
    proof (intro equalityI subsetI)
      fix i assume i: "i \<in> ?I"
      then obtain s where "trie_walk t 0 s = Some i"
        using trie_walk_surj[OF assms] by blast
      then show "i \<in> (\<lambda>s. the (trie_walk t 0 s)) ` dom (trie_map t)"
        using i by (intro image_eqI[of _ _ s]) (auto simp: trie_map_def)
    next
      fix i assume "i \<in> (\<lambda>s. the (trie_walk t 0 s)) ` dom (trie_map t)"
      then obtain s v where "trie_walk t 0 s = Some i" "object (nodes t ! i) = Some v"
        by (auto simp: trie_map_def bind_eq_Some_conv)
      then show "i \<in> ?I"
        using trie_walk_root[OF assms(2)] by auto
    qed
  qed
  then show "value_node_count t = card (dom (trie_map t))"
    by (simp add: value_node_count_def length_filter_conv_card bij_betw_same_card)
  show "value_node_count t + internal_node_count t = node_count t"
    by (simp only: value_node_count_def internal_node_count_def node_count_def sum_length_filter_compl)
qed

section \<open>Traversal\<close>

lemma next_child_result:
  assumes "trie_inv chars t" "n < length (nodes t)" "c \<le> length chars"
  shows "c \<le> next_child (nodes t ! n) (length chars) c \<and> next_child (nodes t ! n) (length chars) c \<le> length chars \<and>
    (\<forall>k. c \<le> k \<and> k < next_child (nodes t ! n) (length chars) c \<longrightarrow> edge t n k = 0) \<and>
    (next_child (nodes t ! n) (length chars) c < length chars \<longrightarrow>
       edge t n (next_child (nodes t ! n) (length chars) c) \<noteq> 0)"
  using assms(3)
proof (induction "length chars - c" arbitrary: c)
  case 0
  then show ?case by (simp add: next_child.simps[of _ _ c])
next
  case (Suc m)
  note unf = next_child.simps[of "nodes t ! n" "length chars" c]
  have edge: "edge t n c = unat (next_idx (nodes t ! n) ! c)" and c: "c < length chars"
    using edge_eq[OF assms(1,2)] Suc.hyps(2) by auto
  show ?case
  proof (cases "edge t n c = 0")
    case True
    have "c \<le> k \<longleftrightarrow> k = c \<or> c + 1 \<le> k" for k
      by auto
    then show ?thesis
      using Suc.hyps(1)[of "c + 1"] Suc.hyps(2) True edge c by (auto simp: unf is_no_index_def)
  next
    case False
    then show ?thesis using c edge by (auto simp: unf is_no_index_def)
  qed
qed

text \<open>The calls made for a node from its child \<open>c\<close> on, in terms of the calls for its children.\<close>

function traverse_calls ::
    "nat \<Rightarrow> byte list \<Rightarrow> ('i::len word, 'v) trie \<Rightarrow> byte list \<Rightarrow> nat \<Rightarrow> nat \<Rightarrow> (byte list \<times> 'v) list \<times> bool" where
  "traverse_calls cap chars t str n c =
     (let node = nodes t ! n; c' = next_child node (length chars) c; m = edge t n c';
          call = object_call node str
      in if c' = length chars then (call, True)
         else if length str + 1 = cap then (call, False)
         else if c \<le> c' \<and> c' < length chars \<and> n < m \<and> m < length (nodes t)
         then (case traverse_calls cap chars t (str @ [chars ! c']) m 0 of
                 (xs, False) \<Rightarrow> (call @ xs, False)
               | (xs, True) \<Rightarrow>
                   (case traverse_calls cap chars t str n (c' + 1) of (ys, ok) \<Rightarrow> (call @ xs @ ys, ok)))
         else (call, False))"
  by pat_completeness auto
termination
  by (relation "measures [\<lambda>(cap, chars, t, str, n, c). length (nodes t) - n,
      \<lambda>(cap, chars, t, str, n, c). length chars - c]") auto

declare traverse_calls.simps [simp del]

text \<open>The traversal makes these calls.\<close>

lemma do_traverse_calls:
  assumes "trie_inv chars t" "n < length (nodes t)" "c \<le> length chars" "length rest = length str"
  shows "do_traverse cap chars t str ((c, n) # rest) =
     (case traverse_calls cap chars t str n c of
        (xs, False) \<Rightarrow> Some (xs, False)
      | (xs, True) \<Rightarrow>
          if str = [] then Some (xs, False)
          else Option.bind (do_traverse cap chars t (butlast str) (bump_top rest))
                 (\<lambda>(calls, ok). Some (xs @ calls, ok)))"
  using assms
proof (induction cap chars t str n c arbitrary: rest rule: traverse_calls.induct)
  case (1 cap chars t str n c)
  note prems = 1(3-6)
  define c' where "c' = next_child (nodes t ! n) (length chars) c"
  define call where "call = object_call (nodes t ! n) str"
  let ?m = "edge t n c'"
  note child = next_child_result[OF 1(3-5), folded c'_def]
  note unf_l = do_traverse.simps[of cap chars t str "(c, n) # rest"]
  note unf_r = traverse_calls.simps[of cap chars t str n c]
  consider "c' = length chars" | "c' < length chars" "length str + 1 = cap"
    | "c' < length chars" "length str + 1 \<noteq> cap"
    using child by linarith
  then show ?case
  proof cases
    case 3
    have m: "n < ?m" "?m < length (nodes t)" "unat (next_idx (nodes t ! n) ! c') = ?m"
      using 3(1) child trie_invD(5,6)[OF 1(3), of n c'] edge_eq[OF 1(3,4), of c'] by auto
    obtain xs ok where xs: "traverse_calls cap chars t (str @ [chars ! c']) ?m 0 = (xs, ok)"
      by (cases "traverse_calls cap chars t (str @ [chars ! c']) ?m 0")
    obtain ys ok' where ys: "traverse_calls cap chars t str n (c' + 1) = (ys, ok')"
      by (cases "traverse_calls cap chars t str n (c' + 1)")
    have ih1: "do_traverse cap chars t (str @ [chars ! c']) ((0, ?m) # (c', n) # rest) =
        (if ok then Option.bind (do_traverse cap chars t str ((c' + 1, n) # rest))
            (\<lambda>(calls, ok). Some (xs @ calls, ok)) else Some (xs, False))"
      using 1(1)[OF refl c'_def refl call_def, of "(c', n) # rest"] 3 m child 1(3-6) xs
      by (auto split: if_splits bool.splits)
    have ih2: "ok \<Longrightarrow> do_traverse cap chars t str ((c' + 1, n) # rest) =
        (if ok' then if str = [] then Some (ys, False)
           else Option.bind (do_traverse cap chars t (butlast str) (bump_top rest))
                 (\<lambda>(calls, ok). Some (ys @ calls, ok))
         else Some (ys, False))"
      using 1(2)[OF refl c'_def refl call_def _ _ _ xs[symmetric], of rest] 3 m child 1(3-6) ys
      by (auto split: if_splits bool.splits)
    have l: "do_traverse cap chars t str ((c, n) # rest) =
        Option.bind (do_traverse cap chars t (str @ [chars ! c']) ((0, ?m) # (c', n) # rest))
          (\<lambda>(calls, ok). Some (call @ calls, ok))"
      using 3 1(4,6) m(3) by (subst unf_l) (simp add: Let_def c'_def[symmetric] call_def[symmetric])
    have r: "traverse_calls cap chars t str n c =
        (if ok then (call @ xs @ ys, ok') else (call @ xs, False))"
      using 3 m child xs ys
      by (subst unf_r) (auto simp: Let_def c'_def[symmetric] call_def[symmetric] split: bool.splits)
    show ?thesis
      unfolding l r ih1 using ih2
      by (cases ok; cases ok'; cases "do_traverse cap chars t (butlast str) (bump_top rest)") auto
  next
    case 1
    then have "do_traverse cap chars t str ((c, n) # rest) =
        (if str = [] then Some (call, False)
         else Option.bind (do_traverse cap chars t (butlast str) (bump_top rest)) (\<lambda>(calls, ok). Some (call @ calls, ok)))"
      using prems by (subst unf_l) (auto simp: Let_def c'_def[symmetric] call_def)
    moreover have "traverse_calls cap chars t str n c = (call, True)"
      using 1 by (subst unf_r) (simp add: Let_def c'_def[symmetric] call_def)
    ultimately show ?thesis by simp
  next
    case 2
    then have "do_traverse cap chars t str ((c, n) # rest) = Some (call, False)"
      using prems by (subst unf_l) (auto simp: Let_def c'_def[symmetric] call_def)
    moreover have "traverse_calls cap chars t str n c = (call, False)"
      using 2 by (subst unf_r) (simp add: Let_def c'_def[symmetric] call_def)
    ultimately show ?thesis by simp
  qed
qed
lemma traverse_calls_sound:
  assumes "trie_charset chars" "trie_inv chars t" "trie_walk t 0 str = Some n"
  shows "(s, v) \<in> set (fst (traverse_calls cap chars t str n c)) \<Longrightarrow> trie_map t s = Some v"
  using assms
proof (induction cap chars t str n c rule: traverse_calls.induct)
  case (1 cap chars t str n c)
  define c' where "c' = next_child (nodes t ! n) (length chars) c"
  let ?m = "edge t n c'"
  have call: "(s, v) \<in> set (object_call (nodes t ! n) str) \<Longrightarrow> trie_map t s = Some v"
    using 1(6) by (auto simp: object_call_def trie_map_def split: option.splits)
  show ?case
  proof (cases "c' \<noteq> length chars \<and> length str + 1 \<noteq> cap \<and> c \<le> c' \<and> c' < length chars \<and> n < ?m \<and> ?m < length (nodes t)")
    case False
    then have "fst (traverse_calls cap chars t str n c) = object_call (nodes t ! n) str"
      by (subst traverse_calls.simps) (auto simp: Let_def c'_def[symmetric])
    then show ?thesis using 1(3) call by simp
  next
    case True
    obtain xs ok where xs: "traverse_calls cap chars t (str @ [chars ! c']) ?m 0 = (xs, ok)"
      by (cases "traverse_calls cap chars t (str @ [chars ! c']) ?m 0")
    have walk: "trie_walk t 0 (str @ [chars ! c']) = Some ?m"
      using 1(6) True get_char_index_cases(2)[OF 1(4,5)] trie_invD(4)[OF 1(5), of n c']
      by (auto simp: trie_walk_snoc)
    have ih1: "(s, v) \<in> set xs \<Longrightarrow> trie_map t s = Some v"
      using 1(1)[OF refl c'_def refl refl _ _ _ _ 1(4,5) walk] True xs by simp
    have ih2: "ok \<Longrightarrow> (s, v) \<in> set (fst (traverse_calls cap chars t str n (c' + 1))) \<Longrightarrow> trie_map t s = Some v"
      using 1(2)[OF refl c'_def refl refl _ _ _ xs[symmetric] _ _ 1(4,5,6)] True by simp
    show ?thesis
      using 1(3) True call ih1 ih2 xs
      by (subst (asm) traverse_calls.simps) (auto simp: Let_def c'_def[symmetric] split: bool.splits prod.splits)
  qed
qed

lemma traverse_calls_complete:
  assumes "trie_charset chars" "trie_inv chars t" "trie_walk t 0 str = Some n" "c \<le> length chars"
    and "\<forall>s i. trie_walk t 0 s = Some i \<longrightarrow> length s < cap"
  shows "snd (traverse_calls cap chars t str n c) \<and>
    (\<forall>s v. trie_map t (str @ s) = Some v \<and> (\<forall>k < length chars - 1. s \<noteq> [] \<and> chars ! k = s ! 0 \<longrightarrow> c \<le> k) \<longrightarrow>
      (str @ s, v) \<in> set (fst (traverse_calls cap chars t str n c)))"
  using assms
proof (induction cap chars t str n c rule: traverse_calls.induct)
  case (1 cap chars t str n c)
  note prems = 1(3-7)
  define c' where "c' = next_child (nodes t ! n) (length chars) c"
  let ?m = "edge t n c'"
  note root = trie_walk_root[OF prems(2,3)]
  note child = next_child_result[OF prems(2) root[THEN conjunct1] prems(4), folded c'_def]
  have call: "trie_map t str = Some v \<Longrightarrow> (str, v) \<in> set (object_call (nodes t ! n) str)" for v
    using prems(3) by (auto simp: object_call_def trie_map_def)
  text \<open>A longer string leads through a child at \<open>c'\<close> or behind it.\<close>
  have through: "c' \<le> k" "edge t n k \<noteq> 0" "k < length chars - 1" "chars ! k = d"
    if "trie_map t (str @ d # s) = Some v" "\<forall>k < length chars - 1. chars ! k = d \<longrightarrow> c \<le> k"
      "get_char_index t d = Some (Some k)" for d s v k
  proof -
    show k: "k < length chars - 1" "chars ! k = d"
      using that(3) get_char_index_cases(3)[OF prems(1,2)] by auto
    show e: "edge t n k \<noteq> 0"
      using that(1,3) prems(3) by (auto simp: trie_map_def trie_walk_append split: if_splits)
    have "c \<le> k"
      using that(2) k by blast
    then show "c' \<le> k"
      using child e by (auto simp: not_less[symmetric])
  qed
  have index: "\<exists>k. get_char_index t d = Some (Some k)" if "trie_map t (str @ d # s) = Some v" for d s v
    using that prems(3) by (auto simp: trie_map_def trie_walk_append split: option.splits)
  show ?case
  proof (cases "c' = length chars")
    case True
    then have calls: "traverse_calls cap chars t str n c = (object_call (nodes t ! n) str, True)"
      by (subst traverse_calls.simps) (simp add: Let_def c'_def[symmetric])
    have "s = []" if sv: "trie_map t (str @ s) = Some v" "\<forall>k < length chars - 1. s \<noteq> [] \<and> chars ! k = s ! 0 \<longrightarrow> c \<le> k" for s v
    proof (cases s)
      case (Cons d s')
      show ?thesis
      proof -
        obtain k where k: "get_char_index t d = Some (Some k)"
          using index[of d s' v] sv(1) Cons by auto
        have "\<forall>k < length chars - 1. chars ! k = d \<longrightarrow> c \<le> k"
          using sv(2) Cons by simp
        then have "c' \<le> k" "k < length chars - 1"
          using through[OF _ _ k] sv(1) Cons by auto
        then show ?thesis using True by simp
      qed
    qed
    then have "(str @ s, v) \<in> set (object_call (nodes t ! n) str)"
      if "trie_map t (str @ s) = Some v" "\<forall>k < length chars - 1. s \<noteq> [] \<and> chars ! k = s ! 0 \<longrightarrow> c \<le> k" for s v
      using that call by fastforce
    then show ?thesis unfolding calls by simp
  next
    case False
    then have m: "c' < length chars" "?m \<noteq> 0" "n < ?m" "?m < length (nodes t)" "c' < length chars - 1"
      using child trie_invD(4,5,6)[OF prems(2), of n c'] by auto
    have walk: "trie_walk t 0 (str @ [chars ! c']) = Some ?m"
      using prems(3) m get_char_index_cases(2)[OF prems(1,2)] by (auto simp: trie_walk_snoc)
    have cap: "length str + 1 \<noteq> cap"
      using prems(5) walk by fastforce
    obtain xs ok where xs: "traverse_calls cap chars t (str @ [chars ! c']) ?m 0 = (xs, ok)"
      by (cases "traverse_calls cap chars t (str @ [chars ! c']) ?m 0")
    have ih1: "ok \<and> (\<forall>s v. trie_map t ((str @ [chars ! c']) @ s) = Some v \<longrightarrow> ((str @ [chars ! c']) @ s, v) \<in> set xs)"
      using 1(1)[OF refl c'_def refl refl False cap _ prems(1,2) walk _ prems(5)] m child xs by simp
    obtain ys ok' where ys: "traverse_calls cap chars t str n (c' + 1) = (ys, ok')"
      by (cases "traverse_calls cap chars t str n (c' + 1)")
    have ih2: "ok' \<and> (\<forall>s v. trie_map t (str @ s) = Some v \<and>
        (\<forall>k < length chars - 1. s \<noteq> [] \<and> chars ! k = s ! 0 \<longrightarrow> c' + 1 \<le> k) \<longrightarrow> (str @ s, v) \<in> set ys)"
      using 1(2)[OF refl c'_def refl refl False cap _ xs[symmetric] _ prems(1,2,3) _ prems(5)] m child ih1 ys by simp
    have calls: "traverse_calls cap chars t str n c = (object_call (nodes t ! n) str @ xs @ ys, True)"
      using False cap m child xs ys ih1 ih2
      by (subst traverse_calls.simps) (simp add: Let_def c'_def[symmetric])
    have "(str @ s, v) \<in> set (object_call (nodes t ! n) str @ xs @ ys)"
      if sv: "trie_map t (str @ s) = Some v" "\<forall>k < length chars - 1. s \<noteq> [] \<and> chars ! k = s ! 0 \<longrightarrow> c \<le> k" for s v
    proof (cases s)
      case Nil
      then show ?thesis using call sv by auto
    next
      case (Cons d s')
      obtain k where gk: "get_char_index t d = Some (Some k)"
        using index[of d s' v] sv(1) Cons by auto
      have above: "\<forall>k < length chars - 1. chars ! k = d \<longrightarrow> c \<le> k"
        using sv(2) Cons by simp
      have k: "c' \<le> k" "k < length chars - 1" "chars ! k = d"
        using through[OF _ above gk] sv(1) Cons by auto
      show ?thesis
      proof (cases "k = c'")
        case True
        then show ?thesis using ih1 sv(1) Cons k by auto
      next
        case False
        have "c' + 1 \<le> l" if "l < length chars - 1" "chars ! l = d" for l
          using charset_inj[OF prems(1) that(1) k(2)] that(2) k False by simp
        then show ?thesis using ih2 sv(1) Cons by auto
      qed
    qed
    then show ?thesis unfolding calls by simp
  qed
qed

text \<open>
  C17. A traversal never returns: after the last child of the root it removes a character from the
  empty string. Before that it has passed only keys with their values, and all of them if the
  stack, which is read through a reference into it after growing, has room for the longest path.
\<close>

theorem trie_traverse_visits:
  assumes "trie_charset chars" "trie_inv chars t"
  shows "\<exists>calls. trie_traverse cap chars t = Some (calls, False) \<and>
    (\<forall>(s, v) \<in> set calls. trie_map t s = Some v) \<and>
    ((\<forall>s i. trie_walk t 0 s = Some i \<longrightarrow> length s < cap) \<longrightarrow>
      (\<forall>s v. trie_map t s = Some v \<longrightarrow> (s, v) \<in> set calls))"
proof -
  let ?calls = "traverse_calls cap chars t [] 0 0"
  have "trie_traverse cap chars t = Some (fst ?calls, False)"
    using do_traverse_calls[OF assms(2) trie_invD(2)[OF assms(2)], of 0 "[]" "[]" cap]
    by (auto simp: trie_traverse_def split: prod.splits bool.splits)
  moreover have "(s, v) \<in> set (fst ?calls) \<Longrightarrow> trie_map t s = Some v" for s v
    using traverse_calls_sound[OF assms, of "[]" 0 s v cap 0] by simp
  moreover have "(\<forall>s i. trie_walk t 0 s = Some i \<longrightarrow> length s < cap) \<Longrightarrow> trie_map t s = Some v \<Longrightarrow>
      (s, v) \<in> set (fst ?calls)" for s v
    using traverse_calls_complete[OF assms, of "[]" 0 0 cap] by simp
  ultimately show ?thesis by blast
qed
theorem trie_traverse_visits_witness:
  "\<exists>t calls. trie_insert dec_identifier_trie_chars [49, 50] True
       (trie_init dec_identifier_trie_chars :: (32 word, bool) trie) = Some (True, t) \<and>
     trie_traverse 16 dec_identifier_trie_chars t = Some (calls, False) \<and> set calls = {([49, 50], True)}"
proof -
  let ?i = "trie_init dec_identifier_trie_chars :: (32 word, bool) trie"
  note cs = dec_identifier_trie.charset
  have "is_valid_key dec_identifier_trie_chars [49, 50]"
    unfolding is_valid_key_iff[OF cs] by (simp add: valid_chars_def dec_identifier_trie_chars_def c_literal_def)
  moreover have "length (nodes ?i) = 1"
    by (simp add: trie_init_def)
  ultimately obtain t where t: "trie_insert dec_identifier_trie_chars [49, 50] True ?i = Some (True, t)"
      "trie_inv dec_identifier_trie_chars t" "trie_map t = [[49, 50] \<mapsto> True]" "length (nodes t) \<le> 3"
    using trie_insert_result[OF cs trie_init_inv(1)[OF cs], where 'i = 32, of "[49, 50]" True]
    by (auto simp: ascii_def trie_init_inv(2)[OF cs] simp del: One_nat_def)
  have "length s < 16" if "trie_walk t 0 s = Some i" for s i
    using trie_walk_root[OF t(2) that] t(4) by simp
  moreover obtain calls where calls: "trie_traverse 16 dec_identifier_trie_chars t = Some (calls, False)"
      "\<forall>(s, v) \<in> set calls. trie_map t s = Some v"
      "(\<forall>s i. trie_walk t 0 s = Some i \<longrightarrow> length s < 16) \<longrightarrow>
        (\<forall>s v. trie_map t s = Some v \<longrightarrow> (s, v) \<in> set calls)"
    using trie_traverse_visits[OF cs t(2), of 16] by blast
  ultimately have "set calls = {([49, 50], True)}"
    by (auto simp: t(3) split: if_splits)
  then show ?thesis using t(1) calls(1) by blast
qed

text \<open>Looking up a key that starts with a negative character reads outside of the character map.\<close>

lemma trie_negative_char:
  "sint c < 0 \<Longrightarrow> trie_contains t (c # s) = None \<and> trie_insert chars (c # s) v t = None"
  by (simp add: trie_contains_def trie_insert_def find_insert_pos_def find_insert_pos_from.simps get_char_index_def)

end
