(* ===== verification/Serial_Data.thy ===== *)
theory Serial_Data
  imports Identifier Span_Algorithm
begin

text \<open>
  \<^verbatim>\<open>source/modules/eagine/serialization/\<close>: error bits (\<^verbatim>\<open>result.cpp\<close>), the interfaces of data sinks
  and sources (\<^verbatim>\<open>interface.cpp\<close>) with the ones over memory (\<^verbatim>\<open>block.cpp\<close>) and over streams
  (\<^verbatim>\<open>iostream.cpp\<close>), and the common parts of the backends (\<^verbatim>\<open>implementation.cpp\<close>). A virtual
  interface is a record of functions on the state of the object behind it. An operation returns its
  error bits, what it computed and the new state; \<open>None\<close> is a failed assertion or undefined
  behaviour.
\<close>

section \<open>Error bits\<close>

type_synonym ser_errors = "8 word"
type_synonym deser_errors = "16 word"

definition too_much_data :: ser_errors where "too_much_data = 2"
definition incomplete_write :: ser_errors where "incomplete_write = 4"
definition data_sink_error :: ser_errors where "data_sink_error = 8"

definition not_enough_data :: deser_errors where "not_enough_data = 2"
definition unexpected_data :: deser_errors where "unexpected_data = 4"
definition incomplete_read :: deser_errors where "incomplete_read = 8"
definition missing_element :: deser_errors where "missing_element = 16"
definition excess_element :: deser_errors where "excess_element = 32"
definition missing_member :: deser_errors where "missing_member = 64"
definition excess_member :: deser_errors where "excess_member = 128"
definition invalid_format :: deser_errors where "invalid_format = 256"
definition deser_backend_error :: deser_errors where "deser_backend_error = 1024"

definition bitfield_has :: "'a::len word \<Rightarrow> 'a word \<Rightarrow> bool" where
  "bitfield_has e b = (e AND b = b)"

definition has_only :: "'a::len word \<Rightarrow> 'a word \<Rightarrow> bool" where
  "has_only e b = (e = b)"

definition has_at_most :: "'a::len word \<Rightarrow> 'a word \<Rightarrow> bool" where
  "has_at_most e b = (e = 0 \<or> has_only e b)"

definition bitfield_clear :: "'a::len word \<Rightarrow> 'a word \<Rightarrow> 'a word" where
  "bitfield_clear e b = e AND NOT b"

section \<open>Data sinks\<close>

record 's sink_ops =
  sink_remaining :: "'s \<Rightarrow> int"
  sink_write :: "byte list \<Rightarrow> 's \<Rightarrow> ser_errors \<times> 's"
  sink_begin_work :: "'s \<Rightarrow> nat \<times> 's"
  sink_commit :: "nat \<Rightarrow> 's \<Rightarrow> (ser_errors \<times> 's) option"
  sink_rollback :: "nat \<Rightarrow> 's \<Rightarrow> 's option"
  sink_finalize :: "'s \<Rightarrow> ser_errors \<times> 's"

subsection \<open>Over a block of memory\<close>

text \<open>The back of the vector of save points is its front here.\<close>

record block_sink =
  bs_dst :: "byte list"
  bs_used :: nat
  bs_save_points :: "nat list"

definition bs_reset :: "byte list \<Rightarrow> block_sink \<Rightarrow> block_sink" where
  "bs_reset dst s = s\<lparr>bs_dst := dst, bs_used := 0, bs_save_points := []\<rparr>"

definition bs_make :: "byte list \<Rightarrow> block_sink" where
  "bs_make dst = \<lparr>bs_dst = dst, bs_used = 0, bs_save_points = []\<rparr>"

definition bs_done :: "block_sink \<Rightarrow> byte list" where
  "bs_done s = head (bs_dst s) (int (bs_used s))"

definition bs_free :: "block_sink \<Rightarrow> byte list" where
  "bs_free s = skip (bs_dst s) (int (bs_used s))"

definition bs_remaining_size :: "block_sink \<Rightarrow> int" where
  "bs_remaining_size s = size_of (bs_free s)"

definition bs_mark_used :: "nat \<Rightarrow> block_sink \<Rightarrow> block_sink option" where
  "bs_mark_used n s = (if int n \<le> bs_remaining_size s then Some (s\<lparr>bs_used := bs_used s + n\<rparr>) else None)"

text \<open>Copying a block to the free part of the memory.\<close>

definition bs_copy :: "byte list \<Rightarrow> block_sink \<Rightarrow> block_sink" where
  "bs_copy blk s =
     s\<lparr>bs_dst := take (bs_used s) (bs_dst s) @ blk @ drop (bs_used s + length blk) (bs_dst s),
       bs_used := bs_used s + length blk\<rparr>"

definition bs_write :: "byte list \<Rightarrow> block_sink \<Rightarrow> ser_errors \<times> block_sink" where
  "bs_write blk s =
     (let dst = bs_free s
      in if length dst < length blk then (incomplete_write, bs_copy (head blk (size_of dst)) s)
         else (0, bs_copy blk s))"

definition bs_replace_with :: "byte list \<Rightarrow> block_sink \<Rightarrow> ser_errors \<times> block_sink" where
  "bs_replace_with blk s =
     (if length (bs_dst s) < length blk then (too_much_data, s)
      else (0, s\<lparr>bs_dst := blk @ drop (length blk) (bs_dst s), bs_used := length blk\<rparr>))"

definition bs_begin_work :: "block_sink \<Rightarrow> nat \<times> block_sink" where
  "bs_begin_work s =
     (let s' = s\<lparr>bs_save_points := bs_used s # bs_save_points s\<rparr> in (length (bs_save_points s'), s'))"

definition bs_commit :: "nat \<Rightarrow> block_sink \<Rightarrow> (ser_errors \<times> block_sink) option" where
  "bs_commit th s =
     (if th = length (bs_save_points s) \<and> bs_save_points s \<noteq> []
      then Some (0, s\<lparr>bs_save_points := tl (bs_save_points s)\<rparr>) else None)"

definition bs_rollback :: "nat \<Rightarrow> block_sink \<Rightarrow> block_sink option" where
  "bs_rollback th s =
     (if th = length (bs_save_points s) \<and> bs_save_points s \<noteq> []
      then Some (s\<lparr>bs_used := hd (bs_save_points s), bs_save_points := tl (bs_save_points s)\<rparr>) else None)"

definition block_sink_ops :: "block_sink sink_ops" where
  "block_sink_ops = \<lparr>sink_remaining = bs_remaining_size, sink_write = bs_write,
     sink_begin_work = bs_begin_work, sink_commit = bs_commit, sink_rollback = bs_rollback,
     sink_finalize = Pair 0\<rparr>"

subsection \<open>Over an output stream\<close>

text \<open>
  A stream is what has been written to it and whether it is good. A transaction is a string stream
  on a stack; its commit inserts its buffer into the stream below, which fails when it is empty.
\<close>

type_synonym stream = "byte list \<times> bool"

definition stream_insert :: "byte list \<Rightarrow> stream \<Rightarrow> stream" where
  "stream_insert blk st = (if snd st then (fst st @ blk, True) else st)"

definition stream_insert_buffer :: "byte list \<Rightarrow> stream \<Rightarrow> stream" where
  "stream_insert_buffer buf st =
     (if snd st then if buf = [] then (fst st, False) else (fst st @ buf, True) else st)"

record ostream_sink =
  os_out :: stream
  os_subs :: "stream list"

definition os_make :: "ostream_sink" where
  "os_make = \<lparr>os_out = ([], True), os_subs = []\<rparr>"

definition os_current :: "ostream_sink \<Rightarrow> stream" where
  "os_current s = (if os_subs s = [] then os_out s else hd (os_subs s))"

definition os_update :: "(stream \<Rightarrow> stream) \<Rightarrow> ostream_sink \<Rightarrow> ostream_sink" where
  "os_update f s =
     (if os_subs s = [] then s\<lparr>os_out := f (os_out s)\<rparr>
      else s\<lparr>os_subs := f (hd (os_subs s)) # tl (os_subs s)\<rparr>)"

definition os_write :: "byte list \<Rightarrow> ostream_sink \<Rightarrow> ser_errors \<times> ostream_sink" where
  "os_write blk s =
     (let s' = os_update (stream_insert blk) s
      in (if \<not> snd (os_current s') then data_sink_error else 0, s'))"

definition os_begin_work :: "ostream_sink \<Rightarrow> nat \<times> ostream_sink" where
  "os_begin_work s = (let s' = s\<lparr>os_subs := ([], True) # os_subs s\<rparr> in (length (os_subs s'), s'))"

definition os_commit :: "nat \<Rightarrow> ostream_sink \<Rightarrow> (ser_errors \<times> ostream_sink) option" where
  "os_commit th s =
     (if th = length (os_subs s) \<and> os_subs s \<noteq> []
      then Some (0, os_update (stream_insert_buffer (fst (hd (os_subs s)))) (s\<lparr>os_subs := tl (os_subs s)\<rparr>))
      else None)"

definition os_rollback :: "nat \<Rightarrow> ostream_sink \<Rightarrow> ostream_sink option" where
  "os_rollback th s =
     (if th = length (os_subs s) \<and> os_subs s \<noteq> [] then Some (s\<lparr>os_subs := tl (os_subs s)\<rparr>) else None)"

definition ostream_sink_ops :: "ostream_sink sink_ops" where
  "ostream_sink_ops = \<lparr>sink_remaining = (\<lambda>s. 2 ^ 63 - 1), sink_write = os_write,
     sink_begin_work = os_begin_work, sink_commit = os_commit, sink_rollback = os_rollback,
     sink_finalize = Pair 0\<rparr>"
section \<open>Data sources\<close>

record 's source_ops =
  src_top :: "int \<Rightarrow> 's \<Rightarrow> byte list \<times> 's"
  src_pop :: "nat \<Rightarrow> 's \<Rightarrow> 's"

text \<open>
  \<^verbatim>\<open>scan_until\<close>: \<open>None\<close> is the invalid position. The assertion that \<open>step\<close> is positive is the
  guard of the recursion.
\<close>

function scan_until_from ::
    "'s source_ops \<Rightarrow> (byte \<Rightarrow> bool) \<Rightarrow> nat \<Rightarrow> nat \<Rightarrow> nat \<Rightarrow> nat \<Rightarrow> 's \<Rightarrow> nat option \<times> 's" where
  "scan_until_from ops predicate limit step start window s =
     (let (blk, s) = src_top ops (int window) s
      in if blk \<noteq> [] then
           (case find_element_if (skip blk (int start)) predicate of
              Some found \<Rightarrow> (Some (start + found), s)
            | None \<Rightarrow>
                if length blk < window then (None, s)
                else if limit < window then (Some limit, s)
                else if 0 < step then scan_until_from ops predicate limit step (start + step) (window + step) s
                else (None, s))
         else (None, s))"
  by pat_completeness auto
termination by (relation "measure (\<lambda>(ops, predicate, limit, step, start, window, s). limit + 1 - window)") auto

declare scan_until_from.simps [simp del]

definition scan_until ::
    "'s source_ops \<Rightarrow> (byte \<Rightarrow> bool) \<Rightarrow> nat \<Rightarrow> nat \<Rightarrow> 's \<Rightarrow> (nat option \<times> 's) option" where
  "scan_until ops predicate limit step s =
     (if 0 < limit \<and> 0 < step then Some (scan_until_from ops predicate limit step 0 step s) else None)"

definition scan_for :: "'s source_ops \<Rightarrow> byte \<Rightarrow> nat \<Rightarrow> nat \<Rightarrow> 's \<Rightarrow> (nat option \<times> 's) option" where
  "scan_for ops what limit step s =
     (if 0 < limit \<and> 0 < step then scan_until ops (\<lambda>b. b = what) limit step s else None)"

partial_function (option) fetch_all ::
    "'s source_ops \<Rightarrow> byte list \<Rightarrow> nat \<Rightarrow> 's \<Rightarrow> (byte list \<times> 's) option" where
  "fetch_all ops dst step s =
     (if 0 < step
      then let (blk, s) = src_top ops (int step) s
           in if blk \<noteq> [] then fetch_all ops (dst @ blk) step (src_pop ops (length blk) s) else Some (dst, s)
      else None)"

declare fetch_all.simps [code]

subsection \<open>Over a block of memory\<close>

record block_source =
  src_data :: "byte list"
  src_done :: nat

definition block_source_of :: "byte list \<Rightarrow> block_source" where
  "block_source_of src = \<lparr>src_data = src, src_done = 0\<rparr>"

definition block_top :: "int \<Rightarrow> block_source \<Rightarrow> byte list \<times> block_source" where
  "block_top req s = (head (skip (src_data s) (int (src_done s))) req, s)"

definition block_pop :: "nat \<Rightarrow> block_source \<Rightarrow> block_source" where
  "block_pop n s = s\<lparr>src_done := src_done s + n\<rparr>"

definition block_remaining :: "block_source \<Rightarrow> byte list" where
  "block_remaining s = skip (src_data s) (int (src_done s))"

definition block_source_ops :: "block_source source_ops" where
  "block_source_ops = \<lparr>src_top = block_top, src_pop = block_pop\<rparr>"

subsection \<open>Over an input stream\<close>

text \<open>What is still in the stream, and the current bytes of the storage.\<close>

record istream_source =
  is_in :: "byte list"
  is_storage :: "byte list"

definition istream_source_of :: "byte list \<Rightarrow> istream_source" where
  "istream_source_of bs = \<lparr>is_in = bs, is_storage = []\<rparr>"

definition istream_top :: "int \<Rightarrow> istream_source \<Rightarrow> byte list \<times> istream_source" where
  "istream_top req s =
     (let s = (if size_of (is_storage s) < req
               then let n = nat (req - size_of (is_storage s))
                    in s\<lparr>is_storage := is_storage s @ take n (is_in s), is_in := drop n (is_in s)\<rparr>
               else s)
      in (head (is_storage s) req, s))"

definition istream_pop :: "nat \<Rightarrow> istream_source \<Rightarrow> istream_source" where
  "istream_pop n s =
     (if length (is_storage s) \<le> n then s\<lparr>is_storage := []\<rparr>
      else s\<lparr>is_storage := skip (is_storage s) (int n)\<rparr>)"

definition istream_source_ops :: "istream_source source_ops" where
  "istream_source_ops = \<lparr>src_top = istream_top, src_pop = istream_pop\<rparr>"

section \<open>Serializer backends\<close>

text \<open>Values of the types that backends write and read themselves; integers carry their width.\<close>

datatype prim =
    PBool bool
  | PUnsigned nat int
  | PSigned nat int
  | PIdentifier basic_identifier
  | PName "byte list"
  | PString "byte list"

type_synonym 's ser_action = "'s \<Rightarrow> (ser_errors \<times> 's) option"

text \<open>The two ways of the code to collect errors: \<^verbatim>\<open>e = a; e |= b;\<close>, and \<^verbatim>\<open>b\<close> only without errors.\<close>

definition ser_then :: "'s ser_action \<Rightarrow> 's ser_action \<Rightarrow> 's ser_action" where
  "ser_then a b s =
     Option.bind (a s) (\<lambda>(e, s). map_option (\<lambda>(e', s). (e OR e', s)) (b s))"

definition ser_if_ok :: "'s ser_action \<Rightarrow> 's ser_action \<Rightarrow> 's ser_action" where
  "ser_if_ok a b s =
     Option.bind (a s) (\<lambda>(e, s). if e = 0 then map_option (\<lambda>(e', s). (e OR e', s)) (b s) else Some (e, s))"

definition ser_ok :: "'s ser_action" where
  "ser_ok s = Some (0, s)"

definition do_sink :: "'s sink_ops \<Rightarrow> byte list \<Rightarrow> 's ser_action" where
  "do_sink ops b s = Some (sink_write ops b s)"

record 's ser_backend =
  sb_enum_as_string :: bool
  sb_sink :: "'s sink_ops"
  sb_begin :: "'s ser_action"
  sb_write :: "prim list \<Rightarrow> 's \<Rightarrow> (ser_errors \<times> nat \<times> 's) option"
  sb_begin_struct :: "int \<Rightarrow> 's ser_action"
  sb_begin_member :: "byte list \<Rightarrow> 's ser_action"
  sb_finish_member :: "byte list \<Rightarrow> 's ser_action"
  sb_finish_struct :: "'s ser_action"
  sb_begin_list :: "int \<Rightarrow> 's ser_action"
  sb_begin_element :: "int \<Rightarrow> 's ser_action"
  sb_finish_element :: "int \<Rightarrow> 's ser_action"
  sb_finish_list :: "'s ser_action"
  sb_finish :: "'s ser_action"

section \<open>Deserializer backends\<close>

type_synonym 's deser_action = "'s \<Rightarrow> (deser_errors \<times> 's) option"
type_synonym ('a, 's) deser_reader = "'a \<Rightarrow> 's \<Rightarrow> (deser_errors \<times> 'a \<times> 's) option"

definition deser_if_ok :: "'s deser_action \<Rightarrow> 's deser_action \<Rightarrow> 's deser_action" where
  "deser_if_ok a b s =
     Option.bind (a s) (\<lambda>(e, s). if e = 0 then map_option (\<lambda>(e', s). (e OR e', s)) (b s) else Some (e, s))"

definition deser_then :: "'s deser_action \<Rightarrow> 's deser_action \<Rightarrow> 's deser_action" where
  "deser_then a b s =
     Option.bind (a s) (\<lambda>(e, s). map_option (\<lambda>(e', s). (e OR e', s)) (b s))"

definition deser_ok :: "'s deser_action" where
  "deser_ok s = Some (0, s)"

record 's deser_backend =
  db_enum_as_string :: bool
  db_begin :: "'s deser_action"
  db_read :: "prim list \<Rightarrow> 's \<Rightarrow> (deser_errors \<times> nat \<times> prim list \<times> 's) option"
  db_begin_struct :: "(int, 's) deser_reader"
  db_begin_member :: "byte list \<Rightarrow> 's deser_action"
  db_finish_member :: "byte list \<Rightarrow> 's deser_action"
  db_finish_struct :: "'s deser_action"
  db_begin_list :: "(int, 's) deser_reader"
  db_begin_element :: "int \<Rightarrow> 's deser_action"
  db_finish_element :: "int \<Rightarrow> 's deser_action"
  db_finish_list :: "'s deser_action"
  db_finish :: "'s deser_action"

subsection \<open>The common parts\<close>

definition top_string :: "'s source_ops \<Rightarrow> int \<Rightarrow> 's \<Rightarrow> byte list \<times> 's" where
  "top_string ops n s = src_top ops n s"

definition string_before :: "'s source_ops \<Rightarrow> byte \<Rightarrow> nat \<Rightarrow> 's \<Rightarrow> (byte list \<times> 's) option" where
  "string_before ops c limit s =
     map_option (\<lambda>(found, s). top_string ops (int (case found of Some p \<Rightarrow> p | None \<Rightarrow> 0)) s)
       (scan_for ops c limit 256 s)"

text \<open>\<^verbatim>\<open>value_or\<close> of a span: its element if it has exactly one.\<close>

definition top_char_or :: "'s source_ops \<Rightarrow> byte \<Rightarrow> 's \<Rightarrow> byte \<times> 's" where
  "top_char_or ops fallback s =
     (let (t, s) = top_string ops 1 s in (if length t = 1 then t ! 0 else fallback, s))"

definition consume :: "'s source_ops \<Rightarrow> byte list \<Rightarrow> 's \<Rightarrow> bool \<times> deser_errors \<times> 's" where
  "consume ops what s =
     (let (top_str, s) = top_string ops (size_of what) s
      in if length top_str < length what then (False, not_enough_data, s)
         else if top_str = what then (True, 0, src_pop ops (length what) s)
         else (False, unexpected_data, s))"

partial_function (option) consume_until ::
    "'s source_ops \<Rightarrow> (byte \<Rightarrow> bool) \<Rightarrow> nat \<Rightarrow> 's \<Rightarrow> 's option" where
  "consume_until ops predicate step s =
     Option.bind (scan_until ops predicate step step s) (\<lambda>(pos, s).
       case pos of
         Some p \<Rightarrow> if p > 0 then consume_until ops predicate step (src_pop ops p s) else Some s
       | None \<Rightarrow> Some s)"

declare consume_until.simps [code]

definition require :: "'s source_ops \<Rightarrow> byte list \<Rightarrow> 's deser_action" where
  "require ops what s =
     (let (top_str, s) = top_string ops (size_of what) s
      in Some (if length top_str < length what then (not_enough_data, s)
               else if top_str = what then (0, src_pop ops (length what) s)
               else (invalid_format, s)))"

text \<open>The bytes that \<^verbatim>\<open>std::isspace\<close> accepts.\<close>

definition is_space :: "byte \<Rightarrow> bool" where
  "is_space b = (b = 32 \<or> (9 \<le> b \<and> b \<le> 13))"

definition skip_whitespaces :: "'s source_ops \<Rightarrow> 's \<Rightarrow> 's option" where
  "skip_whitespaces ops s = consume_until ops (\<lambda>b. \<not> is_space b) 256 s"
section \<open>What a serializer relies on\<close>

text \<open>
  The levels of a sink are what has been written since each open transaction, and before the first
  one, the innermost in front. \<open>fits s n\<close>: there is room for \<open>n\<close> more bytes.
\<close>

definition append_top :: "byte list list \<Rightarrow> byte list \<Rightarrow> byte list list" where
  "append_top ls b = (hd ls @ b) # tl ls"

lemma append_top_simps [simp]:
  "append_top (append_top ls a) b = append_top ls (a @ b)"
  "append_top (l # ls) b = (l @ b) # ls"
  "append_top ls b \<noteq> []"
  by (simp_all add: append_top_def)

lemma append_top_Nil [simp]: "ls \<noteq> [] \<Longrightarrow> append_top ls [] = ls"
  by (simp add: append_top_def)

locale data_sink =
  fixes ops :: "'s sink_ops" and invar :: "'s \<Rightarrow> bool" and levels :: "'s \<Rightarrow> byte list list"
    and fits :: "'s \<Rightarrow> nat \<Rightarrow> bool"
  assumes levels_ne: "invar s \<Longrightarrow> levels s \<noteq> []"
    and fits_less: "fits s (m + n) \<Longrightarrow> fits s m"
    and append: "invar s \<Longrightarrow> fits s (length b) \<Longrightarrow> \<exists>s'. sink_write ops b s = (0, s') \<and> invar s' \<and>
      levels s' = append_top (levels s) b \<and> (\<forall>n. fits s (length b + n) \<longrightarrow> fits s' n)"
    and begin_work: "invar s \<Longrightarrow> \<exists>s'. sink_begin_work ops s = (length (levels s), s') \<and> invar s' \<and>
      levels s' = [] # levels s \<and> (\<forall>n. fits s n \<longrightarrow> fits s' n)"
    and commit: "invar s \<Longrightarrow> levels s = l # l2 # ls \<Longrightarrow> l \<noteq> [] \<Longrightarrow>
      \<exists>s'. sink_commit ops (length (l2 # ls)) s = Some (0, s') \<and> invar s' \<and>
        levels s' = (l2 @ l) # ls \<and> (\<forall>n. fits s n \<longrightarrow> fits s' n)"
    and rollback: "invar s \<Longrightarrow> levels s = l # l2 # ls \<Longrightarrow>
      \<exists>s'. sink_rollback ops (length (l2 # ls)) s = Some s' \<and> invar s' \<and> levels s' = l2 # ls \<and>
        (\<forall>n. fits s n \<longrightarrow> fits s' n)"
    and finalize: "sink_finalize ops s = (0, s)"
begin

text \<open>An action writes \<open>bs\<close> where it fits.\<close>

definition emits :: "'s ser_action \<Rightarrow> byte list \<Rightarrow> bool" where
  "emits a bs = (\<forall>s. invar s \<and> fits s (length bs) \<longrightarrow>
     (\<exists>s'. a s = Some (0, s') \<and> invar s' \<and> levels s' = append_top (levels s) bs \<and>
       (\<forall>n. fits s (length bs + n) \<longrightarrow> fits s' n)))"

lemma emitsD:
  assumes "emits a bs" "invar s" "fits s (length bs)"
  obtains s' where "a s = Some (0, s')" "invar s'" "levels s' = append_top (levels s) bs"
    "\<forall>n. fits s (length bs + n) \<longrightarrow> fits s' n"
  using assms unfolding emits_def by blast

lemma emits_ok: "emits ser_ok []"
  by (auto simp: emits_def ser_ok_def levels_ne)

lemma emits_sink: "emits (do_sink ops b) b"
  unfolding emits_def do_sink_def using append by fastforce

lemma emits_then: "emits (ser_then a b) (x @ y)" if a: "emits a x" and b: "emits b y"
  unfolding emits_def
proof (intro allI impI)
  fix s assume "invar s \<and> fits s (length (x @ y))"
  then have inv: "invar s" and "fits s (length x + length y)" by simp_all
  from emitsD[OF a inv fits_less[OF this(2)]] obtain s1 where
    s1: "a s = Some (0, s1)" "invar s1" "levels s1 = append_top (levels s) x"
      "\<forall>n. fits s (length x + n) \<longrightarrow> fits s1 n" .
  from emitsD[OF b s1(2) s1(4)[rule_format, OF \<open>fits s (length x + length y)\<close>]] obtain s2 where
    s2: "b s1 = Some (0, s2)" "invar s2" "levels s2 = append_top (levels s1) y"
      "\<forall>n. fits s1 (length y + n) \<longrightarrow> fits s2 n" .
  show "\<exists>s'. ser_then a b s = Some (0, s') \<and> invar s' \<and> levels s' = append_top (levels s) (x @ y) \<and>
      (\<forall>n. fits s (length (x @ y) + n) \<longrightarrow> fits s' n)"
    using s1 s2 by (simp add: ser_then_def add.assoc)
qed

lemma emits_if_ok: "emits (ser_if_ok a b) (x @ y)" if a: "emits a x" and b: "emits b y"
  unfolding emits_def
proof (intro allI impI)
  fix s assume s: "invar s \<and> fits s (length (x @ y))"
  then have "invar s" "fits s (length x)"
    using fits_less[of s "length x" "length y"] by simp_all
  with a have "ser_if_ok a b s = ser_then a b s"
    by (auto elim!: emitsD simp: ser_if_ok_def ser_then_def)
  then show "\<exists>s'. ser_if_ok a b s = Some (0, s') \<and> invar s' \<and> levels s' = append_top (levels s) (x @ y) \<and>
      (\<forall>n. fits s (length (x @ y) + n) \<longrightarrow> fits s' n)"
    using emits_then[OF a b] s unfolding emits_def by simp
qed

text \<open>A transaction that is rolled back leaves no trace.\<close>

lemma rollback_restores:
  assumes "invar s" "sink_begin_work ops s = (th, s1)" "emits a bs" "fits s (length bs)" "a s1 = Some (e, s2)"
  shows "\<exists>s3. sink_rollback ops th s2 = Some s3 \<and> invar s3 \<and> levels s3 = levels s"
proof -
  have s1: "invar s1" "levels s1 = [] # levels s" "th = length (levels s)" "fits s1 (length bs)"
    using begin_work[OF assms(1)] assms(2,4) by auto
  then have s2: "invar s2" "levels s2 = bs # levels s"
    using assms(3,5) by (auto elim!: emitsD)
  obtain l ls where l: "levels s = l # ls"
    using levels_ne[OF assms(1)] by (cases "levels s") auto
  then have "levels s2 = bs # l # ls" by (simp add: s2)
  then show ?thesis
    using rollback[OF s2(1), of bs l ls] s1(3) l by auto
qed

end
subsection \<open>The sink over memory\<close>

fun bs_levels :: "byte list \<Rightarrow> nat \<Rightarrow> nat list \<Rightarrow> byte list list" where
  "bs_levels dst used [] = [take used dst]"
| "bs_levels dst used (p # ps) = drop p (take used dst) # bs_levels dst p ps"

definition bs_content :: "block_sink \<Rightarrow> byte list list" where
  "bs_content s = bs_levels (bs_dst s) (bs_used s) (bs_save_points s)"

definition bs_invar :: "block_sink \<Rightarrow> bool" where
  "bs_invar s = (sorted_wrt (\<ge>) (bs_used s # bs_save_points s) \<and> bs_used s \<le> length (bs_dst s))"

definition bs_fits :: "block_sink \<Rightarrow> nat \<Rightarrow> bool" where
  "bs_fits s n = (bs_used s + n \<le> length (bs_dst s))"

lemma length_bs_levels [simp]: "length (bs_levels dst used ps) = length ps + 1"
  by (induction ps arbitrary: used) auto

lemma bs_levels_cong:
  "\<forall>p \<in> set (used # ps). p \<le> n \<Longrightarrow> take n dst = take n dst' \<Longrightarrow> bs_levels dst used ps = bs_levels dst' used ps"
proof (induction ps arbitrary: used)
  case Nil
  then show ?case by simp (metis min.absorb1 take_take)
next
  case (Cons p ps)
  have "take used dst = take used dst'"
    using Cons.prems by simp (metis min.absorb1 take_take)
  then show ?case using Cons by simp
qed

lemma bs_content_ne: "bs_content s \<noteq> []"
  by (cases "bs_save_points s") (simp_all add: bs_content_def)

lemma bs_write_result:
  assumes "bs_invar s" "bs_fits s (length b)"
  shows "\<exists>s'. bs_write b s = (0, s') \<and> bs_invar s' \<and> bs_content s' = append_top (bs_content s) b \<and>
    (\<forall>n. bs_fits s (length b + n) \<longrightarrow> bs_fits s' n)"
proof -
  let ?d = "bs_dst s" and ?u = "bs_used s"
  let ?d' = "take ?u ?d @ b @ drop (?u + length b) ?d"
  have u: "?u \<le> length ?d" "?u + length b \<le> length ?d"
    using assms by (auto simp: bs_invar_def bs_fits_def)
  have "take (?u + length b) ?d' = take ?u ?d @ b"
    using u by simp
  moreover have "bs_levels ?d' ?u ps = bs_levels ?d ?u ps" if "\<forall>p \<in> set ps. p \<le> ?u" for ps
    using that u by (intro bs_levels_cong[where n = ?u]) auto
  ultimately have "bs_levels ?d' (?u + length b) (bs_save_points s) =
      append_top (bs_levels ?d ?u (bs_save_points s)) b"
    using assms(1) u
  proof (cases "bs_save_points s")
    case (Cons p ps)
    have "bs_levels ?d' p ps = bs_levels ?d p ps"
      using assms(1) u Cons by (intro bs_levels_cong[where n = ?u]) (auto simp: bs_invar_def)
    then show ?thesis
      using u assms(1) Cons by (simp add: append_top_def bs_invar_def)
  qed (simp add: append_top_def)
  then show ?thesis
    using assms u
    by (auto simp: bs_write_def Let_def bs_free_def skip_eq_drop bs_copy_def bs_content_def bs_invar_def
        bs_fits_def)
qed

interpretation block_sink: data_sink block_sink_ops bs_invar bs_content bs_fits
proof
  fix s :: block_sink and m n :: nat and b l l2 :: "byte list" and ls
  show "bs_invar s \<Longrightarrow> bs_content s \<noteq> []"
    by (rule bs_content_ne)
  show "bs_fits s (m + n) \<Longrightarrow> bs_fits s m"
    by (simp add: bs_fits_def)
  show "bs_invar s \<Longrightarrow> bs_fits s (length b) \<Longrightarrow> \<exists>s'. sink_write block_sink_ops b s = (0, s') \<and> bs_invar s' \<and>
      bs_content s' = append_top (bs_content s) b \<and> (\<forall>n. bs_fits s (length b + n) \<longrightarrow> bs_fits s' n)"
    using bs_write_result by (simp add: block_sink_ops_def)
  show "bs_invar s \<Longrightarrow> \<exists>s'. sink_begin_work block_sink_ops s = (length (bs_content s), s') \<and> bs_invar s' \<and>
      bs_content s' = [] # bs_content s \<and> (\<forall>n. bs_fits s n \<longrightarrow> bs_fits s' n)"
    by (auto simp: block_sink_ops_def bs_begin_work_def Let_def bs_content_def bs_invar_def bs_fits_def)
  assume inv: "bs_invar s" and "bs_content s = l # l2 # ls"
  then obtain p ps where ps: "bs_save_points s = p # ps" "l = drop p (take (bs_used s) (bs_dst s))"
      "bs_levels (bs_dst s) p ps = l2 # ls"
    by (cases "bs_save_points s") (auto simp: bs_content_def)
  have len: "length (l2 # ls) = length (p # ps)"
    using ps(3) length_bs_levels[of "bs_dst s" p ps] by simp
  have p: "p \<le> bs_used s" "bs_used s \<le> length (bs_dst s)"
    using inv ps(1) by (auto simp: bs_invar_def)
  then have "take (bs_used s) (bs_dst s) = take p (bs_dst s) @ l"
    unfolding ps(2) by (metis append_take_drop_id min.absorb1 take_take)
  moreover have "drop q (take p (bs_dst s) @ l) = drop q (take p (bs_dst s)) @ l" if "q \<le> p" for q
    using that p by simp
  ultimately have "bs_levels (bs_dst s) (bs_used s) ps = (l2 @ l) # ls"
    using ps(3) inv ps(1) by (cases ps) (auto simp: bs_invar_def)
  then show "l \<noteq> [] \<Longrightarrow> \<exists>s'. sink_commit block_sink_ops (length (l2 # ls)) s = Some (0, s') \<and> bs_invar s' \<and>
      bs_content s' = (l2 @ l) # ls \<and> (\<forall>n. bs_fits s n \<longrightarrow> bs_fits s' n)"
    using inv ps(1) len
    by (auto simp: block_sink_ops_def bs_commit_def bs_content_def bs_invar_def bs_fits_def)
  show "\<exists>s'. sink_rollback block_sink_ops (length (l2 # ls)) s = Some s' \<and> bs_invar s' \<and>
      bs_content s' = l2 # ls \<and> (\<forall>n. bs_fits s n \<longrightarrow> bs_fits s' n)"
    using inv ps len
    by (auto simp: block_sink_ops_def bs_rollback_def bs_content_def bs_invar_def bs_fits_def)
next
  show "sink_finalize block_sink_ops s = (0, s)" for s
    by (simp add: block_sink_ops_def)
qed

subsection \<open>The sink over a stream\<close>

definition os_content :: "ostream_sink \<Rightarrow> byte list list" where
  "os_content s = map fst (os_subs s) @ [fst (os_out s)]"

definition os_invar :: "ostream_sink \<Rightarrow> bool" where
  "os_invar s = (snd (os_out s) \<and> list_all snd (os_subs s))"

interpretation ostream_sink: data_sink ostream_sink_ops os_invar os_content "\<lambda>s n. True"
proof
  fix s :: ostream_sink and b l l2 :: "byte list" and ls
  show "os_content s \<noteq> []"
    by (simp add: os_content_def)
  show "os_invar s \<Longrightarrow> \<exists>s'. sink_write ostream_sink_ops b s = (0, s') \<and> os_invar s' \<and>
      os_content s' = append_top (os_content s) b \<and> (\<forall>n. True \<longrightarrow> True)"
    by (cases "os_subs s") (auto simp: ostream_sink_ops_def os_write_def os_update_def os_current_def
        stream_insert_def os_content_def os_invar_def Let_def)
  show "os_invar s \<Longrightarrow> \<exists>s'. sink_begin_work ostream_sink_ops s = (length (os_content s), s') \<and> os_invar s' \<and>
      os_content s' = [] # os_content s \<and> (\<forall>n. True \<longrightarrow> True)"
    by (auto simp: ostream_sink_ops_def os_begin_work_def Let_def os_content_def os_invar_def)
  assume inv: "os_invar s" and content: "os_content s = l # l2 # ls"
  then obtain t ts where ts: "os_subs s = t # ts"
    by (cases "os_subs s") (auto simp: os_content_def)
  have len: "length (l2 # ls) = length (t # ts)"
    using arg_cong[OF content, of length] ts unfolding os_content_def by simp
  show "l \<noteq> [] \<Longrightarrow> \<exists>s'. sink_commit ostream_sink_ops (length (l2 # ls)) s = Some (0, s') \<and> os_invar s' \<and>
      os_content s' = (l2 @ l) # ls \<and> (\<forall>n. True \<longrightarrow> True)"
    using inv content ts len
    by (cases ts) (auto simp: ostream_sink_ops_def os_commit_def os_update_def stream_insert_buffer_def
        os_content_def os_invar_def)
  show "\<exists>s'. sink_rollback ostream_sink_ops (length (l2 # ls)) s = Some s' \<and> os_invar s' \<and>
      os_content s' = l2 # ls \<and> (\<forall>n. True \<longrightarrow> True)"
    using inv content ts len
    by (auto simp: ostream_sink_ops_def os_rollback_def os_content_def os_invar_def)
qed (auto simp: ostream_sink_ops_def)
section \<open>What a deserializer relies on\<close>

text \<open>
  \<open>rest s\<close> are the bytes still to be read; \<open>avail s\<close> of them can be removed, because they have
  been looked at.
\<close>

locale data_source =
  fixes ops :: "'s source_ops" and rest :: "'s \<Rightarrow> byte list" and avail :: "'s \<Rightarrow> nat"
  assumes top: "\<exists>s'. src_top ops n s = (take (nat n) (rest s), s') \<and> rest s' = rest s \<and>
      length (take (nat n) (rest s)) \<le> avail s' \<and> avail s \<le> avail s'"
    and pop: "k \<le> avail s \<Longrightarrow> rest (src_pop ops k s) = drop k (rest s)"
begin

text \<open>An action or a reader consumes \<open>bs\<close>; the reader finds the value \<open>v\<close> there.\<close>

definition accepts :: "'s deser_action \<Rightarrow> byte list \<Rightarrow> bool" where
  "accepts a bs = (\<forall>s r. rest s = bs @ r \<longrightarrow> (\<exists>s'. a s = Some (0, s') \<and> rest s' = r))"

definition reads :: "('a, 's) deser_reader \<Rightarrow> 'a \<Rightarrow> byte list \<Rightarrow> 'a \<Rightarrow> bool" where
  "reads rd v0 bs v = (\<forall>s r. rest s = bs @ r \<longrightarrow> (\<exists>s'. rd v0 s = Some (0, v, s') \<and> rest s' = r))"

lemma acceptsD:
  assumes "accepts a bs" "rest s = bs @ r"
  obtains s' where "a s = Some (0, s')" "rest s' = r"
  using assms unfolding accepts_def by blast

lemma readsD:
  assumes "reads rd v0 bs v" "rest s = bs @ r"
  obtains s' where "rd v0 s = Some (0, v, s')" "rest s' = r"
  using assms unfolding reads_def by blast

lemma top_string_result:
  obtains s' where "top_string ops n s = (take (nat n) (rest s), s')" "rest s' = rest s"
    "length (take (nat n) (rest s)) \<le> avail s'" "avail s \<le> avail s'"
  using top[of n s] unfolding top_string_def by blast

lemma accepts_ok: "accepts deser_ok []"
  by (simp add: accepts_def deser_ok_def)

lemma accepts_require: "accepts (require ops w) w"
  unfolding accepts_def
proof (intro allI impI)
  fix s r assume rest: "rest s = w @ r"
  obtain s' where "top_string ops (size_of w) s = (w, s')" "rest s' = rest s" "length w \<le> avail s'"
    using top_string_result[of "size_of w" s] rest by auto
  then show "\<exists>s'. require ops w s = Some (0, s') \<and> rest s' = r"
    using rest pop[of "length w" s'] by (simp add: require_def)
qed

lemma accepts_if_ok: "accepts (deser_if_ok a b) (x @ y)" if "accepts a x" "accepts b y"
  unfolding accepts_def
proof (intro allI impI)
  fix s r assume "rest s = (x @ y) @ r"
  then have "rest s = x @ (y @ r)" by simp
  from acceptsD[OF that(1) this] obtain s1 where s1: "a s = Some (0, s1)" "rest s1 = y @ r" .
  from acceptsD[OF that(2) s1(2)] obtain s2 where "b s1 = Some (0, s2)" "rest s2 = r" .
  with s1 show "\<exists>s'. deser_if_ok a b s = Some (0, s') \<and> rest s' = r"
    by (simp add: deser_if_ok_def)
qed

lemma accepts_then: "accepts (deser_then a b) (x @ y)" if "accepts a x" "accepts b y"
  unfolding accepts_def
proof (intro allI impI)
  fix s r assume "rest s = (x @ y) @ r"
  then have "rest s = x @ (y @ r)" by simp
  from acceptsD[OF that(1) this] obtain s1 where s1: "a s = Some (0, s1)" "rest s1 = y @ r" .
  from acceptsD[OF that(2) s1(2)] obtain s2 where "b s1 = Some (0, s2)" "rest s2 = r" .
  with s1 show "\<exists>s'. deser_then a b s = Some (0, s') \<and> rest s' = r"
    by (simp add: deser_then_def)
qed

lemma top_char_result:
  assumes "rest s = c # r"
  obtains s' where "top_char_or ops d s = (c, s')" "rest s' = rest s" "0 < avail s'"
proof -
  obtain s' where s': "top_string ops 1 s = (take (nat 1) (rest s), s')" "rest s' = rest s"
    "length (take (nat 1) (rest s)) \<le> avail s'"
    by (rule top_string_result[of 1 s])
  then have "top_char_or ops d s = (c, s')" "0 < avail s'"
    using assms by (simp_all add: top_char_or_def)
  then show ?thesis using that s'(2) by blast
qed

lemma scan_until_found:
  assumes "rest s = w @ c # r" "P c" "\<forall>b \<in> set w. \<not> P b" "length w < 256" "0 < limit"
  obtains s' where "scan_until ops P limit 256 s = Some (Some (length w), s')" "rest s' = rest s"
    "length w < avail s'"
proof -
  let ?b = "take 256 (rest s)"
  have w: "?b = w @ c # take (255 - length w) r"
    using assms(1,4) by (simp add: take_Cons' take_append)
  obtain s' where s': "src_top ops 256 s = (?b, s')" "rest s' = rest s" "length ?b \<le> avail s'"
    using top[of 256 s] by auto
  have "find_element_if ?b P = Some (length w)"
    using assms(2,3) unfolding find_element_if_def scan_from_Some_iff w by (auto simp: nth_append)
  then have "scan_until ops P limit 256 s = Some (Some (length w), s')"
    using s'(1) assms(5) w
    by (simp add: scan_until_def scan_until_from.simps[of ops P limit 256 0] skip_eq_drop)
  moreover have "length w < avail s'"
    using s'(3) w by simp
  ultimately show ?thesis using that s'(2) by blast
qed

lemma string_before_found:
  assumes "rest s = w @ c # r" "c \<notin> set w" "length w < 256" "0 < limit"
  obtains s' where "string_before ops c limit s = Some (w, s')" "rest s' = rest s" "length w < avail s'"
proof -
  obtain s1 where s1: "scan_until ops (\<lambda>b. b = c) limit 256 s = Some (Some (length w), s1)"
      "rest s1 = rest s" "length w < avail s1"
    using scan_until_found[of s w c r "\<lambda>b. b = c" limit] assms by auto
  obtain s2 where "top_string ops (int (length w)) s1 = (w, s2)" "rest s2 = rest s1" "avail s1 \<le> avail s2"
    using top_string_result[of "int (length w)" s1] s1(2) assms(1) by auto
  then show ?thesis
    using that s1 assms(4) by (simp add: string_before_def scan_for_def)
qed

lemma skip_whitespaces_none:
  assumes "rest s = c # r" "\<not> is_space c"
  obtains s' where "skip_whitespaces ops s = Some s'" "rest s' = rest s"
proof -
  obtain s' where s': "scan_until ops (\<lambda>b. \<not> is_space b) 256 256 s = Some (Some 0, s')" "rest s' = rest s"
    using scan_until_found[of s "[]" c r "\<lambda>b. \<not> is_space b" 256] assms by auto
  then have "skip_whitespaces ops s = Some s'"
    by (simp add: skip_whitespaces_def consume_until.simps[of ops _ 256 s])
  then show ?thesis using that s'(2) by blast
qed

end

interpretation block_source: data_source block_source_ops block_remaining "\<lambda>s. length (block_remaining s)"
  by unfold_locales
    (auto simp: block_source_ops_def block_top_def block_pop_def block_remaining_def head_eq_take skip_eq_drop
      nat_add_distrib add.commute)

definition istream_rest :: "istream_source \<Rightarrow> byte list" where
  "istream_rest s = is_storage s @ is_in s"

interpretation istream_source: data_source istream_source_ops istream_rest "\<lambda>s. length (is_storage s)"
proof
  fix n :: int and s :: istream_source
  show "\<exists>s'. src_top istream_source_ops n s = (take (nat n) (istream_rest s), s') \<and>
      istream_rest s' = istream_rest s \<and> length (take (nat n) (istream_rest s)) \<le> length (is_storage s') \<and>
      length (is_storage s) \<le> length (is_storage s')"
    by (cases "int (length (is_storage s)) < n")
      (auto simp: istream_source_ops_def istream_top_def istream_rest_def head_eq_take Let_def nat_diff_distrib')
next
  show "k \<le> length (is_storage s) \<Longrightarrow> istream_rest (src_pop istream_source_ops k s) = drop k (istream_rest s)" for k s
    by (auto simp: istream_source_ops_def istream_pop_def istream_rest_def skip_eq_drop)
qed
section \<open>Split blocks\<close>

text \<open>\<^verbatim>\<open>memory/split_span.cpp\<close>: a block with a position, up to which it has been written.\<close>

record split_block =
  sp_block :: "byte list"
  sp_split :: int

definition split_of :: "byte list \<Rightarrow> split_block" where
  "split_of blk = \<lparr>sp_block = blk, sp_split = 0\<rparr>"

definition split_tail :: "split_block \<Rightarrow> byte list" where
  "split_tail d = skip (sp_block d) (sp_split d)"

definition split_advance :: "int \<Rightarrow> split_block \<Rightarrow> split_block" where
  "split_advance n d = d\<lparr>sp_split := sp_split d + n\<rparr>"

definition split_skip_to_end :: "split_block \<Rightarrow> split_block" where
  "split_skip_to_end d = d\<lparr>sp_split := size_of (sp_block d)\<rparr>"

definition write_some :: "'s sink_ops \<Rightarrow> split_block \<Rightarrow> 's \<Rightarrow> split_block \<times> ser_errors \<times> 's" where
  "write_some ops d s =
     (let before = sink_remaining ops s; (e, s') = sink_write ops (split_tail d) s
      in if e = 0 then (split_skip_to_end d, 0, s')
         else if has_at_most e incomplete_write then (split_advance before d, 0, s')
         else (d, e, s'))"

text \<open>Writing a block into a list of pieces of memory, one after the other.\<close>

fun write_pieces :: "split_block \<Rightarrow> byte list list \<Rightarrow> split_block \<times> byte list list" where
  "write_pieces d [] = (d, [])"
| "write_pieces d (dst # dsts) =
     (let (d, e, s) = write_some block_sink_ops d (bs_make dst); (d, outs) = write_pieces d dsts
      in (d, bs_done s # outs))"

lemma write_some_block:
  assumes "0 \<le> sp_split d" "sp_split d \<le> size_of (sp_block d)"
  shows "\<exists>d' s'. write_some block_sink_ops d (bs_make dst) = (d', 0, s') \<and>
    bs_done s' = take (length dst) (split_tail d) \<and> sp_block d' = sp_block d \<and>
    sp_split d' = sp_split d + size_of (take (length dst) (split_tail d))"
  using assms
  by (auto simp: write_some_def block_sink_ops_def bs_write_def bs_remaining_size_def bs_free_def bs_make_def
      bs_copy_def bs_done_def split_tail_def split_skip_to_end_def split_advance_def skip_eq_drop head_eq_take
      has_at_most_def has_only_def incomplete_write_def Let_def of_nat_diff)

text \<open>
  C14. Writing a block into pieces of memory with \<^verbatim>\<open>write_some\<close> neither loses nor repeats a byte: the
  used parts of the pieces are together as much of the block as fits, and the split position says
  how much that is.
\<close>

theorem write_pieces_block:
  "concat (snd (write_pieces (split_of blk) dsts)) = take (length (concat dsts)) blk \<and>
   sp_split (fst (write_pieces (split_of blk) dsts)) = int (min (length (concat dsts)) (length blk))"
proof -
  have "concat (snd (write_pieces d dsts)) = take (length (concat dsts)) (split_tail d) \<and>
      sp_split (fst (write_pieces d dsts)) = sp_split d + size_of (take (length (concat dsts)) (split_tail d))"
    if "0 \<le> sp_split d" "sp_split d \<le> size_of (sp_block d)" for d
    using that
  proof (induction dsts arbitrary: d)
    case (Cons dst dsts)
    from write_some_block[OF Cons.prems, of dst] obtain d' s' where
      w: "write_some block_sink_ops d (bs_make dst) = (d', 0, s')" "bs_done s' = take (length dst) (split_tail d)"
        "sp_block d' = sp_block d" "sp_split d' = sp_split d + size_of (take (length dst) (split_tail d))"
      by blast
    have "split_tail d' = drop (length dst) (split_tail d)"
      using w(3,4) Cons.prems by (auto simp: split_tail_def skip_eq_drop nat_add_distrib min_def add.commute)
    moreover have "0 \<le> sp_split d'" "sp_split d' \<le> size_of (sp_block d')"
      using w(3,4) Cons.prems by (auto simp: split_tail_def skip_eq_drop)
    note Cons.IH[OF this]
    ultimately show ?case
      using w by (auto simp: Let_def case_prod_beta take_add)
  qed simp
  from this[of "split_of blk"] show ?thesis
    by (simp add: split_of_def split_tail_def skip_eq_drop)
qed

end
