(* ===== verification/Serialization.thy ===== *)
theory Serialization
  imports Serial_Data
begin

text \<open>
  \<^verbatim>\<open>source/modules/eagine/serialization/write.cpp\<close> and \<^verbatim>\<open>read.cpp\<close>: the serializers and
  deserializers of composed types, over any backend. A type is a term of \<open>ser_type\<close>, for which the
  templates are instantiated; a value is a term of \<open>ser_value\<close>. A deserializer takes the value it
  overwrites. Values that do not belong to the type, which the compiler rejects, give \<open>None\<close>.
\<close>

section \<open>Types and values\<close>

datatype prim_type = TBool | TUnsigned nat | TSigned nat | TIdentifier | TName | TString

fun type_of_prim :: "prim \<Rightarrow> prim_type" where
  "type_of_prim (PBool b) = TBool"
| "type_of_prim (PUnsigned w n) = TUnsigned w"
| "type_of_prim (PSigned w n) = TSigned w"
| "type_of_prim (PIdentifier i) = TIdentifier"
| "type_of_prim (PName n) = TName"
| "type_of_prim (PString str) = TString"

fun default_prim :: "prim_type \<Rightarrow> prim" where
  "default_prim TBool = PBool False"
| "default_prim (TUnsigned w) = PUnsigned w 0"
| "default_prim (TSigned w) = PSigned w 0"
| "default_prim TIdentifier = PIdentifier (ident_default 10 6)"
| "default_prim TName = PName []"
| "default_prim TString = PString []"

text \<open>A structure is the list of the names and types of its members.\<close>

datatype ser_type =
    Plain prim_type
  | StdString
  | Vector ser_type
  | Array nat ser_type
  | Tuple "ser_type list"
  | Struct "(byte list \<times> ser_type) list"
  | ValidIf ser_type
  | Enum "byte list list"

datatype ser_value =
    Prim prim
  | Seq "ser_value list"
  | Opt "ser_value option"
  | Enumerator nat

fun prims_of :: "ser_value list \<Rightarrow> prim list option" where
  "prims_of [] = Some []"
| "prims_of (Prim p # vs) = map_option ((#) p) (prims_of vs)"
| "prims_of (_ # vs) = None"

section \<open>Serializers\<close>

text \<open>\<^verbatim>\<open>plain_serializer\<close> asserts that something was written or that there was too much data.\<close>

definition plain_write :: "'s ser_backend \<Rightarrow> prim \<Rightarrow> 's ser_action" where
  "plain_write b v s =
     Option.bind (sb_write b [v] s) (\<lambda>(e, written, s).
       if written < 1 \<and> \<not> bitfield_has e too_much_data then None else Some (e, s))"

definition plain_write_span :: "'s ser_backend \<Rightarrow> prim list \<Rightarrow> 's ser_action" where
  "plain_write_span b vs s =
     Option.bind (sb_write b vs s) (\<lambda>(e, written, s).
       if written < 1 then if bitfield_has e too_much_data then Some (e, s) else None
       else if written < length vs \<and> \<not> (bitfield_has e incomplete_write \<or> bitfield_has e too_much_data)
       then None
       else Some (e, s))"

text \<open>The loop of \<^verbatim>\<open>common_serializer::write\<close>: every element in a transaction of the sink.\<close>

definition abandon_element :: "'s ser_backend \<Rightarrow> nat \<Rightarrow> ser_errors \<Rightarrow> 's \<Rightarrow> (ser_errors \<times> 's) option" where
  "abandon_element b th e s =
     map_option (Pair (bitfield_clear e too_much_data OR incomplete_write)) (sink_rollback (sb_sink b) th s)"

fun common_write ::
    "'s ser_backend \<Rightarrow> (ser_value \<Rightarrow> 's ser_action) \<Rightarrow> ser_value list \<Rightarrow> int \<Rightarrow> ser_errors \<Rightarrow> 's ser_action" where
  "common_write b w [] i e s = Some (e, s)"
| "common_write b w (v # vs) i e s =
     (let (th, s) = sink_begin_work (sb_sink b) s
      in Option.bind (sb_begin_element b i s) (\<lambda>(e0, s).
           (let e = e OR e0
            in if e = 0 then
                 Option.bind (ser_then (w v) (sb_finish_element b i) s) (\<lambda>(e1, s).
                   (let e = e OR e1
                    in if e = 0 then
                         Option.bind (sink_commit (sb_sink b) th s) (\<lambda>(e2, s).
                           common_write b w vs (i + 1) (e OR e2) s)
                       else if has_at_most e too_much_data then abandon_element b th e s
                       else Some (e, s)))
               else if has_only e too_much_data then abandon_element b th e s
               else Some (e, s))))"

text \<open>A span of elements, for the element types whose serializer takes spans.\<close>

definition write_span :: "'s ser_backend \<Rightarrow> ser_type \<Rightarrow> (ser_value \<Rightarrow> 's ser_action) \<Rightarrow> ser_value list \<Rightarrow> 's ser_action" where
  "write_span b t w vs s =
     (case t of
        Plain p \<Rightarrow> Option.bind (prims_of vs) (\<lambda>ps. plain_write_span b ps s)
      | Struct ms \<Rightarrow> None
      | ValidIf u \<Rightarrow> None
      | Enum names \<Rightarrow> None
      | _ \<Rightarrow> common_write b w vs 0 0 s)"

text \<open>The elements of a tuple and the members of a structure, each only while there is no error.\<close>

fun write_elements :: "'s ser_backend \<Rightarrow> 's ser_action list \<Rightarrow> int \<Rightarrow> ser_errors \<Rightarrow> 's ser_action" where
  "write_elements b [] i e s = Some (e, s)"
| "write_elements b (w # ws) i e s =
     (if e = 0
      then Option.bind (ser_if_ok (sb_begin_element b i) (ser_then w (sb_finish_element b i)) s) (\<lambda>(e, s).
             write_elements b ws (i + 1) e s)
      else write_elements b ws (i + 1) e s)"

fun write_members ::
    "'s ser_backend \<Rightarrow> (byte list \<times> 's ser_action) list \<Rightarrow> ser_errors \<Rightarrow> 's ser_action" where
  "write_members b [] e s = Some (e, s)"
| "write_members b ((name, w) # ws) e s =
     (if e = 0
      then Option.bind (ser_if_ok (sb_begin_member b name) (ser_then w (sb_finish_member b name)) s) (\<lambda>(e, s).
             write_members b ws e s)
      else write_members b ws e s)"

fun ser_write :: "'s ser_backend \<Rightarrow> ser_type \<Rightarrow> ser_value \<Rightarrow> 's ser_action" where
  "ser_write b (Plain p) = (\<lambda>v s. case v of Prim x \<Rightarrow> plain_write b x s | _ \<Rightarrow> None)"
| "ser_write b StdString = (\<lambda>v s. case v of Prim x \<Rightarrow> plain_write b x s | _ \<Rightarrow> None)"
| "ser_write b (Vector t) =
     (\<lambda>v s. case v of
        Seq vs \<Rightarrow> ser_if_ok (sb_begin_list b (size_of vs))
                    (ser_then (write_span b t (ser_write b t) vs) (sb_finish_list b)) s
      | _ \<Rightarrow> None)"
| "ser_write b (Array n t) =
     (\<lambda>v s. case v of
        Seq vs \<Rightarrow> ser_if_ok (sb_begin_list b (int n))
                    (ser_then (write_span b t (ser_write b t) vs) (sb_finish_list b)) s
      | _ \<Rightarrow> None)"
| "ser_write b (Tuple ts) =
     (\<lambda>v s. case v of
        Seq vs \<Rightarrow> ser_if_ok (sb_begin_list b (size_of ts))
                    (ser_then (write_elements b (map (\<lambda>(w, v). w v) (zip (map (\<lambda>t. ser_write b t) ts) vs)) 0 0)
                       (sb_finish_list b)) s
      | _ \<Rightarrow> None)"
| "ser_write b (Struct ms) =
     (\<lambda>v s. case v of
        Seq vs \<Rightarrow> ser_if_ok (sb_begin_struct b (size_of ms))
                    (ser_then (write_members b
                         (map (\<lambda>((name, w), v). (name, w v)) (zip (map (\<lambda>m. (fst m, ser_write b (snd m))) ms) vs)) 0)
                       (sb_finish_struct b)) s
      | _ \<Rightarrow> None)"
| "ser_write b (ValidIf t) =
     (\<lambda>v s. case v of
        Opt (Some x) \<Rightarrow> ser_if_ok (sb_begin_list b 1) (ser_then (ser_write b t x) (sb_finish_list b)) s
      | Opt None \<Rightarrow> ser_if_ok (sb_begin_list b 0) (sb_finish_list b) s
      | _ \<Rightarrow> None)"
| "ser_write b (Enum names) =
     (\<lambda>v s. case v of
        Enumerator k \<Rightarrow>
          if sb_enum_as_string b then plain_write b (PName (if k < length names then names ! k else [])) s
          else plain_write b (PSigned 32 (int k)) s
      | _ \<Rightarrow> None)"

definition serialize :: "'s ser_backend \<Rightarrow> ser_type \<Rightarrow> ser_value \<Rightarrow> 's ser_action" where
  "serialize b t v s =
     map_option (\<lambda>(e, s). let (e', s) = sink_finalize (sb_sink b) s in (e OR e', s))
       (ser_if_ok (sb_begin b) (ser_then (ser_write b t v) (sb_finish b)) s)"
section \<open>Deserializers\<close>

fun default_value :: "ser_type \<Rightarrow> ser_value" where
  "default_value (Plain p) = Prim (default_prim p)"
| "default_value StdString = Prim (PString [])"
| "default_value (Vector t) = Seq []"
| "default_value (Array n t) = Seq (replicate n (default_value t))"
| "default_value (Tuple ts) = Seq (map default_value ts)"
| "default_value (Struct ms) = Seq (map (\<lambda>m. default_value (snd m)) ms)"
| "default_value (ValidIf t) = Opt None"
| "default_value (Enum names) = Enumerator 0"

definition plain_read :: "'s deser_backend \<Rightarrow> (prim, 's) deser_reader" where
  "plain_read b v s = map_option (\<lambda>(e, n, vs, s). (e, hd vs, s)) (db_read b [v] s)"

definition prim_read :: "'s deser_backend \<Rightarrow> (ser_value, 's) deser_reader" where
  "prim_read b v s =
     (case v of Prim x \<Rightarrow> map_option (\<lambda>(e, x, s). (e, Prim x, s)) (plain_read b x s) | _ \<Rightarrow> None)"

text \<open>The loop of \<^verbatim>\<open>common_deserializer::read\<close>.\<close>

fun common_read ::
    "(ser_value, 's) deser_reader \<Rightarrow> ser_value list \<Rightarrow> deser_errors \<Rightarrow> 's \<Rightarrow>
     (deser_errors \<times> ser_value list \<times> 's) option" where
  "common_read rd [] e s = Some (e, [], s)"
| "common_read rd (v # vs) e s =
     Option.bind (rd v s) (\<lambda>(e', v, s).
       (let e = e OR e'
        in if bitfield_has e not_enough_data \<or> bitfield_has e deser_backend_error then Some (e, v # vs, s)
           else map_option (\<lambda>(e, vs, s). (e, v # vs, s)) (common_read rd vs e s)))"

definition read_span ::
    "'s deser_backend \<Rightarrow> ser_type \<Rightarrow> (ser_value, 's) deser_reader \<Rightarrow> (ser_value list, 's) deser_reader" where
  "read_span b t rd vs s =
     (case t of
        Plain p \<Rightarrow>
          Option.bind (prims_of vs) (\<lambda>ps. map_option (\<lambda>(e, n, ps, s). (e, map Prim ps, s)) (db_read b ps s))
      | StdString \<Rightarrow>
          Option.bind (prims_of vs) (\<lambda>ps. map_option (\<lambda>(e, n, ps, s). (e, map Prim ps, s)) (db_read b ps s))
      | Array n u \<Rightarrow> common_read rd vs 0 s
      | _ \<Rightarrow> None)"

text \<open>One element or member, between the actions \<open>first\<close> and \<open>finish\<close>.\<close>

definition read_between ::
    "'s deser_action \<Rightarrow> 's deser_action \<Rightarrow> (ser_value, 's) deser_reader \<Rightarrow> (ser_value, 's) deser_reader" where
  "read_between first finish rd v s =
     Option.bind (first s) (\<lambda>(e, s).
       if e = 0 then
         Option.bind (rd v s) (\<lambda>(e1, v, s). map_option (\<lambda>(e2, s). (e1 OR e2, v, s)) (finish s))
       else Some (e, v, s))"

fun read_elements ::
    "'s deser_backend \<Rightarrow> (ser_value, 's) deser_reader list \<Rightarrow> ser_value list \<Rightarrow> int \<Rightarrow> deser_errors \<Rightarrow> 's \<Rightarrow>
     (deser_errors \<times> ser_value list \<times> 's) option" where
  "read_elements b (rd # rds) (v # vs) i e s =
     (if e = 0
      then Option.bind (read_between (db_begin_element b i) (db_finish_element b i) rd v s) (\<lambda>(e, v, s).
             map_option (\<lambda>(e, vs, s). (e, v # vs, s)) (read_elements b rds vs (i + 1) e s))
      else Some (e, v # vs, s))"
| "read_elements b rds vs i e s = Some (e, vs, s)"

fun read_members ::
    "'s deser_backend \<Rightarrow> (byte list \<times> (ser_value, 's) deser_reader) list \<Rightarrow> ser_value list \<Rightarrow> deser_errors \<Rightarrow> 's \<Rightarrow>
     (deser_errors \<times> ser_value list \<times> 's) option" where
  "read_members b ((name, rd) # rds) (v # vs) e s =
     (if e = 0
      then Option.bind (read_between (db_begin_member b name) (db_finish_member b name) rd v s) (\<lambda>(e, v, s).
             map_option (\<lambda>(e, vs, s). (e, v # vs, s)) (read_members b rds vs e s))
      else Some (e, v # vs, s))"
| "read_members b rds vs e s = Some (e, vs, s)"

text \<open>
  The frame of a list or structure of a fixed size: the error for a wrong count, and the contents
  and the end unless there are errors other than superfluous elements.
\<close>

definition read_fixed ::
    "(int, 's) deser_reader \<Rightarrow> 's deser_action \<Rightarrow> deser_errors \<Rightarrow> deser_errors \<Rightarrow> int \<Rightarrow>
     (ser_value list \<Rightarrow> deser_errors \<Rightarrow> 's \<Rightarrow> (deser_errors \<times> ser_value list \<times> 's) option) \<Rightarrow>
     (ser_value list, 's) deser_reader" where
  "read_fixed first finish missing excess n body vs s =
     Option.bind (first 0 s) (\<lambda>(e, count, s).
       (let e = (if count < n then e OR missing else if count > n then e OR excess else e)
        in if has_at_most e excess then
             Option.bind (body vs e s) (\<lambda>(e1, vs, s). map_option (\<lambda>(e2, s). (e1 OR e2, vs, s)) (finish s))
           else Some (e, vs, s)))"

definition vector_resize :: "ser_value \<Rightarrow> int \<Rightarrow> ser_value list \<Rightarrow> ser_value list option" where
  "vector_resize d n vs =
     (if 0 \<le> n then Some (take (nat n) vs @ replicate (nat n - length vs) d) else None)"

definition seq_read :: "(ser_value list, 's) deser_reader \<Rightarrow> (ser_value, 's) deser_reader" where
  "seq_read rd v s =
     (case v of Seq vs \<Rightarrow> map_option (\<lambda>(e, vs, s). (e, Seq vs, s)) (rd vs s) | _ \<Rightarrow> None)"

definition read_vector ::
    "'s deser_backend \<Rightarrow> ser_value \<Rightarrow> (ser_value list, 's) deser_reader \<Rightarrow> (ser_value list, 's) deser_reader" where
  "read_vector b d rd vs s =
     Option.bind (db_begin_list b 0 s) (\<lambda>(e, count, s).
       if e = 0 then
         Option.bind (vector_resize d count vs) (\<lambda>vs.
         Option.bind (rd vs s) (\<lambda>(e1, vs, s). map_option (\<lambda>(e2, s). (e1 OR e2, vs, s)) (db_finish_list b s)))
       else Some (e, vs, s))"

definition read_valid_if ::
    "'s deser_backend \<Rightarrow> ser_value \<Rightarrow> (ser_value, 's) deser_reader \<Rightarrow> (ser_value option, 's) deser_reader" where
  "read_valid_if b d rd v s =
     Option.bind (db_begin_list b 0 s) (\<lambda>(e, count, s).
       (let e = (if count < 0 then e OR missing_element else if count > 1 then e OR excess_element else e)
        in if e = 0 then
             Option.bind (rd d s) (\<lambda>(e1, x, s). map_option (\<lambda>(e2, s).
                 (e1 OR e2, if e1 OR e2 = 0 then Some x else v, s)) (db_finish_list b s))
           else Some (e, v, s)))"

text \<open>The first enumerator with the name that was read, or with the value.\<close>

definition read_enum :: "'s deser_backend \<Rightarrow> byte list list \<Rightarrow> (nat, 's) deser_reader" where
  "read_enum b names k s =
     (if db_enum_as_string b then
        map_option (\<lambda>(e, x, s).
            if e = 0 then
              (case find_element (map PName names) x of
                 Some k' \<Rightarrow> (0, k', s)
               | None \<Rightarrow> (unexpected_data, k, s))
            else (e, k, s))
          (plain_read b (PName []) s)
      else
        map_option (\<lambda>(e, x, s).
            if e = 0 then
              (case find_element (map (\<lambda>k. PSigned 32 (int k)) [0..<length names]) x of
                 Some k' \<Rightarrow> (0, k', s)
               | None \<Rightarrow> (unexpected_data, k, s))
            else (e, k, s))
          (plain_read b (PSigned 32 0) s))"

text \<open>The deserializers whose \<^verbatim>\<open>read\<close> is a const member function. The others cannot be used for the
  elements of spans and of optional values: such programs do not compile.\<close>

fun const_reader :: "ser_type \<Rightarrow> bool" where
  "const_reader (Tuple ts) = False"
| "const_reader (Struct ms) = False"
| "const_reader _ = True"

fun ser_read :: "'s deser_backend \<Rightarrow> ser_type \<Rightarrow> (ser_value, 's) deser_reader" where
  "ser_read b (Plain p) = prim_read b"
| "ser_read b StdString = prim_read b"
| "ser_read b (Vector t) = seq_read (read_vector b (default_value t) (read_span b t (ser_read b t)))"
| "ser_read b (Array n t) =
     seq_read (read_fixed (db_begin_list b) (db_finish_list b) missing_element excess_element (int n)
       (\<lambda>vs e s. map_option (\<lambda>(e', vs, s). (e OR e', vs, s)) (read_span b t (ser_read b t) vs s)))"
| "ser_read b (Tuple ts) =
     seq_read (read_fixed (db_begin_list b) (db_finish_list b) missing_element excess_element (size_of ts)
       (\<lambda>vs. read_elements b (map (\<lambda>t. ser_read b t) ts) vs 0))"
| "ser_read b (Struct ms) =
     seq_read (read_fixed (db_begin_struct b) (db_finish_struct b) missing_member excess_member (size_of ms)
       (read_members b (map (\<lambda>m. (fst m, ser_read b (snd m))) ms)))"
| "ser_read b (ValidIf t) =
     (\<lambda>v s. case v of
        Opt x \<Rightarrow>
          if const_reader t
          then map_option (\<lambda>(e, x, s). (e, Opt x, s)) (read_valid_if b (default_value t) (ser_read b t) x s)
          else None
      | _ \<Rightarrow> None)"
| "ser_read b (Enum names) =
     (\<lambda>v s. case v of
        Enumerator k \<Rightarrow> map_option (\<lambda>(e, k, s). (e, Enumerator k, s)) (read_enum b names k s)
      | _ \<Rightarrow> None)"

definition deserialize :: "'s deser_backend \<Rightarrow> ser_type \<Rightarrow> (ser_value, 's) deser_reader" where
  "deserialize b t v s =
     Option.bind (db_begin b s) (\<lambda>(e, s).
       if e = 0 then
         Option.bind (ser_read b t v s) (\<lambda>(e1, v, s). map_option (\<lambda>(e2, s). (e1 OR e2, v, s)) (db_finish b s))
       else Some (e, v, s))"
section \<open>The text of a value\<close>

text \<open>What a format puts around and between the values it writes itself.\<close>

record format =
  fmt_begin :: "byte list"
  fmt_finish :: "byte list"
  fmt_enum_as_string :: bool
  fmt_values :: "prim list \<Rightarrow> byte list"
  fmt_begin_struct :: "int \<Rightarrow> byte list"
  fmt_begin_member :: "byte list \<Rightarrow> byte list"
  fmt_finish_struct :: "byte list"
  fmt_begin_list :: "int \<Rightarrow> byte list"
  fmt_finish_list :: "byte list"

fun prim_of :: "ser_value \<Rightarrow> prim" where
  "prim_of (Prim x) = x"
| "prim_of _ = PBool False"

fun items_of :: "ser_value \<Rightarrow> ser_value list" where
  "items_of (Seq vs) = vs"
| "items_of _ = []"

fun option_of :: "ser_value \<Rightarrow> ser_value option" where
  "option_of (Opt x) = x"
| "option_of _ = None"

fun index_of :: "ser_value \<Rightarrow> nat" where
  "index_of (Enumerator k) = k"
| "index_of _ = 0"

definition enum_prim :: "bool \<Rightarrow> byte list list \<Rightarrow> nat \<Rightarrow> prim" where
  "enum_prim as_string names k = (if as_string then PName (names ! k) else PSigned 32 (int k))"

fun ser_text :: "format \<Rightarrow> ser_type \<Rightarrow> ser_value \<Rightarrow> byte list" where
  "ser_text f (Plain p) = (\<lambda>v. fmt_values f [prim_of v])"
| "ser_text f StdString = (\<lambda>v. fmt_values f [prim_of v])"
| "ser_text f (Vector t) =
     (\<lambda>v. fmt_begin_list f (size_of (items_of v)) @ concat (map (ser_text f t) (items_of v)) @ fmt_finish_list f)"
| "ser_text f (Array n t) =
     (\<lambda>v. fmt_begin_list f (int n) @ concat (map (ser_text f t) (items_of v)) @ fmt_finish_list f)"
| "ser_text f (Tuple ts) =
     (\<lambda>v. fmt_begin_list f (size_of ts) @
        concat (map2 (\<lambda>tx x. tx x) (map (\<lambda>t. ser_text f t) ts) (items_of v)) @ fmt_finish_list f)"
| "ser_text f (Struct ms) =
     (\<lambda>v. fmt_begin_struct f (size_of ms) @
        concat (map2 (\<lambda>(name, tx) x. fmt_begin_member f name @ tx x)
          (map (\<lambda>m. (fst m, ser_text f (snd m))) ms) (items_of v)) @ fmt_finish_struct f)"
| "ser_text f (ValidIf t) =
     (\<lambda>v. case option_of v of
        Some x \<Rightarrow> fmt_begin_list f 1 @ ser_text f t x @ fmt_finish_list f
      | None \<Rightarrow> fmt_begin_list f 0 @ fmt_finish_list f)"
| "ser_text f (Enum names) = (\<lambda>v. fmt_values f [enum_prim (fmt_enum_as_string f) names (index_of v)])"

definition ser_message :: "format \<Rightarrow> ser_type \<Rightarrow> ser_value \<Rightarrow> byte list" where
  "ser_message f t v = fmt_begin f @ ser_text f t v @ fmt_finish f"

text \<open>
  The values that can be written and read back, in terms of those of the format: no empty spans of
  plain values, which fail an assertion of \<^verbatim>\<open>plain_serializer\<close>, no optional values without a value,
  and enumerators that are the first ones with their name.
\<close>

fun is_plain :: "ser_type \<Rightarrow> bool" where
  "is_plain (Plain p) = True"
| "is_plain _ = False"

fun span_type :: "ser_type \<Rightarrow> bool" where
  "span_type (Plain p) = True"
| "span_type StdString = True"
| "span_type (Array n t) = True"
| "span_type _ = False"

definition span_ok :: "ser_type \<Rightarrow> ser_value list \<Rightarrow> bool" where
  "span_ok t vs = (span_type t \<and> length vs < 2 ^ 63 \<and> (is_plain t \<longrightarrow> vs \<noteq> []))"

fun storable :: "(prim \<Rightarrow> bool) \<Rightarrow> bool \<Rightarrow> ser_type \<Rightarrow> ser_value \<Rightarrow> bool" where
  "storable R es (Plain p) = (\<lambda>v. \<exists>x. v = Prim x \<and> type_of_prim x = p \<and> R x)"
| "storable R es StdString = (\<lambda>v. \<exists>str. v = Prim (PString str) \<and> R (PString str))"
| "storable R es (Vector t) = (\<lambda>v. \<exists>vs. v = Seq vs \<and> span_ok t vs \<and> list_all (storable R es t) vs)"
| "storable R es (Array n t) =
     (\<lambda>v. \<exists>vs. v = Seq vs \<and> length vs = n \<and> span_ok t vs \<and> list_all (storable R es t) vs)"
| "storable R es (Tuple ts) =
     (\<lambda>v. \<exists>vs. v = Seq vs \<and> length ts < 2 ^ 63 \<and> list_all2 (\<lambda>P x. P x) (map (\<lambda>t. storable R es t) ts) vs)"
| "storable R es (Struct ms) =
     (\<lambda>v. \<exists>vs. v = Seq vs \<and> length ms < 2 ^ 63 \<and> list_all2 (\<lambda>P x. P x) (map (\<lambda>m. storable R es (snd m)) ms) vs)"
| "storable R es (ValidIf t) = (\<lambda>v. \<exists>x. v = Opt (Some x) \<and> const_reader t \<and> storable R es t x)"
| "storable R es (Enum names) =
     (\<lambda>v. \<exists>k. v = Enumerator k \<and> k < length names \<and> (\<forall>j < k. names ! j \<noteq> names ! k) \<and> R (enum_prim es names k))"

fun typed :: "ser_type \<Rightarrow> ser_value \<Rightarrow> bool" where
  "typed (Plain p) = (\<lambda>v. \<exists>x. v = Prim x \<and> type_of_prim x = p)"
| "typed StdString = (\<lambda>v. \<exists>x. v = Prim x \<and> type_of_prim x = TString)"
| "typed (Vector t) = (\<lambda>v. \<exists>vs. v = Seq vs \<and> list_all (typed t) vs)"
| "typed (Array n t) = (\<lambda>v. \<exists>vs. v = Seq vs \<and> length vs = n \<and> list_all (typed t) vs)"
| "typed (Tuple ts) = (\<lambda>v. \<exists>vs. v = Seq vs \<and> list_all2 (\<lambda>P x. P x) (map (\<lambda>t. typed t) ts) vs)"
| "typed (Struct ms) = (\<lambda>v. \<exists>vs. v = Seq vs \<and> list_all2 (\<lambda>P x. P x) (map (\<lambda>m. typed (snd m)) ms) vs)"
| "typed (ValidIf t) = (\<lambda>v. \<exists>x. v = Opt x)"
| "typed (Enum names) = (\<lambda>v. \<exists>k. v = Enumerator k)"

lemma type_of_default [simp]: "type_of_prim (default_prim p) = p"
  by (cases p) auto

lemma typed_default: "typed t (default_value t)"
proof (induction t)
  case (Array n t)
  then show ?case by (simp add: list_all_iff)
next
  case (Tuple ts)
  then show ?case by (simp add: list_all2_conv_all_nth)
next
  case (Struct ms)
  then have "typed (snd m) (default_value (snd m))" if "m \<in> set ms" for m
    using that by (cases m) auto
  then show ?case by (simp add: list_all2_conv_all_nth)
qed auto

lemma storable_typed: "storable R es t v \<Longrightarrow> typed t v"
proof (induction t arbitrary: v)
  case (Tuple ts)
  then show ?case by (auto simp: list_all2_conv_all_nth)
next
  case (Struct ms)
  have "storable R es (snd (ms ! i)) x \<Longrightarrow> typed (snd (ms ! i)) x" if "i < length ms" for i x
    using Struct.IH[OF nth_mem[OF that], of "snd (ms ! i)" x] by (cases "ms ! i") auto
  then show ?case using Struct.prems by (auto simp: list_all2_conv_all_nth)
qed (auto simp: list_all_iff)

section \<open>Formats that can be read back\<close>

locale serial_format =
  sink: data_sink sops invar levels fits + source: data_source dops rest avail
  for sops :: "'s sink_ops" and invar :: "'s \<Rightarrow> bool" and levels :: "'s \<Rightarrow> byte list list"
    and fits :: "'s \<Rightarrow> nat \<Rightarrow> bool" and dops :: "'r source_ops" and rest :: "'r \<Rightarrow> byte list"
    and avail :: "'r \<Rightarrow> nat" +
  fixes sb :: "'s ser_backend" and db :: "'r deser_backend" and f :: format and R :: "prim \<Rightarrow> bool"
  assumes sink_of: "sb_sink sb = sops"
    and enum_as_string: "sb_enum_as_string sb = fmt_enum_as_string f" "db_enum_as_string db = fmt_enum_as_string f"
    and begins: "sink.emits (sb_begin sb) (fmt_begin f)" "source.accepts (db_begin db) (fmt_begin f)"
    and finishes: "sink.emits (sb_finish sb) (fmt_finish f)" "source.accepts (db_finish db) (fmt_finish f)"
    and values_append: "fmt_values f [] = []" "fmt_values f (ps @ qs) = fmt_values f ps @ fmt_values f qs"
    and values_ne: "fmt_values f [p] \<noteq> []" "fmt_begin_list f n \<noteq> []"
    and writes: "list_all R ps \<Longrightarrow> invar s \<Longrightarrow> fits s (length (fmt_values f ps)) \<Longrightarrow>
      \<exists>s'. sb_write sb ps s = Some (0, length ps, s') \<and> invar s' \<and>
        levels s' = append_top (levels s) (fmt_values f ps) \<and>
        (\<forall>n. fits s (length (fmt_values f ps) + n) \<longrightarrow> fits s' n)"
    and reads: "list_all R ps \<Longrightarrow> map type_of_prim qs = map type_of_prim ps \<Longrightarrow> rest s' = fmt_values f ps @ r \<Longrightarrow>
      \<exists>s''. db_read db qs s' = Some (0, length ps, ps, s'') \<and> rest s'' = r"
    and counts: "0 \<le> n \<Longrightarrow> n < 2 ^ 63 \<Longrightarrow> sink.emits (sb_begin_list sb n) (fmt_begin_list f n)"
      "0 \<le> n \<Longrightarrow> n < 2 ^ 63 \<Longrightarrow> source.reads (db_begin_list db) 0 (fmt_begin_list f n) n"
      "0 \<le> n \<Longrightarrow> n < 2 ^ 63 \<Longrightarrow> sink.emits (sb_begin_struct sb n) (fmt_begin_struct f n)"
      "0 \<le> n \<Longrightarrow> n < 2 ^ 63 \<Longrightarrow> source.reads (db_begin_struct db) 0 (fmt_begin_struct f n) n"
    and frames: "sink.emits (sb_finish_list sb) (fmt_finish_list f)" "source.accepts (db_finish_list db) (fmt_finish_list f)"
      "sink.emits (sb_finish_struct sb) (fmt_finish_struct f)"
      "source.accepts (db_finish_struct db) (fmt_finish_struct f)"
      "sink.emits (sb_begin_member sb name) (fmt_begin_member f name)"
      "source.accepts (db_begin_member db name) (fmt_begin_member f name)"
      "sink.emits (sb_finish_member sb name) []" "source.accepts (db_finish_member db name) []"
      "sink.emits (sb_begin_element sb n) []" "source.accepts (db_begin_element db n) []"
      "sink.emits (sb_finish_element sb n) []" "source.accepts (db_finish_element db n) []"
begin

lemma values_concat: "fmt_values f ps = concat (map (\<lambda>p. fmt_values f [p]) ps)"
proof (induction ps)
  case (Cons p ps)
  then show ?case using values_append(2)[of "[p]" ps] by simp
qed (simp add: values_append)

end
context serial_format begin

subsection \<open>Writing\<close>

lemma emits_plain: "sink.emits (plain_write sb p) (fmt_values f [p])" if "R p"
  unfolding sink.emits_def
proof (intro allI impI)
  fix s assume "invar s \<and> fits s (length (fmt_values f [p]))"
  then obtain s' where "sb_write sb [p] s = Some (0, 1, s')" "invar s'"
      "levels s' = append_top (levels s) (fmt_values f [p])" "\<forall>n. fits s (length (fmt_values f [p]) + n) \<longrightarrow> fits s' n"
    using writes[of "[p]" s] \<open>R p\<close> by auto
  then show "\<exists>s'. plain_write sb p s = Some (0, s') \<and> invar s' \<and>
      levels s' = append_top (levels s) (fmt_values f [p]) \<and>
      (\<forall>n. fits s (length (fmt_values f [p]) + n) \<longrightarrow> fits s' n)"
    by (simp add: plain_write_def)
qed

lemma emits_plain_span: "sink.emits (plain_write_span sb ps) (fmt_values f ps)" if ps: "list_all R ps" "ps \<noteq> []"
  unfolding sink.emits_def
proof (intro allI impI)
  fix s assume "invar s \<and> fits s (length (fmt_values f ps))"
  then obtain s' where "sb_write sb ps s = Some (0, length ps, s')" "invar s'"
      "levels s' = append_top (levels s) (fmt_values f ps)" "\<forall>n. fits s (length (fmt_values f ps) + n) \<longrightarrow> fits s' n"
    using writes[of ps s] ps(1) by auto
  then show "\<exists>s'. plain_write_span sb ps s = Some (0, s') \<and> invar s' \<and>
      levels s' = append_top (levels s) (fmt_values f ps) \<and>
      (\<forall>n. fits s (length (fmt_values f ps) + n) \<longrightarrow> fits s' n)"
    using \<open>ps \<noteq> []\<close> by (simp add: plain_write_span_def Suc_le_eq)
qed

lemma emits_between: "sink.emits w bs \<Longrightarrow> sink.emits (ser_then w (sb_finish_element sb i)) bs"
  using sink.emits_then[OF _ frames(11), of w bs i] by simp

lemma emits_common:
  assumes "\<forall>v \<in> set vs. sink.emits (w v) (tx v) \<and> tx v \<noteq> []"
  shows "sink.emits (common_write sb w vs i 0) (concat (map tx vs))"
  using assms
proof (induction vs arbitrary: i)
  case Nil
  then show ?case using sink.emits_ok by (simp add: ser_ok_def[abs_def] sink.emits_def sink.levels_ne)
next
  case (Cons v vs)
  show ?case
    unfolding sink.emits_def
  proof (intro allI impI)
    fix s assume s: "invar s \<and> fits s (length (concat (map tx (v # vs))))"
    then have fit: "fits s (length (tx v) + length (concat (map tx vs)))" and inv: "invar s" by simp_all
    obtain l ls where l: "levels s = l # ls"
      using sink.levels_ne[OF inv] by (cases "levels s") auto
    obtain s1 where s1: "sink_begin_work sops s = (length (levels s), s1)" "invar s1" "levels s1 = [] # levels s"
        "\<forall>n. fits s n \<longrightarrow> fits s1 n"
      using sink.begin_work[OF inv] by blast
    have "fits s1 (length (tx v) + length (concat (map tx vs)))"
      using s1(4) fit by blast
    from sink.emitsD[OF frames(9)[of i] s1(2)] sink.fits_less[of s1 0] this obtain s2 where
      s2: "sb_begin_element sb i s1 = Some (0, s2)" "invar s2" "levels s2 = append_top (levels s1) []"
        "\<forall>n. fits s1 (length [] + n) \<longrightarrow> fits s2 n"
      by (metis add_0 list.size(3))
    have fit2: "fits s2 (length (tx v) + length (concat (map tx vs)))"
      using s2(4) \<open>fits s1 _\<close> by simp
    have "sink.emits (ser_then (w v) (sb_finish_element sb i)) (tx v)"
      using Cons.prems by (intro emits_between) simp
    from sink.emitsD[OF this s2(2) sink.fits_less[OF fit2]] obtain s3 where
      s3: "ser_then (w v) (sb_finish_element sb i) s2 = Some (0, s3)" "invar s3"
        "levels s3 = append_top (levels s2) (tx v)" "\<forall>n. fits s2 (length (tx v) + n) \<longrightarrow> fits s3 n" .
    have l3: "levels s3 = tx v # l # ls"
      using s3(3) s2(3) s1(3) l by simp
    have "tx v \<noteq> []"
      using Cons.prems by simp
    from sink.commit[OF s3(2) l3 this] obtain s4 where
      s4: "sink_commit sops (length (levels s)) s3 = Some (0, s4)" "invar s4" "levels s4 = (l @ tx v) # ls"
        "\<forall>n. fits s3 n \<longrightarrow> fits s4 n"
      unfolding l by blast
    have "fits s4 (length (concat (map tx vs)))"
      using s4(4) s3(4) fit2 by blast
    moreover have "sink.emits (common_write sb w vs (i + 1) 0) (concat (map tx vs))"
      using Cons by simp
    ultimately obtain s5 where
      s5: "common_write sb w vs (i + 1) 0 s4 = Some (0, s5)" "invar s5"
        "levels s5 = append_top (levels s4) (concat (map tx vs))"
        "\<forall>n. fits s4 (length (concat (map tx vs)) + n) \<longrightarrow> fits s5 n"
      using s4(2) unfolding sink.emits_def by blast
    have "common_write sb w (v # vs) i 0 s = Some (0, s5)"
      using s1(1) s2(1) s3(1) s4(1) s5(1) by (simp add: sink_of)
    moreover have "levels s5 = append_top (levels s) (concat (map tx (v # vs)))"
      using s5(3) s4(3) l by simp
    moreover have "\<forall>n. fits s (length (concat (map tx (v # vs))) + n) \<longrightarrow> fits s5 n"
      using s5(4) s4(4) s3(4) s2(4) s1(4) by (simp add: add.assoc)
    ultimately show "\<exists>s'. common_write sb w (v # vs) i 0 s = Some (0, s') \<and> invar s' \<and>
        levels s' = append_top (levels s) (concat (map tx (v # vs))) \<and>
        (\<forall>n. fits s (length (concat (map tx (v # vs))) + n) \<longrightarrow> fits s' n)"
      using s5(2) by blast
  qed
qed

text \<open>A loop that continues where its first action ended without errors.\<close>

lemma emits_loop:
  assumes "sink.emits a x" "sink.emits (rest_loop 0) y"
  shows "sink.emits (\<lambda>s. Option.bind (a s) (\<lambda>(e, s). rest_loop e s)) (x @ y)"
  unfolding sink.emits_def
proof (intro allI impI)
  fix s assume "invar s \<and> fits s (length (x @ y))"
  then have inv: "invar s" and fit: "fits s (length x + length y)" by simp_all
  from sink.emitsD[OF assms(1) inv sink.fits_less[OF fit]] obtain s1 where
    s1: "a s = Some (0, s1)" "invar s1" "levels s1 = append_top (levels s) x"
      "\<forall>n. fits s (length x + n) \<longrightarrow> fits s1 n" .
  from sink.emitsD[OF assms(2) s1(2) s1(4)[rule_format, OF fit]] obtain s2 where
    s2: "rest_loop 0 s1 = Some (0, s2)" "invar s2" "levels s2 = append_top (levels s1) y"
      "\<forall>n. fits s1 (length y + n) \<longrightarrow> fits s2 n" .
  show "\<exists>s'. Option.bind (a s) (\<lambda>(e, s). rest_loop e s) = Some (0, s') \<and> invar s' \<and>
      levels s' = append_top (levels s) (x @ y) \<and> (\<forall>n. fits s (length (x @ y) + n) \<longrightarrow> fits s' n)"
    using s1 s2 by (simp add: add.assoc)
qed

lemma emits_elements: "list_all2 sink.emits ws bss \<Longrightarrow> sink.emits (write_elements sb ws i 0) (concat bss)"
proof (induction ws bss arbitrary: i rule: list_all2_induct)
  case Nil
  then show ?case using sink.emits_ok by (simp add: ser_ok_def[abs_def] sink.emits_def sink.levels_ne)
next
  case (Cons w ws bs bss)
  have "sink.emits (ser_if_ok (sb_begin_element sb i) (ser_then w (sb_finish_element sb i))) ([] @ bs)"
    by (rule sink.emits_if_ok[OF frames(9) emits_between[OF Cons.hyps(1)]])
  from emits_loop[where rest_loop = "write_elements sb ws (i + 1)", OF this Cons.IH] show ?case
    by (simp add: sink.emits_def)
qed

lemma emits_members:
  "list_all2 (\<lambda>(name, w) bs. \<exists>t. bs = fmt_begin_member f name @ t \<and> sink.emits w t) ws bss \<Longrightarrow>
   sink.emits (write_members sb ws 0) (concat bss)"
proof (induction ws bss rule: list_all2_induct)
  case Nil
  then show ?case using sink.emits_ok by (simp add: ser_ok_def[abs_def] sink.emits_def sink.levels_ne)
next
  case (Cons nw ws bs bss)
  then obtain name w t where nw: "nw = (name, w)" "bs = fmt_begin_member f name @ t" "sink.emits w t"
    by (cases nw) auto
  have "sink.emits (ser_if_ok (sb_begin_member sb name) (ser_then w (sb_finish_member sb name)))
      (fmt_begin_member f name @ t @ [])"
    by (rule sink.emits_if_ok[OF frames(5) sink.emits_then[OF nw(3) frames(7)]])
  from emits_loop[where rest_loop = "write_members sb ws", OF this Cons.IH] show ?case
    by (simp add: sink.emits_def nw)
qed

end
context serial_format begin

abbreviation "store \<equiv> storable R (fmt_enum_as_string f)"
abbreviation "value_text \<equiv> ser_text f"

lemma prims_of_plain:
  "list_all (store (Plain p)) vs \<Longrightarrow> prims_of vs = Some (map prim_of vs) \<and> list_all R (map prim_of vs) \<and>
     vs = map Prim (map prim_of vs) \<and> list_all (\<lambda>x. type_of_prim x = p) (map prim_of vs)"
  by (induction vs) auto

lemma plain_text: "concat (map (value_text (Plain p)) vs) = fmt_values f (map prim_of vs)"
  by (subst values_concat) (simp add: comp_def)

lemma span_text_ne: "span_type t \<Longrightarrow> value_text t v \<noteq> []"
  by (cases t) (simp_all add: values_ne)

lemma emits_span:
  assumes ok: "span_ok t vs" "list_all (store t) vs"
    and each: "\<And>v. store t v \<Longrightarrow> sink.emits (ser_write sb t v) (value_text t v)"
  shows "sink.emits (write_span sb t (ser_write sb t) vs) (concat (map (value_text t) vs))"
proof (cases t)
  case (Plain p)
  have ps: "prims_of vs = Some (map prim_of vs)" "list_all R (map prim_of vs)"
    using ok(2) prims_of_plain unfolding Plain by blast+
  have "write_span sb t (ser_write sb t) vs = plain_write_span sb (map prim_of vs)"
    using ps(1) by (simp add: Plain write_span_def fun_eq_iff)
  moreover have "map prim_of vs \<noteq> []"
    using ok(1) by (simp add: span_ok_def Plain)
  ultimately show ?thesis
    using emits_plain_span[OF ps(2)] unfolding Plain plain_text by simp
next
  case StdString
  have "write_span sb t (ser_write sb t) vs = common_write sb (ser_write sb t) vs 0 0"
    by (simp add: StdString write_span_def fun_eq_iff)
  moreover have "\<forall>v \<in> set vs. sink.emits (ser_write sb t v) (value_text t v) \<and> value_text t v \<noteq> []"
    using ok each span_text_ne by (auto simp: list_all_iff span_ok_def)
  ultimately show ?thesis using emits_common by simp
next
  case (Array n u)
  have "write_span sb t (ser_write sb t) vs = common_write sb (ser_write sb t) vs 0 0"
    by (simp add: Array write_span_def fun_eq_iff)
  moreover have "\<forall>v \<in> set vs. sink.emits (ser_write sb t v) (value_text t v) \<and> value_text t v \<noteq> []"
    using ok each span_text_ne by (auto simp: list_all_iff span_ok_def)
  ultimately show ?thesis using emits_common by simp
next
  case (Tuple ts)
  have "write_span sb t (ser_write sb t) vs = common_write sb (ser_write sb t) vs 0 0"
    by (simp add: Tuple write_span_def fun_eq_iff)
  moreover have "\<forall>v \<in> set vs. sink.emits (ser_write sb t v) (value_text t v) \<and> value_text t v \<noteq> []"
    using ok each span_text_ne by (auto simp: list_all_iff span_ok_def)
  ultimately show ?thesis using emits_common by simp
qed (use ok(1) in \<open>simp_all add: span_ok_def\<close>)

lemma emits_value: "store t v \<Longrightarrow> sink.emits (ser_write sb t v) (value_text t v)"
proof (induction t arbitrary: v)
  case (Vector t)
  then obtain vs where v: "v = Seq vs" "span_ok t vs" "list_all (store t) vs" by auto
  have "0 \<le> size_of vs" "size_of vs < 2 ^ 63"
    using v(2) by (simp_all add: span_ok_def)
  from sink.emits_if_ok[OF counts(1)[OF this] sink.emits_then[OF emits_span[OF v(2,3) Vector.IH] frames(1)]]
  show ?case by (simp add: v(1))
next
  case (Array n t)
  then obtain vs where v: "v = Seq vs" "length vs = n" "span_ok t vs" "list_all (store t) vs" by auto
  have "0 \<le> int n" "int n < 2 ^ 63"
    using v(2,3) by (simp_all add: span_ok_def)
  from sink.emits_if_ok[OF counts(1)[OF this] sink.emits_then[OF emits_span[OF v(3,4) Array.IH] frames(1)]]
  show ?case by (simp add: v(1))
next
  case (Tuple ts)
  then obtain vs where v: "v = Seq vs" "length ts < 2 ^ 63" "list_all2 (\<lambda>t x. store t x) ts vs"
    by (auto simp: list.rel_map)
  have "0 \<le> size_of ts" "size_of ts < 2 ^ 63"
    using v(2) by simp_all
  moreover have "list_all2 sink.emits (map (\<lambda>(w, v). w v) (zip (map (\<lambda>t. ser_write sb t) ts) vs))
      (map2 (\<lambda>tx x. tx x) (map (\<lambda>t. value_text t) ts) vs)"
    using v(3) Tuple.IH by (auto simp: list_all2_conv_all_nth)
  ultimately show ?case
    using sink.emits_if_ok[OF counts(1) sink.emits_then[OF emits_elements frames(1)], of "size_of ts" _ _ 0]
    by (simp add: v(1))
next
  case (Struct ms)
  then obtain vs where v: "v = Seq vs" "length ms < 2 ^ 63" "list_all2 (\<lambda>m x. store (snd m) x) ms vs"
    by (auto simp: list.rel_map)
  have "0 \<le> size_of ms" "size_of ms < 2 ^ 63"
    using v(2) by simp_all
  moreover have member: "sink.emits (ser_write sb (snd (ms ! i)) (vs ! i)) (value_text (snd (ms ! i)) (vs ! i))"
    if "i < length ms" for i
    using Struct.IH[OF nth_mem[OF that], of "snd (ms ! i)" "vs ! i"] v(3) that
    by (cases "ms ! i") (auto simp: list_all2_conv_all_nth)
  then have "list_all2 (\<lambda>(name, w) bs. \<exists>t. bs = fmt_begin_member f name @ t \<and> sink.emits w t)
      (map (\<lambda>((name, w), v). (name, w v)) (zip (map (\<lambda>m. (fst m, ser_write sb (snd m))) ms) vs))
      (map2 (\<lambda>(name, tx) x. fmt_begin_member f name @ tx x) (map (\<lambda>m. (fst m, value_text (snd m))) ms) vs)"
    using v(3) by (auto simp: list_all2_conv_all_nth)
  ultimately show ?case
    using sink.emits_if_ok[OF counts(3) sink.emits_then[OF emits_members frames(3)], of "size_of ms"]
    by (simp add: v(1))
next
  case (ValidIf t)
  then obtain x where v: "v = Opt (Some x)" "store t x" by auto
  show ?case
    using sink.emits_if_ok[OF counts(1) sink.emits_then[OF ValidIf.IH[OF v(2)] frames(1)], of 1]
    by (simp add: v(1))
next
  case (Enum names)
  then obtain k where v: "v = Enumerator k" "k < length names" "R (enum_prim (fmt_enum_as_string f) names k)"
    by auto
  then show ?case
    using emits_plain[OF v(3)] by (cases "fmt_enum_as_string f") (simp_all add: enum_as_string enum_prim_def)
qed (auto intro: emits_plain)

end
subsection \<open>Reading\<close>

context serial_format begin

lemma reads_prim:
  assumes "R x" "type_of_prim y = type_of_prim x"
  shows "source.reads (prim_read db) (Prim y) (fmt_values f [x]) (Prim x)"
  unfolding source.reads_def
proof (intro allI impI)
  fix s r assume "rest s = fmt_values f [x] @ r"
  then obtain s' where "db_read db [y] s = Some (0, 1, [x], s')" "rest s' = r"
    using reads[of "[x]" "[y]" s r] assms by auto
  then show "\<exists>s'. prim_read db (Prim y) s = Some (0, Prim x, s') \<and> rest s' = r"
    by (simp add: prim_read_def plain_read_def)
qed

lemma reads_between:
  assumes "source.accepts first x" "source.reads rd v0 bs v" "source.accepts fin []"
  shows "source.reads (read_between first fin rd) v0 (x @ bs) v"
  unfolding source.reads_def
proof (intro allI impI)
  fix s r assume "rest s = (x @ bs) @ r"
  then have "rest s = x @ bs @ r" by simp
  from source.acceptsD[OF assms(1) this] obtain s1 where s1: "first s = Some (0, s1)" "rest s1 = bs @ r" .
  from source.readsD[OF assms(2) s1(2)] obtain s2 where s2: "rd v0 s1 = Some (0, v, s2)" "rest s2 = r" .
  have "rest s2 = [] @ r" using s2 by simp
  from source.acceptsD[OF assms(3) this] obtain s3 where s3: "fin s2 = Some (0, s3)" "rest s3 = r" .
  show "\<exists>s'. read_between first fin rd v0 s = Some (0, v, s') \<and> rest s' = r"
    using s1 s2 s3 by (simp add: read_between_def)
qed

text \<open>A task is a reader with its target, its text and the value there.\<close>

lemma read_elements_tasks:
  assumes "\<forall>(rd, v0, bs, v) \<in> set qs. source.reads rd v0 bs v"
    and "rest s = concat (map (\<lambda>(rd, v0, bs, v). bs) qs) @ r"
  shows "\<exists>s'. read_elements db (map (\<lambda>(rd, v0, bs, v). rd) qs) (map (\<lambda>(rd, v0, bs, v). v0) qs) i 0 s =
    Some (0, map (\<lambda>(rd, v0, bs, v). v) qs, s') \<and> rest s' = r"
  using assms
proof (induction qs arbitrary: i s)
  case (Cons q qs)
  obtain rd v0 bs v where q: "q = (rd, v0, bs, v)" by (cases q)
  have "source.reads rd v0 bs v" using Cons.prems(1) q by simp
  from reads_between[OF frames(10) this frames(12), of i i] Cons.prems(2)
  obtain s1 where s1: "read_between (db_begin_element db i) (db_finish_element db i) rd v0 s = Some (0, v, s1)"
      "rest s1 = concat (map (\<lambda>(rd, v0, bs, v). bs) qs) @ r"
    unfolding source.reads_def by (auto simp: q)
  then show ?case using Cons.IH[OF _ s1(2), of "i + 1"] Cons.prems(1) by (auto simp: q)
qed simp

lemma read_members_tasks:
  assumes "\<forall>(name, rd, v0, bs, v) \<in> set qs. source.reads rd v0 bs v"
    and "rest s = concat (map (\<lambda>(name, rd, v0, bs, v). fmt_begin_member f name @ bs) qs) @ r"
  shows "\<exists>s'. read_members db (map (\<lambda>(name, rd, v0, bs, v). (name, rd)) qs) (map (\<lambda>(name, rd, v0, bs, v). v0) qs) 0 s =
    Some (0, map (\<lambda>(name, rd, v0, bs, v). v) qs, s') \<and> rest s' = r"
  using assms
proof (induction qs arbitrary: s)
  case (Cons q qs)
  obtain name rd v0 bs v where q: "q = (name, rd, v0, bs, v)" by (cases q)
  have "source.reads rd v0 bs v" using Cons.prems(1) q by simp
  from reads_between[OF frames(6) this frames(8), of name name] Cons.prems(2)
  obtain s1 where s1: "read_between (db_begin_member db name) (db_finish_member db name) rd v0 s = Some (0, v, s1)"
      "rest s1 = concat (map (\<lambda>(name, rd, v0, bs, v). fmt_begin_member f name @ bs) qs) @ r"
    unfolding source.reads_def by (auto simp: q)
  then show ?case using Cons.IH[OF _ s1(2)] Cons.prems(1) by (auto simp: q)
qed simp

lemma no_fatal_errors [simp]: "\<not> bitfield_has 0 not_enough_data" "\<not> bitfield_has 0 deser_backend_error"
  by (simp_all add: bitfield_has_def not_enough_data_def deser_backend_error_def)

lemma common_read_result:
  assumes "list_all2 (\<lambda>v0 v. source.reads rd v0 (tx v) v) v0s vs" "rest s = concat (map tx vs) @ r"
  shows "\<exists>s'. common_read rd v0s 0 s = Some (0, vs, s') \<and> rest s' = r"
  using assms
proof (induction v0s vs arbitrary: s rule: list_all2_induct)
  case (Cons v0 v0s v vs)
  then have "rest s = tx v @ concat (map tx vs) @ r" by simp
  from source.readsD[OF Cons.hyps(1) this] obtain s1 where
    s1: "rd v0 s = Some (0, v, s1)" "rest s1 = concat (map tx vs) @ r" .
  then show ?case using Cons.IH[OF s1(2)] by auto
qed simp

lemma reads_seq: "source.reads rd v0s bs vs \<Longrightarrow> source.reads (seq_read rd) (Seq v0s) bs (Seq vs)"
  unfolding source.reads_def seq_read_def by fastforce

lemma reads_fixed:
  assumes "source.reads first 0 x n"
    and "\<And>s r. rest s = bs @ r \<Longrightarrow> \<exists>s'. body v0s 0 s = Some (0, vs, s') \<and> rest s' = r"
    and "source.accepts fin y"
  shows "source.reads (read_fixed first fin missing excess n body) v0s (x @ bs @ y) vs"
  unfolding source.reads_def
proof (intro allI impI)
  fix s r assume "rest s = (x @ bs @ y) @ r"
  then have "rest s = x @ bs @ y @ r" by simp
  from source.readsD[OF assms(1) this] obtain s1 where s1: "first 0 s = Some (0, n, s1)" "rest s1 = bs @ y @ r" .
  from assms(2)[OF s1(2)] obtain s2 where s2: "body v0s 0 s1 = Some (0, vs, s2)" "rest s2 = y @ r" by blast
  from source.acceptsD[OF assms(3) s2(2)] obtain s3 where s3: "fin s2 = Some (0, s3)" "rest s3 = r" .
  show "\<exists>s'. read_fixed first fin missing excess n body v0s s = Some (0, vs, s') \<and> rest s' = r"
    using s1 s2 s3 by (simp add: read_fixed_def has_at_most_def)
qed

text \<open>The elements of a span, each into a target of its type.\<close>

lemma read_span_result:
  assumes ok: "span_ok t vs" "list_all (store t) vs" "list_all (typed t) v0s" "length v0s = length vs"
    and each: "\<And>v v0. store t v \<Longrightarrow> typed t v0 \<Longrightarrow> source.reads (ser_read db t) v0 (value_text t v) v"
    and rest: "rest s = concat (map (value_text t) vs) @ r"
  shows "\<exists>s'. read_span db t (ser_read db t) v0s s = Some (0, vs, s') \<and> rest s' = r"
proof -
  have common: "\<exists>s'. common_read (ser_read db t) v0s 0 s = Some (0, vs, s') \<and> rest s' = r"
    using ok each by (intro common_read_result[OF _ rest]) (auto simp: list_all2_conv_all_nth list_all_length)
  have typed_prims: "prims_of ws = Some (map prim_of ws)" "map type_of_prim (map prim_of ws) = replicate (length ws) p"
    if "list_all (\<lambda>v. \<exists>x. v = Prim x \<and> type_of_prim x = p) ws" for p ws
    using that by (induction ws) auto
  have plain: "\<exists>s'. Option.bind (prims_of v0s) (\<lambda>ps. map_option (\<lambda>(e, n, ps, s). (e, map Prim ps, s)) (db_read db ps s)) =
        Some (0, vs, s') \<and> rest s' = r"
    if p: "list_all (\<lambda>v. \<exists>x. v = Prim x \<and> type_of_prim x = p) v0s"
      "list_all (\<lambda>v. \<exists>x. v = Prim x \<and> type_of_prim x = p \<and> R x) vs"
      and eq: "concat (map (value_text t) vs) = fmt_values f (map prim_of vs)" for p
  proof -
    have vs: "list_all (\<lambda>v. \<exists>x. v = Prim x \<and> type_of_prim x = p) vs" "list_all R (map prim_of vs)"
        "map Prim (map prim_of vs) = vs"
      using p(2) by (induction vs) auto
    have "map type_of_prim (map prim_of v0s) = map type_of_prim (map prim_of vs)"
      using typed_prims(2)[OF p(1)] typed_prims(2)[OF vs(1)] ok(4) by simp
    from reads[OF vs(2) this rest[unfolded eq]] show ?thesis
      using typed_prims(1)[OF p(1)] vs(3) by auto
  qed
  show ?thesis
  proof (cases t)
    case (Plain p)
    then show ?thesis
      using plain[of p] ok(2,3) plain_text[of p vs] by (simp add: read_span_def)
  next
    case StdString
    have "concat (map (value_text t) vs) = fmt_values f (map prim_of vs)"
      by (subst values_concat) (simp add: StdString comp_def)
    moreover have "list_all (\<lambda>v. \<exists>x. v = Prim x \<and> type_of_prim x = TString \<and> R x) vs"
      using ok(2) by (auto simp: StdString list_all_iff)
    ultimately show ?thesis
      using plain[of TString] ok(3) by (simp add: read_span_def StdString)
  qed (use common ok(1) in \<open>simp_all add: read_span_def span_ok_def\<close>)
qed

end
context serial_format begin

lemma reads_vector:
  assumes "span_ok t vs" "list_all (store t) vs" "list_all (typed t) v0s"
    and each: "\<And>v v0. store t v \<Longrightarrow> typed t v0 \<Longrightarrow> source.reads (ser_read db t) v0 (value_text t v) v"
  shows "source.reads (read_vector db (default_value t) (read_span db t (ser_read db t))) v0s
    (fmt_begin_list f (size_of vs) @ concat (map (value_text t) vs) @ fmt_finish_list f) vs"
  unfolding source.reads_def
proof (intro allI impI)
  fix s r assume rest: "rest s = (fmt_begin_list f (size_of vs) @ concat (map (value_text t) vs) @ fmt_finish_list f) @ r"
  let ?n = "length vs"
  let ?v0s = "take ?n v0s @ replicate (?n - length v0s) (default_value t)"
  have n: "0 \<le> size_of vs" "size_of vs < 2 ^ 63"
    using assms(1) by (simp_all add: span_ok_def)
  have "list_all (typed t) ?v0s" "length ?v0s = ?n"
    using assms(3) typed_default by (auto simp: list_all_iff dest: in_set_takeD)
  note span = read_span_result[OF assms(1,2) this each]
  have "rest s = fmt_begin_list f (size_of vs) @ (concat (map (value_text t) vs) @ fmt_finish_list f @ r)"
    using rest by simp
  from source.readsD[OF counts(2)[OF n] this] obtain s1 where s1:
    "db_begin_list db 0 s = Some (0, size_of vs, s1)" "rest s1 = concat (map (value_text t) vs) @ fmt_finish_list f @ r" .
  from span[OF _ _ s1(2)] obtain s2 where s2: "read_span db t (ser_read db t) ?v0s s1 = Some (0, vs, s2)"
      "rest s2 = fmt_finish_list f @ r" by blast
  from source.acceptsD[OF frames(2) s2(2)] obtain s3 where s3: "db_finish_list db s2 = Some (0, s3)" "rest s3 = r" .
  show "\<exists>s'. read_vector db (default_value t) (read_span db t (ser_read db t)) v0s s = Some (0, vs, s') \<and> rest s' = r"
    using s1 s2 s3 by (simp add: read_vector_def vector_resize_def)
qed

lemma reads_valid_if:
  assumes "source.reads rd d bs x"
  shows "source.reads (read_valid_if db d rd) v (fmt_begin_list f 1 @ bs @ fmt_finish_list f) (Some x)"
  unfolding source.reads_def
proof (intro allI impI)
  fix s r assume "rest s = (fmt_begin_list f 1 @ bs @ fmt_finish_list f) @ r"
  then have "rest s = fmt_begin_list f 1 @ bs @ fmt_finish_list f @ r" by simp
  from source.readsD[OF counts(2) this] obtain s1 where s1:
    "db_begin_list db 0 s = Some (0, 1, s1)" "rest s1 = bs @ fmt_finish_list f @ r" by auto
  from source.readsD[OF assms s1(2)] obtain s2 where s2: "rd d s1 = Some (0, x, s2)" "rest s2 = fmt_finish_list f @ r" .
  from source.acceptsD[OF frames(2) s2(2)] obtain s3 where s3: "db_finish_list db s2 = Some (0, s3)" "rest s3 = r" .
  show "\<exists>s'. read_valid_if db d rd v s = Some (0, Some x, s') \<and> rest s' = r"
    using s1 s2 s3 by (simp add: read_valid_if_def)
qed

lemma find_first:
  assumes "k < length xs" "\<forall>j < k. xs ! j \<noteq> xs ! k"
  shows "find_element xs (xs ! k) = Some k"
  using assms by (simp add: find_element_def scan_from_Some_iff)

lemma reads_enum:
  assumes "k < length names" "\<forall>j < k. names ! j \<noteq> names ! k" "R (enum_prim (fmt_enum_as_string f) names k)"
  shows "source.reads (read_enum db names) k0 (fmt_values f [enum_prim (fmt_enum_as_string f) names k]) k"
  unfolding source.reads_def
proof (intro allI impI)
  fix s r assume rest: "rest s = fmt_values f [enum_prim (fmt_enum_as_string f) names k] @ r"
  let ?p0 = "if fmt_enum_as_string f then PName [] else PSigned 32 0"
  obtain s' where s': "db_read db [?p0] s = Some (0, 1, [enum_prim (fmt_enum_as_string f) names k], s')" "rest s' = r"
    using reads[OF _ _ rest, of "[?p0]"] assms(3)
    by (cases "fmt_enum_as_string f") (auto simp: enum_prim_def)
  have "find_element (map PName names) (PName (names ! k)) = Some k"
    using find_first[of k "map PName names"] assms(1,2) by simp
  moreover have "find_element (map (\<lambda>k. PSigned 32 (int k)) [0..<length names]) (PSigned 32 (int k)) = Some k"
    using find_first[of k "map (\<lambda>k. PSigned 32 (int k)) [0..<length names]"] assms(1) by simp
  ultimately show "\<exists>s'. read_enum db names k0 s = Some (0, k, s') \<and> rest s' = r"
    using s' by (cases "fmt_enum_as_string f") (auto simp: read_enum_def enum_as_string plain_read_def enum_prim_def)
qed

lemma reads_value: "store t v \<Longrightarrow> typed t v0 \<Longrightarrow> source.reads (ser_read db t) v0 (value_text t v) v"
proof (induction t arbitrary: v v0)
  case (Plain p)
  then show ?case using reads_prim by fastforce
next
  case StdString
  then show ?case using reads_prim by fastforce
next
  case (Vector t)
  then obtain vs v0s where v: "v = Seq vs" "span_ok t vs" "list_all (store t) vs" "v0 = Seq v0s"
    "list_all (typed t) v0s" by auto
  show ?case
    using reads_seq[OF reads_vector[OF v(2,3,5) Vector.IH]] by (simp add: v)
next
  case (Array n t)
  then obtain vs v0s where v: "v = Seq vs" "length vs = n" "span_ok t vs" "list_all (store t) vs"
    "v0 = Seq v0s" "list_all (typed t) v0s" "length v0s = length vs" by auto
  have n: "0 \<le> int n" "int n < 2 ^ 63"
    using v(2,3) by (simp_all add: span_ok_def)
  have "\<exists>s'. map_option (\<lambda>(e', vs, s). (0 OR e', vs, s)) (read_span db t (ser_read db t) v0s s) = Some (0, vs, s') \<and> rest s' = r"
    if "rest s = concat (map (value_text t) vs) @ r" for s r
    using read_span_result[OF v(3,4,6,7) Array.IH that] by auto
  from reads_seq[OF reads_fixed[where body = "\<lambda>vs e s. map_option (\<lambda>(e', vs, s). (e OR e', vs, s))
      (read_span db t (ser_read db t) vs s)", OF counts(2)[OF n] this frames(2)]] show ?case
    by (simp add: v)
next
  case (Tuple ts)
  then obtain vs v0s where v: "v = Seq vs" "length ts < 2 ^ 63" "list_all2 (\<lambda>t x. store t x) ts vs"
    "v0 = Seq v0s" "list_all2 (\<lambda>t x. typed t x) ts v0s"
    by (auto simp: list.rel_map)
  have n: "0 \<le> size_of ts" "size_of ts < 2 ^ 63"
    using v(2) by simp_all
  let ?qs = "map (\<lambda>i. (ser_read db (ts ! i), v0s ! i, value_text (ts ! i) (vs ! i), vs ! i)) [0..<length ts]"
  have len: "length vs = length ts" "length v0s = length ts"
    using v(3,5) by (auto dest: list_all2_lengthD)
  have "\<forall>(rd, v0, bs, v) \<in> set ?qs. source.reads rd v0 bs v"
    using Tuple.IH v(3,5) by (auto simp: list_all2_conv_all_nth)
  note elements = read_elements_tasks[OF this]
  have maps: "map (\<lambda>(rd, v0, bs, v). rd) ?qs = map (\<lambda>t. ser_read db t) ts" "map (\<lambda>(rd, v0, bs, v). v0) ?qs = v0s"
      "map (\<lambda>(rd, v0, bs, v). v) ?qs = vs"
      "map (\<lambda>(rd, v0, bs, v). bs) ?qs = map2 (\<lambda>tx x. tx x) (map (\<lambda>t. value_text t) ts) vs"
    using len by (auto intro!: nth_equalityI)
  from elements[unfolded maps]
  have "\<exists>s'. read_elements db (map (\<lambda>t. ser_read db t) ts) v0s 0 0 s = Some (0, vs, s') \<and> rest s' = r"
    if "rest s = concat (map2 (\<lambda>tx x. tx x) (map (\<lambda>t. value_text t) ts) vs) @ r" for s r
    using that by blast
  from reads_seq[OF reads_fixed[where body = "\<lambda>vs. read_elements db (map (\<lambda>t. ser_read db t) ts) vs 0",
      OF counts(2)[OF n] this frames(2)]] show ?case
    by (simp add: v)
next
  case (Struct ms)
  then obtain vs v0s where v: "v = Seq vs" "length ms < 2 ^ 63" "list_all2 (\<lambda>m x. store (snd m) x) ms vs"
    "v0 = Seq v0s" "list_all2 (\<lambda>m x. typed (snd m) x) ms v0s"
    by (auto simp: list.rel_map)
  have n: "0 \<le> size_of ms" "size_of ms < 2 ^ 63"
    using v(2) by simp_all
  let ?qs = "map (\<lambda>i. (fst (ms ! i), ser_read db (snd (ms ! i)), v0s ! i,
      value_text (snd (ms ! i)) (vs ! i), vs ! i)) [0..<length ms]"
  have len: "length vs = length ms" "length v0s = length ms"
    using v(3,5) by (auto dest: list_all2_lengthD)
  have "source.reads (ser_read db (snd (ms ! i))) (v0s ! i) (value_text (snd (ms ! i)) (vs ! i)) (vs ! i)"
    if "i < length ms" for i
  proof -
    have "snd (ms ! i) \<in> Basic_BNFs.snds (ms ! i)" by (cases "ms ! i") auto
    moreover have "store (snd (ms ! i)) (vs ! i)" using list_all2_nthD[OF v(3) that] .
    moreover have "typed (snd (ms ! i)) (v0s ! i)" using list_all2_nthD[OF v(5) that] .
    ultimately show ?thesis by (rule Struct.IH[OF nth_mem[OF that]])
  qed
  then have "\<forall>(name, rd, v0, bs, v) \<in> set ?qs. source.reads rd v0 bs v"
    by auto
  note members = read_members_tasks[OF this]
  have maps: "map (\<lambda>(name, rd, v0, bs, v). (name, rd)) ?qs = map (\<lambda>m. (fst m, ser_read db (snd m))) ms"
      "map (\<lambda>(name, rd, v0, bs, v). v0) ?qs = v0s" "map (\<lambda>(name, rd, v0, bs, v). v) ?qs = vs"
      "map (\<lambda>(name, rd, v0, bs, v). fmt_begin_member f name @ bs) ?qs =
        map2 (\<lambda>(name, tx) x. fmt_begin_member f name @ tx x) (map (\<lambda>m. (fst m, value_text (snd m))) ms) vs"
    using len by (auto intro!: nth_equalityI)
  from members[unfolded maps]
  have "\<exists>s'. read_members db (map (\<lambda>m. (fst m, ser_read db (snd m))) ms) v0s 0 s = Some (0, vs, s') \<and> rest s' = r"
    if "rest s = concat (map2 (\<lambda>(name, tx) x. fmt_begin_member f name @ tx x)
        (map (\<lambda>m. (fst m, value_text (snd m))) ms) vs) @ r" for s r
    using that by blast
  from reads_seq[OF reads_fixed[where body = "read_members db (map (\<lambda>m. (fst m, ser_read db (snd m))) ms)",
      OF counts(4)[OF n] this frames(4)]] show ?case
    by (simp add: v)
next
  case (ValidIf t)
  then obtain x y where v: "v = Opt (Some x)" "store t x" "v0 = Opt y" and const: "const_reader t" by auto
  have "ser_read db (ValidIf t) (Opt z) s =
      map_option (\<lambda>(e, x, s). (e, Opt x, s)) (read_valid_if db (default_value t) (ser_read db t) z s)" for z s
    using const by simp
  with reads_valid_if[OF ValidIf.IH[OF v(2) typed_default], of y] show ?case
    unfolding source.reads_def v by (fastforce simp del: ser_read.simps)
next
  case (Enum names)
  then obtain k k0 where v: "v = Enumerator k" "k < length names" "\<forall>j < k. names ! j \<noteq> names ! k"
    "R (enum_prim (fmt_enum_as_string f) names k)" "v0 = Enumerator k0" by auto
  from reads_enum[OF v(2,3,4), of k0] show ?case
    unfolding source.reads_def by (fastforce simp: v)
qed

lemma serialize_emits: "store t v \<Longrightarrow> sink.emits (serialize sb t v) (ser_message f t v)"
proof -
  assume "store t v"
  from sink.emits_if_ok[OF begins(1) sink.emits_then[OF emits_value[OF this] finishes(1)]] show ?thesis
    unfolding sink.emits_def ser_message_def serialize_def sink_of by (fastforce simp: sink.finalize)
qed

lemma deserialize_reads: "store t v \<Longrightarrow> typed t v0 \<Longrightarrow> source.reads (deserialize db t) v0 (ser_message f t v) v"
  unfolding source.reads_def ser_message_def
proof (intro allI impI)
  fix s r assume tv: "store t v" "typed t v0" and "rest s = (fmt_begin f @ value_text t v @ fmt_finish f) @ r"
  then have "rest s = fmt_begin f @ value_text t v @ fmt_finish f @ r" by simp
  from source.acceptsD[OF begins(2) this] obtain s1 where
    s1: "db_begin db s = Some (0, s1)" "rest s1 = value_text t v @ fmt_finish f @ r" .
  from source.readsD[OF reads_value[OF tv] s1(2)] obtain s2 where
    s2: "ser_read db t v0 s1 = Some (0, v, s2)" "rest s2 = fmt_finish f @ r" .
  from source.acceptsD[OF finishes(2) s2(2)] obtain s3 where s3: "db_finish db s2 = Some (0, s3)" "rest s3 = r" .
  show "\<exists>s'. deserialize db t v0 s = Some (0, v, s') \<and> rest s' = r"
    using s1 s2 s3 by (simp add: deserialize_def)
qed

end

end
