(* ===== verification/Portable_Backend.thy ===== *)
theory Portable_Backend
  imports Serial_Data
begin

text \<open>
  \<^verbatim>\<open>source/modules/eagine/serialization/portable_backend.cpp\<close>: the text format with integers in
  hexadecimal digits, the lowest digit first. Floating point numbers are left out. The functions
  take the operations of the sink or source they are connected to.
\<close>

definition bytes_of :: "string \<Rightarrow> byte list" where
  "bytes_of s = map of_char s"

definition string_of :: "byte list \<Rightarrow> string" where
  "string_of bs = map (\<lambda>b. char_of (unat b)) bs"

section \<open>Writing\<close>

definition hex_char :: "nat \<Rightarrow> byte" where
  "hex_char n = bytes_of ''0123456789ABCDEF'' ! n"

function pb_write_unsigned :: "'s sink_ops \<Rightarrow> nat \<Rightarrow> 's ser_action" where
  "pb_write_unsigned ops v =
     (if v div 16 = 0 then do_sink ops [hex_char (v mod 16)]
      else ser_if_ok (do_sink ops [hex_char (v mod 16)]) (pb_write_unsigned ops (v div 16)))"
  by pat_completeness auto
termination by (relation "measure (\<lambda>(ops, v). v)") auto

declare pb_write_unsigned.simps [simp del]

text \<open>The negation of the smallest \<^verbatim>\<open>int\<close> or \<^verbatim>\<open>long\<close> overflows; smaller types are promoted first.\<close>

definition pb_write_signed :: "'s sink_ops \<Rightarrow> nat \<Rightarrow> int \<Rightarrow> 's ser_action" where
  "pb_write_signed ops w v =
     ser_then (do_sink ops (bytes_of (if v < 0 then ''-'' else ''+'')))
       (if 32 \<le> w \<and> v = - (2 ^ (w - 1)) then (\<lambda>s. None)
        else pb_write_unsigned ops (nat (if v < 0 then - v else v)))"

definition pb_write_size :: "'s sink_ops \<Rightarrow> int \<Rightarrow> 's ser_action" where
  "pb_write_size ops n = pb_write_signed ops 64 n"

fun pb_write_one :: "'s sink_ops \<Rightarrow> prim \<Rightarrow> 's ser_action" where
  "pb_write_one ops (PBool b) = do_sink ops (bytes_of (if b then ''T'' else ''U''))"
| "pb_write_one ops (PUnsigned w v) = pb_write_unsigned ops (nat v)"
| "pb_write_one ops (PSigned w v) = pb_write_signed ops w v"
| "pb_write_one ops (PIdentifier i) = do_sink ops (bytes_of (identifier_str i))"
| "pb_write_one ops (PName name) = do_sink ops name"
| "pb_write_one ops (PString str) =
     ser_then (ser_then (ser_then (ser_then (do_sink ops (bytes_of [CHR 0x22]))
       (pb_write_size ops (size_of str)))
       (do_sink ops (bytes_of ''|'')))
       (do_sink ops str))
       (do_sink ops (bytes_of [CHR 0x22]))"

fun pb_do_write :: "'s sink_ops \<Rightarrow> prim list \<Rightarrow> nat \<Rightarrow> 's \<Rightarrow> (ser_errors \<times> nat \<times> 's) option" where
  "pb_do_write ops [] n s = Some (0, n, s)"
| "pb_do_write ops (v # vs) n s =
     Option.bind (ser_then (pb_write_one ops v) (do_sink ops (bytes_of '';'')) s) (\<lambda>(e, s).
       if e \<noteq> 0 then Some (e, n, s) else pb_do_write ops vs (n + 1) s)"

definition pb_begin_count :: "'s sink_ops \<Rightarrow> string \<Rightarrow> int \<Rightarrow> 's ser_action" where
  "pb_begin_count ops c count =
     ser_then (ser_then (do_sink ops (bytes_of c)) (pb_write_size ops count)) (do_sink ops (bytes_of ''|''))"

definition pb_begin_member :: "'s sink_ops \<Rightarrow> byte list \<Rightarrow> 's ser_action" where
  "pb_begin_member ops name = ser_then (do_sink ops name) (do_sink ops (bytes_of '':''))"

text \<open>The string literal at the end has an explicit zero besides the terminating one.\<close>

definition pb_terminator :: "byte list" where
  "pb_terminator = bytes_of ''>'' @ [0]"

definition portable_serializer :: "'s sink_ops \<Rightarrow> 's ser_backend" where
  "portable_serializer ops = \<lparr>
     sb_enum_as_string = True,
     sb_sink = ops,
     sb_begin = do_sink ops (bytes_of ''<''),
     sb_write = (\<lambda>vs. pb_do_write ops vs 0),
     sb_begin_struct = pb_begin_count ops ''{'',
     sb_begin_member = pb_begin_member ops,
     sb_finish_member = (\<lambda>name. ser_ok),
     sb_finish_struct = do_sink ops (bytes_of ''}''),
     sb_begin_list = pb_begin_count ops ''['',
     sb_begin_element = (\<lambda>i. ser_ok),
     sb_finish_element = (\<lambda>i. ser_ok),
     sb_finish_list = do_sink ops (bytes_of '']''),
     sb_finish = do_sink ops pb_terminator\<rparr>"

section \<open>Reading\<close>

definition hex_fragment :: "byte \<Rightarrow> nat option" where
  "hex_fragment c =
     (if 48 \<le> sint c \<and> sint c \<le> 57 then Some (nat (sint c - 48))
      else if 65 \<le> sint c \<and> sint c \<le> 70 then Some (nat (10 + sint c - 65))
      else None)"

text \<open>
  The loop over the digits returns the value and whether all of them were valid. The shift is
  undefined from the width of the type on, or that of \<^verbatim>\<open>int\<close> for smaller types.
\<close>

fun pb_read_digits :: "nat \<Rightarrow> byte list \<Rightarrow> nat \<Rightarrow> nat \<Rightarrow> (nat \<times> bool) option" where
  "pb_read_digits w [] sft v = Some (v, True)"
| "pb_read_digits w (c # src) sft v =
     (case hex_fragment c of
        Some frag \<Rightarrow>
          if sft < max w 32 then pb_read_digits w src (sft + 4) (v OR take_bit w (push_bit sft frag)) else None
      | None \<Rightarrow> Some (v, False))"

definition pb_read_unsigned :: "'s source_ops \<Rightarrow> nat \<Rightarrow> byte \<Rightarrow> (nat, 's) deser_reader" where
  "pb_read_unsigned ops w delimiter v s =
     Option.bind (string_before ops delimiter 48 s) (\<lambda>(src, s).
       if src \<noteq> [] then
         map_option (\<lambda>(v, valid). if valid then (0, v, src_pop ops (length src + 1) s) else (invalid_format, v, s))
           (pb_read_digits w src 0 0)
       else Some (not_enough_data, 0, s))"

definition pb_read_signed :: "'s source_ops \<Rightarrow> nat \<Rightarrow> byte \<Rightarrow> (int, 's) deser_reader" where
  "pb_read_signed ops w delimiter v s =
     (let (sign, s) = top_char_or ops 0 s
      in if sign = of_char CHR ''+'' \<or> sign = of_char CHR ''-'' then
           map_option (\<lambda>(e, temp, s).
               if int temp < 2 ^ (w - 1) then (e, if sign = of_char CHR ''-'' then - int temp else int temp, s)
               else (e OR invalid_format, v, s))
             (pb_read_unsigned ops w delimiter 0 (src_pop ops 1 s))
         else Some (invalid_format, v, s))"

definition pb_read_size :: "'s source_ops \<Rightarrow> byte \<Rightarrow> (int, 's) deser_reader" where
  "pb_read_size ops delimiter = pb_read_signed ops 64 delimiter"

definition pb_read_bool :: "'s source_ops \<Rightarrow> byte \<Rightarrow> (bool, 's) deser_reader" where
  "pb_read_bool ops delimiter v s =
     (let (t, e, s) = consume ops (bytes_of ''T'') s
      in if t then map_option (\<lambda>(e, s). (e, True, s)) (require ops [delimiter] s)
         else let (u, e, s) = consume ops (bytes_of ''U'') s
              in if u then map_option (\<lambda>(e, s). (e, False, s)) (require ops [delimiter] s)
                 else Some (e, v, s))"

definition pb_read_identifier :: "'s source_ops \<Rightarrow> byte \<Rightarrow> (basic_identifier, 's) deser_reader" where
  "pb_read_identifier ops delimiter v s =
     map_option (\<lambda>(src, s).
         if src \<noteq> [] then (0, identifier_of (string_of src), src_pop ops (length src + 1) s)
         else (not_enough_data, v, s))
       (string_before ops delimiter 32 s)"

text \<open>\<^verbatim>\<open>decl_name_storage\<close>\<close>

definition decl_name_max_length :: nat where
  "decl_name_max_length = 80"

definition decl_name_assign :: "byte list \<Rightarrow> byte list \<Rightarrow> byte list" where
  "decl_name_assign str name = (if length str \<le> decl_name_max_length then str else name)"

definition pb_read_name :: "'s source_ops \<Rightarrow> byte \<Rightarrow> (byte list, 's) deser_reader" where
  "pb_read_name ops delimiter v s =
     map_option (\<lambda>(src, s).
         if src \<noteq> [] then (0, decl_name_assign src v, src_pop ops (length src + 1) s)
         else (not_enough_data, v, s))
       (string_before ops delimiter (decl_name_max_length + 1) s)"

definition pb_read_string :: "'s source_ops \<Rightarrow> byte \<Rightarrow> (byte list, 's) deser_reader" where
  "pb_read_string ops delimiter v s =
     Option.bind (require ops (bytes_of [CHR 0x22]) s) (\<lambda>(e, s).
       if e = 0 then
         Option.bind (pb_read_size ops (of_char CHR ''|'') 0 s) (\<lambda>(e, len, s).
           if e = 0 then
             (let (str, s) = top_string ops len s
              in if size_of str < len then Some (not_enough_data, v, s)
                 else map_option (\<lambda>(e, s). (e, str, s))
                   (deser_then (require ops (bytes_of [CHR 0x22])) (require ops [delimiter])
                      (src_pop ops (length str) s)))
           else Some (e, v, s))
       else Some (e, v, s))"

fun pb_read_one :: "'s source_ops \<Rightarrow> byte \<Rightarrow> (prim, 's) deser_reader" where
  "pb_read_one ops d (PBool v) s = map_option (\<lambda>(e, v, s). (e, PBool v, s)) (pb_read_bool ops d v s)"
| "pb_read_one ops d (PUnsigned w v) s =
     map_option (\<lambda>(e, v, s). (e, PUnsigned w (int v), s)) (pb_read_unsigned ops w d (nat v) s)"
| "pb_read_one ops d (PSigned w v) s = map_option (\<lambda>(e, v, s). (e, PSigned w v, s)) (pb_read_signed ops w d v s)"
| "pb_read_one ops d (PIdentifier v) s =
     map_option (\<lambda>(e, v, s). (e, PIdentifier v, s)) (pb_read_identifier ops d v s)"
| "pb_read_one ops d (PName v) s = map_option (\<lambda>(e, v, s). (e, PName v, s)) (pb_read_name ops d v s)"
| "pb_read_one ops d (PString v) s = map_option (\<lambda>(e, v, s). (e, PString v, s)) (pb_read_string ops d v s)"

text \<open>The values from the one that fails on keep their contents.\<close>

fun pb_do_read :: "'s source_ops \<Rightarrow> prim list \<Rightarrow> nat \<Rightarrow> 's \<Rightarrow> (deser_errors \<times> nat \<times> prim list \<times> 's) option" where
  "pb_do_read ops [] n s = Some (0, n, [], s)"
| "pb_do_read ops (v # vs) n s =
     Option.bind (pb_read_one ops (of_char CHR '';'') v s) (\<lambda>(e, v, s).
       if e \<noteq> 0 then Some (e, n, v # vs, s)
       else map_option (\<lambda>(e, n, vs, s). (e, n, v # vs, s)) (pb_do_read ops vs (n + 1) s))"

definition pb_begin :: "'s source_ops \<Rightarrow> 's deser_action" where
  "pb_begin ops s = Option.bind (skip_whitespaces ops s) (require ops (bytes_of ''<''))"

definition pb_read_count :: "'s source_ops \<Rightarrow> string \<Rightarrow> (int, 's) deser_reader" where
  "pb_read_count ops c count s =
     Option.bind (require ops (bytes_of c) s) (\<lambda>(e, s).
       if e = 0 then pb_read_size ops (of_char CHR ''|'') count s else Some (e, count, s))"

definition pb_require_member :: "'s source_ops \<Rightarrow> byte list \<Rightarrow> 's deser_action" where
  "pb_require_member ops name = deser_if_ok (require ops name) (require ops (bytes_of '':''))"

definition portable_deserializer :: "'s source_ops \<Rightarrow> 's deser_backend" where
  "portable_deserializer ops = \<lparr>
     db_enum_as_string = True,
     db_begin = pb_begin ops,
     db_read = (\<lambda>vs. pb_do_read ops vs 0),
     db_begin_struct = pb_read_count ops ''{'',
     db_begin_member = pb_require_member ops,
     db_finish_member = (\<lambda>name. deser_ok),
     db_finish_struct = require ops (bytes_of ''}''),
     db_begin_list = pb_read_count ops ''['',
     db_begin_element = (\<lambda>i. deser_ok),
     db_finish_element = (\<lambda>i. deser_ok),
     db_finish_list = require ops (bytes_of '']''),
     db_finish = require ops pb_terminator\<rparr>"
section \<open>The text of a value\<close>

function hex_text :: "nat \<Rightarrow> byte list" where
  "hex_text v = hex_char (v mod 16) # (if v div 16 = 0 then [] else hex_text (v div 16))"
  by pat_completeness auto
termination by (relation "measure id") auto

declare hex_text.simps [simp del]

definition signed_text :: "int \<Rightarrow> byte list" where
  "signed_text v = bytes_of (if v < 0 then ''-'' else ''+'') @ hex_text (nat \<bar>v\<bar>)"

fun pb_text :: "prim \<Rightarrow> byte list" where
  "pb_text (PBool b) = bytes_of (if b then ''T'' else ''U'')"
| "pb_text (PUnsigned w v) = hex_text (nat v)"
| "pb_text (PSigned w v) = signed_text v"
| "pb_text (PIdentifier i) = bytes_of (identifier_str i)"
| "pb_text (PName n) = n"
| "pb_text (PString str) =
     bytes_of [CHR 0x22] @ signed_text (size_of str) @ bytes_of ''|'' @ str @ bytes_of [CHR 0x22]"

text \<open>
  The values that can be read back: all unsigned numbers, all signed ones but the smallest of each
  type, identifiers and names that are not empty, names without a semicolon, all strings.
\<close>

fun pb_readable :: "prim \<Rightarrow> bool" where
  "pb_readable (PBool b) = True"
| "pb_readable (PUnsigned w v) = (w \<le> 64 \<and> 0 \<le> v \<and> v < 2 ^ w)"
| "pb_readable (PSigned w v) = (0 < w \<and> w \<le> 64 \<and> - (2 ^ (w - 1)) < v \<and> v < 2 ^ (w - 1))"
| "pb_readable (PIdentifier i) =
     (\<exists>str. i = identifier_of str \<and> str \<noteq> [] \<and> str \<noteq> replicate 10 CHR ''_'' \<and>
        can_be_encoded 10 default_identifier_char_set str)"
| "pb_readable (PName n) = (n \<noteq> [] \<and> length n \<le> decl_name_max_length \<and> of_char CHR '';'' \<notin> set n)"
| "pb_readable (PString str) = (length str < 2 ^ 63)"

text \<open>The values of the same type.\<close>

fun same_prim :: "prim \<Rightarrow> prim \<Rightarrow> bool" where
  "same_prim (PBool a) v = (\<exists>b. v = PBool b)"
| "same_prim (PUnsigned w a) v = (\<exists>b. v = PUnsigned w b)"
| "same_prim (PSigned w a) v = (\<exists>b. v = PSigned w b)"
| "same_prim (PIdentifier a) v = (\<exists>b. v = PIdentifier b)"
| "same_prim (PName a) v = (\<exists>b. v = PName b)"
| "same_prim (PString a) v = (\<exists>b. v = PString b)"

subsection \<open>Digits\<close>

lemma hex_char_cases: "n < 16 \<Longrightarrow> n \<in> {0, 1, 2, 3, 4, 5, 6, 7, 8, 9, 10, 11, 12, 13, 14, 15 :: nat}"
  unfolding insert_iff empty_iff by presburger

lemma hex_fragment_char: "n < 16 \<Longrightarrow> hex_fragment (hex_char n) = Some n"
  using hex_char_cases[of n] by (auto simp: hex_fragment_def hex_char_def bytes_of_def)

lemma hex_char_no_delimiter: "n < 16 \<Longrightarrow> hex_char n \<notin> {of_char CHR '';'', of_char CHR ''|''}"
  using hex_char_cases[of n] by (auto simp: hex_char_def bytes_of_def)

lemma hex_text_not_Nil [simp]: "hex_text v \<noteq> []"
  by (subst hex_text.simps) simp

lemma hex_text_delimiter:
  assumes "d = of_char CHR '';'' \<or> d = of_char CHR ''|''"
  shows "d \<notin> set (hex_text v)"
proof (induction v rule: hex_text.induct)
  case (1 v)
  show ?case
    using 1 hex_char_no_delimiter[of "v mod 16"] assms
    by (subst hex_text.simps) (auto split: if_splits)
qed

lemma length_hex_text: "v < 16 ^ n \<Longrightarrow> 0 < n \<Longrightarrow> length (hex_text v) \<le> n"
proof (induction n arbitrary: v)
  case (Suc n)
  show ?case
  proof (cases "v div 16 = 0")
    case True
    then show ?thesis by (subst hex_text.simps) simp
  next
    case False
    have lt: "v div 16 < 16 ^ n"
      using Suc.prems by (simp add: less_mult_imp_div_less mult.commute)
    then have "0 < n"
      using False by (cases n) auto
    then show ?thesis
      using Suc.IH[OF lt] by (subst hex_text.simps) simp
  qed
qed simp

lemma or_shifted: "v < 2 ^ k \<Longrightarrow> v OR push_bit k n = v + n * 2 ^ k" for v n :: nat
proof -
  assume "v < 2 ^ k"
  then have "take_bit k v = v"
    by (simp add: take_bit_nat_eq_self)
  then have below: "\<forall>m. bit v m \<longrightarrow> m < k"
    by (metis bit_take_bit_iff)
  have "v + push_bit k n = v OR push_bit k n"
    using below by (intro disjunctive_add_eq_or) (fastforce simp: bit_eq_iff bit_simps)
  then show ?thesis by (simp add: push_bit_eq_mult)
qed

lemma pb_read_digits_text:
  assumes "v * 2 ^ k < 2 ^ w" "acc < 2 ^ k" "k = 0 \<or> v \<noteq> 0"
  shows "pb_read_digits w (hex_text v) k acc = Some (acc + v * 2 ^ k, True)"
  using assms
proof (induction v arbitrary: k acc rule: hex_text.induct)
  case (1 v)
  have k: "k < max w 32"
  proof (cases "k = 0")
    case False
    then have "1 * 2 ^ k \<le> v * 2 ^ k"
      using 1(4) by (intro mult_le_mono1) auto
    then have "2 ^ k < (2 :: nat) ^ w"
      using 1(2) by linarith
    then show ?thesis by simp
  qed simp
  have digit: "take_bit w (push_bit k (v mod 16)) = (v mod 16) * 2 ^ k"
  proof -
    have "(v mod 16) * 2 ^ k < 2 ^ w"
      using 1(2) by (meson le_less_trans mult_le_mono1 mod_less_eq_dividend)
    then show ?thesis by (simp add: push_bit_eq_mult take_bit_nat_eq_self)
  qed
  have acc: "acc OR take_bit w (push_bit k (v mod 16)) = acc + (v mod 16) * 2 ^ k"
    using or_shifted[OF 1(3), of "v mod 16"] digit by (simp add: push_bit_eq_mult)
  have frag: "hex_fragment (hex_char (v mod 16)) = Some (v mod 16)"
    by (rule hex_fragment_char) simp
  have "v * 2 ^ k = (v div 16 * 16 + v mod 16) * 2 ^ k"
    by (simp only: div_mult_mod_eq)
  then have split: "acc + v * 2 ^ k = (acc + (v mod 16) * 2 ^ k) + (v div 16) * 2 ^ (k + 4)"
    by (simp only: power_add distrib_right mult.assoc add.assoc) (simp add: mult.commute)
  show ?case
  proof (cases "v div 16 = 0")
    case True
    have "pb_read_digits w (hex_text v) k acc = Some (acc + (v mod 16) * 2 ^ k, True)"
      unfolding hex_text.simps[of v] True using k by (simp only: pb_read_digits.simps frag acc option.case if_True simp_thms)
    then show ?thesis
      unfolding split True by (simp only: mult_0 add_0_right)
  next
    case False
    have "(v div 16) * 2 ^ (k + 4) < 2 ^ w" "acc + (v mod 16) * 2 ^ k < 2 ^ (k + 4)"
    proof -
      have "(v div 16) * 16 \<le> v" by simp
      then have "(v div 16) * 16 * 2 ^ k \<le> v * 2 ^ k" by (rule mult_le_mono1)
      moreover have "(v div 16) * 2 ^ (k + 4) = (v div 16) * 16 * 2 ^ k"
        by (simp add: power_add)
      ultimately show "(v div 16) * 2 ^ (k + 4) < 2 ^ w"
        using 1(2) by linarith
      have "(v mod 16) * 2 ^ k \<le> 15 * 2 ^ k"
        by (rule mult_le_mono1) (use mod_less_divisor[of 16 v] in simp)
      moreover have "(2 :: nat) ^ (k + 4) = 16 * 2 ^ k"
        by (simp add: power_add)
      ultimately show "acc + (v mod 16) * 2 ^ k < 2 ^ (k + 4)"
        using 1(3) by linarith
    qed
    then have "pb_read_digits w (hex_text (v div 16)) (k + 4) (acc + (v mod 16) * 2 ^ k) =
        Some (acc + v * 2 ^ k, True)"
      unfolding split using False by (intro 1(1)) auto
    then show ?thesis
      unfolding hex_text.simps[of v] using False k
      by (simp only: pb_read_digits.simps frag acc option.case if_True if_False simp_thms)
  qed
qed
section \<open>Writing produces the text\<close>

definition pb_values_text :: "prim list \<Rightarrow> byte list" where
  "pb_values_text vs = concat (map (\<lambda>v. pb_text v @ bytes_of '';'') vs)"

definition count_text :: "string \<Rightarrow> int \<Rightarrow> byte list" where
  "count_text c n = bytes_of c @ signed_text n @ bytes_of ''|''"

context data_sink begin

lemma emits_unsigned: "emits (pb_write_unsigned ops v) (hex_text v)"
proof (induction v rule: hex_text.induct)
  case (1 v)
  show ?case
  proof (cases "v div 16 = 0")
    case True
    then have "pb_write_unsigned ops v = do_sink ops [hex_char (v mod 16)]" "hex_text v = [hex_char (v mod 16)]"
      by (simp_all add: pb_write_unsigned.simps[of ops v] hex_text.simps[of v] del: div_eq_0_iff)
    then show ?thesis using emits_sink by simp
  next
    case False
    then have "pb_write_unsigned ops v = ser_if_ok (do_sink ops [hex_char (v mod 16)]) (pb_write_unsigned ops (v div 16))"
        "hex_text v = [hex_char (v mod 16)] @ hex_text (v div 16)"
      by (simp_all only: pb_write_unsigned.simps[of ops v] hex_text.simps[of v] if_False append_Cons append_Nil)
    then show ?thesis using emits_if_ok[OF emits_sink 1[OF False], of "[hex_char (v mod 16)]"] by simp
  qed
qed

lemma emits_signed:
  assumes "w < 32 \<or> v \<noteq> - (2 ^ (w - 1))"
  shows "emits (pb_write_signed ops w v) (signed_text v)"
proof -
  have "nat (if v < 0 then - v else v) = nat \<bar>v\<bar>"
    by (simp add: abs_if)
  then have "pb_write_signed ops w v =
      ser_then (do_sink ops (bytes_of (if v < 0 then ''-'' else ''+''))) (pb_write_unsigned ops (nat \<bar>v\<bar>))"
    unfolding pb_write_signed_def using assms by auto
  then show ?thesis
    unfolding signed_text_def using emits_then[OF emits_sink emits_unsigned] by simp
qed

lemma emits_size: "0 \<le> n \<Longrightarrow> emits (pb_write_size ops n) (signed_text n)"
  unfolding pb_write_size_def by (rule emits_signed) simp

lemma emits_one: "pb_readable v \<Longrightarrow> emits (pb_write_one ops v) (pb_text v)"
proof (induction v)
  case (PSigned w v)
  then show ?case by (simp add: emits_signed)
next
  case (PString str)
  note emits_then[OF emits_then[OF emits_then[OF emits_then[OF emits_sink emits_size] emits_sink] emits_sink] emits_sink,
      of "size_of str" "bytes_of [CHR 0x22]" "bytes_of ''|''" str "bytes_of [CHR 0x22]"]
  then show ?case by simp
qed (simp_all add: emits_sink emits_unsigned)

lemma do_write_result:
  assumes "list_all pb_readable vs" "invar s" "fits s (length (pb_values_text vs))"
  shows "\<exists>s'. pb_do_write ops vs n s = Some (0, n + length vs, s') \<and> invar s' \<and>
    levels s' = append_top (levels s) (pb_values_text vs) \<and>
    (\<forall>m. fits s (length (pb_values_text vs) + m) \<longrightarrow> fits s' m)"
  using assms
proof (induction vs arbitrary: n s)
  case Nil
  then show ?case by (simp add: pb_values_text_def levels_ne)
next
  case (Cons v vs)
  let ?t = "pb_text v @ bytes_of '';''"
  have eq: "pb_values_text (v # vs) = ?t @ pb_values_text vs"
    by (simp add: pb_values_text_def)
  have fit: "fits s (length ?t + length (pb_values_text vs))"
    using Cons.prems(3) unfolding eq by (simp add: add.assoc)
  have "emits (ser_then (pb_write_one ops v) (do_sink ops (bytes_of '';''))) ?t"
    using Cons.prems(1) by (intro emits_then emits_one emits_sink) simp
  from emitsD[OF this Cons.prems(2) fits_less[OF fit]] obtain s1 where
    s1: "ser_then (pb_write_one ops v) (do_sink ops (bytes_of '';'')) s = Some (0, s1)" "invar s1"
      "levels s1 = append_top (levels s) ?t" "\<forall>m. fits s (length ?t + m) \<longrightarrow> fits s1 m" .
  obtain s2 where s2: "pb_do_write ops vs (n + 1) s1 = Some (0, n + 1 + length vs, s2)" "invar s2"
      "levels s2 = append_top (levels s1) (pb_values_text vs)"
      "\<forall>m. fits s1 (length (pb_values_text vs) + m) \<longrightarrow> fits s2 m"
    using Cons.IH[OF _ s1(2), of "n + 1"] Cons.prems(1) s1(4) fit by auto
  show ?case
    using s1 s2 unfolding eq by (simp add: add.assoc)
qed

end

section \<open>Reading finds the values\<close>

lemma plus_minus_char:
  "(of_char CHR ''+'' :: byte) \<noteq> of_char CHR ''-''"
  by simp

context data_source begin

lemma top_string_prefix:
  assumes "rest s = w @ r"
  shows "\<exists>s'. top_string ops (size_of w) s = (w, s') \<and> rest s' = rest s \<and> length w \<le> avail s'"
proof -
  obtain s' where "top_string ops (size_of w) s = (take (nat (size_of w)) (rest s), s')" "rest s' = rest s"
      "length (take (nat (size_of w)) (rest s)) \<le> avail s'"
    by (rule top_string_result)
  then show ?thesis using assms by auto
qed

lemma reads_unsigned:
  assumes "d = of_char CHR '';'' \<or> d = of_char CHR ''|''" "w \<le> 64" "v < 2 ^ w"
  shows "reads (pb_read_unsigned ops w d) v0 (hex_text v @ [d]) v"
  unfolding reads_def
proof (intro allI impI)
  fix s r assume rest: "rest s = (hex_text v @ [d]) @ r"
  have "v < 16 ^ 16"
    using assms(2,3) power_increasing[of w 64 "2 :: nat"] by simp
  then have "length (hex_text v) < 256"
    using length_hex_text[of v 16] by simp
  then obtain s1 where s1: "string_before ops d 48 s = Some (hex_text v, s1)" "rest s1 = rest s"
      "length (hex_text v) < avail s1"
    using string_before_found[of s "hex_text v" d r 48] rest hex_text_delimiter[OF assms(1)] by auto
  moreover have "pb_read_digits w (hex_text v) 0 0 = Some (v, True)"
    using pb_read_digits_text[of v 0 w 0] assms(3) by simp
  moreover have "rest (src_pop ops (length (hex_text v) + 1) s1) = r"
    using pop[of "length (hex_text v) + 1" s1] s1(2,3) rest by simp
  ultimately show "\<exists>s'. pb_read_unsigned ops w d v0 s = Some (0, v, s') \<and> rest s' = r"
    by (simp add: pb_read_unsigned_def)
qed

lemma reads_signed:
  assumes d: "d = of_char CHR '';'' \<or> d = of_char CHR ''|''" and "0 < w" "w \<le> 64"
    and v: "- (2 ^ (w - 1)) < v" "v < 2 ^ (w - 1)"
  shows "reads (pb_read_signed ops w d) v0 (signed_text v @ [d]) v"
  unfolding reads_def
proof (intro allI impI)
  fix s r assume rest: "rest s = (signed_text v @ [d]) @ r"
  define c :: byte where "c = (if v < 0 then of_char CHR ''-'' else of_char CHR ''+'')"
  have rest': "rest s = c # (hex_text (nat \<bar>v\<bar>) @ [d]) @ r"
    using rest by (simp add: signed_text_def c_def bytes_of_def)
  then obtain s1 where s1: "top_char_or ops 0 s = (c, s1)" "rest s1 = rest s" "0 < avail s1"
    by (rule top_char_result)
  have "rest (src_pop ops 1 s1) = (hex_text (nat \<bar>v\<bar>) @ [d]) @ r"
    using pop[of 1 s1] s1(2,3) rest' by simp
  moreover have abs: "\<bar>v\<bar> < 2 ^ (w - 1)"
    using v by auto
  have "nat \<bar>v\<bar> < 2 ^ w"
  proof -
    have "(2 :: int) ^ (w - 1) \<le> 2 ^ w"
      by (rule power_increasing) auto
    then have "\<bar>v\<bar> < 2 ^ w" using abs by linarith
    then show ?thesis by (simp add: nat_less_iff)
  qed
  from readsD[OF reads_unsigned[OF d \<open>w \<le> 64\<close> this, of 0] calculation] obtain s2 where
    s2: "pb_read_unsigned ops w d 0 (src_pop ops 1 s1) = Some (0, nat \<bar>v\<bar>, s2)" "rest s2 = r" .
  have "pb_read_signed ops w d v0 s = Some (0, v, s2)"
    unfolding pb_read_signed_def using s1(1) s2(1) abs plus_minus_char by (auto simp: c_def)
  then show "\<exists>s'. pb_read_signed ops w d v0 s = Some (0, v, s') \<and> rest s' = r"
    using s2(2) by blast
qed

lemma reads_size:
  assumes "0 \<le> n" "n < 2 ^ 63"
  shows "reads (pb_read_size ops (of_char CHR ''|'')) v0 (signed_text n @ bytes_of ''|'') n"
  using reads_signed[of "of_char CHR ''|''" 64 n v0] assms by (simp add: pb_read_size_def bytes_of_def)

lemma reads_bool: "reads (pb_read_bool ops d) v0 (bytes_of (if v then ''T'' else ''U'') @ [d]) v"
  unfolding reads_def
proof (intro allI impI)
  fix s r assume rest: "rest s = (bytes_of (if v then ''T'' else ''U'') @ [d]) @ r"
  let ?c = "bytes_of (if v then ''T'' else ''U'')"
  have c: "int (length ?c) = 1" "length ?c = 1" by (simp_all add: bytes_of_def)
  have rest': "rest s = ?c @ d # r" using rest by simp
  obtain s1 where s1: "top_string ops 1 s = (?c, s1)" "rest s1 = rest s" "1 \<le> avail s1"
    using top_string_prefix[OF rest'] by (auto simp: c)
  then obtain s2 where s2: "top_string ops 1 s1 = (?c, s2)" "rest s2 = rest s" "1 \<le> avail s2"
    using top_string_prefix[of s1 ?c "d # r"] rest' by (auto simp: c)
  have "rest (src_pop ops 1 s1) = [d] @ r" "rest (src_pop ops 1 s2) = [d] @ r"
    using pop[OF s1(3)] pop[OF s2(3)] s1(2) s2(2) rest' c(2) by simp_all
  then obtain s3 s4 where "require ops [d] (src_pop ops 1 s1) = Some (0, s3)" "rest s3 = r"
      "require ops [d] (src_pop ops 1 s2) = Some (0, s4)" "rest s4 = r"
    using accepts_require[of "[d]"] unfolding accepts_def by metis
  then show "\<exists>s'. pb_read_bool ops d v0 s = Some (0, v, s') \<and> rest s' = r"
    using s1 s2 by (cases v) (auto simp: pb_read_bool_def consume_def bytes_of_def)
qed

end
context data_source begin

lemma string_before_delimited:
  assumes "rest s = (w @ [d]) @ r" "d \<notin> set w" "length w < 256" "0 < limit" "w \<noteq> []"
  obtains s' where "string_before ops d limit s = Some (w, s')" "rest (src_pop ops (length w + 1) s') = r"
proof -
  obtain s' where s': "string_before ops d limit s = Some (w, s')" "rest s' = rest s" "length w < avail s'"
    using string_before_found[of s w d r limit] assms by auto
  then have "rest (src_pop ops (length w + 1) s') = r"
    using pop[of "length w + 1" s'] assms(1) by simp
  then show ?thesis using that s'(1) by blast
qed

lemma string_of_bytes_of [simp]: "string_of (bytes_of str) = str"
proof -
  have "char_of (unat (of_char c :: byte)) = c" for c :: char
  proof -
    have "(of_char c :: byte) = word_of_nat (of_char c)"
      by (simp add: of_nat_of_char)
    then have "unat (of_char c :: byte) = of_char c"
      by (simp add: unat_of_nat take_bit_nat_eq_self nat_of_char_less_256)
    then show ?thesis by simp
  qed
  then show ?thesis
    by (simp add: string_of_def bytes_of_def comp_def)
qed

lemma identifier_chars: "c \<in> set default_identifier_char_set \<Longrightarrow> (of_char c :: byte) \<noteq> of_char CHR '';''"
  by (auto simp: default_identifier_char_set_def)

lemma reads_identifier:
  assumes "str \<noteq> []" "str \<noteq> replicate 10 CHR ''_''" "can_be_encoded 10 default_identifier_char_set str"
  shows "reads (pb_read_identifier ops (of_char CHR '';'')) v0
    (bytes_of (identifier_str (identifier_of str)) @ [of_char CHR '';'']) (identifier_of str)"
  unfolding reads_def
proof (intro allI impI)
  fix s r
  assume rest: "rest s = (bytes_of (identifier_str (identifier_of str)) @ [of_char CHR '';'']) @ r"
  have str: "identifier_str (identifier_of str) = str"
    using identifier_read_back[OF assms(3,2)] by simp
  have chars: "length str \<le> 10" "set str \<subseteq> set default_identifier_char_set"
    using assms(3) by (auto simp: can_be_encoded_def encoding_can_be_encoded_def list_all_iff has_element_def
        scan_from_None_iff split: if_splits dest!: spec simp: in_set_conv_nth scan_from_Some_iff)
  then have "of_char CHR '';'' \<notin> set (bytes_of str)"
    using identifier_chars unfolding bytes_of_def by fastforce
  then obtain s1 where "string_before ops (of_char CHR '';'') 32 s = Some (bytes_of str, s1)"
      "rest (src_pop ops (length (bytes_of str) + 1) s1) = r"
    using string_before_delimited[OF rest[unfolded str], of 32] chars(1) assms(1)
    by (auto simp: bytes_of_def)
  then show "\<exists>s'. pb_read_identifier ops (of_char CHR '';'') v0 s = Some (0, identifier_of str, s') \<and> rest s' = r"
    using assms(1) by (simp add: pb_read_identifier_def bytes_of_def[of str, THEN arg_cong[of _ _ "\<lambda>x. x = []"]])
qed

lemma reads_name:
  assumes "pb_readable (PName n)"
  shows "reads (pb_read_name ops (of_char CHR '';'')) v0 (n @ [of_char CHR '';'']) n"
  unfolding reads_def
proof (intro allI impI)
  fix s r assume "rest s = (n @ [of_char CHR '';'']) @ r"
  then obtain s1 where "string_before ops (of_char CHR '';'') (decl_name_max_length + 1) s = Some (n, s1)"
      "rest (src_pop ops (length n + 1) s1) = r"
    using string_before_delimited[of s n "of_char CHR '';''" r "decl_name_max_length + 1"] assms
    by (auto simp: decl_name_max_length_def)
  then show "\<exists>s'. pb_read_name ops (of_char CHR '';'') v0 s = Some (0, n, s') \<and> rest s' = r"
    using assms by (simp add: pb_read_name_def decl_name_assign_def)
qed

lemma reads_string:
  assumes "length str < 2 ^ 63"
  shows "reads (pb_read_string ops d) v0 (pb_text (PString str) @ [d]) str"
  unfolding reads_def
proof (intro allI impI)
  fix s r assume "rest s = (pb_text (PString str) @ [d]) @ r"
  then have rest: "rest s = bytes_of [CHR 0x22] @ (signed_text (size_of str) @ bytes_of ''|'') @
      str @ (bytes_of [CHR 0x22] @ [d]) @ r"
    by simp
  from acceptsD[OF accepts_require rest] obtain s1 where
    s1: "require ops (bytes_of [CHR 0x22]) s = Some (0, s1)"
      "rest s1 = (signed_text (size_of str) @ bytes_of ''|'') @ str @ (bytes_of [CHR 0x22] @ [d]) @ r" .
  have "int (length str) < 2 ^ 63"
    using assms by (metis of_nat_less_iff of_nat_numeral of_nat_power)
  from readsD[OF reads_size[OF of_nat_0_le_iff this, of 0] s1(2)] obtain s2 where
    s2: "pb_read_size ops (of_char CHR ''|'') 0 s1 = Some (0, size_of str, s2)"
      "rest s2 = str @ (bytes_of [CHR 0x22] @ [d]) @ r" .
  obtain s3 where s3: "top_string ops (size_of str) s2 = (str, s3)" "rest s3 = rest s2" "length str \<le> avail s3"
    using top_string_prefix[OF s2(2)] by blast
  have "rest (src_pop ops (length str) s3) = (bytes_of [CHR 0x22] @ [d]) @ r"
    using pop[OF s3(3)] s3(2) s2(2) by simp
  from acceptsD[OF accepts_then[OF accepts_require accepts_require] this] obtain s4 where
    "deser_then (require ops (bytes_of [CHR 0x22])) (require ops [d]) (src_pop ops (length str) s3) = Some (0, s4)"
      "rest s4 = r" .
  then show "\<exists>s'. pb_read_string ops d v0 s = Some (0, str, s') \<and> rest s' = r"
    using s1 s2 s3 by (simp add: pb_read_string_def)
qed

lemma reads_one:
  assumes "pb_readable v" "same_prim v v0"
  shows "reads (pb_read_one ops (of_char CHR '';'')) v0 (pb_text v @ [of_char CHR '';'']) v"
proof (cases v)
  case (PBool b)
  then obtain a where "v0 = PBool a" using assms by auto
  then show ?thesis
    using PBool reads_bool[of "of_char CHR '';''" a b] by (fastforce simp: reads_def)
next
  case (PUnsigned w n)
  then obtain a where "v0 = PUnsigned w a" using assms by auto
  moreover have "nat n < 2 ^ w"
    using assms(1) PUnsigned by (simp add: nat_less_iff)
  ultimately show ?thesis
    using PUnsigned assms(1) reads_unsigned[of "of_char CHR '';''" w "nat n" "nat a"]
    by (fastforce simp: reads_def)
next
  case (PSigned w n)
  then obtain a where "v0 = PSigned w a" using assms by auto
  then show ?thesis
    using PSigned assms(1) reads_signed[of "of_char CHR '';''" w n a] by (fastforce simp: reads_def)
next
  case (PIdentifier i)
  then obtain a where "v0 = PIdentifier a" using assms by auto
  then show ?thesis
    using PIdentifier assms(1) reads_identifier[of _ a] by (fastforce simp: reads_def)
next
  case (PName n)
  then obtain a where "v0 = PName a" using assms by auto
  then show ?thesis
    using PName assms(1) reads_name[of n a] by (fastforce simp: reads_def)
next
  case (PString str)
  then obtain a where v0: "v0 = PString a" using assms by auto
  have "length str < 2 ^ 63" using PString assms(1) by simp
  then show ?thesis
    using reads_string[of str "of_char CHR '';''" a] unfolding PString v0 reads_def by fastforce
qed

lemma do_read_result:
  assumes "list_all pb_readable vs" "list_all2 same_prim vs v0s" "rest s = pb_values_text vs @ r"
  shows "\<exists>s'. pb_do_read ops v0s n s = Some (0, n + length vs, vs, s') \<and> rest s' = r"
  using assms(2,1,3)
proof (induction vs v0s arbitrary: n s rule: list_all2_induct)
  case Nil
  then show ?case by (simp add: pb_values_text_def)
next
  case (Cons v vs v0 v0s)
  then have "rest s = (pb_text v @ [of_char CHR '';'']) @ pb_values_text vs @ r"
    by (simp add: pb_values_text_def bytes_of_def)
  from readsD[OF reads_one this] Cons obtain s1 where
    s1: "pb_read_one ops (of_char CHR '';'') v0 s = Some (0, v, s1)" "rest s1 = pb_values_text vs @ r"
    by (metis list.pred_inject(2))
  from Cons.IH[OF _ s1(2), of "n + 1"] Cons.prems(1) obtain s2 where
    "pb_do_read ops v0s (n + 1) s1 = Some (0, n + 1 + length vs, vs, s2)" "rest s2 = r"
    by auto
  then show ?case using s1 by simp
qed

lemma accepts_begin: "accepts (pb_begin ops) (bytes_of ''<'')"
  unfolding accepts_def
proof (intro allI impI)
  fix s r assume rest: "rest s = bytes_of ''<'' @ r"
  then have "rest s = of_char CHR ''<'' # r" "\<not> is_space (of_char CHR ''<'')"
    by (simp_all add: bytes_of_def is_space_def)
  then obtain s1 where s1: "skip_whitespaces ops s = Some s1" "rest s1 = rest s"
    by (rule skip_whitespaces_none)
  then have "rest s1 = bytes_of ''<'' @ r" using rest by simp
  from acceptsD[OF accepts_require this] obtain s2 where
    "require ops (bytes_of ''<'') s1 = Some (0, s2)" "rest s2 = r" .
  then show "\<exists>s'. pb_begin ops s = Some (0, s') \<and> rest s' = r"
    using s1(1) by (simp add: pb_begin_def)
qed

lemma reads_count:
  assumes "0 \<le> n" "n < 2 ^ 63"
  shows "reads (pb_read_count ops c) n0 (count_text c n) n"
  unfolding reads_def count_text_def
proof (intro allI impI)
  fix s r assume "rest s = (bytes_of c @ signed_text n @ bytes_of ''|'') @ r"
  then have "rest s = bytes_of c @ (signed_text n @ bytes_of ''|'') @ r" by simp
  from acceptsD[OF accepts_require this] obtain s1 where
    s1: "require ops (bytes_of c) s = Some (0, s1)" "rest s1 = (signed_text n @ bytes_of ''|'') @ r" .
  from readsD[OF reads_size[OF assms, of n0] s1(2)] obtain s2 where
    "pb_read_size ops (of_char CHR ''|'') n0 s1 = Some (0, n, s2)" "rest s2 = r" .
  with s1(1) show "\<exists>s'. pb_read_count ops c n0 s = Some (0, n, s') \<and> rest s' = r"
    by (simp add: pb_read_count_def)
qed

end

context data_sink begin

lemma emits_count: "0 \<le> n \<Longrightarrow> emits (pb_begin_count ops c n) (count_text c n)"
  using emits_then[OF emits_then[OF emits_sink emits_size] emits_sink, of n "bytes_of c" "bytes_of ''|''"]
  by (simp add: pb_begin_count_def count_text_def)

lemma emits_member: "emits (pb_begin_member ops name) (name @ bytes_of '':'')"
  unfolding pb_begin_member_def by (intro emits_then emits_sink)

end

end
