(* ===== verification/Serial_Formats.thy ===== *)
theory Serial_Formats
  imports Serialization Portable_Backend
begin

text \<open>
  The text format of \<^verbatim>\<open>portable_backend.cpp\<close> is a format in the sense of \<^verbatim>\<open>Serialization\<close>, over
  every data sink and source: what the serializers write with it, the deserializers read back.
\<close>

definition portable_format :: format where
  "portable_format = \<lparr>
     fmt_begin = bytes_of ''<'',
     fmt_finish = pb_terminator,
     fmt_enum_as_string = True,
     fmt_values = pb_values_text,
     fmt_begin_struct = count_text ''{'',
     fmt_begin_member = (\<lambda>name. name @ bytes_of '':''),
     fmt_finish_struct = bytes_of ''}'',
     fmt_begin_list = count_text ''['',
     fmt_finish_list = bytes_of '']''\<rparr>"

lemmas portable_defs = portable_serializer_def portable_deserializer_def portable_format_def

lemma same_prim_types: "map type_of_prim qs = map type_of_prim ps \<Longrightarrow> list_all2 same_prim ps qs"
proof (induction ps arbitrary: qs)
  case (Cons p ps)
  then obtain q qs' where q: "qs = q # qs'" "type_of_prim q = type_of_prim p"
      "map type_of_prim qs' = map type_of_prim ps"
    by (cases qs) auto
  then have "same_prim p q"
    by (cases p; cases q) auto
  then show ?case using Cons.IH[OF q(3)] q(1) by simp
qed simp

lemma pb_text_delimited_ne: "pb_values_text [p] \<noteq> []"
  by (simp add: pb_values_text_def bytes_of_def)

lemma count_text_ne: "count_text c n \<noteq> []"
  by (simp add: count_text_def bytes_of_def)

lemma pb_values_append [simp]: "pb_values_text [] = []" "pb_values_text (ps @ qs) = pb_values_text ps @ pb_values_text qs"
  by (simp_all add: pb_values_text_def)

locale portable_io =
  sink: data_sink sops invar levels fits + source: data_source dops rest avail
  for sops :: "'s sink_ops" and invar :: "'s \<Rightarrow> bool" and levels :: "'s \<Rightarrow> byte list list"
    and fits :: "'s \<Rightarrow> nat \<Rightarrow> bool" and dops :: "'r source_ops" and rest :: "'r \<Rightarrow> byte list"
    and avail :: "'r \<Rightarrow> nat"
begin

lemma require_member: "source.accepts (pb_require_member dops name) (name @ bytes_of '':'')"
  unfolding pb_require_member_def by (intro source.accepts_if_ok source.accepts_require)

end

sublocale portable_io \<subseteq> fmt: serial_format sops invar levels fits dops rest avail
  "portable_serializer sops" "portable_deserializer dops" portable_format pb_readable
proof
  show "list_all pb_readable ps \<Longrightarrow> invar s \<Longrightarrow> fits s (length (fmt_values portable_format ps)) \<Longrightarrow>
      \<exists>s'. sb_write (portable_serializer sops) ps s = Some (0, length ps, s') \<and> invar s' \<and>
        levels s' = append_top (levels s) (fmt_values portable_format ps) \<and>
        (\<forall>n. fits s (length (fmt_values portable_format ps) + n) \<longrightarrow> fits s' n)" for ps s
    using sink.do_write_result[of ps s 0] by (simp add: portable_defs)
  show "list_all pb_readable ps \<Longrightarrow> map type_of_prim qs = map type_of_prim ps \<Longrightarrow>
      rest s' = fmt_values portable_format ps @ r \<Longrightarrow>
      \<exists>s''. db_read (portable_deserializer dops) qs s' = Some (0, length ps, ps, s'') \<and> rest s'' = r" for ps qs s' r
    using source.do_read_result[OF _ same_prim_types, of ps qs s' r 0] by (simp add: portable_defs)
qed (simp_all add: portable_defs pb_text_delimited_ne count_text_ne sink.emits_sink sink.emits_count
    sink.emits_member source.accepts_begin source.accepts_require source.reads_count sink.emits_ok
    source.accepts_ok pb_values_append require_member)
section \<open>Memory and streams\<close>

interpretation block_portable: portable_io block_sink_ops bs_invar bs_content bs_fits
  block_source_ops block_remaining "\<lambda>s. length (block_remaining s)"
  by unfold_locales

interpretation stream_portable: portable_io ostream_sink_ops os_invar os_content "\<lambda>s n. True"
  istream_source_ops istream_rest "\<lambda>s. length (is_storage s)"
  by unfold_locales

lemma bs_make_invar: "bs_invar (bs_make dst)" "bs_content (bs_make dst) = [[]]"
    "bs_fits (bs_make dst) n = (n \<le> length dst)"
  by (simp_all add: bs_make_def bs_invar_def bs_content_def bs_fits_def)

lemma bs_levels_ne [simp]: "bs_levels dst used ps \<noteq> []"
  by (cases ps) simp_all

lemma bs_done_content: "bs_invar s \<Longrightarrow> bs_content s = [bs] \<Longrightarrow> bs_done s = bs"
  by (cases "bs_save_points s") (auto simp: bs_content_def bs_done_def bs_invar_def head_eq_take)

text \<open>
  C5. A storable value of any type, of any depth, that fits into a block of memory is written there
  without errors in the portable format as its message, and reading the used part of the block with
  any initial value of the type gives it back, to the last byte.
\<close>

theorem portable_block_round_trip:
  assumes "storable pb_readable True t v" "typed t v0" "length (ser_message portable_format t v) \<le> length dst"
  shows "\<exists>s d. serialize (portable_serializer block_sink_ops) t v (bs_make dst) = Some (0, s) \<and>
    bs_done s = ser_message portable_format t v \<and>
    deserialize (portable_deserializer block_source_ops) t v0 (block_source_of (bs_done s)) = Some (0, v, d) \<and>
    block_remaining d = []"
proof -
  have store: "storable pb_readable (fmt_enum_as_string portable_format) t v"
    using assms(1) by (simp add: portable_format_def)
  obtain s where s: "serialize (portable_serializer block_sink_ops) t v (bs_make dst) = Some (0, s)"
      "bs_invar s" "bs_content s = append_top [[]] (ser_message portable_format t v)"
    using block_sink.emitsD[OF block_portable.fmt.serialize_emits[OF store] bs_make_invar(1)[of dst]] assms(3)
    unfolding bs_make_invar(2,3) by blast
  then have used: "bs_done s = ser_message portable_format t v"
    by (intro bs_done_content) (simp_all add: append_top_def)
  have "block_remaining (block_source_of (bs_done s)) = ser_message portable_format t v @ []"
    using used by (simp add: block_remaining_def block_source_of_def skip_eq_drop)
  from block_source.readsD[OF block_portable.fmt.deserialize_reads[OF store assms(2)] this] show ?thesis
    using s(1) used by metis
qed

text \<open>
  C12. Over streams: the message is appended to what has been written, and reading it from a stream
  leaves what comes after it.
\<close>

theorem portable_stream_round_trip:
  assumes "storable pb_readable True t v" "typed t v0" "os_invar out"
  shows "(\<exists>out'. serialize (portable_serializer ostream_sink_ops) t v out = Some (0, out') \<and>
      os_content out' = append_top (os_content out) (ser_message portable_format t v)) \<and>
    (\<exists>inp'. deserialize (portable_deserializer istream_source_ops) t v0
        (istream_source_of (ser_message portable_format t v @ r)) = Some (0, v, inp') \<and> istream_rest inp' = r)"
    (is "?written \<and> ?found")
proof
  have store: "storable pb_readable (fmt_enum_as_string portable_format) t v"
    using assms(1) by (simp add: portable_format_def)
  show ?written
    using ostream_sink.emitsD[OF stream_portable.fmt.serialize_emits[OF store] assms(3)] by blast
  have "istream_rest (istream_source_of (ser_message portable_format t v @ r)) = ser_message portable_format t v @ r"
    by (simp add: istream_rest_def istream_source_of_def)
  from istream_source.readsD[OF stream_portable.fmt.deserialize_reads[OF store assms(2)] this] show ?found
    by blast
qed
section \<open>Concrete messages\<close>

definition example_type :: ser_type where
  "example_type = Struct [(bytes_of ''id'', Plain (TUnsigned 16)), (bytes_of ''xs'', Vector (Plain (TSigned 32))),
     (bytes_of ''s'', StdString), (bytes_of ''o'', ValidIf (Enum [bytes_of ''A'', bytes_of ''B'']))]"

definition example_value :: ser_value where
  "example_value = Seq [Prim (PUnsigned 16 300), Seq [Prim (PSigned 32 (- 5)), Prim (PSigned 32 7)],
     Prim (PString (bytes_of ''a;b'')), Opt (Some (Enumerator 1))]"

lemma example_message:
  "ser_message portable_format example_type example_value =
     bytes_of ''<{+4|id:C21;xs:[+2|-5;+7;]s:'' @ bytes_of [CHR 0x22] @ bytes_of ''+3|a;b'' @ bytes_of [CHR 0x22] @
     bytes_of '';o:[+1|B;]}'' @ pb_terminator"
  by code_simp

lemma example_storable: "storable pb_readable True example_type example_value"
  by (simp add: example_type_def example_value_def span_ok_def enum_prim_def bytes_of_def decl_name_max_length_def)

theorem portable_block_round_trip_witness:
  "\<exists>s d. serialize (portable_serializer block_sink_ops) example_type example_value (bs_make (replicate 64 0)) =
      Some (0, s) \<and>
    bs_done s = ser_message portable_format example_type example_value \<and>
    deserialize (portable_deserializer block_source_ops) example_type (default_value example_type)
      (block_source_of (bs_done s)) = Some (0, example_value, d) \<and>
    block_remaining d = []"
proof (rule portable_block_round_trip[OF example_storable typed_default])
  show "length (ser_message portable_format example_type example_value) \<le> length (replicate 64 (0 :: byte))"
    unfolding example_message by (simp add: bytes_of_def pb_terminator_def)
qed

theorem portable_stream_round_trip_witness:
  "(\<exists>out'. serialize (portable_serializer ostream_sink_ops) example_type example_value os_make = Some (0, out') \<and>
      os_content out' = append_top (os_content os_make) (ser_message portable_format example_type example_value)) \<and>
    (\<exists>inp'. deserialize (portable_deserializer istream_source_ops) example_type (default_value example_type)
        (istream_source_of (ser_message portable_format example_type example_value @ bytes_of ''<'')) =
          Some (0, example_value, inp') \<and> istream_rest inp' = bytes_of ''<'')"
  by (rule portable_stream_round_trip[OF example_storable typed_default]) (simp add: os_invar_def os_make_def)
section \<open>Values that are not read back\<close>

lemma empty_optional_rejected:
  "map_option fst (deserialize (portable_deserializer block_source_ops) (ValidIf (Plain TBool)) (Opt None)
     (block_source_of (ser_message portable_format (ValidIf (Plain TBool)) (Opt None)))) = Some unexpected_data"
proof -
  have msg: "ser_message portable_format (ValidIf (Plain TBool)) (Opt None) =
      bytes_of ''<'' @ count_text ''['' 0 @ (bytes_of '']>'' @ [0])"
    by (simp add: ser_message_def portable_format_def pb_terminator_def bytes_of_def)
  let ?s = "block_source_of (bytes_of ''<'' @ count_text ''['' 0 @ (bytes_of '']>'' @ [0]))"
  have "block_remaining ?s = bytes_of ''<'' @ count_text ''['' 0 @ (bytes_of '']>'' @ [0])"
    by (simp add: block_remaining_def block_source_of_def skip_eq_drop)
  from block_source.acceptsD[OF block_source.accepts_begin this] obtain s1 where
    s1: "pb_begin block_source_ops ?s = Some (0, s1)"
      "block_remaining s1 = count_text ''['' 0 @ (bytes_of '']>'' @ [0])" .
  from block_source.readsD[OF block_source.reads_count[of 0 _ 0] s1(2)] obtain s2 where
    s2: "pb_read_count block_source_ops ''['' 0 s1 = Some (0, 0, s2)" "block_remaining s2 = bytes_of '']>'' @ [0]"
    by auto
  have top: "top_string block_source_ops 1 s2 = (bytes_of '']'', s2)"
    using s2(2) by (simp add: top_string_def block_source_ops_def block_top_def block_remaining_def head_eq_take bytes_of_def)
  have pop: "block_remaining (block_pop (Suc 0) s2) = pb_terminator"
    using s2(2) block_source.pop[of "Suc 0" s2] by (simp add: block_source_ops_def bytes_of_def pb_terminator_def)
  from block_source.acceptsD[OF block_source.accepts_require, of "block_pop (Suc 0) s2" pb_terminator "[]"] pop
  obtain s3 where "require block_source_ops pb_terminator (block_pop (Suc 0) s2) = Some (0, s3)" by auto
  then show ?thesis
    using s1 s2 top unfolding msg
    by (simp add: deserialize_def portable_deserializer_def read_valid_if_def prim_read_def plain_read_def
      pb_read_bool_def consume_def require_def bytes_of_def block_source_ops_def Let_def)
qed

text \<open>
  Examples of what falls outside of the round trip: a value that does not fit and an empty span of
  plain values fail an assertion of \<^verbatim>\<open>plain_serializer\<close>, which expects \<^verbatim>\<open>too_much_data\<close>; the messages of the
  smallest number of a type, of an empty name and of an empty optional value are rejected.
\<close>

lemma portable_rejections:
  "serialize (portable_serializer block_sink_ops) (Plain TBool) (Prim (PBool True)) (bs_make [0]) = None"
  "serialize (portable_serializer ostream_sink_ops) (Vector (Plain TBool)) (Seq []) os_make = None"
  "map_option fst (serialize (portable_serializer ostream_sink_ops) (Plain (TSigned 8)) (Prim (PSigned 8 (- 128))) os_make) =
     Some 0"
  "map_option fst (deserialize (portable_deserializer block_source_ops) (Plain (TSigned 8)) (Prim (PSigned 8 0))
     (block_source_of (ser_message portable_format (Plain (TSigned 8)) (Prim (PSigned 8 (- 128)))))) =
     Some invalid_format"
  "map_option fst (deserialize (portable_deserializer block_source_ops) (Plain TName) (Prim (PName []))
     (block_source_of (ser_message portable_format (Plain TName) (Prim (PName []))))) =
     Some (not_enough_data OR invalid_format)"
  by code_simp+

end
