(* ===== verification/Edit_Distance.thy ===== *)
theory Edit_Distance
  imports Prelude
begin

text \<open>
  \<^verbatim>\<open>source/modules/eagine/memory/edit_distance.cpp\<close>: the edit distance of two spans, calculated in one
  column of the table of the distances of their prefixes. The result type is an integer that does
  not overflow.
\<close>

section \<open>The code\<close>

text \<open>One turn of the inner loop, on the column and the previous value on the diagonal.\<close>

definition edit_cell :: "int \<Rightarrow> nat \<Rightarrow> int list \<times> int \<Rightarrow> int list \<times> int" where
  "edit_cell distance y cp =
     (let (column, prev_diagonal) = cp;
          curr_diagonal = column ! y;
          prev_min = min (column ! y + 1) (column ! (y - 1) + 1);
          new_dist = prev_diagonal + distance
      in (column[y := min prev_min new_dist], curr_diagonal))"

definition edit_row :: "('a \<Rightarrow> 'a \<Rightarrow> int) \<Rightarrow> 'a list \<Rightarrow> 'a list \<Rightarrow> nat \<Rightarrow> int list \<Rightarrow> int list" where
  "edit_row get_distance s1 s2 x column =
     fst (fold (\<lambda>y. edit_cell (get_distance (s1 ! (y - 1)) (s2 ! (x - 1))) y) [1..<length s1 + 1]
       (column[0 := int x], int x - 1))"

definition basic_edit_distance :: "('a \<Rightarrow> 'a \<Rightarrow> int) \<Rightarrow> 'a list \<Rightarrow> 'a list \<Rightarrow> int" where
  "basic_edit_distance get_distance s1 s2 =
     fold (edit_row get_distance s1 s2) [1..<length s2 + 1] (map int [0..<length s1 + 1]) ! length s1"

definition default_edit_distance :: "'a list \<Rightarrow> 'a list \<Rightarrow> int" where
  "default_edit_distance s1 s2 = basic_edit_distance (\<lambda>e1 e2. if e1 = e2 then 0 else 1) s1 s2"

section \<open>The table of distances\<close>

fun prefix_distance :: "('a \<Rightarrow> 'a \<Rightarrow> int) \<Rightarrow> 'a list \<Rightarrow> 'a list \<Rightarrow> nat \<Rightarrow> nat \<Rightarrow> int" where
  "prefix_distance d s1 s2 0 j = int j"
| "prefix_distance d s1 s2 (Suc i) 0 = int (Suc i)"
| "prefix_distance d s1 s2 (Suc i) (Suc j) =
     min (min (prefix_distance d s1 s2 (Suc i) j + 1) (prefix_distance d s1 s2 i (Suc j) + 1))
       (prefix_distance d s1 s2 i j + d (s1 ! i) (s2 ! j))"

lemma prefix_distance_0 [simp]: "prefix_distance d s1 s2 i 0 = int i"
  by (cases i) auto

definition table_column :: "('a \<Rightarrow> 'a \<Rightarrow> int) \<Rightarrow> 'a list \<Rightarrow> 'a list \<Rightarrow> nat \<Rightarrow> int list" where
  "table_column d s1 s2 x = map (\<lambda>i. prefix_distance d s1 s2 i x) [0..<length s1 + 1]"

lemma length_table_column [simp]: "length (table_column d s1 s2 x) = length s1 + 1"
  by (simp add: table_column_def)

lemma nth_table_column [simp]: "i \<le> length s1 \<Longrightarrow> table_column d s1 s2 x ! i = prefix_distance d s1 s2 i x"
  by (simp add: table_column_def del: upt_Suc)

lemma edit_row_prefix:
  assumes "y \<le> length s1"
  shows "fold (\<lambda>y. edit_cell (d (s1 ! (y - 1)) (s2 ! x)) y) [1..<y + 1] ((table_column d s1 s2 x)[0 := int (Suc x)], int x) =
    (take (y + 1) (table_column d s1 s2 (Suc x)) @ drop (y + 1) (table_column d s1 s2 x), prefix_distance d s1 s2 y x)"
  using assms
proof (induction y)
  case 0
  have "(table_column d s1 s2 x)[0 := int (Suc x)] =
      take 1 (table_column d s1 s2 (Suc x)) @ drop 1 (table_column d s1 s2 x)"
    by (intro nth_equalityI) (auto simp: nth_list_update nth_append)
  then show ?case by simp
next
  case (Suc y)
  let ?c = "take (y + 1) (table_column d s1 s2 (Suc x)) @ drop (y + 1) (table_column d s1 s2 x)"
  have cells: "?c ! Suc y = prefix_distance d s1 s2 (Suc y) x" "?c ! y = prefix_distance d s1 s2 y (Suc x)"
    using Suc.prems by (simp_all add: nth_append)
  have "?c[Suc y := prefix_distance d s1 s2 (Suc y) (Suc x)] =
      take (Suc y + 1) (table_column d s1 s2 (Suc x)) @ drop (Suc y + 1) (table_column d s1 s2 x)"
    using Suc.prems by (intro nth_equalityI) (auto simp: nth_list_update nth_append min_def simp del: prefix_distance.simps
        intro!: arg_cong[where f = "\<lambda>i. prefix_distance d s1 s2 i x"])
  then show ?case
    using Suc.IH Suc.prems cells by (simp add: edit_cell_def)
qed

lemma edit_row_column: "edit_row d s1 s2 (Suc x) (table_column d s1 s2 x) = table_column d s1 s2 (Suc x)"
  using edit_row_prefix[of "length s1" s1 d s2 x] by (simp add: edit_row_def)

lemma basic_edit_distance_table: "basic_edit_distance d s1 s2 = prefix_distance d s1 s2 (length s1) (length s2)"
proof -
  have "fold (edit_row d s1 s2) [1..<n + 1] (map int [0..<length s1 + 1]) = table_column d s1 s2 n" for n
    by (induction n) (simp_all add: edit_row_column, simp add: table_column_def)
  then show ?thesis by (simp add: basic_edit_distance_def)
qed

section \<open>Edits\<close>

text \<open>
  Turning one list into another one, element by element from the front: removing or inserting an
  element costs one, replacing an element costs its distance to the new one.
\<close>

inductive edits :: "('a \<Rightarrow> 'a \<Rightarrow> int) \<Rightarrow> 'a list \<Rightarrow> 'a list \<Rightarrow> int \<Rightarrow> bool" for d where
  nothing: "edits d [] [] 0"
| removed: "edits d xs ys n \<Longrightarrow> edits d (xs @ [x]) ys (n + 1)"
| inserted: "edits d xs ys n \<Longrightarrow> edits d xs (ys @ [y]) (n + 1)"
| replaced: "edits d xs ys n \<Longrightarrow> edits d (xs @ [x]) (ys @ [y]) (n + d x y)"
lemma edits_prefixes:
  "i \<le> length s1 \<Longrightarrow> j \<le> length s2 \<Longrightarrow> edits d (take i s1) (take j s2) (prefix_distance d s1 s2 i j)"
proof (induction d s1 s2 i j rule: prefix_distance.induct)
  case (1 d s1 s2 j)
  then have "edits d [] (take j s2) (int j)"
  proof (induction j)
    case (Suc j)
    then show ?case
      using edits.inserted[of d "[]" "take j s2" "int j" "s2 ! j"] by (simp add: take_Suc_conv_app_nth add.commute)
  qed (simp add: edits.nothing)
  then show ?case by simp
next
  case (2 d s1 s2 i)
  then have "edits d (take k s1) [] (int k)" if "k \<le> Suc i" for k
    using that
  proof (induction k)
    case (Suc k)
    then show ?case
      using edits.removed[of d "take k s1" "[]" "int k" "s1 ! k"] by (simp add: take_Suc_conv_app_nth add.commute)
  qed (simp add: edits.nothing)
  from this[of "Suc i"] show ?case by simp
next
  case (3 d s1 s2 i j)
  have step: "take (Suc i) s1 = take i s1 @ [s1 ! i]" "take (Suc j) s2 = take j s2 @ [s2 ! j]"
    using 3(4,5) by (simp_all add: take_Suc_conv_app_nth)
  have "edits d (take (Suc i) s1) (take (Suc j) s2) (prefix_distance d s1 s2 (Suc i) j + 1)"
    using edits.inserted[OF 3(1)] 3(4,5) unfolding step(2) by simp
  moreover have "edits d (take (Suc i) s1) (take (Suc j) s2) (prefix_distance d s1 s2 i (Suc j) + 1)"
    using edits.removed[OF 3(2)] 3(4,5) unfolding step(1) by simp
  moreover have "edits d (take (Suc i) s1) (take (Suc j) s2) (prefix_distance d s1 s2 i j + d (s1 ! i) (s2 ! j))"
    using edits.replaced[OF 3(3)] 3(4,5) unfolding step by simp
  ultimately show ?case by (simp add: min_def)
qed

lemma prefix_distance_append:
  "i \<le> length xs \<Longrightarrow> j \<le> length ys \<Longrightarrow> prefix_distance d (xs @ us) (ys @ vs) i j = prefix_distance d xs ys i j"
  by (induction d xs ys i j rule: prefix_distance.induct) (simp_all add: nth_append)

lemmas prefix_distance_grown =
  prefix_distance_append[where us = "[]", simplified] prefix_distance_append[where vs = "[]", simplified]

lemma edits_lower_bound: "edits d xs ys n \<Longrightarrow> prefix_distance d xs ys (length xs) (length ys) \<le> n"
proof (induction rule: edits.induct)
  case (removed xs ys n x)
  then show ?case
    by (cases "length ys") (auto simp: prefix_distance_grown)
next
  case (inserted xs ys n y)
  then show ?case
    by (cases "length xs") (auto simp: prefix_distance_grown)
next
  case (replaced xs ys n x y)
  then show ?case
    by (auto simp: prefix_distance_append nth_append)
qed simp

lemma basic_edit_distance_least:
  "edits d s1 s2 (basic_edit_distance d s1 s2)" "edits d s1 s2 n \<Longrightarrow> basic_edit_distance d s1 s2 \<le> n"
  using edits_prefixes[of "length s1" s1 "length s2" s2 d] edits_lower_bound[of d s1 s2]
  by (simp_all add: basic_edit_distance_table)

text \<open>
  C36. The calculated distance is the least cost of any sequence of removals, insertions and
  replacements that turns the first span into the second, and one such sequence has this cost.
\<close>

theorem basic_edit_distance_minimal:
  "edits d s1 s2 (basic_edit_distance d s1 s2) \<and> (\<forall>n. edits d s1 s2 n \<longrightarrow> basic_edit_distance d s1 s2 \<le> n)"
  using basic_edit_distance_least by blast

theorem basic_edit_distance_minimal_witness:
  "edits (\<lambda>x y. if x = y then 0 else 1) ''kitten'' ''sitting'' 3 \<and>
   \<not> edits (\<lambda>x y. if x = y then 0 else 1) ''kitten'' ''sitting'' 2"
proof -
  have "basic_edit_distance (\<lambda>x y. if x = y then 0 else 1) ''kitten'' ''sitting'' = 3"
    by code_simp
  then show ?thesis
    using basic_edit_distance_minimal[of "\<lambda>x y. if x = y then 0 else 1" "''kitten''" "''sitting''"] by fastforce
qed

section \<open>The default distance is a metric\<close>

abbreviation discrete :: "'a \<Rightarrow> 'a \<Rightarrow> int" where
  "discrete \<equiv> \<lambda>e1 e2. if e1 = e2 then 0 else 1"

lemma edits_discrete_nonneg: "edits discrete xs ys n \<Longrightarrow> 0 \<le> n"
  by (induction rule: edits.induct) auto

lemma edits_discrete_zero: "edits discrete xs ys n \<Longrightarrow> n \<le> 0 \<Longrightarrow> xs = ys"
  by (induction rule: edits.induct) (auto dest: edits_discrete_nonneg split: if_splits)

lemma edits_refl: "edits discrete xs xs 0"
proof (induction xs rule: rev_induct)
  case (snoc x xs)
  then show ?case using edits.replaced[of discrete xs xs 0 x x] by simp
qed (rule edits.nothing)

lemma edits_discrete_sym: "edits discrete xs ys n \<Longrightarrow> edits discrete ys xs n"
proof (induction rule: edits.induct)
  case (replaced xs ys n x y)
  then show ?case using edits.replaced[of discrete ys xs n y x] by (simp add: eq_commute)
qed (auto intro: edits.intros)

text \<open>Edits one after the other are not cheaper than the best edits from the first to the last list.\<close>

lemma edits_compose:
  "edits discrete xs ys n \<Longrightarrow> edits discrete ys zs m \<Longrightarrow> \<exists>k \<le> n + m. edits discrete xs zs k"
proof (induction "length xs + length ys + length zs" arbitrary: xs ys zs n m rule: less_induct)
  case less
  show ?case
    using less.prems(2)
  proof cases
    case nothing
    then show ?thesis using less.prems(1) by auto
  next
    case (inserted zs' m' z)
    then obtain k where "k \<le> n + m'" "edits discrete xs zs' k"
      using less.hyps[of xs ys zs'] less.prems(1) by auto
    then show ?thesis using edits.inserted[of discrete xs zs' k z] inserted by (intro exI[of _ "k + 1"]) simp
  next
    case second: (removed ys' m' y)
    show ?thesis
      using less.prems(1)
    proof cases
      case (removed xs' n' x)
      then obtain k where "k \<le> n' + m" "edits discrete xs' zs k"
        using less.hyps[of xs' ys zs n' m] less.prems(2) by auto
      then show ?thesis using edits.removed[of discrete xs' zs k x] removed by (intro exI[of _ "k + 1"]) simp
    next
      case (inserted ys'' n' y')
      then obtain k where "k \<le> n' + m'" "edits discrete xs zs k"
        using less.hyps[of xs ys' zs n' m'] second by auto
      then show ?thesis using inserted second by (intro exI[of _ k]) simp
    next
      case (replaced xs' ys'' n' x y')
      then obtain k where "k \<le> n' + m'" "edits discrete xs' zs k"
        using less.hyps[of xs' ys' zs n' m'] second by auto
      then show ?thesis using edits.removed[of discrete xs' zs k x] replaced second by (intro exI[of _ "k + 1"]) simp
    qed (use second in simp)
  next
    case second: (replaced ys' zs' m' y z)
    show ?thesis
      using less.prems(1)
    proof cases
      case (removed xs' n' x)
      then obtain k where "k \<le> n' + m" "edits discrete xs' zs k"
        using less.hyps[of xs' ys zs n' m] less.prems(2) by auto
      then show ?thesis using edits.removed[of discrete xs' zs k x] removed by (intro exI[of _ "k + 1"]) simp
    next
      case (inserted ys'' n' y')
      then obtain k where "k \<le> n' + m'" "edits discrete xs zs' k"
        using less.hyps[of xs ys' zs' n' m'] second by auto
      then show ?thesis using edits.inserted[of discrete xs zs' k z] inserted second by (intro exI[of _ "k + 1"]) simp
    next
      case (replaced xs' ys'' n' x y')
      then obtain k where "k \<le> n' + m'" "edits discrete xs' zs' k"
        using less.hyps[of xs' ys' zs' n' m'] second by auto
      then show ?thesis using edits.replaced[of discrete xs' zs' k x z] replaced second by (intro exI[of _ "k + discrete x z"]) auto
    qed (use second in simp)
  qed
qed

text \<open>The length changes by at most one for each unit of cost, and replacing the common part and
  removing or inserting the rest is one way to edit.\<close>

lemma edits_length: "edits discrete xs ys n \<Longrightarrow> \<bar>int (length xs) - int (length ys)\<bar> \<le> n"
  by (induction rule: edits.induct) (auto split: if_splits)

lemma edits_removed_all: "edits discrete xs [] (int (length xs))"
proof (induction xs rule: rev_induct)
  case (snoc x xs)
  then show ?case using edits.removed[OF snoc, of x] by (simp add: add.commute)
qed (use edits.nothing in simp)

lemma edits_max: "\<exists>n \<le> int (max (length xs) (length ys)). edits discrete xs ys n"
proof (induction xs arbitrary: ys rule: rev_induct)
  case Nil
  show ?case using edits_discrete_sym[OF edits_removed_all[of ys]] by auto
next
  case (snoc x xs)
  note IH = snoc.IH
  show ?case
  proof (cases ys rule: rev_cases)
    case Nil
    then show ?thesis using edits_removed_all[of "xs @ [x]"] by auto
  next
    case (snoc us y)
    obtain n where "n \<le> int (max (length xs) (length us))" "edits discrete xs us n"
      using IH by blast
    then show ?thesis
      using edits.replaced[of discrete xs us n x y] snoc by (intro exI[of _ "n + discrete x y"]) auto
  qed
qed

text \<open>
  C37. The default distance is a metric: zero exactly between equal spans, the same in both
  directions, and not longer than the way over a third span. It is at least the difference of the
  lengths of the spans and at most the length of the longer one.
\<close>

theorem default_edit_distance_metric:
  "0 \<le> default_edit_distance s1 s2 \<and> (default_edit_distance s1 s2 = 0) = (s1 = s2) \<and>
   default_edit_distance s1 s2 = default_edit_distance s2 s1 \<and>
   default_edit_distance s1 s3 \<le> default_edit_distance s1 s2 + default_edit_distance s2 s3 \<and>
   \<bar>int (length s1) - int (length s2)\<bar> \<le> default_edit_distance s1 s2 \<and>
   default_edit_distance s1 s2 \<le> int (max (length s1) (length s2))"
proof (intro conjI)
  note least = basic_edit_distance_least[of discrete, folded default_edit_distance_def]
  show nonneg: "0 \<le> default_edit_distance s1 s2"
    using least(1) by (rule edits_discrete_nonneg)
  show "(default_edit_distance s1 s2 = 0) = (s1 = s2)"
    using edits_discrete_zero[OF least(1)[of s1 s2]] least(2)[OF edits_refl, of s1] nonneg by auto
  have "default_edit_distance xs ys \<le> default_edit_distance ys xs" for xs ys :: "'a list"
    by (rule least(2)[OF edits_discrete_sym[OF least(1)]])
  then show "default_edit_distance s1 s2 = default_edit_distance s2 s1"
    by (intro order_antisym)
  obtain k where "k \<le> default_edit_distance s1 s2 + default_edit_distance s2 s3" "edits discrete s1 s3 k"
    using edits_compose[OF least(1) least(1)] by blast
  then show "default_edit_distance s1 s3 \<le> default_edit_distance s1 s2 + default_edit_distance s2 s3"
    using least(2) by fastforce
  show "\<bar>int (length s1) - int (length s2)\<bar> \<le> default_edit_distance s1 s2"
    by (rule edits_length[OF least(1)])
  show "default_edit_distance s1 s2 \<le> int (max (length s1) (length s2))"
    using edits_max[of s1 s2] least(2) by fastforce
qed

end
