(* ===== verification/Small_Vector.thy ===== *)
theory Small_Vector
  imports Static_Vector
begin

text \<open>
  \<^verbatim>\<open>source/modules/eagine/container/small_vector.cpp\<close>: a vector that stores up to \<open>N\<close> elements in a
  static vector and moves them to a \<^verbatim>\<open>std::vector\<close> (a list here) when there are more. Undefined
  operations on a \<^verbatim>\<open>std::vector\<close> are \<open>None\<close>, like the failed assertions of the static vector. The
  arguments of an operation are not elements of the vector itself.
\<close>

datatype 'a small_vector = Small "'a static_vector" | Large "'a list"

definition smv_new :: "nat \<Rightarrow> 'a \<Rightarrow> 'a small_vector" where
  "smv_new N d = Small (sv_new N d)"

section \<open>Operations\<close>

text \<open>The elements of the static vector, from \<^verbatim>\<open>begin()\<close> to \<^verbatim>\<open>end()\<close>.\<close>

definition small_elements :: "'a static_vector \<Rightarrow> 'a list" where
  "small_elements v = take (sv_size v) (sv_array v)"

fun smv_size :: "'a small_vector \<Rightarrow> nat" where
  "smv_size (Small v) = sv_size v"
| "smv_size (Large xs) = length xs"

fun smv_max_size :: "nat \<Rightarrow> 'a small_vector \<Rightarrow> nat" where
  "smv_max_size vector_max_size (Small v) = sv_max_size v"
| "smv_max_size vector_max_size (Large xs) = vector_max_size"

definition smv_capacity :: "'a small_vector \<Rightarrow> nat" where
  "smv_capacity = smv_size"

fun smv_reserve :: "nat \<Rightarrow> 'a small_vector \<Rightarrow> 'a small_vector option" where
  "smv_reserve n (Small v) = (if n \<le> sv_max_size v then Some (Small v) else None)"
| "smv_reserve n (Large xs) = Some (Large xs)"

fun smv_resize :: "'a \<Rightarrow> nat \<Rightarrow> 'a small_vector \<Rightarrow> 'a small_vector option" where
  "smv_resize d n (Small v) =
     (if n \<le> sv_max_size v then map_option Small (sv_resize d n v)
      else Some (Large (let xs = small_elements v in take n xs @ replicate (n - length xs) d)))"
| "smv_resize d n (Large xs) = Some (Large (take n xs @ replicate (n - length xs) d))"

fun smv_empty :: "'a small_vector \<Rightarrow> bool" where
  "smv_empty (Small v) = sv_empty v"
| "smv_empty (Large xs) = (xs = [])"

fun smv_clear :: "'a \<Rightarrow> 'a small_vector \<Rightarrow> 'a small_vector" where
  "smv_clear d (Small v) = Small (sv_clear d v)"
| "smv_clear d (Large xs) = Large []"

fun smv_push_back :: "'a \<Rightarrow> 'a small_vector \<Rightarrow> 'a small_vector option" where
  "smv_push_back x (Small v) =
     (if sv_full v then Some (Large (small_elements v @ [x])) else map_option Small (sv_push_back x v))"
| "smv_push_back x (Large xs) = Some (Large (xs @ [x]))"

fun smv_pop_back :: "'a \<Rightarrow> 'a small_vector \<Rightarrow> 'a small_vector option" where
  "smv_pop_back d (Small v) = map_option Small (sv_pop_back d v)"
| "smv_pop_back d (Large xs) = (if xs \<noteq> [] then Some (Large (butlast xs)) else None)"

text \<open>Insertion into a list, at a position in it; the result is the position of the new elements.\<close>

definition large_insert :: "nat \<Rightarrow> 'a list \<Rightarrow> 'a list \<Rightarrow> (nat \<times> 'a small_vector) option" where
  "large_insert p ys xs = (if p \<le> length xs then Some (p, Large (take p xs @ ys @ drop p xs)) else None)"

fun smv_insert_range :: "nat \<Rightarrow> 'a list \<Rightarrow> 'a small_vector \<Rightarrow> (nat \<times> 'a small_vector) option" where
  "smv_insert_range p ys (Small v) =
     (if sv_size v + length ys > sv_max_size v then large_insert p ys (small_elements v)
      else map_option (\<lambda>(_, v). (p, Small v)) (sv_insert_range p ys v))"
| "smv_insert_range p ys (Large xs) = large_insert p ys xs"

fun smv_insert :: "nat \<Rightarrow> 'a \<Rightarrow> 'a small_vector \<Rightarrow> (nat \<times> 'a small_vector) option" where
  "smv_insert p x (Small v) =
     (if sv_full v then large_insert p [x] (small_elements v)
      else map_option (\<lambda>(_, v). (p, Small v)) (sv_insert p x v))"
| "smv_insert p x (Large xs) = large_insert p [x] xs"

fun smv_erase_range :: "'a \<Rightarrow> nat \<Rightarrow> nat \<Rightarrow> 'a small_vector \<Rightarrow> (nat \<times> 'a small_vector) option" where
  "smv_erase_range d i e (Small v) = map_option (\<lambda>(_, v). (i, Small v)) (sv_erase_range d i e v)"
| "smv_erase_range d i e (Large xs) =
     (if i \<le> e \<and> e \<le> length xs then Some (i, Large (vector_erase_range i e xs)) else None)"

fun smv_erase :: "'a \<Rightarrow> nat \<Rightarrow> 'a small_vector \<Rightarrow> (nat \<times> 'a small_vector) option" where
  "smv_erase d p (Small v) = map_option (\<lambda>(_, v). (p, Small v)) (sv_erase d p v)"
| "smv_erase d p (Large xs) = (if p < length xs then Some (p, Large (vector_erase p xs)) else None)"

fun smv_erase_if :: "'a \<Rightarrow> ('a \<Rightarrow> bool) \<Rightarrow> 'a small_vector \<Rightarrow> (nat \<times> 'a small_vector) option" where
  "smv_erase_if d P (Small v) = map_option (\<lambda>(n, v). (n, Small v)) (sv_erase_if d P v)"
| "smv_erase_if d P (Large xs) = Some (length (filter P xs), Large (filter (\<lambda>x. \<not> P x) xs))"

fun smv_front :: "'a small_vector \<Rightarrow> 'a option" where
  "smv_front (Small v) = sv_front v"
| "smv_front (Large xs) = (if xs \<noteq> [] then Some (hd xs) else None)"

fun smv_back :: "'a small_vector \<Rightarrow> 'a option" where
  "smv_back (Small v) = sv_back v"
| "smv_back (Large xs) = (if xs \<noteq> [] then Some (last xs) else None)"

fun smv_index :: "nat \<Rightarrow> 'a small_vector \<Rightarrow> 'a option" where
  "smv_index i (Small v) = sv_index i v"
| "smv_index i (Large xs) = (if i < length xs then Some (xs ! i) else None)"

text \<open>\<^verbatim>\<open>find\<close>: the position of the first element that is equal, if any.\<close>

fun list_find :: "'a \<Rightarrow> 'a list \<Rightarrow> nat option" where
  "list_find x [] = None"
| "list_find x (y # ys) = (if y = x then Some 0 else map_option Suc (list_find x ys))"

fun smv_find :: "'a \<Rightarrow> 'a small_vector \<Rightarrow> nat option" where
  "smv_find x (Small v) = list_find x (small_elements v)"
| "smv_find x (Large xs) = list_find x xs"

section \<open>The list it represents\<close>

fun smv_list :: "'a small_vector \<Rightarrow> 'a list" where
  "smv_list (Small v) = sv_list v"
| "smv_list (Large xs) = xs"

fun smv_invar :: "nat \<Rightarrow> 'a small_vector \<Rightarrow> bool" where
  "smv_invar N (Small v) = sv_invar N v"
| "smv_invar N (Large xs) = True"

primrec smv_step :: "'a \<Rightarrow> 'a vec_op \<Rightarrow> 'a small_vector \<Rightarrow> 'a small_vector option" where
  "smv_step d (Push_back x) v = smv_push_back x v"
| "smv_step d Pop_back v = smv_pop_back d v"
| "smv_step d (Insert_at p x) v = map_option snd (smv_insert p x v)"
| "smv_step d (Insert_range p ys) v = map_option snd (smv_insert_range p ys v)"
| "smv_step d (Erase_at p) v = map_option snd (smv_erase d p v)"
| "smv_step d (Erase_range i e) v = map_option snd (smv_erase_range d i e v)"
| "smv_step d (Erase_if P) v = map_option snd (smv_erase_if d P v)"
| "smv_step d Clear v = Some (smv_clear d v)"
| "smv_step d (Resize n) v = smv_resize d n v"

text \<open>The operations on a \<^verbatim>\<open>std::vector\<close>.\<close>

primrec list_step :: "'a \<Rightarrow> 'a vec_op \<Rightarrow> 'a list \<Rightarrow> 'a list option" where
  "list_step d (Push_back x) xs = Some (xs @ [x])"
| "list_step d Pop_back xs = (if xs \<noteq> [] then Some (butlast xs) else None)"
| "list_step d (Insert_at p x) xs = (if p \<le> length xs then Some (take p xs @ x # drop p xs) else None)"
| "list_step d (Insert_range p ys) xs = (if p \<le> length xs then Some (take p xs @ ys @ drop p xs) else None)"
| "list_step d (Erase_at p) xs = (if p < length xs then Some (take p xs @ drop (p + 1) xs) else None)"
| "list_step d (Erase_range i e) xs = (if i \<le> e \<and> e \<le> length xs then Some (take i xs @ drop e xs) else None)"
| "list_step d (Erase_if P) xs = Some (filter (\<lambda>x. \<not> P x) xs)"
| "list_step d Clear xs = Some []"
| "list_step d (Resize n) xs = Some (take n xs @ replicate (n - length xs) d)"

text \<open>What a small vector does to its list: the same, but the elements that \<^verbatim>\<open>resize\<close> adds are not
  specified, because the static storage does not reset them.\<close>

definition list_allows :: "'a \<Rightarrow> 'a vec_op \<Rightarrow> 'a list \<Rightarrow> 'a list option \<Rightarrow> bool" where
  "list_allows d op xs r \<longleftrightarrow>
     (case op of
        Resize n \<Rightarrow> (case r of None \<Rightarrow> False | Some ys \<Rightarrow> resized n xs ys)
      | _ \<Rightarrow> r = list_step d op xs)"

text \<open>The number of elements that an operation adds to \<open>m\<close> ones.\<close>

primrec op_growth :: "nat \<Rightarrow> 'a vec_op \<Rightarrow> nat" where
  "op_growth m (Push_back x) = 1"
| "op_growth m Pop_back = 0"
| "op_growth m (Insert_at p x) = 1"
| "op_growth m (Insert_range p ys) = length ys"
| "op_growth m (Erase_at p) = 0"
| "op_growth m (Erase_range i e) = 0"
| "op_growth m (Erase_if P) = 0"
| "op_growth m Clear = 0"
| "op_growth m (Resize n) = n - m"

lemma list_allows_step: "list_allows d op xs (list_step d op xs)"
  by (cases op) (auto simp: list_allows_def resized_def min_def)

lemma vec_spec_allowed:
  "op_growth (length xs) op \<le> length zs \<Longrightarrow> list_allows d op xs (map_option fst (vec_spec d op (xs, zs)))"
  by (cases op) (auto simp: list_allows_def resized_def min_def)

lemma smv_step_small:
  assumes "sv_invar N v" "length (sv_list v) + op_growth (length (sv_list v)) op \<le> N"
  shows "smv_step d op (Small v) = map_option Small (sv_step d op v)"
proof -
  have len: "length (sv_list v) = sv_size v" "sv_max_size v = N" "sv_size v \<le> N"
    using assms(1) length_sv_list by (auto simp: sv_invar_def sv_max_size_def)
  show ?thesis
    using assms(2) len by (cases op) (auto simp: sv_full_def option.map_comp comp_def case_prod_beta)
qed

lemma smv_step_large: "smv_step d op (Large xs) = map_option Large (list_step d op xs)"
  by (cases op) (auto simp: large_insert_def vector_erase_def vector_erase_range_def)

lemma smv_step_overflow:
  assumes "sv_invar N v" "N < length (sv_list v) + op_growth (length (sv_list v)) op"
  shows "smv_step d op (Small v) = smv_step d op (Large (sv_list v))"
proof -
  have len: "length (sv_list v) = sv_size v" "sv_max_size v = N" "sv_size v \<le> N"
    using assms(1) length_sv_list by (auto simp: sv_invar_def sv_max_size_def)
  have "small_elements v = sv_list v"
    by (simp add: small_elements_def sv_list_def)
  then show ?thesis
    using assms(2) len by (cases op) (auto simp: sv_full_def)
qed

text \<open>In the static storage an operation is the one of the static vector, otherwise that of the list.\<close>

lemma smv_step_cases:
  assumes "smv_invar N v"
  obtains (static) w where "v = Small w" "sv_invar N w" "smv_step d op v = map_option Small (sv_step d op w)"
      "op_growth (length (sv_list w)) op \<le> length (sv_spare w)"
    | (dynamic) "smv_step d op v = map_option Large (list_step d op (smv_list v))"
proof (cases v)
  case (Large xs)
  then show thesis using that(2) by (simp add: smv_step_large)
next
  case (Small w)
  then have w: "sv_invar N w" using assms by simp
  show thesis
  proof (cases "length (sv_list w) + op_growth (length (sv_list w)) op \<le> N")
    case True
    then show thesis
      using that(1)[OF Small w] smv_step_small[OF w True] sv_split(2)[OF w] by (simp add: Small)
  next
    case False
    then show thesis
      using that(2) smv_step_overflow[OF w, of op d] by (simp add: Small smv_step_large)
  qed
qed

interpretation small_vector: op_simulation "smv_invar N" smv_list "smv_step d" "list_allows d" for N d
proof
  fix v v' :: "'a small_vector" and op :: "'a vec_op"
  assume inv: "smv_invar N v"
  show "list_allows d op (smv_list v) (map_option smv_list (smv_step d op v))"
    using inv
  proof (cases rule: smv_step_cases[of N v d op])
    case (static w)
    have "map_option sv_abs (sv_step d op w) = vec_spec d op (sv_abs w)"
      using static_vector.simulates[OF static(2), of d op]
      by (cases "sv_step d op w"; cases "vec_spec d op (sv_abs w)") auto
    then have "map_option sv_list (sv_step d op w) = map_option fst (vec_spec d op (sv_list w, sv_spare w))"
      by (metis (no_types, lifting) fst_conv option.map_comp option.map_cong0 comp_apply sv_abs_def)
    then show ?thesis
      using vec_spec_allowed[OF static(4), of d] by (simp add: static(1) static(3)[unfolded static(1)] option.map_comp comp_def)
  next
    case dynamic
    then show ?thesis
      using list_allows_step[of d op "smv_list v"] by (simp add: option.map_comp comp_def option.map_ident)
  qed
  assume "smv_step d op v = Some v'"
  with inv show "smv_invar N v'"
  proof (cases rule: smv_step_cases[of N v d op])
    case (static w)
    then show ?thesis
      using static_vector.run_represents(2)[OF static(2), of d "[op]"] \<open>smv_step d op v = Some v'\<close>
      by (cases "sv_step d op w") auto
  next
    case dynamic
    then show ?thesis
      using \<open>smv_step d op v = Some v'\<close> by (cases "list_step d op (smv_list v)") auto
  qed
qed



text \<open>When \<^verbatim>\<open>resize\<close> leaves the static storage, the added elements are default values.\<close>

lemma smv_resize_overflow:
  assumes "sv_invar N v" "N < n"
  shows "smv_resize d n (Small v) = Some (Large (sv_list v @ replicate (n - length (sv_list v)) d))"
proof -
  have "length (sv_list v) \<le> N" "small_elements v = sv_list v" "sv_max_size v = N"
    using assms length_sv_list[OF assms(1)] by (auto simp: sv_invar_def sv_max_size_def small_elements_def sv_list_def)
  then show ?thesis
    using assms(2) by (simp add: Let_def)
qed

text \<open>What the accessors return, in terms of the list.\<close>

lemma smv_access:
  assumes "smv_invar N v"
  shows "smv_size v = length (smv_list v) \<and> smv_empty v = (smv_list v = []) \<and>
    smv_front v = (if smv_list v \<noteq> [] then Some (hd (smv_list v)) else None) \<and>
    smv_back v = (if smv_list v \<noteq> [] then Some (last (smv_list v)) else None) \<and>
    smv_index i v = (if i < length (smv_list v) then Some (smv_list v ! i) else None) \<and>
    smv_find x v = list_find x (smv_list v)"
proof (cases v)
  case (Small w)
  then have w: "sv_invar N w" using assms by simp
  then show ?thesis
    using length_sv_list[OF w] sv_empty_iff[OF w] nth_sv_list[OF w]
    by (auto simp: Small sv_front_def sv_back_def sv_index_def hd_conv_nth last_conv_nth small_elements_def
        sv_list_def sv_empty_def)
qed simp

text \<open>Reserving more than the static storage fails instead of leaving it.\<close>

theorem small_vector_reserve_fails: "N < n \<Longrightarrow> smv_reserve n (smv_new N d) = None"
  by (simp add: smv_new_def sv_new_def sv_max_size_def)

end
