(* ===== verification/Object_Pool.thy ===== *)
theory Object_Pool
  imports Small_Vector
begin

text \<open>
  \<^verbatim>\<open>source/modules/eagine/container/object_pool.cpp\<close>: objects behind unique pointers in a small vector,
  each with a flag that says if it is in use. An object is its address, the heap has its contents;
  a new object gets an address that has not been used before. As \<open>Small_Vector\<close> shows that a small
  vector behaves as a list, the storage is a list here. \<open>d\<close> stands for \<^verbatim>\<open>Object()\<close>.
\<close>

record 'v object_pool =
  pool_storage :: "(nat \<times> bool) list"
  pool_count :: u64
  pool_heap :: "nat \<Rightarrow> 'v option"
  pool_next :: nat

definition pool_new :: "'v object_pool" where
  "pool_new = \<lparr>pool_storage = [], pool_count = 0, pool_heap = Map.empty, pool_next = 0\<rparr>"

text \<open>\<^verbatim>\<open>std::find_if\<close>\<close>

fun find_if_pos :: "('a \<Rightarrow> bool) \<Rightarrow> 'a list \<Rightarrow> nat" where
  "find_if_pos P [] = 0"
| "find_if_pos P (x # xs) = (if P x then 0 else Suc (find_if_pos P xs))"

definition pool_find_unused :: "'v object_pool \<Rightarrow> nat" where
  "pool_find_unused p = find_if_pos (\<lambda>node. \<not> snd node) (pool_storage p)"

text \<open>The new node at the end, with a new object.\<close>

definition pool_emplace :: "'v \<Rightarrow> 'v object_pool \<Rightarrow> 'v object_pool" where
  "pool_emplace v p =
     p\<lparr>pool_storage := pool_storage p @ [(pool_next p, True)], pool_heap := (pool_heap p)(pool_next p \<mapsto> v),
       pool_next := pool_next p + 1\<rparr>"

definition pool_set_flag :: "nat \<Rightarrow> bool \<Rightarrow> 'v object_pool \<Rightarrow> 'v object_pool" where
  "pool_set_flag pos used p =
     p\<lparr>pool_storage := (pool_storage p)[pos := (fst (pool_storage p ! pos), used)]\<rparr>"

definition pool_write :: "nat \<Rightarrow> 'v \<Rightarrow> 'v object_pool \<Rightarrow> 'v object_pool" where
  "pool_write a v p = p\<lparr>pool_heap := (pool_heap p)(a \<mapsto> v)\<rparr>"

definition pool_make :: "'v \<Rightarrow> 'v object_pool \<Rightarrow> nat \<times> 'v object_pool" where
  "pool_make v p =
     (let pos = pool_find_unused p;
          p = (if pos = length (pool_storage p) then pool_emplace v p
               else pool_set_flag pos True (pool_write (fst (pool_storage p ! pos)) v p));
          p = p\<lparr>pool_count := pool_count p + 1\<rparr>
      in (fst (pool_storage p ! pos), p))"

definition pool_get :: "'v \<Rightarrow> 'v object_pool \<Rightarrow> nat \<times> 'v object_pool" where
  "pool_get d p =
     (let pos = pool_find_unused p;
          p = (if pos = length (pool_storage p) then pool_emplace d p else pool_set_flag pos True p);
          p = p\<lparr>pool_count := pool_count p + 1\<rparr>
      in (fst (pool_storage p ! pos), p))"

text \<open>Erasing the nodes that are not in use destroys their objects.\<close>

definition pool_erase_unused :: "'v object_pool \<Rightarrow> 'v object_pool" where
  "pool_erase_unused p =
     p\<lparr>pool_storage := filter snd (pool_storage p),
       pool_heap := (\<lambda>a. if (a, False) \<in> set (pool_storage p) then None else pool_heap p a)\<rparr>"

definition pool_eat :: "nat \<Rightarrow> 'v object_pool \<Rightarrow> bool \<times> 'v object_pool" where
  "pool_eat a p =
     (let pos = find_if_pos (\<lambda>node. a = fst node) (pool_storage p)
      in if pos = length (pool_storage p) then (False, p)
         else let p = pool_set_flag pos False p;
                  p = p\<lparr>pool_count := pool_count p - 1\<rparr>
              in (True, if pool_count p * 2 \<le> word_of_nat (length (pool_storage p)) then pool_erase_unused p else p))"

definition pool_eat_pointer :: "nat option \<Rightarrow> 'v object_pool \<Rightarrow> bool \<times> 'v object_pool" where
  "pool_eat_pointer obj p = (case obj of Some a \<Rightarrow> pool_eat a p | None \<Rightarrow> (False, p))"

definition pool_is_empty :: "'v object_pool \<Rightarrow> bool" where
  "pool_is_empty p = (pool_count p = 0)"

definition pool_size :: "'v object_pool \<Rightarrow> u64" where
  "pool_size p = pool_count p"

definition pool_capacity :: "'v object_pool \<Rightarrow> nat" where
  "pool_capacity p = length (pool_storage p)"

text \<open>\<^verbatim>\<open>pool_object\<close>: the object it holds, which it gives back at its end. Its pool is the only one here.\<close>

type_synonym pool_object = "nat option"

definition pool_get_object :: "'v \<Rightarrow> 'v object_pool \<Rightarrow> pool_object \<times> 'v object_pool" where
  "pool_get_object d p = (let (a, p) = pool_get d p in (Some a, p))"

definition pool_object_end :: "pool_object \<Rightarrow> 'v object_pool \<Rightarrow> 'v object_pool" where
  "pool_object_end h p = (if h \<noteq> None then snd (pool_eat_pointer h p) else p)"

definition pool_object_move :: "pool_object \<Rightarrow> pool_object \<times> pool_object" where
  "pool_object_move temp = (temp, None)"

definition pool_object_assign :: "pool_object \<Rightarrow> pool_object \<Rightarrow> pool_object \<times> pool_object" where
  "pool_object_assign h temp = (temp, h)"

section \<open>Objects in use\<close>

definition pool_live :: "'v object_pool \<Rightarrow> nat \<Rightarrow> 'v option" where
  "pool_live p a = (if (a, True) \<in> set (pool_storage p) then pool_heap p a else None)"

definition pool_invar :: "'v object_pool \<Rightarrow> bool" where
  "pool_invar p =
     (distinct (map fst (pool_storage p)) \<and> (\<forall>a \<in> fst ` set (pool_storage p). a < pool_next p) \<and>
      dom (pool_heap p) = fst ` set (pool_storage p) \<and>
      pool_count p = word_of_nat (length (filter snd (pool_storage p))))"

lemma pool_live_count [simp]: "pool_live (p\<lparr>pool_count := c\<rparr>) = pool_live p"
  by (simp add: pool_live_def fun_eq_iff)

lemma pool_write_live:
  "pool_live (pool_write a v p) = (if (a, True) \<in> set (pool_storage p) then (pool_live p)(a \<mapsto> v) else pool_live p)"
  by (auto simp: pool_live_def pool_write_def fun_eq_iff)

lemma pool_write_invar: "pool_invar p \<Longrightarrow> a \<in> dom (pool_heap p) \<Longrightarrow> pool_invar (pool_write a v p)"
  by (auto simp: pool_invar_def pool_write_def)

lemma find_if_pos_le: "find_if_pos P xs \<le> length xs"
  by (induction xs) auto

lemma find_if_pos_found: "find_if_pos P xs \<noteq> length xs \<Longrightarrow> find_if_pos P xs < length xs \<and> P (xs ! find_if_pos P xs)"
  by (induction xs) (auto split: if_splits)

lemma find_if_pos_end: "find_if_pos P xs = length xs \<longleftrightarrow> (\<forall>x \<in> set xs. \<not> P x)"
  by (induction xs) auto

lemma pool_new_invar: "pool_invar pool_new" "pool_live pool_new = Map.empty"
  by (auto simp: pool_invar_def pool_new_def pool_live_def)

lemma pool_emplace_result:
  assumes "pool_invar p"
  shows "pool_invar (pool_emplace v p\<lparr>pool_count := pool_count p + 1\<rparr>)"
    "pool_live (pool_emplace v p) = (pool_live p)(pool_next p \<mapsto> v)" "pool_live p (pool_next p) = None"
proof -
  have fresh: "(pool_next p, b) \<notin> set (pool_storage p)" for b
    using assms unfolding pool_invar_def by force
  show "pool_invar (pool_emplace v p\<lparr>pool_count := pool_count p + 1\<rparr>)"
    using assms fresh by (force simp: pool_invar_def pool_emplace_def less_Suc_eq)
  show "pool_live (pool_emplace v p) = (pool_live p)(pool_next p \<mapsto> v)" "pool_live p (pool_next p) = None"
    using fresh by (auto simp: pool_live_def pool_emplace_def fun_eq_iff)
qed

text \<open>Changing the flag of a node: the nodes before and behind it stay as they are.\<close>

lemma pool_split:
  assumes "pos < length xs"
  obtains l r where "xs = l @ xs ! pos # r" "length l = pos" "xs[pos := y] = l @ y # r"
  using assms id_take_nth_drop[of pos xs] upd_conv_take_nth_drop[of pos xs y] by simp

lemma pool_reuse_result:
  assumes inv: "pool_invar p" and pos: "pos < length (pool_storage p)" "pool_storage p ! pos = (a, False)"
  shows "pool_invar (pool_set_flag pos True p\<lparr>pool_count := pool_count p + 1\<rparr>)"
    "pool_live (pool_set_flag pos True p) = (pool_live p)(a := pool_heap p a)" "pool_live p a = None"
    "a \<in> dom (pool_heap p)"
proof -
  obtain l r where s: "pool_storage p = l @ (a, False) # r" "(pool_storage p)[pos := (a, True)] = l @ (a, True) # r"
    by (rule pool_split[OF pos(1), of "(a, True)"]) (simp add: pos(2))
  have "distinct (map fst (pool_storage p))"
    using inv by (simp add: pool_invar_def)
  then have "a \<notin> fst ` set l \<union> fst ` set r"
    by (simp add: s(1))
  then have a: "(a, b) \<notin> set l \<union> set r" for b
    by (metis Un_iff fst_conv image_eqI)
  show "pool_invar (pool_set_flag pos True p\<lparr>pool_count := pool_count p + 1\<rparr>)"
    using inv unfolding pool_invar_def pool_set_flag_def by (simp add: pos(2) s(2)) (simp add: s(1))
  show "pool_live (pool_set_flag pos True p) = (pool_live p)(a := pool_heap p a)" "pool_live p a = None"
    using a by (auto simp: pool_live_def pool_set_flag_def fun_eq_iff pos(2) s(2)) (auto simp: s(1))
  show "a \<in> dom (pool_heap p)"
    using inv unfolding pool_invar_def s(1) by auto
qed
lemma pool_make_get_result:
  assumes inv: "pool_invar p"
  shows "pool_make v p = (a, p') \<Longrightarrow> pool_live p a = None \<and> pool_live p' = (pool_live p)(a \<mapsto> v) \<and> pool_invar p'"
    and "pool_get d p = (a, p') \<Longrightarrow>
      pool_live p a = None \<and> (\<exists>v. pool_live p' = (pool_live p)(a \<mapsto> v)) \<and> pool_invar p'"
proof -
  let ?pos = "pool_find_unused p"
  note emplaced = pool_emplace_result[OF inv]
  show "pool_live p a = None \<and> pool_live p' = (pool_live p)(a \<mapsto> v) \<and> pool_invar p'" if make: "pool_make v p = (a, p')"
  proof (cases "?pos = length (pool_storage p)")
    case True
    then have "a = pool_next p" "p' = pool_emplace v p\<lparr>pool_count := pool_count p + 1\<rparr>"
      using make by (auto simp: pool_make_def Let_def pool_emplace_def)
    then show ?thesis using emplaced(1,2)[of v] emplaced(3) by simp
  next
    case False
    then have pos: "?pos < length (pool_storage p)" "pool_storage p ! ?pos = (fst (pool_storage p ! ?pos), False)"
      using find_if_pos_found[of "\<lambda>node. \<not> snd node" "pool_storage p"]
      by (auto simp: pool_find_unused_def prod_eq_iff)
    let ?a = "fst (pool_storage p ! ?pos)"
    let ?q = "pool_write ?a v p"
    note reused = pool_reuse_result[OF inv pos]
    have dom: "?a \<in> dom (pool_heap p)" by (rule reused(4))
    then have "pool_invar ?q"
      using pool_write_invar[OF inv] by simp
    moreover have live: "pool_live ?q = pool_live p"
      using reused(3) dom by (auto simp: pool_write_live pool_live_def)
    moreover have same: "pool_storage ?q = pool_storage p" "pool_count ?q = pool_count p" "pool_heap ?q ?a = Some v"
      by (simp_all add: pool_write_def)
    moreover have "a = ?a" "p' = pool_set_flag ?pos True ?q\<lparr>pool_count := pool_count p + 1\<rparr>"
      using make False pos(1) by (auto simp: pool_make_def Let_def pool_set_flag_def pool_write_def)
    ultimately show ?thesis
      using pool_reuse_result[of ?q ?pos ?a] pos by simp
  qed
  show "pool_live p a = None \<and> (\<exists>v. pool_live p' = (pool_live p)(a \<mapsto> v)) \<and> pool_invar p'" if get: "pool_get d p = (a, p')"
  proof (cases "?pos = length (pool_storage p)")
    case True
    then have "a = pool_next p" "p' = pool_emplace d p\<lparr>pool_count := pool_count p + 1\<rparr>"
      using get by (auto simp: pool_get_def Let_def pool_emplace_def)
    then show ?thesis using emplaced(1,2)[of d] emplaced(3) by auto
  next
    case False
    then have pos: "?pos < length (pool_storage p)" "pool_storage p ! ?pos = (fst (pool_storage p ! ?pos), False)"
      using find_if_pos_found[of "\<lambda>node. \<not> snd node" "pool_storage p"]
      by (auto simp: pool_find_unused_def prod_eq_iff)
    moreover have "a = fst (pool_storage p ! ?pos)" "p' = pool_set_flag ?pos True p\<lparr>pool_count := pool_count p + 1\<rparr>"
      using get False pos(1) by (auto simp: pool_get_def Let_def pool_set_flag_def)
    ultimately show ?thesis
      using pool_reuse_result[OF inv pos] by auto
  qed
qed

lemma pool_flag_off_result:
  assumes inv: "pool_invar p" and pos: "pos < length (pool_storage p)" "pool_storage p ! pos = (a, True)"
  shows "pool_invar (pool_set_flag pos False p\<lparr>pool_count := pool_count p - 1\<rparr>)"
    "pool_live (pool_set_flag pos False p) = (pool_live p)(a := None)"
proof -
  obtain l r where s: "pool_storage p = l @ (a, True) # r" "(pool_storage p)[pos := (a, False)] = l @ (a, False) # r"
    by (rule pool_split[OF pos(1), of "(a, False)"]) (simp add: pos(2))
  have "distinct (map fst (pool_storage p))"
    using inv by (simp add: pool_invar_def)
  then have "a \<notin> fst ` set l \<union> fst ` set r"
    by (simp add: s(1))
  then have a: "(a, b) \<notin> set l \<union> set r" for b
    by (metis Un_iff fst_conv image_eqI)
  show "pool_invar (pool_set_flag pos False p\<lparr>pool_count := pool_count p - 1\<rparr>)"
    using inv unfolding pool_invar_def pool_set_flag_def by (simp add: pos(2) s(2)) (simp add: s(1))
  show "pool_live (pool_set_flag pos False p) = (pool_live p)(a := None)"
    using a by (auto simp: pool_live_def pool_set_flag_def fun_eq_iff pos(2) s(2)) (auto simp: s(1))
qed

lemma in_fst_flags: "a \<in> fst ` set xs \<longleftrightarrow> (a, True) \<in> set xs \<or> (a, False) \<in> set xs"
  by (induction xs) auto

lemma in_fst_filter: "a \<in> fst ` set (filter snd xs) \<longleftrightarrow> (a, True) \<in> set xs"
  by (induction xs) auto

lemma pool_erase_unused_result:
  assumes "pool_invar p"
  shows "pool_invar (pool_erase_unused p)" "pool_live (pool_erase_unused p) = pool_live p"
proof -
  have d: "distinct (map fst (pool_storage p))"
    using assms by (simp add: pool_invar_def)
  have excl: "(a, False) \<in> set (pool_storage p) \<Longrightarrow> (a, True) \<in> set (pool_storage p) \<Longrightarrow> False" for a
    using eq_key_imp_eq_value[OF d] by blast
  have dom: "dom (pool_heap p) = fst ` set (pool_storage p)"
    using assms by (simp add: pool_invar_def)
  have "a \<in> dom (pool_heap (pool_erase_unused p)) \<longleftrightarrow> (a, True) \<in> set (pool_storage p)" for a
  proof -
    have "a \<in> dom (pool_heap p) \<longleftrightarrow> (a, True) \<in> set (pool_storage p) \<or> (a, False) \<in> set (pool_storage p)"
      unfolding dom by (rule in_fst_flags)
    then show ?thesis
      using excl[of a] by (auto simp: pool_erase_unused_def)
  qed
  then have "dom (pool_heap (pool_erase_unused p)) = fst ` set (filter snd (pool_storage p))"
    unfolding set_eq_iff in_fst_filter by blast
  then show "pool_invar (pool_erase_unused p)"
    using assms unfolding pool_invar_def by (auto simp: pool_erase_unused_def distinct_map_filter comp_def)
  show "pool_live (pool_erase_unused p) = pool_live p"
    using excl by (auto simp: pool_live_def pool_erase_unused_def fun_eq_iff)
qed

lemma pool_eat_result:
  assumes inv: "pool_invar p" and live: "pool_live p a \<noteq> None"
  shows "\<exists>p'. pool_eat a p = (True, p') \<and> pool_invar p' \<and> pool_live p' = (pool_live p)(a := None)"
proof -
  let ?pos = "find_if_pos (\<lambda>node. a = fst node) (pool_storage p)"
  have mem: "(a, True) \<in> set (pool_storage p)"
    using live by (simp add: pool_live_def split: if_splits)
  have ne: "?pos \<noteq> length (pool_storage p)"
    unfolding find_if_pos_end using mem by (intro notI) (drule (1) bspec, simp)
  from find_if_pos_found[OF this] have pos: "?pos < length (pool_storage p)" "a = fst (pool_storage p ! ?pos)"
    by simp_all
  moreover have "distinct (map fst (pool_storage p))"
    using inv by (simp add: pool_invar_def)
  ultimately have at: "pool_storage p ! ?pos = (a, True)"
    using mem nth_mem[OF pos(1)] eq_key_imp_eq_value[of "pool_storage p" a]
    by (cases "pool_storage p ! ?pos") auto
  let ?q = "pool_set_flag ?pos False p\<lparr>pool_count := pool_count p - 1\<rparr>"
  have q: "pool_invar ?q" "pool_live ?q = (pool_live p)(a := None)"
    using pool_flag_off_result[OF inv pos(1) at] by simp_all
  show ?thesis
    using ne q pool_erase_unused_result[OF q(1)]
    by (auto simp: pool_eat_def Let_def pool_set_flag_def)
qed

lemma pool_size_live:
  assumes "pool_invar p"
  shows "pool_size p = word_of_nat (card (dom (pool_live p)))"
proof -
  have d: "distinct (map fst (filter snd (pool_storage p)))"
    using assms by (simp add: pool_invar_def distinct_map_filter)
  have "dom (pool_heap p) = fst ` set (pool_storage p)"
    using assms by (simp add: pool_invar_def)
  then have "dom (pool_live p) = fst ` set (filter snd (pool_storage p))"
    unfolding set_eq_iff in_fst_filter in_fst_flags by (auto simp: pool_live_def dom_def split: if_splits)
  then have "card (dom (pool_live p)) = length (filter snd (pool_storage p))"
    using distinct_card[OF d] by simp
  then show ?thesis
    using assms by (simp add: pool_size_def pool_invar_def)
qed

section \<open>Clients of the pool\<close>

text \<open>
  The states a pool can be in, with the objects its clients hold and what they have written to
  them: they take objects, write to those they hold, and give back only those.
\<close>

inductive pool_reach :: "'v \<Rightarrow> 'v object_pool \<Rightarrow> (nat \<Rightarrow> 'v option) \<Rightarrow> bool" for d where
  pool_start: "pool_reach d pool_new Map.empty"
| pool_makes: "pool_reach d p m \<Longrightarrow> pool_make v p = (a, p') \<Longrightarrow> pool_reach d p' (m(a \<mapsto> v))"
| pool_gets: "pool_reach d p m \<Longrightarrow> pool_get d p = (a, p') \<Longrightarrow> pool_reach d p' (m(a := pool_heap p' a))"
| pool_writes: "pool_reach d p m \<Longrightarrow> m a \<noteq> None \<Longrightarrow> pool_reach d (pool_write a v p) (m(a \<mapsto> v))"
| pool_eats: "pool_reach d p m \<Longrightarrow> m a \<noteq> None \<Longrightarrow> pool_eat a p = (r, p') \<Longrightarrow> pool_reach d p' (m(a := None))"

lemma pool_reach_invar: "pool_reach d p m \<Longrightarrow> pool_invar p \<and> pool_live p = m"
proof (induction rule: pool_reach.induct)
  case (pool_gets p m a p')
  then obtain v where v: "pool_live p' = m(a \<mapsto> v)" "pool_invar p'"
    using pool_make_get_result(2)[of p d a p'] by auto
  then have "pool_live p' a = Some v" by simp
  then have "pool_heap p' a = Some v"
    by (simp add: pool_live_def split: if_splits)
  then show ?case using v by simp
next
  case (pool_writes p m a v)
  then have "(a, True) \<in> set (pool_storage p)" "a \<in> dom (pool_heap p)"
    by (auto simp: pool_live_def split: if_splits)
  then show ?case
    using pool_writes pool_write_invar[of p a v] pool_write_live[of a v p] by simp
next
  case (pool_eats p m a r p')
  then show ?case using pool_eat_result[of p a] by auto
next
  case (pool_makes p m v a p')
  then show ?case using pool_make_get_result(1)[of p v a p'] by simp
qed (simp add: pool_new_invar)

text \<open>
  C39. In every state that clients can reach, the objects they hold have the contents they wrote,
  an object that is handed out is not one they hold, giving one back succeeds, and the size is the
  number of objects they hold.
\<close>

theorem object_pool_safety:
  assumes "pool_reach d p m"
  shows "(\<forall>a v. m a = Some v \<longrightarrow> pool_heap p a = Some v \<and> fst (pool_eat a p)) \<and>
    (\<forall>v. m (fst (pool_make v p)) = None) \<and> m (fst (pool_get d p)) = None \<and>
    pool_size p = word_of_nat (card (dom m))"
proof -
  have p: "pool_invar p" "pool_live p = m"
    using pool_reach_invar[OF assms] by simp_all
  have "pool_heap p a = Some v \<and> fst (pool_eat a p)" if "m a = Some v" for a v
    using pool_eat_result[OF p(1), of a] that p(2) by (auto simp: pool_live_def split: if_splits)
  moreover have "m (fst (pool_make v p)) = None" for v
    using pool_make_get_result(1)[OF p(1)] p(2) by (metis prod.collapse)
  moreover have "m (fst (pool_get d p)) = None"
    using pool_make_get_result(2)[OF p(1)] p(2) by (metis prod.collapse)
  ultimately show ?thesis
    using pool_size_live[OF p(1)] p(2) by simp
qed
theorem object_pool_safety_witness:
  "\<exists>p m. pool_reach (0 :: nat) p m \<and> m 1 = Some 7 \<and> pool_heap p 1 = Some 7 \<and> fst (pool_eat 1 p) \<and>
    m (fst (pool_get 0 p)) = None \<and> pool_size p = word_of_nat (card (dom m))"
proof -
  let ?p = "snd (pool_eat 0 (snd (pool_make 7 (snd (pool_make (5 :: nat) pool_new)))))"
  have "pool_reach 0 (snd (pool_make 5 pool_new)) (Map.empty(0 \<mapsto> 5))"
    by (rule pool_makes[OF pool_start]) (simp add: prod_eq_iff, code_simp)
  then have "pool_reach 0 (snd (pool_make 7 (snd (pool_make 5 pool_new)))) ((Map.empty(0 \<mapsto> 5))(1 \<mapsto> 7))"
    by (rule pool_makes) (simp add: prod_eq_iff, code_simp)
  then have reach: "pool_reach 0 ?p (((Map.empty(0 \<mapsto> 5))(1 \<mapsto> 7))(0 := None))"
    by (rule pool_eats[where r = True]) (simp, simp add: prod_eq_iff, code_simp)
  show ?thesis
    using object_pool_safety[OF reach] reach by (intro exI[of _ ?p] exI[of _ "((Map.empty(0 \<mapsto> 5))(1 \<mapsto> 7))(0 := None)"]) simp
qed

text \<open>
  Giving an object back a second time: the count goes below the number of objects in use, and
  wraps around when those are given back.
\<close>

theorem object_pool_eaten_twice:
  "pool_size (snd (pool_eat 0 (snd (pool_eat 0 (snd (pool_make 3 (snd (pool_make 2 (snd (pool_make 1 pool_new))))))))))
     = (1 :: u64) \<and>
   pool_size (snd (pool_eat 2 (snd (pool_eat 1 (snd (pool_eat 0 (snd (pool_eat 0
     (snd (pool_make 3 (snd (pool_make 2 (snd (pool_make (1 :: nat) pool_new)))))))))))))) = 2 ^ 64 - 1"
  by code_simp

end
