(* ===== verification/String_Path.thy ===== *)
theory String_Path
  imports String_List
begin

text \<open>
  \<^verbatim>\<open>source/modules/eagine/string/path.cpp\<close>: paths, which are string lists with the number of their
  elements. A failed assertion is \<open>None\<close>, as are the failures of the string list. \<^verbatim>\<open>operator[]\<close> is left out: the
  reference it returns points into an iterator that ends its life with the call.
\<close>

record string_path =
  path_size :: int
  path_str :: "byte list"

definition path_new :: string_path where
  "path_new = \<lparr>path_size = 0, path_str = []\<rparr>"

definition path_of :: "byte list \<times> nat \<Rightarrow> string_path" where
  "path_of init = \<lparr>path_size = int (snd init), path_str = fst init\<rparr>"

definition path_split_by :: "byte list \<Rightarrow> byte list \<Rightarrow> string_path option" where
  "path_split_by str sep = map_option path_of (split str sep)"

definition slash :: "byte list" where
  "slash = [47]"

definition path_from_string :: "byte list \<Rightarrow> string_path option" where
  "path_from_string str = path_split_by str slash"

definition path_append :: "string_path \<Rightarrow> string_path \<Rightarrow> string_path" where
  "path_append a b = \<lparr>path_size = path_size a + path_size b, path_str = path_str a @ path_str b\<rparr>"

definition path_is_empty :: "string_path \<Rightarrow> bool option" where
  "path_is_empty p = (if (path_size p = 0) = (path_str p = []) then Some (path_str p = []) else None)"

definition path_clear :: "string_path \<Rightarrow> string_path" where
  "path_clear p = p\<lparr>path_size := 0, path_str := []\<rparr>"

definition path_has_size :: "int \<Rightarrow> string_path \<Rightarrow> bool" where
  "path_has_size s p = (path_size p = s)"

definition path_required_bytes :: "nat \<Rightarrow> nat option" where
  "path_required_bytes l =
     (let n = required_sequence_length (word_of_nat l) in if len_valid n then Some (l + 2 * n) else None)"

section \<open>Comparison\<close>

text \<open>\<^verbatim>\<open>std::string::compare\<close>; only the sign of its result is specified.\<close>

fun string_compare :: "byte list \<Rightarrow> byte list \<Rightarrow> int" where
  "string_compare [] [] = 0"
| "string_compare [] (y # ys) = - 1"
| "string_compare (x # xs) [] = 1"
| "string_compare (x # xs) (y # ys) = (if x < y then - 1 else if y < x then 1 else string_compare xs ys)"

definition path_compare :: "string_path \<Rightarrow> string_path \<Rightarrow> int" where
  "path_compare p q = string_compare (path_str p) (path_str q)"

definition path_equal :: "string_path \<Rightarrow> string_path \<Rightarrow> bool" where
  "path_equal p q = (path_size p = path_size q \<and> path_str p = path_str q)"

lemma string_compare_zero: "string_compare xs ys = 0 \<longleftrightarrow> xs = ys"
  by (induction xs ys rule: string_compare.induct) auto

lemma string_compare_swap: "string_compare ys xs = - string_compare xs ys"
  by (induction xs ys rule: string_compare.induct) auto

lemma string_compare_trans: "string_compare xs ys < 0 \<Longrightarrow> string_compare ys zs < 0 \<Longrightarrow> string_compare xs zs < 0"
proof (induction xs ys arbitrary: zs rule: string_compare.induct)
  case (2 y ys)
  then show ?case by (cases zs) auto
next
  case (4 x xs y ys)
  then show ?case by (cases zs) (auto split: if_splits)
qed auto

section \<open>Matching\<close>

definition elements_match :: "byte list \<Rightarrow> byte list \<Rightarrow> bool" where
  "elements_match elem patt = (elem = patt \<or> patt = [42])"

text \<open>
  The loop over two paths: whether all pairs of elements match, and the position in the pattern
  where it ends.
\<close>

partial_function (option) path_match_loop ::
    "byte list \<Rightarrow> byte list \<Rightarrow> list_iterator \<Rightarrow> list_iterator \<Rightarrow> (bool \<times> list_iterator) option" where
  "path_match_loop ts ps tp pp =
     (if tp \<noteq> li_end ts \<and> pp \<noteq> li_end ps
      then Option.bind (li_deref ts tp) (\<lambda>(t, tp).
           Option.bind (li_deref ps pp) (\<lambda>(p, pp).
             if elements_match t p
             then Option.bind (li_inc ts tp) (\<lambda>tp. Option.bind (li_inc ps pp) (\<lambda>pp. path_match_loop ts ps tp pp))
             else Some (False, pp)))
      else Some (True, pp))"

declare path_match_loop.simps [code]

definition path_like :: "string_path \<Rightarrow> string_path \<Rightarrow> bool option" where
  "path_like p pattern =
     (if path_size p \<noteq> path_size pattern then Some False
      else map_option fst (path_match_loop (path_str p) (path_str pattern) li_begin li_begin))"

definition path_starts_with :: "string_path \<Rightarrow> string_path \<Rightarrow> bool option" where
  "path_starts_with p pattern =
     map_option (\<lambda>(matched, pp). matched \<and> pp = li_end (path_str pattern))
       (path_match_loop (path_str p) (path_str pattern) li_begin li_begin)"

section \<open>Elements\<close>

definition path_front :: "string_path \<Rightarrow> byte list option" where
  "path_front p = Option.bind (path_is_empty p) (\<lambda>e. if \<not> e then front_value (path_str p) else None)"

definition path_back :: "string_path \<Rightarrow> byte list option" where
  "path_back p = Option.bind (path_is_empty p) (\<lambda>e. if \<not> e then back_value (path_str p) else None)"

definition path_starts_with_entry :: "byte list \<Rightarrow> string_path \<Rightarrow> bool option" where
  "path_starts_with_entry entry p =
     Option.bind (path_is_empty p) (\<lambda>e. if e then Some False else map_option (\<lambda>v. v = entry) (path_front p))"

definition path_ends_with_entry :: "byte list \<Rightarrow> string_path \<Rightarrow> bool option" where
  "path_ends_with_entry entry p =
     Option.bind (path_is_empty p) (\<lambda>e. if e then Some False else map_option (\<lambda>v. v = entry) (path_back p))"

definition path_is :: "byte list \<Rightarrow> string_path \<Rightarrow> bool option" where
  "path_is entry p = (if path_size p = 1 then map_option (\<lambda>v. v = entry) (path_back p) else Some False)"

function path_fix :: "byte list \<Rightarrow> byte list" where
  "path_fix str = (if str \<noteq> [] \<and> last str = 0 then path_fix (butlast str) else str)"
  by pat_completeness auto
termination by (relation "measure length") auto

declare path_fix.simps [simp del]

definition path_push_back :: "byte list \<Rightarrow> string_path \<Rightarrow> string_path option" where
  "path_push_back name p =
     map_option (\<lambda>str. \<lparr>path_size = path_size p + 1, path_str = str\<rparr>) (push_back (path_str p) (path_fix name))"

definition path_push_back_elem :: "byte list \<Rightarrow> string_path \<Rightarrow> string_path" where
  "path_push_back_elem elem p = \<lparr>path_size = path_size p + 1, path_str = path_str p @ elem\<rparr>"

definition path_pop_back :: "string_path \<Rightarrow> string_path option" where
  "path_pop_back p =
     Option.bind (path_is_empty p) (\<lambda>e.
       if \<not> e then map_option (\<lambda>str. \<lparr>path_size = path_size p - 1, path_str = str\<rparr>) (pop_back (path_str p))
       else None)"

text \<open>The loop of \<^verbatim>\<open>parent\<close>, whose condition looks at the path itself and not at the result.\<close>

fun path_parent_loop :: "string_path \<Rightarrow> nat \<Rightarrow> string_path \<Rightarrow> string_path option" where
  "path_parent_loop p 0 result = Some result"
| "path_parent_loop p (Suc n) result =
     Option.bind (path_is_empty p) (\<lambda>e.
       if e then Some result else Option.bind (path_pop_back result) (path_parent_loop p n))"

definition path_parent :: "int \<Rightarrow> string_path \<Rightarrow> string_path option" where
  "path_parent n p = path_parent_loop p (nat n) p"

fun path_push_all :: "byte list list \<Rightarrow> string_path \<Rightarrow> string_path option" where
  "path_push_all [] p = Some p"
| "path_push_all (name # names) p = Option.bind (path_push_back name p) (path_push_all names)"

definition path_init :: "byte list list \<Rightarrow> string_path option" where
  "path_init names =
     (let len = 2 * length names + sum_list (map length names)
      in Option.bind (path_push_all names path_new) (\<lambda>p. if length (path_str p) = len then Some p else None))"

definition path_of_pack :: "byte list list \<Rightarrow> string_path option" where
  "path_of_pack names = path_init (map path_fix names)"

definition path_for_each :: "string_path \<Rightarrow> byte list list option" where
  "path_for_each p = for_each (path_str p)"

definition path_rev_for_each :: "string_path \<Rightarrow> byte list list option" where
  "path_rev_for_each p = rev_for_each (path_str p)"

definition path_as_string_sep :: "byte list \<Rightarrow> bool \<Rightarrow> string_path \<Rightarrow> byte list option" where
  "path_as_string_sep sep trail_sep p = join_trailing (path_str p) sep trail_sep"

definition path_as_string :: "string_path \<Rightarrow> byte list option" where
  "path_as_string p = path_as_string_sep slash False p"

section \<open>The list of elements\<close>

definition path_values :: "string_path \<Rightarrow> byte list list \<Rightarrow> bool" where
  "path_values p vs = (list_all small vs \<and> p = \<lparr>path_size = int (length vs), path_str = string_list vs\<rparr>)"

lemma string_list_empty: "list_all small vs \<Longrightarrow> string_list vs = [] \<longleftrightarrow> vs = []"
proof (cases vs)
  case (Cons v us)
  moreover assume "list_all small vs"
  ultimately show ?thesis using mb.framed_nonempty[of v] by auto
qed simp

lemma path_is_empty_values: "path_values p vs \<Longrightarrow> path_is_empty p = Some (vs = [])"
  using string_list_empty[of vs] by (auto simp: path_values_def path_is_empty_def)

text \<open>One step of an iterator.\<close>

lemma li_step_framed:
  assumes "small v"
  shows "li_deref (pre @ mb.framed v @ post) \<lparr>li_pos = int (length pre), li_tmp = []\<rparr> =
      Some (v, \<lparr>li_pos = int (length pre), li_tmp = v\<rparr>)"
    and "li_inc (pre @ mb.framed v @ post) \<lparr>li_pos = int (length pre), li_tmp = tmp\<rparr> =
      Some \<lparr>li_pos = int (length (pre @ mb.framed v)), li_tmp = []\<rparr>"
    and "\<lparr>li_pos = int (length pre), li_tmp = []\<rparr> \<noteq> li_end (pre @ mb.framed v @ post)"
proof -
  note read = li_read_framed[OF assms, of pre "v @ lcode v @ post"]
  show "li_deref (pre @ mb.framed v @ post) \<lparr>li_pos = int (length pre), li_tmp = []\<rparr> =
      Some (v, \<lparr>li_pos = int (length pre), li_tmp = v\<rparr>)"
    using read by (simp add: li_deref_def li_update_def framed_eq Let_def)
  show "li_inc (pre @ mb.framed v @ post) \<lparr>li_pos = int (length pre), li_tmp = tmp\<rparr> =
      Some \<lparr>li_pos = int (length (pre @ mb.framed v)), li_tmp = []\<rparr>"
    using read by (simp add: li_inc_def framed_eq Let_def)
  show "\<lparr>li_pos = int (length pre), li_tmp = []\<rparr> \<noteq> li_end (pre @ mb.framed v @ post)"
    using mb.framed_nonempty[OF assms] by (simp add: li_end_def)
qed

lemma li_end_here: "\<lparr>li_pos = int (length pre), li_tmp = []\<rparr> = li_end pre"
  by (simp add: li_end_def)

lemma path_match_loop_result:
  assumes "list_all small vs" "list_all small ws"
  shows "\<exists>pp. path_match_loop (pre @ string_list vs) (pre' @ string_list ws)
      \<lparr>li_pos = int (length pre), li_tmp = []\<rparr> \<lparr>li_pos = int (length pre'), li_tmp = []\<rparr> =
    Some (list_all2 elements_match (take (length ws) vs) (take (length vs) ws), pp) \<and>
    (list_all2 elements_match (take (length ws) vs) (take (length vs) ws) \<longrightarrow>
       (pp = li_end (pre' @ string_list ws)) = (length ws \<le> length vs))"
  using assms
proof (induction vs arbitrary: ws pre pre')
  case Nil
  show ?case
  proof (cases ws)
    case Nil
    then show ?thesis by (subst path_match_loop.simps) (simp add: li_end_here)
  next
    case (Cons w ws')
    then show ?thesis
      using Nil.prems li_step_framed(3)[of w pre' "string_list ws'"]
      by (subst path_match_loop.simps) (simp add: li_end_here)
  qed
next
  case (Cons v vs)
  show ?case
  proof (cases ws)
    case Nil
    then show ?thesis by (subst path_match_loop.simps) (simp add: li_end_here)
  next
    case ws: (Cons w ws')
    have small: "small v" "small w" "list_all small vs" "list_all small ws'"
      using Cons.prems ws by auto
    note v = li_step_framed[OF small(1), of pre "string_list vs"]
    note w = li_step_framed[OF small(2), of pre' "string_list ws'"]
    show ?thesis
    proof (cases "elements_match v w")
      case True
      have "path_match_loop (pre @ string_list (v # vs)) (pre' @ string_list ws)
          \<lparr>li_pos = int (length pre), li_tmp = []\<rparr> \<lparr>li_pos = int (length pre'), li_tmp = []\<rparr> =
        path_match_loop ((pre @ mb.framed v) @ string_list vs) ((pre' @ mb.framed w) @ string_list ws')
          \<lparr>li_pos = int (length (pre @ mb.framed v)), li_tmp = []\<rparr>
          \<lparr>li_pos = int (length (pre' @ mb.framed w)), li_tmp = []\<rparr>"
        using v w True by (subst path_match_loop.simps) (simp add: ws)
      then show ?thesis
        using Cons.IH[OF small(3,4), of "pre @ mb.framed v" "pre' @ mb.framed w"] True by (simp add: ws)
    next
      case False
      then show ?thesis
        using v w by (subst path_match_loop.simps) (simp add: ws)
    qed
  qed
qed

lemma path_like_values:
  assumes "path_values p vs" "path_values q ws"
  shows "path_like p q = Some (list_all2 elements_match vs ws)"
  using path_match_loop_result[of vs ws "[]" "[]"] assms
  by (cases "length vs = length ws")
    (auto simp: path_values_def path_like_def li_begin_def dest: list_all2_lengthD)

lemma path_starts_with_values:
  assumes "path_values p vs" "path_values q ws"
  shows "path_starts_with p q = Some (length ws \<le> length vs \<and> list_all2 elements_match (take (length ws) vs) ws)"
proof -
  obtain pp where "path_match_loop (path_str p) (path_str q) li_begin li_begin =
      Some (list_all2 elements_match (take (length ws) vs) (take (length vs) ws), pp)"
      "list_all2 elements_match (take (length ws) vs) (take (length vs) ws) \<longrightarrow>
        (pp = li_end (path_str q)) = (length ws \<le> length vs)"
    using path_match_loop_result[of vs ws "[]" "[]"] assms by (auto simp: path_values_def li_begin_def)
  then show ?thesis by (auto simp: path_starts_with_def)
qed

lemma path_fix_result: "path_fix str = rev (dropWhile (\<lambda>b. b = 0) (rev str))"
proof (induction str rule: path_fix.induct)
  case (1 str)
  then show ?case
    by (subst path_fix.simps) (cases str rule: rev_cases; simp)
qed

lemma path_fix_id: "str = [] \<or> last str \<noteq> 0 \<Longrightarrow> path_fix str = str"
  by (subst path_fix.simps) auto

lemma path_push_back_values:
  assumes "path_values p vs" "small (path_fix name)"
  shows "\<exists>p'. path_push_back name p = Some p' \<and> path_values p' (vs @ [path_fix name])"
  using push_back_eq[OF assms(2), of "string_list vs"] assms
  by (auto simp: path_push_back_def path_values_def add.commute)

lemma path_pop_back_values:
  assumes "path_values p (vs @ [v])"
  shows "\<exists>p'. path_pop_back p = Some p' \<and> path_values p' vs"
proof -
  have small: "list_all small (vs @ [v])" using assms by (simp add: path_values_def)
  have "String_List.pop_back (string_list (vs @ [v])) = Some (string_list vs)"
    using string_list_both_ends[OF small] by simp
  then show ?thesis
    using assms path_is_empty_values[OF assms] small by (auto simp: path_pop_back_def path_values_def)
qed

lemma path_ends_values:
  assumes "path_values p vs" "vs \<noteq> []"
  shows "path_front p = Some (hd vs)" "path_back p = Some (last vs)"
proof -
  obtain us u where vs: "vs = us @ [u]" using assms(2) by (cases vs rule: rev_cases) auto
  have small: "list_all small (us @ [u])" using assms(1) by (simp add: path_values_def vs)
  show "path_front p = Some (hd vs)" "path_back p = Some (last vs)"
    using string_list_both_ends[OF small] path_is_empty_values[OF assms(1)] assms(1)
    by (simp_all add: path_front_def path_back_def path_values_def vs del: string_list_simps)
qed

lemma path_append_values: "path_values p vs \<Longrightarrow> path_values q ws \<Longrightarrow> path_values (path_append p q) (vs @ ws)"
  by (simp add: path_values_def path_append_def)

lemma path_for_each_values:
  assumes "path_values p vs"
  shows "path_for_each p = Some vs" "path_rev_for_each p = Some (rev vs)"
proof -
  have small: "list_all small vs" using assms by (simp add: path_values_def)
  show "path_for_each p = Some vs"
    using for_each_elem_framed[OF small] element_values_framed[OF small] assms
    by (simp add: path_for_each_def for_each_def path_values_def)
  have "element_values (rev (map mb.framed vs)) = Some (rev vs)"
    using element_values_framed[of "rev vs"] small by (simp add: rev_map list_all_iff)
  then show "path_rev_for_each p = Some (rev vs)"
    using rev_for_each_elem_from_framed[OF small, of "[]"] assms
    by (simp add: path_rev_for_each_def rev_for_each_def rev_for_each_elem_def path_values_def)
qed

lemma path_parent_loop_values:
  assumes "path_values p vs" "vs \<noteq> []" "path_values q ws"
  shows "if n \<le> length ws then \<exists>q'. path_parent_loop p n q = Some q' \<and> path_values q' (take (length ws - n) ws)
    else path_parent_loop p n q = None"
  using assms(3)
proof (induction n arbitrary: q ws)
  case (Suc n)
  show ?case
  proof (cases ws rule: rev_cases)
    case Nil
    have "path_pop_back q = None"
      using path_is_empty_values[OF Suc.prems] Nil by (simp add: path_pop_back_def)
    then show ?thesis
      using path_is_empty_values[OF assms(1)] assms(2) Nil by simp
  next
    case (snoc us u)
    then obtain q' where q': "path_pop_back q = Some q'" "path_values q' us"
      using path_pop_back_values Suc.prems by blast
    then show ?thesis
      using path_is_empty_values[OF assms(1)] assms(2) Suc.IH[OF q'(2)] by (auto simp: snoc)
  qed
qed simp

lemma lcode_length_one: "small v \<Longrightarrow> length (lcode v) = 1 \<longleftrightarrow> length v < 127"
proof -
  assume small: "small v"
  have u: "unat (word_of_nat (length v) :: u32) = length v"
    using small by (simp add: unat_of_nat take_bit_nat_eq_self)
  have bounds: "required_sequence_length (word_of_nat (length v)) = 1 \<longleftrightarrow> length v < 127"
    by (simp add: required_sequence_length_def max_code_point_def word_less_nat_alt u)
  show ?thesis using bounds by simp
qed

lemma lcode_length_pos: "small v \<Longrightarrow> 1 \<le> length (lcode v)"
  using mb.enc_nonempty[of "length v"] by (cases "lcode v") auto

lemma length_codes:
  assumes "list_all small names"
  shows "2 * length names \<le> sum_list (map (\<lambda>v. 2 * length (lcode v)) names) \<and>
    (sum_list (map (\<lambda>v. 2 * length (lcode v)) names) = 2 * length names \<longleftrightarrow> list_all (\<lambda>n. length n < 127) names)"
  using assms
proof (induction names)
  case (Cons n names)
  then have small: "small n" and IH:
    "2 * length names \<le> sum_list (map (\<lambda>v. 2 * length (lcode v)) names)"
    "sum_list (map (\<lambda>v. 2 * length (lcode v)) names) = 2 * length names \<longleftrightarrow> list_all (\<lambda>n. length n < 127) names"
    by simp_all
  have sum: "sum_list (map (\<lambda>v. 2 * length (lcode v)) (n # names)) =
      2 * length (lcode n) + sum_list (map (\<lambda>v. 2 * length (lcode v)) names)" by simp
  show ?case
    unfolding sum using IH lcode_length_one[OF small] lcode_length_pos[OF small]
    by (cases "length n < 127") (auto simp del: length_map)
qed simp

lemma path_push_all_values:
  assumes "path_values p vs" "list_all (\<lambda>n. small (path_fix n)) names"
  shows "\<exists>p'. path_push_all names p = Some p' \<and> path_values p' (vs @ map path_fix names)"
  using assms
proof (induction names arbitrary: p vs)
  case (Cons n names)
  then obtain p1 where "path_push_back n p = Some p1" "path_values p1 (vs @ [path_fix n])"
    using path_push_back_values by (metis list.pred_inject(2))
  then show ?case using Cons.IH[of p1 "vs @ [path_fix n]"] Cons.prems(2) by auto
qed simp

lemma length_string_list:
  "length (string_list vs) = sum_list (map (\<lambda>v. 2 * length (lcode v)) vs) + sum_list (map length vs)"
  by (induction vs) (auto simp: framed_eq)

lemma path_new_values: "path_values path_new []"
  by (simp add: path_values_def path_new_def)

section \<open>Properties\<close>

text \<open>The encoding of a path determines its elements.\<close>

lemma string_list_inject:
  assumes "list_all small vs" "list_all small ws" "string_list vs = string_list ws"
  shows "vs = ws"
proof -
  let ?p = "\<lambda>us. \<lparr>path_size = int (length us), path_str = string_list us\<rparr>"
  have "path_values (?p vs) vs" "path_values (?p ws) ws"
    using assms(1,2) by (simp_all add: path_values_def)
  then have "path_for_each (?p vs) = Some vs" "path_for_each (?p ws) = Some ws"
    by (simp_all add: path_for_each_values)
  then show ?thesis
    using assms(3) by (simp add: path_for_each_def)
qed

lemma path_compare_values:
  assumes "path_values p vs" "path_values q ws"
  shows "path_equal p q = (vs = ws)" "(path_compare p q = 0) = (vs = ws)" "path_compare q p = - path_compare p q"
proof -
  have "path_str p = path_str q \<longleftrightarrow> vs = ws"
    using assms string_list_inject by (auto simp: path_values_def)
  then show "path_equal p q = (vs = ws)" "(path_compare p q = 0) = (vs = ws)"
    using assms by (auto simp: path_equal_def path_compare_def string_compare_zero path_values_def)
  show "path_compare q p = - path_compare p q"
    by (simp add: path_compare_def string_compare_swap[of "path_str q"])
qed

text \<open>
  C40. Paths implement lists of strings: elements are appended (without trailing zeros), removed and
  accessed at both ends, paths are concatenated, visited in both directions, compared, and matched
  against patterns, element by element, where an asterisk matches every element.
\<close>

theorem string_path_refines_list:
  assumes p: "path_values p vs" and q: "path_values q ws" and name: "small (path_fix name)"
  shows "(\<exists>p'. path_push_back name p = Some p' \<and> path_values p' (vs @ [rev (dropWhile (\<lambda>b. b = 0) (rev name))])) \<and>
    (vs \<noteq> [] \<longrightarrow> path_front p = Some (hd vs) \<and> path_back p = Some (last vs) \<and>
      (\<exists>p'. path_pop_back p = Some p' \<and> path_values p' (butlast vs))) \<and>
    (vs = [] \<longrightarrow> path_front p = None \<and> path_back p = None \<and> path_pop_back p = None) \<and>
    path_values (path_append p q) (vs @ ws) \<and>
    path_for_each p = Some vs \<and> path_rev_for_each p = Some (rev vs) \<and>
    path_equal p q = (vs = ws) \<and> (path_compare p q = 0) = (vs = ws) \<and>
    path_compare q p = - path_compare p q \<and>
    path_like p q = Some (list_all2 elements_match vs ws) \<and>
    path_starts_with p q = Some (length ws \<le> length vs \<and> list_all2 elements_match (take (length ws) vs) ws)"
proof -
  have "\<exists>p'. path_pop_back p = Some p' \<and> path_values p' (butlast vs)" if "vs \<noteq> []"
    using path_pop_back_values[of p "butlast vs" "last vs"] p that by simp
  moreover have "path_front p = None \<and> path_back p = None \<and> path_pop_back p = None" if "vs = []"
    using path_is_empty_values[OF p] that by (simp add: path_front_def path_back_def path_pop_back_def)
  ultimately show ?thesis
    using path_push_back_values[OF p name] path_ends_values[OF p] path_compare_values[OF p q]
      path_append_values[OF p q] path_for_each_values[OF p] path_like_values[OF p q]
      path_starts_with_values[OF p q]
    by (simp add: path_fix_result)
qed

lemma path_values_of: "list_all small vs \<Longrightarrow> path_values \<lparr>path_size = int (length vs), path_str = string_list vs\<rparr> vs"
  by (simp add: path_values_def)

theorem string_path_refines_list_witness:
  "path_like \<lparr>path_size = 2, path_str = string_list [[1], [2, 3]]\<rparr> \<lparr>path_size = 2, path_str = string_list [[1], [42]]\<rparr> =
     Some True \<and>
   path_compare \<lparr>path_size = 2, path_str = string_list [[1], [2, 3]]\<rparr> \<lparr>path_size = 2, path_str = string_list [[1], [42]]\<rparr> \<noteq> 0"
proof -
  have fixed: "path_fix [5, 0] = [5]"
    by (simp add: path_fix_result)
  have "path_values \<lparr>path_size = 2, path_str = string_list [[1], [2, 3]]\<rparr> [[1], [2, 3]]"
    "path_values \<lparr>path_size = 2, path_str = string_list [[1], [42]]\<rparr> [[1], [42]]"
    using path_values_of[of "[[1], [2, 3]]"] path_values_of[of "[[1], [42]]"] by simp_all
  from string_path_refines_list[OF this, of "[5, 0]"] show ?thesis
    by (simp add: fixed elements_match_def del: string_list_simps)
qed

text \<open>A string becomes a path by splitting at slashes, and the path gives the string back.\<close>

lemma path_of_string:
  assumes "small str"
  shows "\<exists>p v vs. path_from_string str = Some p \<and> path_values p (v # vs) \<and>
    str = v @ concat (map (\<lambda>v. slash @ v) vs) \<and> path_as_string p = Some str"
proof -
  obtain v vs where vs: "split str slash = Some (string_list (v # vs), length (v # vs))" "list_all small (v # vs)"
      "str = v @ concat (map (\<lambda>v. slash @ v) vs)"
    using split_values[of slash str] assms by (auto simp: slash_def simp del: string_list_simps)
  let ?p = "\<lparr>path_size = int (length (v # vs)), path_str = string_list (v # vs)\<rparr>"
  have "path_from_string str = Some ?p" "path_values ?p (v # vs)" "path_as_string ?p = Some str"
    using join_string_list[OF vs(2), of slash False] vs
    by (auto simp: path_from_string_def path_split_by_def path_of_def path_as_string_def path_as_string_sep_def
        path_values_def simp del: string_list_simps)
  then show ?thesis using vs(3) by blast
qed

text \<open>
  \<^verbatim>\<open>parent\<close> gives the path without its last elements when there are as many, the empty path for
  the empty path, and otherwise fails the assertion of \<^verbatim>\<open>pop_back\<close> on the copy, because the loop
  tests the path itself.
\<close>

theorem string_path_parent:
  assumes "path_values p vs"
  shows "if vs = [] then path_parent n p = Some p
    else if nat n \<le> length vs then \<exists>q. path_parent n p = Some q \<and> path_values q (take (length vs - nat n) vs)
    else path_parent n p = None"
proof (cases "vs = []")
  case True
  have "path_parent_loop p k p = Some p" for k
    using path_is_empty_values[OF assms] True by (cases k) simp_all
  then show ?thesis using True by (simp add: path_parent_def)
next
  case False
  then show ?thesis
    using path_parent_loop_values[OF assms False assms, of "nat n"] by (simp add: path_parent_def)
qed

text \<open>
  The constructor from names expects one byte for each length: it succeeds for names of less than
  127 characters without trailing zeros, and its assertion fails when one of them is longer.
\<close>

theorem string_path_init:
  assumes "list_all (\<lambda>n. small n \<and> (n = [] \<or> last n \<noteq> 0)) names"
  shows "if list_all (\<lambda>n. length n < 127) names then \<exists>p. path_init names = Some p \<and> path_values p names
    else path_init names = None"
proof -
  have fixed: "map path_fix names = names" "list_all (\<lambda>n. small (path_fix n)) names" "list_all small names"
    using assms path_fix_id by (auto simp: list_all_iff intro!: map_idI)
  obtain p where p: "path_push_all names path_new = Some p" "path_values p names"
    using path_push_all_values[OF path_new_values fixed(2)] fixed(1) by auto
  then have str: "length (path_str p) = sum_list (map (\<lambda>v. 2 * length (lcode v)) names) + sum_list (map length names)"
    by (simp add: path_values_def length_string_list)
  have "sum_list (map (\<lambda>v. 2 * length (lcode v)) names) = 2 * length names \<longleftrightarrow> list_all (\<lambda>n. length n < 127) names"
    using length_codes[OF fixed(3)] by simp
  then show ?thesis
    using p str by (auto simp: path_init_def Let_def)
qed

theorem string_path_init_witness:
  "path_init [[1], replicate 127 7] = None \<and> (\<exists>p. path_init [[1], [2]] = Some p \<and> path_values p [[1], [2]])"
  using string_path_init[of "[[1], replicate 127 7]"] string_path_init[of "[[1], [2]]"] by simp

end
