(* ===== verification/Simd.thy ===== *)
theory Simd
  imports Prelude
begin

text \<open>
  \<^verbatim>\<open>source/modules/eagine/simd/ops.cpp\<close> and \<^verbatim>\<open>types/simd_data.cpp\<close>: the vectors of \<open>N\<close> numbers under
  the vectors, matrices and quaternions of \<open>Vector_Math\<close>. A \<^verbatim>\<open>data_t<T, N, V>\<close> is a list of length
  \<open>N\<close>; the argument \<open>simd\<close> says if the compiler has a vector type for it, which selects other code
  for the sums. The numbers are of any type with the operations and laws that a statement asks for:
  words of machine integers are rings. The rounding of floating point numbers is not modelled.
\<close>

section \<open>Elementwise operations\<close>

definition simd_fill :: "nat \<Rightarrow> 'a \<Rightarrow> 'a list" where
  "simd_fill N v = replicate N v"

definition data_neg :: "'a::uminus list \<Rightarrow> 'a list" where
  "data_neg a = map uminus a"

definition data_add :: "'a::plus list \<Rightarrow> 'a list \<Rightarrow> 'a list" where
  "data_add a b = map2 (+) a b"

definition data_sub :: "'a::minus list \<Rightarrow> 'a list \<Rightarrow> 'a list" where
  "data_sub a b = map2 (-) a b"

definition data_mul :: "'a::times list \<Rightarrow> 'a list \<Rightarrow> 'a list" where
  "data_mul a b = map2 (*) a b"

definition simd_sdiv :: "'a::divide list \<Rightarrow> 'a list \<Rightarrow> 'a list" where
  "simd_sdiv a b = map2 (div) a b"

text \<open>
  Division is that of a field or of unsigned integers. \<^verbatim>\<open>is_zero\<close> is the loop; for vectors of integers
  the code has a shortcut with functions of one compiler, which is left out.
\<close>

definition simd_is_zero :: "'a::zero list \<Rightarrow> bool" where
  "simd_is_zero v = foldl (\<lambda>result i. result \<and> v ! i = 0) True [0..<length v]"

lemmas data_defs = simd_fill_def data_neg_def data_add_def data_sub_def data_mul_def simd_sdiv_def

lemma data_length [simp]:
  "length (simd_fill N (v :: 'f)) = N" "length (data_neg (a :: 'n::uminus list)) = length a"
  "length b = length c \<Longrightarrow> length (data_add b (c :: 'p::plus list)) = length b"
  "length d = length e \<Longrightarrow> length (data_sub d (e :: 'm::minus list)) = length d"
  "length f = length g \<Longrightarrow> length (data_mul f (g :: 't::times list)) = length f"
  "length h = length k \<Longrightarrow> length (simd_sdiv h (k :: 'd::divide list)) = length h"
  by (simp_all add: data_defs)

lemma data_nth [simp]:
  "i < N \<Longrightarrow> simd_fill N (v :: 'f) ! i = v" "i < length a \<Longrightarrow> data_neg (a :: 'n::uminus list) ! i = - a ! i"
  "i < length b \<Longrightarrow> i < length c \<Longrightarrow> data_add b (c :: 'p::plus list) ! i = b ! i + c ! i"
  "i < length d \<Longrightarrow> i < length e \<Longrightarrow> data_sub d (e :: 'm::minus list) ! i = d ! i - e ! i"
  "i < length f \<Longrightarrow> i < length g \<Longrightarrow> data_mul f (g :: 't::times list) ! i = f ! i * g ! i"
  "i < length h \<Longrightarrow> i < length k \<Longrightarrow> simd_sdiv h (k :: 'd::divide list) ! i = h ! i div k ! i"
  by (simp_all add: data_defs)

lemma simd_is_zero_iff: "simd_is_zero v \<longleftrightarrow> (\<forall>x \<in> set v. x = 0)"
proof -
  have "foldl (\<lambda>result i. result \<and> v ! i = 0) b is = (b \<and> (\<forall>i \<in> set is. v ! i = 0))" for b "is"
    by (induction "is" arbitrary: b) auto
  then show ?thesis
    by (auto simp: simd_is_zero_def all_set_conv_all_nth)
qed

section \<open>Construction and shuffling\<close>

definition simd_axis :: "nat \<Rightarrow> nat \<Rightarrow> 'a::zero \<Rightarrow> 'a list" where
  "simd_axis N I v = map (\<lambda>i. if i = I then v else 0) [0..<N]"

text \<open>The first elements of an array; too few of them fail the assertion.\<close>

definition simd_from_array :: "nat \<Rightarrow> 'a list \<Rightarrow> 'a list option" where
  "simd_from_array N d = (if N \<le> length d then Some (map ((!) d) [0..<N]) else None)"

definition simd_from_saafv :: "nat \<Rightarrow> 'a::zero list \<Rightarrow> 'a \<Rightarrow> 'a list" where
  "simd_from_saafv N d v =
     (let r = foldl (\<lambda>r i. r[i := d ! i]) (replicate N 0) [0..<min N (length d)]
      in foldl (\<lambda>r i. r[i := v]) r [length d..<N])"

definition simd_cast_data :: "nat \<Rightarrow> 'a list \<Rightarrow> 'a list \<Rightarrow> 'a list" where
  "simd_cast_data NT v d =
     (if length v < NT then map ((!) v) [0..<length v] @ map ((!) d) [0..<NT - length v]
      else map ((!) v) [0..<NT])"

definition simd_cast :: "nat \<Rightarrow> 'a list \<Rightarrow> 'a \<Rightarrow> 'a list" where
  "simd_cast NT v d = simd_cast_data NT v (simd_fill (NT - length v) d)"

definition simd_shuffle :: "'a list \<Rightarrow> nat list \<Rightarrow> 'a list" where
  "simd_shuffle v m = map ((!) v) m"

text \<open>
  The version for lists; with a vector type the compiler does the same for indices from 0 to \<open>2 * N - 1\<close>,
  and no others are used.
\<close>

definition simd_shuffle2 :: "'a::zero list \<Rightarrow> 'a list \<Rightarrow> int list \<Rightarrow> 'a list" where
  "simd_shuffle2 v1 v2 m =
     (let N = length v1
      in map (\<lambda>I. if I < 0 then 0 else if I < int N then v1 ! nat I else v2 ! (nat I mod N)) m)"

lemma map_nth_take: "N \<le> length d \<Longrightarrow> map ((!) d) [0..<N] = take N d"
  by (rule nth_equalityI) simp_all

lemma foldl_update:
  "length (foldl (\<lambda>r i. r[i := f i]) r is) = length r"
  "j < length r \<Longrightarrow> foldl (\<lambda>r i. r[i := f i]) r is ! j = (if j \<in> set is then f j else r ! j)"
  by (induction "is" arbitrary: r) (auto simp: nth_list_update)

lemma simd_axis_nth [simp]: "length (simd_axis N I v) = N" "i < N \<Longrightarrow> simd_axis N I v ! i = (if i = I then v else 0)"
  by (simp_all add: simd_axis_def)

lemma simd_from_array_take: "simd_from_array N d = (if N \<le> length d then Some (take N d) else None)"
  by (simp add: simd_from_array_def map_nth_take)

lemma simd_cast_eq: "simd_cast NT v d = take NT v @ replicate (NT - length v) d"
  by (simp add: simd_cast_def simd_cast_data_def map_nth_take map_nth simd_fill_def)

lemma simd_cast_data_eq:
  "NT \<le> length v + length d \<Longrightarrow> simd_cast_data NT v d = take NT v @ take (NT - length v) d"
  by (simp add: simd_cast_data_def map_nth_take map_nth)

lemma simd_from_saafv_eq: "simd_from_saafv N d v = take N d @ replicate (N - length d) v"
  by (rule nth_equalityI) (auto simp: simd_from_saafv_def foldl_update Let_def nth_append)

section \<open>Sums\<close>

text \<open>
  \<^verbatim>\<open>hsum\<close> gives a vector that has the sum of the elements in every place. Without a vector type (and
  for the lengths that have no case of their own) it is two loops, in place.
\<close>

definition hsum_loops :: "'a::plus list \<Rightarrow> 'a list" where
  "hsum_loops v =
     (let v = foldl (\<lambda>v i. v[i := v ! i + v ! (i - 1)]) v [1..<length v]
      in foldl (\<lambda>v i. v[i - 1 := v ! i]) v (rev [1..<length v]))"

definition hsum2 :: "'a::plus list \<Rightarrow> 'a list" where
  "hsum2 v = data_add v (simd_shuffle v [1, 0])"

definition hsum3 :: "'a::plus list \<Rightarrow> 'a list" where
  "hsum3 v = data_add (data_add v (simd_shuffle v [1, 0, 0])) (simd_shuffle v [2, 2, 1])"

definition hsum4 :: "'a::plus list \<Rightarrow> 'a list" where
  "hsum4 v =
     (let v = data_add v (simd_shuffle v [1, 0, 3, 2])
      in data_add v (simd_shuffle v [2, 3, 0, 1]))"

definition hsum8 :: "'a::plus list \<Rightarrow> 'a list" where
  "hsum8 v =
     (let v = data_add v (simd_shuffle v [1, 0, 3, 2, 5, 4, 7, 6]);
          v = data_add v (simd_shuffle v [2, 3, 0, 1, 6, 7, 4, 5])
      in data_add v (simd_shuffle v [4, 5, 6, 7, 0, 1, 2, 3]))"

definition hsum :: "bool \<Rightarrow> 'a::plus list \<Rightarrow> 'a list" where
  "hsum simd v =
     (if length v = 1 then v
      else if simd \<and> length v = 2 then hsum2 v
      else if simd \<and> length v = 3 then hsum3 v
      else if simd \<and> length v = 4 then hsum4 v
      else if simd \<and> length v = 8 then hsum8 v
      else hsum_loops v)"

definition esum :: "bool \<Rightarrow> 'a::comm_monoid_add list \<Rightarrow> 'a" where
  "esum simd v =
     (if length v = 1 then v ! 0
      else if simd then hsum simd v ! 0
      else foldl (\<lambda>r i. r + v ! i) 0 [0..<length v])"

lemma hsum_first_loop:
  "n \<le> length v \<Longrightarrow> 0 < n \<Longrightarrow>
   foldl (\<lambda>v i. v[i := v ! i + v ! (i - 1)]) v [1..<n] =
   map (\<lambda>k. sum_list (take (Suc k) v)) [0..<n] @ drop n v"
  for v :: "'a::comm_monoid_add list"
proof (induction n)
  case (Suc n)
  show ?case
  proof (cases "n = 0")
    case True
    then show ?thesis using Suc.prems by (cases v) simp_all
  next
    case False
    then have IH: "foldl (\<lambda>v i. v[i := v ! i + v ! (i - 1)]) v [1..<n] =
        map (\<lambda>k. sum_list (take (Suc k) v)) [0..<n] @ drop n v"
      using Suc by simp
    have "take (Suc n) v = take n v @ [v ! n]" "drop n v = v ! n # drop (Suc n) v"
      using Suc.prems by (simp_all add: take_Suc_conv_app_nth Cons_nth_drop_Suc)
    then show ?thesis
      using False Suc.prems IH by (simp add: nth_append list_update_append add.commute)
  qed
qed simp

lemma hsum_second_loop:
  "n < length v \<Longrightarrow> foldl (\<lambda>v i. v[i - 1 := v ! i]) v (rev [1..<Suc n]) = replicate (Suc n) (v ! n) @ drop (Suc n) v"
proof (induction n arbitrary: v)
  case 0
  then show ?case by (cases v) simp_all
next
  case (Suc n)
  have "rev [1..<Suc (Suc n)] = Suc n # rev [1..<Suc n]"
    by simp
  moreover have "drop (Suc n) (v[n := v ! Suc n]) = v ! Suc n # drop (Suc (Suc n)) v"
    using Suc.prems by (simp add: Cons_nth_drop_Suc)
  ultimately show ?case
    using Suc.IH[of "v[n := v ! Suc n]"] Suc.prems by (simp add: replicate_append_same)
qed

lemma hsum_loops_sum: "hsum_loops v = replicate (length v) (sum_list v)" for v :: "'a::comm_monoid_add list"
proof (cases v)
  case (Cons a w)
  let ?s = "map (\<lambda>k. sum_list (take (Suc k) v)) [0..<length v]"
  have "foldl (\<lambda>v i. v[i := v ! i + v ! (i - 1)]) v [1..<length v] = ?s"
    using hsum_first_loop[of "length v" v] Cons by simp
  then show ?thesis
    using hsum_second_loop[of "length v - 1" ?s] Cons by (simp add: hsum_loops_def Let_def del: upt_Suc)
qed (simp add: hsum_loops_def)

lemma length_cases:
  "length v = 2 \<Longrightarrow> v = [v ! 0, v ! 1]" "length v = 3 \<Longrightarrow> v = [v ! 0, v ! 1, v ! 2]"
  "length v = 4 \<Longrightarrow> v = [v ! 0, v ! 1, v ! 2, v ! 3]"
  "length v = 8 \<Longrightarrow> v = [v ! 0, v ! 1, v ! 2, v ! 3, v ! 4, v ! 5, v ! 6, v ! 7]"
  by (auto simp: numeral_eq_Suc length_Suc_conv)

lemma hsum_sum: "hsum simd v = replicate (length v) (sum_list v)" for v :: "'a::comm_monoid_add list"
proof -
  have "length v = 1 \<Longrightarrow> v = replicate 1 (sum_list v)"
    by (auto simp: length_Suc_conv)
  moreover have "hsum2 [a, b] = replicate 2 (a + b)" "hsum3 [a, b, c] = replicate 3 (a + (b + c))"
    "hsum4 [a, b, c, d] = replicate 4 (a + (b + (c + d)))"
    "hsum8 [a, b, c, d, e, f, g, h] = replicate 8 (a + (b + (c + (d + (e + (f + (g + h)))))))" for a b c d e f g h :: 'a
    by (simp_all add: hsum2_def hsum3_def hsum4_def hsum8_def data_add_def simd_shuffle_def numeral_eq_Suc ac_simps)
  ultimately show ?thesis
    unfolding hsum_def using length_cases[of v] hsum_loops_sum[of v]
    by (smt (verit) One_nat_def add.right_neutral sum_list.Cons sum_list.Nil)
qed

lemma esum_sum: "v \<noteq> [] \<Longrightarrow> esum simd v = sum_list v"
proof -
  have "foldl (\<lambda>r i. r + v ! i) a is = a + sum_list (map ((!) v) is)" for a "is"
    by (induction "is" arbitrary: a) (simp_all add: ac_simps)
  from this[of 0 "[0..<length v]"] show "v \<noteq> [] \<Longrightarrow> esum simd v = sum_list v"
    by (auto simp: esum_def hsum_sum map_nth length_Suc_conv)
qed

end
