(* ===== verification/Vector_Math.thy ===== *)
theory Vector_Math
  imports Complex_Main Simd
begin

text \<open>
  \<^verbatim>\<open>source/modules/eagine/math/vector.cpp\<close>, \<^verbatim>\<open>scalar.cpp\<close> and \<^verbatim>\<open>quaternion.cpp\<close>: vectors are the lists
  of \<open>Simd\<close>; the operators of \<^verbatim>\<open>vector\<close> and \<^verbatim>\<open>point\<close> on two of them are \<open>data_add\<close>, \<open>data_sub\<close> and
  \<open>data_mul\<close>. A quaternion is a vector of four numbers, the real one last. Functions with square roots
  and angles are on real numbers. \<open>simd\<close> is the template argument \<^verbatim>\<open>V\<close> together with the existence of
  a vector type.
\<close>

section \<open>Vectors\<close>

definition vec_axis :: "nat \<Rightarrow> nat \<Rightarrow> 'a::zero \<Rightarrow> 'a list option" where
  "vec_axis N i v = (if i < N then Some ((simd_fill N 0)[i := v]) else None)"

definition vec_scale :: "'a::times list \<Rightarrow> 'a \<Rightarrow> 'a list" where
  "vec_scale v c = data_mul v (simd_fill (length v) c)"

definition vec_over :: "'a::divide list \<Rightarrow> 'a \<Rightarrow> 'a list" where
  "vec_over v c = simd_sdiv v (simd_fill (length v) c)"

text \<open>The scalar with the sum of products, read as a number.\<close>

definition vec_dot :: "bool \<Rightarrow> 'a::comm_ring_1 list \<Rightarrow> 'a list \<Rightarrow> 'a" where
  "vec_dot simd u v = (if simd then hsum simd (data_mul u v) ! 0 else esum simd (data_mul u v))"

definition vec_perpendicular :: "'a::uminus list \<Rightarrow> 'a list" where
  "vec_perpendicular a = [- a ! 1, a ! 0]"

definition vec_cross :: "'a::comm_ring_1 list \<Rightarrow> 'a list \<Rightarrow> 'a list" where
  "vec_cross a b =
     data_sub (data_mul (simd_shuffle a [1, 2, 0]) (simd_shuffle b [2, 0, 1]))
              (data_mul (simd_shuffle b [1, 2, 0]) (simd_shuffle a [2, 0, 1]))"

definition vec_magnitude :: "bool \<Rightarrow> real list \<Rightarrow> real" where
  "vec_magnitude simd v =
     (if simd then map sqrt (hsum simd (data_mul v v)) ! 0 else sqrt (esum simd (data_mul v v)))"

definition vec_is_unit :: "bool \<Rightarrow> real \<Rightarrow> real list \<Rightarrow> bool" where
  "vec_is_unit simd eps v \<longleftrightarrow> \<bar>vec_dot simd v v - 1\<bar> \<le> eps * real (length v)"

definition vec_close_to :: "bool \<Rightarrow> real \<Rightarrow> real list \<Rightarrow> real list \<Rightarrow> bool" where
  "vec_close_to simd eps u v \<longleftrightarrow> vec_magnitude simd (data_sub u v) \<le> eps"

definition vec_normalized :: "bool \<Rightarrow> real list \<Rightarrow> real list" where
  "vec_normalized simd v = (let l = vec_magnitude simd v in simd_sdiv v (simd_fill (length v) l))"

definition vec_distance :: "bool \<Rightarrow> real list \<Rightarrow> real list \<Rightarrow> real" where
  "vec_distance simd a b = vec_magnitude simd (data_sub a b)"

section \<open>Quaternions\<close>

definition quat_make :: "'a \<Rightarrow> 'a list \<Rightarrow> 'a list" where
  "quat_make real_part imag = simd_cast 4 imag real_part"

definition quat_from_axis :: "bool \<Rightarrow> real \<Rightarrow> real list \<Rightarrow> real \<Rightarrow> real list option" where
  "quat_from_axis simd eps axis angle =
     (if vec_is_unit simd eps axis then Some (quat_make (cos (angle / 2)) (vec_scale axis (sin (angle / 2)))) else None)"

definition quat_real :: "'a list \<Rightarrow> 'a" where
  "quat_real q = q ! 3"

definition quat_imag :: "'a::zero list \<Rightarrow> 'a list" where
  "quat_imag q = simd_cast 3 q 0"

definition quat_dot :: "bool \<Rightarrow> 'a::comm_ring_1 list \<Rightarrow> 'a list \<Rightarrow> 'a" where
  "quat_dot simd p q = vec_dot simd p q"

definition quat_conjugate :: "'a::comm_ring_1 list \<Rightarrow> 'a list" where
  "quat_conjugate q = quat_make (quat_real q) (data_neg (quat_imag q))"

definition quat_inverse :: "bool \<Rightarrow> real \<Rightarrow> real list \<Rightarrow> real list option" where
  "quat_inverse simd eps q =
     (let dp = quat_dot simd q q
      in if eps < dp then Some (quat_make (quat_real q / dp) (vec_over (data_neg (quat_imag q)) dp)) else None)"

definition quat_sp :: "'a::comm_ring_1 list \<Rightarrow> 'a list \<Rightarrow> 'a list" where
  "quat_sp s q = data_mul s q"

definition quat_mul :: "bool \<Rightarrow> 'a::comm_ring_1 list \<Rightarrow> 'a list \<Rightarrow> 'a list" where
  "quat_mul simd p q =
     [vec_dot simd (quat_sp [1, 1, - 1, 1] p) (simd_shuffle q [3, 2, 1, 0]),
      vec_dot simd (quat_sp [- 1, 1, 1, 1] p) (simd_shuffle q [2, 3, 0, 1]),
      vec_dot simd (quat_sp [1, - 1, 1, 1] p) (simd_shuffle q [1, 0, 3, 2]),
      vec_dot simd (quat_sp [- 1, - 1, - 1, 1] p) (simd_shuffle q [0, 1, 2, 3])]"

definition quat_magnitude :: "bool \<Rightarrow> real list \<Rightarrow> real" where
  "quat_magnitude simd q = sqrt (quat_dot simd q q)"

definition quat_rotate :: "bool \<Rightarrow> 'a::comm_ring_1 list \<Rightarrow> 'a list \<Rightarrow> 'a list" where
  "quat_rotate simd q v = quat_imag (quat_mul simd (quat_mul simd q (quat_make 0 v)) (quat_conjugate q))"

section \<open>Vectors: laws\<close>

lemma vec_dot_sum: "length u = length v \<Longrightarrow> v \<noteq> [] \<Longrightarrow> vec_dot simd u v = (\<Sum>i < length v. u ! i * v ! i)"
proof -
  assume len: "length u = length v" "v \<noteq> []"
  then have "length (data_mul u v) = length v \<and> data_mul u v \<noteq> []"
    by (auto simp: data_mul_def)
  then have "vec_dot simd u v = sum_list (data_mul u v)"
    using len by (simp add: vec_dot_def hsum_sum esum_sum)
  then show ?thesis
    using len by (auto simp: sum_list_sum_nth atLeast0LessThan intro!: sum.cong)
qed

lemma vec_magnitude_dot: "v \<noteq> [] \<Longrightarrow> vec_magnitude simd v = sqrt (vec_dot simd v v)"
  by (simp add: vec_magnitude_def vec_dot_def hsum_sum esum_sum data_mul_def nth_append)

lemma list3: "length v = 3 \<longleftrightarrow> (\<exists>a b c. v = [a, b, c])"
  and list4: "length v = 4 \<longleftrightarrow> (\<exists>a b c d. v = [a, b, c, d])"
  by (auto simp: numeral_eq_Suc length_Suc_conv)

lemma vec_dot_3 [simp]: "vec_dot simd [a, b, c] [d, e, f] = a * d + b * e + c * f"
  by (simp add: vec_dot_sum lessThan_Suc numeral_eq_Suc lessThan_nat_numeral)

lemma vec_dot_4 [simp]: "vec_dot simd [a, b, c, d] [e, f, g, h] = a * e + b * f + c * g + d * h"
  by (simp add: vec_dot_sum lessThan_Suc numeral_eq_Suc lessThan_nat_numeral)

lemma vec_cross_3 [simp]: "vec_cross [a, b, c] [d, e, f] = [b * f - e * c, c * d - f * a, a * e - d * b]"
  by (simp add: vec_cross_def data_mul_def data_sub_def simd_shuffle_def)

lemma quat_mul_4 [simp]:
  "quat_mul simd [a, b, c, d] [e, f, g, h] =
   [a * h + b * g - c * f + d * e, b * h + c * e - a * g + d * f, a * f - b * e + c * h + d * g,
    d * h - a * e - b * f - c * g]"
  by (simp add: quat_mul_def quat_sp_def data_mul_def simd_shuffle_def algebra_simps)

lemma quat_parts [simp]:
  "quat_make r [a, b, c] = [a, b, c, r]" "quat_imag [a, b, c, r] = [a, b, c]"
  "quat_real [a, b, c, r] = r" "quat_conjugate [a, b, c, r] = [- a, - b, - c, r]"
  by (simp_all add: quat_make_def quat_imag_def quat_real_def quat_conjugate_def simd_cast_eq data_neg_def numeral_eq_Suc)

lemma data_3 [simp]:
  "data_add [a, b, c] [d, e, f] = [a + d, b + e, c + f]" "data_sub [a, b, c] [d, e, f] = [a - d, b - e, c - f]"
  "vec_scale [a, b, c] x = [a * x, b * x, c * x]"
  by (simp_all add: data_add_def data_sub_def vec_scale_def data_mul_def simd_fill_def)

lemma quat_length [simp]: "length (quat_mul simd p q) = 4"
  by (simp add: quat_mul_def)
section \<open>Vectors: laws of the products\<close>

text \<open>
  The cross product of two vectors is orthogonal to both, changes its sign with their order, and
  its square is that of the lengths less that of the dot product, for all rings.
\<close>

theorem vec_cross_laws:
  fixes a b :: "'a::comm_ring_1 list"
  assumes "length a = 3" "length b = 3"
  shows "vec_dot simd (vec_cross a b) a = 0 \<and> vec_dot simd (vec_cross a b) b = 0 \<and>
    vec_cross b a = data_neg (vec_cross a b) \<and>
    vec_dot simd (vec_cross a b) (vec_cross a b) = vec_dot simd a a * vec_dot simd b b - (vec_dot simd a b)\<^sup>2"
  using assms by (auto simp: list3 data_neg_def power2_eq_square algebra_simps)

theorem vec_cross_laws_witness:
  "vec_dot True (vec_cross [200, 3, 5] [7, 11, 13 :: 8 word]) [200, 3, 5] = 0"
  using vec_cross_laws[of "[200, 3, 5]" "[7, 11, 13 :: 8 word]" True] by simp

lemma vec_magnitude_ge: "v \<noteq> [] \<Longrightarrow> 0 \<le> vec_dot simd v v" for v :: "real list"
  by (simp add: vec_dot_sum sum_nonneg)

lemma vec_magnitude_zero: "v \<noteq> [] \<Longrightarrow> vec_dot simd v v = 0 \<longleftrightarrow> (\<forall>x \<in> set v. x = 0)" for v :: "real list"
  by (auto simp: vec_dot_sum sum_nonneg_eq_0_iff all_set_conv_all_nth)

lemma vec_normalized_scale: "vec_normalized simd v = map (\<lambda>x. x / vec_magnitude simd v) v"
  by (rule nth_equalityI) (simp_all add: vec_normalized_def Let_def)

text \<open>
  Normalizing a vector that is not zero gives a unit vector of the same direction.
\<close>

theorem vec_normalized_unit:
  assumes "v \<noteq> []" "\<not> simd_is_zero v"
  shows "vec_dot simd (vec_normalized simd v) (vec_normalized simd v) = 1 \<and>
    vec_scale (vec_normalized simd v) (vec_magnitude simd v) = v \<and> 0 < vec_magnitude simd v"
proof -
  let ?l = "vec_magnitude simd v"
  have "vec_dot simd v v \<noteq> 0"
    using assms by (simp add: vec_magnitude_zero simd_is_zero_iff)
  then have pos: "0 < vec_dot simd v v"
    using vec_magnitude_ge[OF assms(1), of simd] by simp
  then have l: "0 < ?l" "?l\<^sup>2 = vec_dot simd v v"
    using assms(1) by (simp_all add: vec_magnitude_dot)
  have "vec_dot simd (vec_normalized simd v) (vec_normalized simd v) = vec_dot simd v v / ?l\<^sup>2"
    using assms(1) by (simp add: vec_dot_sum vec_normalized_scale power2_eq_square sum_divide_distrib)
  moreover have "vec_scale (vec_normalized simd v) ?l = v"
    by (rule nth_equalityI) (use l(1) in \<open>simp_all add: vec_scale_def vec_normalized_scale\<close>)
  ultimately show ?thesis
    using l pos by simp
qed

theorem vec_normalized_unit_witness: "vec_dot True (vec_normalized True [3, 4, 0]) (vec_normalized True [3, 4, 0]) = 1"
  using vec_normalized_unit[of "[3, 4, 0]" True] by (simp add: simd_is_zero_iff)

section \<open>Quaternions: laws\<close>

lemma quat_mul_assoc:
  "length p = 4 \<Longrightarrow> length q = 4 \<Longrightarrow> length r = 4 \<Longrightarrow>
   quat_mul simd (quat_mul simd p q) r = quat_mul simd p (quat_mul simd q r)"
  by (auto simp: list4 algebra_simps)

lemma quat_norm_mul:
  "length p = 4 \<Longrightarrow> length q = 4 \<Longrightarrow>
   quat_dot simd (quat_mul simd p q) (quat_mul simd p q) = quat_dot simd p p * quat_dot simd q q"
  by (auto simp: list4 quat_dot_def algebra_simps)

lemma quat_conjugate_mul:
  "length p = 4 \<Longrightarrow> length q = 4 \<Longrightarrow>
   quat_conjugate (quat_mul simd p q) = quat_mul simd (quat_conjugate q) (quat_conjugate p)"
  by (auto simp: list4 algebra_simps)

lemma quat_conjugate_norm:
  "length q = 4 \<Longrightarrow> quat_mul simd q (quat_conjugate q) = [0, 0, 0, quat_dot simd q q]"
  "length q = 4 \<Longrightarrow> quat_mul simd (quat_conjugate q) q = [0, 0, 0, quat_dot simd q q]"
  by (auto simp: list4 quat_dot_def algebra_simps)

lemma quat_length_parts [simp]:
  "length (quat_conjugate q) = 4" "length v = 3 \<Longrightarrow> length (quat_make r v) = 4"
  by (auto simp: quat_conjugate_def quat_make_def simd_cast_eq quat_imag_def)

lemma quat_rotate_3:
  "quat_rotate simd [a, b, c, r] [x, y, z] =
   [(a * a - b * b - c * c + r * r) * x + 2 * (a * b - c * r) * y + 2 * (a * c + b * r) * z,
    2 * (a * b + c * r) * x + (b * b - a * a - c * c + r * r) * y + 2 * (b * c - a * r) * z,
    2 * (a * c - b * r) * x + 2 * (b * c + a * r) * y + (c * c - a * a - b * b + r * r) * z]"
  by (simp add: quat_rotate_def algebra_simps)

lemma quat_rotate_imag:
  "length q = 4 \<Longrightarrow> length v = 3 \<Longrightarrow>
   quat_make 0 (quat_rotate simd q v) = quat_mul simd (quat_mul simd q (quat_make 0 v)) (quat_conjugate q)"
  by (auto simp: list3 list4 quat_rotate_def algebra_simps)

text \<open>
  Quaternions are multiplied associatively, the norm of a product is the product of the norms, and
  the inverse of a quaternion, where its assertion holds, is one on both sides.
\<close>

theorem quat_algebra:
  assumes "length p = 4" "length q = 4" "length r = 4"
  shows "quat_mul simd (quat_mul simd p q) r = quat_mul simd p (quat_mul simd q r) \<and>
    quat_dot simd (quat_mul simd p q) (quat_mul simd p q) = quat_dot simd p p * quat_dot simd q q \<and>
    (case quat_inverse simd 0 q of
       None \<Rightarrow> simd_is_zero q
     | Some i \<Rightarrow> quat_mul simd q i = [0, 0, 0, 1] \<and> quat_mul simd i q = [0, 0, 0, 1])"
proof (intro conjI)
  show "case quat_inverse simd 0 q of None \<Rightarrow> simd_is_zero q
     | Some i \<Rightarrow> quat_mul simd q i = [0, 0, 0, 1] \<and> quat_mul simd i q = [0, 0, 0, 1]"
  proof (cases "quat_inverse simd 0 q")
    case None
    then have "vec_dot simd q q = 0"
      using vec_magnitude_ge[of q simd] assms(2) by (cases "q = []") (auto simp: quat_inverse_def quat_dot_def Let_def split: if_splits)
    then have "simd_is_zero q"
      using vec_magnitude_zero[of q simd] assms(2) by (cases "q = []") (auto simp: simd_is_zero_iff)
    then show ?thesis using None by simp
  next
    case (Some i)
    obtain a b c d where q: "q = [a, b, c, d]"
      using assms(2) by (auto simp: list4)
    let ?dp = "a * a + b * b + c * c + d * d"
    have dp: "0 < ?dp" and i: "i = [- a / ?dp, - b / ?dp, - c / ?dp, d / ?dp]"
      using Some
      by (auto simp: q quat_inverse_def quat_dot_def Let_def data_neg_def vec_over_def simd_sdiv_def simd_fill_def
          split: if_splits)
    have "a * (a / ?dp) + b * (b / ?dp) + c * (c / ?dp) + d * (d / ?dp) = 1"
      using dp by (simp add: add_divide_distrib[symmetric])
    then show ?thesis
      using Some by (simp add: q i algebra_simps)
  qed
qed (use assms in \<open>simp_all add: quat_mul_assoc quat_norm_mul\<close>)

theorem quat_algebra_witness:
  "quat_dot True (quat_mul True [1, 2, 3, 4] [5, 6, 7, 8]) (quat_mul True [1, 2, 3, 4] [5, 6, 7, 8]) = 30 * (174 :: real)"
  using quat_algebra[of "[1, 2, 3, 4]" "[5, 6, 7, 8]" "[0, 0, 0, 1]" True]
  by (simp add: quat_dot_def)

lemma quat_rotate_length [simp]: "length (quat_rotate simd q v) = 3"
  by (simp add: quat_rotate_def quat_imag_def simd_cast_eq)

lemma quat_rotate_mul:
  assumes "length p = 4" "length q = 4" "length v = 3"
  shows "quat_rotate simd (quat_mul simd p q) v = quat_rotate simd p (quat_rotate simd q v)"
proof -
  have "quat_make 0 (quat_rotate simd (quat_mul simd p q) v) = quat_make 0 (quat_rotate simd p (quat_rotate simd q v))"
    using assms by (simp add: quat_rotate_imag quat_conjugate_mul quat_mul_assoc)
  moreover have "length u = 3 \<Longrightarrow> length w = 3 \<Longrightarrow> quat_make 0 u = quat_make 0 w \<Longrightarrow> u = w" for u w :: "'a list"
    by (auto simp: list3)
  ultimately show ?thesis
    by simp
qed

lemma quat_rotate_norm:
  assumes "length q = 4" "length u = 3" "length v = 3"
  shows "vec_dot simd (quat_rotate simd q u) (quat_rotate simd q v) = (quat_dot simd q q)\<^sup>2 * vec_dot simd u v"
  using assms by (auto simp: list3 list4 quat_dot_def quat_rotate_3 power2_eq_square algebra_simps)

lemma rodrigues:
  fixes C S a b c x y z :: real
  assumes "S * S = 1 - C * C" "a * a = 1 - b * b - c * c"
  shows "(a * S * (a * S) - b * S * (b * S) - c * S * (c * S) + C * C) * x + 2 * (a * S * (b * S) - c * S * C) * y +
      2 * (a * S * (c * S) + b * S * C) * z =
      x * (2 * C * C - 1) + (b * z - y * c) * (2 * S * C) + a * ((a * x + b * y + c * z) * (1 - (2 * C * C - 1)))"
    (is ?x)
    and "2 * (a * S * (b * S) + c * S * C) * x + (b * S * (b * S) - a * S * (a * S) - c * S * (c * S) + C * C) * y +
      2 * (b * S * (c * S) - a * S * C) * z =
      y * (2 * C * C - 1) + (c * x - z * a) * (2 * S * C) + b * ((a * x + b * y + c * z) * (1 - (2 * C * C - 1)))"
    (is ?y)
    and "2 * (a * S * (c * S) - b * S * C) * x + 2 * (b * S * (c * S) + a * S * C) * y +
      (c * S * (c * S) - a * S * (a * S) - b * S * (b * S) + C * C) * z =
      z * (2 * C * C - 1) + (a * y - x * b) * (2 * S * C) + c * ((a * x + b * y + c * z) * (1 - (2 * C * C - 1)))"
    (is ?z)
proof -
  show ?x using assms by algebra
  show ?y using assms by algebra
  show ?z using assms by algebra
qed

lemma quat_from_axis_rotates:
  assumes "length axis = 3" "vec_dot simd axis axis = 1" "0 \<le> eps" "length v = 3"
  shows "case quat_from_axis simd eps axis angle of
      None \<Rightarrow> False
    | Some q \<Rightarrow> length q = 4 \<and> quat_dot simd q q = 1 \<and>
        quat_rotate simd q v =
          data_add (data_add (vec_scale v (cos angle)) (vec_scale (vec_cross axis v) (sin angle)))
            (vec_scale axis (vec_dot simd axis v * (1 - cos angle)))"
proof -
  let ?q = "quat_make (cos (angle / 2)) (vec_scale axis (sin (angle / 2)))"
  have q: "quat_from_axis simd eps axis angle = Some ?q"
    using assms by (simp add: quat_from_axis_def vec_is_unit_def)
  obtain a b c where ax: "axis = [a, b, c]"
    using assms(1) by (auto simp: list3)
  obtain x y z where v: "v = [x, y, z]"
    using assms(4) by (auto simp: list3)
  have len: "length ?q = 4"
    by (simp add: ax)
  define C S where "C = cos (angle / 2)" and "S = sin (angle / 2)"
  have CS: "S * S = 1 - C * C"
    using sin_cos_squared_add[of "angle / 2"] by (simp add: C_def S_def power2_eq_square)
  have angle: "cos angle = 2 * C * C - 1" "sin angle = 2 * S * C"
    using cos_double_cos[of "angle / 2"] sin_double[of "angle / 2"] by (simp_all add: C_def S_def power2_eq_square)
  have unit: "a * a = 1 - b * b - c * c"
    using assms(2) by (simp add: ax algebra_simps)
  have "quat_rotate simd ?q v = data_add (data_add (vec_scale v (cos angle)) (vec_scale (vec_cross axis v) (sin angle)))
      (vec_scale axis (vec_dot simd axis v * (1 - cos angle)))"
    unfolding angle C_def[symmetric] S_def[symmetric]
    using rodrigues[of S C a b c x y z, OF CS unit] by (simp add: ax v quat_rotate_3)
  moreover have "quat_dot simd ?q ?q = 1"
  proof -
    have "a * S * (a * S) + b * S * (b * S) + c * S * (c * S) + C * C = 1"
      using unit CS by algebra
    then show ?thesis
      by (simp add: ax quat_dot_def C_def[symmetric] S_def[symmetric])
  qed
  ultimately show ?thesis
    using len by (simp add: q)
qed

text \<open>
  A quaternion made from a unit axis and an angle rotates vectors about that axis by the angle
  (Rodrigues' formula); rotations by quaternions of norm one preserve all products of vectors, and
  the product of quaternions rotates by the second and then by the first one.
\<close>

theorem quat_rotation:
  assumes "length axis = 3" "vec_dot simd axis axis = 1" "0 \<le> eps" "length v = 3" "length u = 3" "length p = 4"
  shows "case quat_from_axis simd eps axis angle of
      None \<Rightarrow> False
    | Some q \<Rightarrow>
        quat_rotate simd q v =
          data_add (data_add (vec_scale v (cos angle)) (vec_scale (vec_cross axis v) (sin angle)))
            (vec_scale axis (vec_dot simd axis v * (1 - cos angle))) \<and>
        vec_dot simd (quat_rotate simd q u) (quat_rotate simd q v) = vec_dot simd u v \<and>
        quat_rotate simd (quat_mul simd p q) v = quat_rotate simd p (quat_rotate simd q v)"
proof -
  obtain q where q: "quat_from_axis simd eps axis angle = Some q" "length q = 4" "quat_dot simd q q = 1"
    "quat_rotate simd q v =
      data_add (data_add (vec_scale v (cos angle)) (vec_scale (vec_cross axis v) (sin angle)))
        (vec_scale axis (vec_dot simd axis v * (1 - cos angle)))"
    using quat_from_axis_rotates[OF assms(1-4), of angle] by (auto split: option.splits)
  have "vec_dot simd (quat_rotate simd q u) (quat_rotate simd q v) = vec_dot simd u v"
    using quat_rotate_norm[OF q(2) assms(5,4), of simd] q(3) by simp
  then show ?thesis
    unfolding q(1) option.case using q(4) quat_rotate_mul[OF assms(6) q(2) assms(4)] by blast
qed

theorem quat_rotation_witness:
  "case quat_from_axis True 0 [0, 0, 1] pi of None \<Rightarrow> False | Some q \<Rightarrow> quat_rotate True q [1, 2, 3] = [- 1, - 2, 3]"
  using quat_rotation[of "[0, 0, 1]" True 0 "[1, 2, 3]" "[1, 2, 3]" "[0, 0, 0, 1]" pi] by (auto split: option.splits)

end
