(* ===== verification/Matrix_Math.thy ===== *)
theory Matrix_Math
  imports Vector_Math
begin

text \<open>
  \<^verbatim>\<open>source/modules/eagine/math/matrix.cpp\<close>: matrices of \<open>C\<close> columns and \<open>R\<close> rows, stored by rows
  (\<^verbatim>\<open>RM\<close>) or by columns. The template arguments are fields of the record. A failed assertion is
  \<open>None\<close>. The elements are of any commutative ring, for elimination of any field, with exact
  comparison; the rounding of floating point numbers is not modelled.
\<close>

record 'a matrix =
  mat_rm :: bool
  mat_cols :: nat
  mat_rows :: nat
  mat_v :: "'a list list"

definition mat_majors :: "'a matrix \<Rightarrow> nat" where
  "mat_majors m = (if mat_rm m then mat_rows m else mat_cols m)"

definition mat_minors :: "'a matrix \<Rightarrow> nat" where
  "mat_minors m = (if mat_rm m then mat_cols m else mat_rows m)"

definition mat_wf :: "'a matrix \<Rightarrow> bool" where
  "mat_wf m \<longleftrightarrow> length (mat_v m) = mat_majors m \<and> (\<forall>v \<in> set (mat_v m). length v = mat_minors m)"

section \<open>Construction and access\<close>

text \<open>The default constructor.\<close>

definition mat_new :: "bool \<Rightarrow> nat \<Rightarrow> nat \<Rightarrow> 'a::{zero,one} matrix" where
  "mat_new rm C R =
     \<lparr>mat_rm = rm, mat_cols = C, mat_rows = R,
      mat_v = (if rm then map (\<lambda>i. map (\<lambda>j. if i = j then 1 else 0) [0..<C]) [0..<R]
               else map (\<lambda>j. map (\<lambda>i. if i = j then 1 else 0) [0..<R]) [0..<C])\<rparr>"

definition mat_of_majors :: "bool \<Rightarrow> nat \<Rightarrow> nat \<Rightarrow> 'a list list \<Rightarrow> 'a matrix" where
  "mat_of_majors rm C R vs = \<lparr>mat_rm = rm, mat_cols = C, mat_rows = R, mat_v = vs\<rparr>"

definition mat_of_array :: "bool \<Rightarrow> nat \<Rightarrow> nat \<Rightarrow> 'a list \<Rightarrow> 'a matrix option" where
  "mat_of_array rm C R d =
     (let major = (if rm then R else C); minor = (if rm then C else R)
      in map_option (mat_of_majors rm C R)
           (those (map (\<lambda>i. simd_from_array minor (drop (i * minor) d)) [0..<major])))"

definition mat_of_matrix :: "nat \<Rightarrow> nat \<Rightarrow> 'a::zero matrix \<Rightarrow> 'a matrix" where
  "mat_of_matrix C R m =
     (let rm = mat_rm m; major = (if rm then R else C); minor = (if rm then C else R)
      in mat_of_majors rm C R (map (\<lambda>i. simd_cast minor (mat_v m ! i) 0) [0..<major]))"

definition mat_set_rm :: "nat \<Rightarrow> nat \<Rightarrow> 'a \<Rightarrow> 'a matrix \<Rightarrow> 'a matrix option" where
  "mat_set_rm ri ci v m =
     (if ci < mat_cols m \<and> ri < mat_rows m
      then Some (m\<lparr>mat_v := if mat_rm m then (mat_v m)[ri := (mat_v m ! ri)[ci := v]]
                            else (mat_v m)[ci := (mat_v m ! ci)[ri := v]]\<rparr>)
      else None)"

definition mat_get_rm :: "nat \<Rightarrow> nat \<Rightarrow> 'a matrix \<Rightarrow> 'a option" where
  "mat_get_rm ri ci m =
     (if ci < mat_cols m \<and> ri < mat_rows m
      then Some (if mat_rm m then mat_v m ! ri ! ci else mat_v m ! ci ! ri)
      else None)"

definition mat_set_cm :: "nat \<Rightarrow> nat \<Rightarrow> 'a \<Rightarrow> 'a matrix \<Rightarrow> 'a matrix option" where
  "mat_set_cm ci ri v m =
     (if ci < mat_cols m \<and> ri < mat_rows m
      then Some (m\<lparr>mat_v := if mat_rm m then (mat_v m)[ri := (mat_v m ! ri)[ci := v]]
                            else (mat_v m)[ci := (mat_v m ! ci)[ri := v]]\<rparr>)
      else None)"

definition mat_get_cm :: "nat \<Rightarrow> nat \<Rightarrow> 'a matrix \<Rightarrow> 'a option" where
  "mat_get_cm ci ri m =
     (if ci < mat_cols m \<and> ri < mat_rows m
      then Some (if mat_rm m then mat_v m ! ri ! ci else mat_v m ! ci ! ri)
      else None)"

section \<open>Transposition and reordering\<close>

text \<open>
  \<^verbatim>\<open>_transpose_tpl\<close> is both: with the same order it transposes, with the other order it keeps the
  matrix. It is a double loop, and shuffles for matrices of four rows and columns.
\<close>

definition mat_transpose_loop :: "bool \<Rightarrow> 'a::{zero,one} matrix \<Rightarrow> 'a matrix option" where
  "mat_transpose_loop dst_rm m =
     (let S = (dst_rm \<noteq> mat_rm m); R = mat_rows m; C = mat_cols m;
          r = mat_new dst_rm (if S then C else R) (if S then R else C)
      in for_each_opt
           (\<lambda>(i, j) r. Option.bind (mat_get_rm i j m) (\<lambda>v. mat_set_rm (if S then i else j) (if S then j else i) v r))
           (List.product [0..<R] [0..<C]) r)"

definition mat_transpose_hlp_4x4 :: "bool \<Rightarrow> 'a::zero list \<Rightarrow> 'a list \<Rightarrow> 'a list \<Rightarrow> 'a list \<Rightarrow> 'a matrix" where
  "mat_transpose_hlp_4x4 dst_rm q0 q1 q2 q3 =
     mat_of_majors dst_rm 4 4
       [simd_shuffle2 q0 q2 [0, 2, 4, 6], simd_shuffle2 q0 q2 [1, 3, 5, 7],
        simd_shuffle2 q1 q3 [0, 2, 4, 6], simd_shuffle2 q1 q3 [1, 3, 5, 7]]"

definition mat_transpose_4x4 :: "bool \<Rightarrow> 'a::zero matrix \<Rightarrow> 'a matrix" where
  "mat_transpose_4x4 dst_rm m =
     (let v = mat_v m
      in mat_transpose_hlp_4x4 dst_rm
           (simd_shuffle2 (v ! 0) (v ! 1) [0, 1, 4, 5]) (simd_shuffle2 (v ! 0) (v ! 1) [2, 3, 6, 7])
           (simd_shuffle2 (v ! 2) (v ! 3) [0, 1, 4, 5]) (simd_shuffle2 (v ! 2) (v ! 3) [2, 3, 6, 7]))"

definition mat_transpose_tpl :: "bool \<Rightarrow> 'a::{zero,one} matrix \<Rightarrow> 'a matrix option" where
  "mat_transpose_tpl dst_rm m =
     (if mat_rows m = 4 \<and> mat_cols m = 4 then Some (mat_transpose_4x4 dst_rm m) else mat_transpose_loop dst_rm m)"

definition mat_transposed :: "'a::{zero,one} matrix \<Rightarrow> 'a matrix option" where
  "mat_transposed m = mat_transpose_tpl (mat_rm m) m"

definition mat_reordered :: "'a::{zero,one} matrix \<Rightarrow> 'a matrix option" where
  "mat_reordered m = mat_transpose_tpl (\<not> mat_rm m) m"

definition mat_as_row_major :: "'a::{zero,one} matrix \<Rightarrow> 'a matrix option" where
  "mat_as_row_major m = (if mat_rm m then Some m else mat_reordered m)"

definition mat_as_column_major :: "'a::{zero,one} matrix \<Rightarrow> 'a matrix option" where
  "mat_as_column_major m = (if mat_rm m then mat_reordered m else Some m)"

section \<open>Rows, columns and products\<close>

definition mat_major_vector :: "nat \<Rightarrow> 'a matrix \<Rightarrow> 'a list option" where
  "mat_major_vector i m = (if i < (if mat_rm m then mat_rows m else mat_cols m) then Some (mat_v m ! i) else None)"

definition mat_minor_vector :: "nat \<Rightarrow> 'a::{zero,one} matrix \<Rightarrow> 'a list option" where
  "mat_minor_vector i m = Option.bind (mat_reordered m) (mat_major_vector i)"

definition mat_row :: "nat \<Rightarrow> 'a::{zero,one} matrix \<Rightarrow> 'a list option" where
  "mat_row i m =
     (if i < mat_rows m then if mat_rm m then mat_major_vector i m else mat_minor_vector i m else None)"

definition mat_column :: "nat \<Rightarrow> 'a::{zero,one} matrix \<Rightarrow> 'a list option" where
  "mat_column i m =
     (if i < mat_cols m then if mat_rm m then mat_minor_vector i m else mat_major_vector i m else None)"

text \<open>An element behind the end of a row is undefined.\<close>

definition elem_at :: "nat \<Rightarrow> 'a list \<Rightarrow> 'a option" where
  "elem_at i v = (if i < length v then Some (v ! i) else None)"

definition mat_translation :: "'a::{zero,one} matrix \<Rightarrow> 'a list option" where
  "mat_translation m =
     (let R = mat_rows m
      in if mat_rm m then
           if R = 4 then those [elem_at 3 (mat_v m ! 0), elem_at 3 (mat_v m ! 1), elem_at 3 (mat_v m ! 2)]
           else those [elem_at 2 (mat_v m ! 0), elem_at 2 (mat_v m ! 1)]
         else if R = 4 then map_option (\<lambda>v. simd_cast 3 v 0) (mat_major_vector 3 m)
         else map_option (\<lambda>v. simd_cast 2 v 0) (mat_major_vector 2 m))"

text \<open>Of a matrix by rows with one by columns; the other overloads reorder their operands first.\<close>

definition mat_multiply_rows :: "bool \<Rightarrow> 'a::comm_ring_1 matrix \<Rightarrow> 'a matrix \<Rightarrow> 'a matrix option" where
  "mat_multiply_rows simd a m =
     for_each_opt
       (\<lambda>(i, j) r. Option.bind (mat_row i a) (\<lambda>u. Option.bind (mat_column j m) (\<lambda>v.
          mat_set_rm i j (vec_dot simd u v) r)))
       (List.product [0..<mat_rows a] [0..<mat_cols m]) (mat_new True (mat_cols m) (mat_rows a))"

definition mat_multiply :: "bool \<Rightarrow> 'a::comm_ring_1 matrix \<Rightarrow> 'a matrix \<Rightarrow> 'a matrix option" where
  "mat_multiply simd a m =
     (if mat_rm a then
        if \<not> mat_rm m then mat_multiply_rows simd a m
        else Option.bind (mat_reordered m) (mat_multiply_rows simd a)
      else
        if \<not> mat_rm m then Option.bind (mat_reordered a) (\<lambda>a. mat_multiply_rows simd a m)
        else Option.bind (mat_reordered a) (\<lambda>a. Option.bind (mat_reordered m) (mat_multiply_rows simd a)))"

definition mat_multiply_vec_rows :: "bool \<Rightarrow> 'a::comm_ring_1 matrix \<Rightarrow> 'a list \<Rightarrow> 'a list option" where
  "mat_multiply_vec_rows simd a v =
     for_each_opt (\<lambda>i r. map_option (\<lambda>u. r[i := vec_dot simd u v]) (mat_row i a)) [0..<mat_rows a]
       (simd_fill (mat_rows a) 0)"

definition mat_multiply_vec :: "bool \<Rightarrow> 'a::comm_ring_1 matrix \<Rightarrow> 'a list \<Rightarrow> 'a list option" where
  "mat_multiply_vec simd a v =
     (if mat_rm a then mat_multiply_vec_rows simd a v
      else Option.bind (mat_reordered a) (\<lambda>a. mat_multiply_vec_rows simd a v))"
section \<open>Matrices by their elements\<close>

definition mat_build :: "bool \<Rightarrow> nat \<Rightarrow> nat \<Rightarrow> (nat \<Rightarrow> nat \<Rightarrow> 'a) \<Rightarrow> 'a matrix" where
  "mat_build rm C R f =
     mat_of_majors rm C R
       (if rm then map (\<lambda>i. map (f i) [0..<C]) [0..<R] else map (\<lambda>j. map (\<lambda>i. f i j) [0..<R]) [0..<C])"

definition mat_at :: "'a matrix \<Rightarrow> nat \<Rightarrow> nat \<Rightarrow> 'a" where
  "mat_at m i j = (if mat_rm m then mat_v m ! i ! j else mat_v m ! j ! i)"

named_theorems mat_simps \<open>operations on matrices given by their elements\<close>

lemma mat_of_majors_sel [simp]:
  "mat_rm (mat_of_majors rm C R vs) = rm" "mat_cols (mat_of_majors rm C R vs) = C"
  "mat_rows (mat_of_majors rm C R vs) = R" "mat_v (mat_of_majors rm C R vs) = vs"
  by (simp_all add: mat_of_majors_def)

lemma mat_build_sel [simp]:
  "mat_rm (mat_build rm C R f) = rm" "mat_cols (mat_build rm C R f) = C" "mat_rows (mat_build rm C R f) = R"
  "mat_wf (mat_build rm C R f)"
  by (auto simp: mat_build_def mat_wf_def mat_majors_def mat_minors_def)

lemma mat_at_build [simp]: "i < R \<Longrightarrow> j < C \<Longrightarrow> mat_at (mat_build rm C R f) i j = f i j"
  by (simp add: mat_at_def mat_build_def)

lemma mat_build_cong: "(\<And>i j. i < R \<Longrightarrow> j < C \<Longrightarrow> f i j = g i j) \<Longrightarrow> mat_build rm C R f = mat_build rm C R g"
  by (auto simp: mat_build_def)

lemma mat_build_at: "mat_wf m \<Longrightarrow> mat_build (mat_rm m) (mat_cols m) (mat_rows m) (mat_at m) = m"
  by (cases m)
     (auto simp: mat_build_def mat_at_def mat_of_majors_def mat_wf_def mat_majors_def mat_minors_def split: if_splits
       intro!: nth_equalityI)

lemma mat_wf_cases:
  assumes "mat_wf m"
  obtains rm C R f where "m = mat_build rm C R f"
  using mat_build_at[OF assms] by metis

lemma mat_new_build: "mat_new rm C R = mat_build rm C R (\<lambda>i j. if i = j then 1 else 0)"
  by (auto simp: mat_new_def mat_build_def mat_of_majors_def)

lemma mat_get_build [mat_simps]:
  "mat_get_rm i j (mat_build rm C R f) = (if i < R \<and> j < C then Some (f i j) else None)"
  "mat_get_cm j i (mat_build rm C R f) = (if i < R \<and> j < C then Some (f i j) else None)"
  by (auto simp: mat_get_rm_def mat_get_cm_def mat_build_def)

lemma mat_set_build [mat_simps]:
  "mat_set_rm i j v (mat_build rm C R f) =
   (if i < R \<and> j < C then Some (mat_build rm C R (\<lambda>k l. if k = i \<and> l = j then v else f k l)) else None)"
  by (auto simp: mat_set_rm_def mat_build_def mat_of_majors_def intro!: nth_equalityI simp: nth_list_update)

lemma mat_set_cm_rm: "mat_set_cm j i v m = mat_set_rm i j v m"
  by (simp add: mat_set_cm_def mat_set_rm_def)

lemma fill_loop:
  assumes "\<And>x r. x \<in> set is \<Longrightarrow> row x < R \<and> col x < C \<and> step x r = mat_set_rm (row x) (col x) (f (row x) (col x)) r"
  shows "for_each_opt step is (mat_build rm C R g) =
    Some (mat_build rm C R (\<lambda>i j. if \<exists>x \<in> set is. row x = i \<and> col x = j then f i j else g i j))"
  using assms
proof (induction "is" arbitrary: g)
  case (Cons x xs)
  have "row x < R" "col x < C" "step x r = mat_set_rm (row x) (col x) (f (row x) (col x)) r" for r
    using Cons.prems[of x] by auto
  moreover have "for_each_opt step xs (mat_build rm C R g') =
      Some (mat_build rm C R (\<lambda>i j. if \<exists>x \<in> set xs. row x = i \<and> col x = j then f i j else g' i j))" for g'
    using Cons by auto
  ultimately show ?case
    by (auto simp: mat_simps intro!: mat_build_cong)
qed simp

lemma fill_all:
  assumes "\<And>i j r. i < I \<Longrightarrow> j < J \<Longrightarrow>
      row (i, j) < R \<and> col (i, j) < C \<and> step (i, j) r = mat_set_rm (row (i, j)) (col (i, j)) (f (row (i, j)) (col (i, j))) r"
    and "\<And>k l. k < R \<Longrightarrow> l < C \<Longrightarrow> \<exists>i < I. \<exists>j < J. row (i, j) = k \<and> col (i, j) = l"
  shows "for_each_opt step (List.product [0..<I] [0..<J]) (mat_build rm C R g) = Some (mat_build rm C R f)"
proof -
  have hit: "\<exists>x \<in> set (List.product [0..<I] [0..<J]). row x = k \<and> col x = l" if kl: "k < R" "l < C" for k l
  proof -
    obtain i j where "i < I" "j < J" "row (i, j) = k" "col (i, j) = l"
      using assms(2)[OF kl] by auto
    then show ?thesis
      by (intro bexI[of _ "(i, j)"]) simp_all
  qed
  have "for_each_opt step (List.product [0..<I] [0..<J]) (mat_build rm C R g) =
      Some (mat_build rm C R (\<lambda>k l. if \<exists>x \<in> set (List.product [0..<I] [0..<J]). row x = k \<and> col x = l then f k l else g k l))"
    by (rule fill_loop) (use assms(1) in auto)
  also have "\<dots> = Some (mat_build rm C R f)"
    using hit by (intro arg_cong[where f = Some] mat_build_cong) simp
  finally show ?thesis .
qed

lemma mat_transpose_loop_build:
  "mat_transpose_loop dst (mat_build rm C R f) =
   Some (if dst = rm then mat_build dst R C (\<lambda>i j. f j i) else mat_build dst C R f)"
proof (cases "dst = rm")
  case True
  then show ?thesis
    unfolding mat_transpose_loop_def Let_def mat_new_build
    by (subst fill_all[where row = snd and col = fst and f = "\<lambda>i j. f j i"]) (auto simp: mat_simps)
next
  case False
  then show ?thesis
    unfolding mat_transpose_loop_def Let_def mat_new_build
    by (subst fill_all[where row = fst and col = snd and f = f]) (auto simp: mat_simps)
qed

lemma upt_4: "[0..<4] = [0, 1, 2, 3 :: nat]"
  by (simp add: upt_rec)

lemma mat_transpose_4x4_build:
  "mat_transpose_4x4 dst (mat_build rm 4 4 f) =
   (if dst = rm then mat_build dst 4 4 (\<lambda>i j. f j i) else mat_build dst 4 4 f)"
  by (cases rm; cases dst)
     (simp_all add: mat_transpose_4x4_def mat_transpose_hlp_4x4_def mat_build_def simd_shuffle2_def upt_4 Let_def)

lemma mat_transpose_tpl_build [mat_simps]:
  "mat_transpose_tpl dst (mat_build rm C R f) =
   Some (if dst = rm then mat_build dst R C (\<lambda>i j. f j i) else mat_build dst C R f)"
  by (auto simp: mat_transpose_tpl_def mat_transpose_loop_build mat_transpose_4x4_build)

lemma mat_order_build [mat_simps]:
  "mat_transposed (mat_build rm C R f) = Some (mat_build rm R C (\<lambda>i j. f j i))"
  "mat_reordered (mat_build rm C R f) = Some (mat_build (\<not> rm) C R f)"
  "mat_as_row_major (mat_build rm C R f) = Some (mat_build True C R f)"
  "mat_as_column_major (mat_build rm C R f) = Some (mat_build False C R f)"
  by (auto simp: mat_transposed_def mat_reordered_def mat_as_row_major_def mat_as_column_major_def mat_simps)

lemma mat_row_build [mat_simps]:
  "mat_row i (mat_build rm C R f) = (if i < R then Some (map (f i) [0..<C]) else None)"
  "mat_column j (mat_build rm C R f) = (if j < C then Some (map (\<lambda>i. f i j) [0..<R]) else None)"
  by (auto simp: mat_row_def mat_column_def mat_major_vector_def mat_minor_vector_def mat_simps)
     (auto simp: mat_build_def)

lemma vec_dot_map: "0 < n \<Longrightarrow> vec_dot simd (map f [0..<n]) (map g [0..<n]) = (\<Sum>k < n. f k * g k)"
  by (simp add: vec_dot_sum)

lemma mat_multiply_build [mat_simps]:
  "0 < C \<Longrightarrow> mat_multiply simd (mat_build rm C R f) (mat_build rm2 K C g) =
     Some (mat_build True K R (\<lambda>i j. \<Sum>k < C. f i k * g k j))"
proof -
  assume "0 < C"
  then have "mat_multiply_rows simd (mat_build True C R f) (mat_build False K C g) =
      Some (mat_build True K R (\<lambda>i j. \<Sum>k < C. f i k * g k j))"
    unfolding mat_multiply_rows_def mat_new_build
    by (subst fill_all[where row = fst and col = snd and f = "\<lambda>i j. \<Sum>k < C. f i k * g k j"])
       (auto simp: mat_simps vec_dot_map)
  then show ?thesis
    by (cases rm; cases rm2) (simp_all add: mat_multiply_def mat_simps)
qed
text \<open>An empty sum cannot occur: the code instantiates matrices with at least one row and column.\<close>

lemma mat_multiply_vec_build [mat_simps]:
  assumes "0 < C" "length v = C"
  shows "mat_multiply_vec simd (mat_build rm C R f) v = Some (map (\<lambda>i. \<Sum>k < C. f i k * v ! k) [0..<R])"
proof -
  let ?step = "\<lambda>i r. map_option (\<lambda>u. r[i := vec_dot simd u v]) (mat_row i (mat_build True C R f))"
  have dot: "vec_dot simd (map (f i) [0..<C]) v = (\<Sum>k < C. f i k * v ! k)" for i
    using assms vec_dot_map[of C simd "f i" "(!) v"] map_nth[of v] by simp
  have "n \<le> R \<Longrightarrow> for_each_opt ?step [R - n..<R] (map g [0..<R - n] @ replicate n 0) =
      Some (map g [0..<R - n] @ map (\<lambda>i. \<Sum>k < C. f i k * v ! k) [R - n..<R])" for n g
  proof (induction n arbitrary: g)
    case (Suc n)
    then have upt: "[R - Suc n..<R] = (R - Suc n) # [R - n..<R]" "[0..<R - n] = [0..<R - Suc n] @ [R - Suc n]"
      by (simp_all add: upt_conv_Cons Suc_diff_Suc flip: upt_Suc_append)
    let ?h = "g(R - Suc n := \<Sum>k < C. f (R - Suc n) k * v ! k)"
    have "map ?h [0..<R - Suc n] = map g [0..<R - Suc n]"
      by simp
    then show ?case
      using Suc.IH[of ?h] Suc.prems
      by (simp add: upt mat_row_build dot list_update_append del: fun_upd_apply) (simp add: mat_row_build)
  qed simp
  from this[of R] have "mat_multiply_vec_rows simd (mat_build True C R f) v =
      Some (map (\<lambda>i. \<Sum>k < C. f i k * v ! k) [0..<R])"
    by (simp add: mat_multiply_vec_rows_def simd_fill_def)
  then show ?thesis
    by (simp add: mat_multiply_vec_def mat_simps)
qed

lemma mat_build_eqD: "mat_build rm C R f = mat_build rm C R g \<Longrightarrow> i < R \<Longrightarrow> j < C \<Longrightarrow> f i j = g i j"
  using mat_at_build[of i R j C rm f] mat_at_build[of i R j C rm g] by simp

section \<open>Laws of products\<close>

text \<open>
  Products of matrices can be calculated for all orders of storage of the factors, have the sums of
  products of rows and columns as elements, with and without vector instructions, and are associative.
\<close>

theorem matrix_multiply_assoc:
  fixes a b c :: "'a::comm_ring_1 matrix"
  assumes "mat_wf a" "mat_wf b" "mat_wf c" "mat_cols a = mat_rows b" "mat_cols b = mat_rows c"
    and "0 < mat_cols a" "0 < mat_cols b"
  shows "\<exists>ab bc abc. mat_multiply simd a b = Some ab \<and> mat_multiply simd b c = Some bc \<and>
    mat_multiply simd2 ab c = Some abc \<and> mat_multiply simd3 a bc = Some abc \<and> mat_wf abc \<and> mat_rm abc \<and>
    (\<forall>i j. mat_get_rm i j ab =
      (if i < mat_rows a \<and> j < mat_cols b then Some (\<Sum>k < mat_cols a. mat_at a i k * mat_at b k j) else None))"
proof -
  obtain r1 C R f where a: "a = mat_build r1 C R f"
    by (rule mat_wf_cases[OF assms(1)])
  obtain r2 D R2 g where b: "b = mat_build r2 D R2 g"
    by (rule mat_wf_cases[OF assms(2)])
  obtain r3 E R3 h where c: "c = mat_build r3 E R3 h"
    by (rule mat_wf_cases[OF assms(3)])
  have dims: "R2 = C" "R3 = D" "0 < C" "0 < D"
    using assms by (simp_all add: a b c)
  have "(\<Sum>k < D. (\<Sum>l < C. f i l * g l k) * h k j) = (\<Sum>l < C. f i l * (\<Sum>k < D. g l k * h k j))" for i j
    by (simp add: sum_distrib_left sum_distrib_right mult.assoc) (rule sum.swap)
  then show ?thesis
    using dims by (simp add: a b c dims(1,2) mat_multiply_build mat_get_build)
qed

lemma mat_new_wf [simp]:
  "mat_wf (mat_new rm C R)" "mat_cols (mat_new rm C R) = C" "mat_rows (mat_new rm C R) = R"
  by (simp_all add: mat_new_build)

theorem matrix_multiply_assoc_witness:
  "\<exists>abc. Option.bind (mat_multiply True (mat_of_majors False 2 1 [[2], [3]]) (mat_new True 2 2))
       (\<lambda>ab. mat_multiply True ab (mat_new False 5 2)) = Some (abc :: int matrix) \<and> mat_wf abc"
proof -
  have "mat_wf (mat_of_majors False 2 1 [[2], [3 :: int]])"
    by (simp add: mat_wf_def mat_majors_def mat_minors_def)
  then show ?thesis
    using matrix_multiply_assoc[of "mat_of_majors False 2 1 [[2], [3 :: int]]" "mat_new True 2 2" "mat_new False 5 2" True True True]
    by auto
qed

text \<open>
  Transposing and reordering, by loops or by the shuffles for four rows and columns, succeed and
  do what they say: they are involutions, the transposed product is the product of the transposed
  factors in the other order, and the order of storage does not change a product.
\<close>

theorem matrix_transpose_laws:
  fixes a b :: "'a::comm_ring_1 matrix"
  assumes "mat_wf a" "mat_wf b" "mat_cols a = mat_rows b" "0 < mat_cols a"
  shows "Option.bind (mat_transposed a) mat_transposed = Some a \<and> Option.bind (mat_reordered a) mat_reordered = Some a \<and>
    mat_transpose_loop rm a = mat_transpose_tpl rm a \<and>
    Option.bind (mat_multiply simd a b) mat_transposed =
      Option.bind (mat_transposed b) (\<lambda>tb. Option.bind (mat_transposed a) (mat_multiply simd2 tb)) \<and>
    Option.bind (mat_reordered a) (\<lambda>a. mat_multiply simd a b) = mat_multiply simd2 a b \<and>
    Option.bind (mat_reordered b) (mat_multiply simd a) = mat_multiply simd2 a b"
proof -
  obtain r1 C R f where a: "a = mat_build r1 C R f"
    by (rule mat_wf_cases[OF assms(1)])
  obtain r2 D R2 g where b: "b = mat_build r2 D R2 g"
    by (rule mat_wf_cases[OF assms(2)])
  have dims: "R2 = C" "0 < C"
    using assms by (simp_all add: a b)
  then show ?thesis
    by (simp add: a b mat_simps mat_transpose_loop_build mult.commute)
qed

theorem matrix_transpose_laws_witness:
  "Option.bind (mat_transposed (mat_of_majors True 2 1 [[2, 3]])) mat_transposed = Some (mat_of_majors True 2 1 [[2, 3 :: int]])"
proof -
  have "mat_wf (mat_of_majors True 2 1 [[2, 3 :: int]])"
    by (simp add: mat_wf_def mat_majors_def mat_minors_def)
  then show ?thesis
    using matrix_transpose_laws[of "mat_of_majors True 2 1 [[2, 3 :: int]]" "mat_new True 2 2" True True True] by simp
qed

lemma upts: "[0..<2] = [0, 1 :: nat]" "[0..<3] = [0, 1, 2 :: nat]" "[0..<4] = [0, 1, 2, 3 :: nat]"
  by (simp_all add: upt_rec)

text \<open>
  The translation of a matrix of three columns and four rows (or two and three) does not exist: the
  code would need the fourth column.
\<close>

theorem matrix_translation:
  assumes "mat_wf m" "mat_rows m = 4 \<and> (mat_cols m = 3 \<or> mat_cols m = 4) \<or> mat_rows m = 3 \<and> (mat_cols m = 2 \<or> mat_cols m = 3)"
  shows "mat_translation m =
    (if mat_cols m = mat_rows m then Some (map (\<lambda>i. mat_at m i (mat_cols m - 1)) [0..<mat_rows m - 1]) else None)"
proof -
  obtain rm C R f where m: "m = mat_build rm C R f"
    by (rule mat_wf_cases[OF assms(1)])
  have "R = 4 \<and> C = 3 \<or> R = 4 \<and> C = 4 \<or> R = 3 \<and> C = 2 \<or> R = 3 \<and> C = 3"
    using assms(2) by (auto simp: m)
  then show ?thesis
    unfolding m mat_translation_def
    by (elim disjE; cases rm)
       (simp_all add: mat_build_def elem_at_def mat_major_vector_def mat_at_def simd_cast_eq upts Let_def)
qed

end
