(* ===== verification/Matrix_Elimination.thy ===== *)
theory Matrix_Elimination
  imports Matrix_Math
begin

text \<open>
  Elimination of \<^verbatim>\<open>source/modules/eagine/math/matrix.cpp\<close> and the inverse of a matrix of
  \<^verbatim>\<open>matrix_construct.cpp\<close>, over any field. A matrix with an inverse is found to have one, and the
  result is the inverse; for a singular one there is a vector it takes to zero.
\<close>

section \<open>The operations\<close>

text \<open>
  The pairs of matrices are the vectors \<^verbatim>\<open>a._v\<close> and \<^verbatim>\<open>b._v\<close> of rows. \<open>gauss_clear i k\<close> subtracts
  the multiple of row \<open>i\<close> from row \<open>k\<close> that makes its element in column \<open>i\<close> zero.
\<close>

type_synonym 'a row_pair = "'a list list \<times> 'a list list"

definition swap_rows :: "nat \<Rightarrow> nat \<Rightarrow> 'a list list \<Rightarrow> 'a list list" where
  "swap_rows k i v = v[k := v ! i, i := v ! k]"

definition gauss_pivot :: "nat \<Rightarrow> nat \<Rightarrow> 'a::zero row_pair \<Rightarrow> 'a row_pair" where
  "gauss_pivot R i ab =
     (if fst ab ! i ! i = 0 then
        case List.find (\<lambda>k. fst ab ! k ! i \<noteq> 0) [i + 1..<R] of
          Some k \<Rightarrow> (swap_rows k i (fst ab), swap_rows k i (snd ab))
        | None \<Rightarrow> ab
      else ab)"

definition gauss_scale :: "nat \<Rightarrow> 'a::field row_pair \<Rightarrow> 'a row_pair" where
  "gauss_scale i ab =
     (let inv_d = 1 / fst ab ! i ! i
      in ((fst ab)[i := vec_scale (fst ab ! i) inv_d], (snd ab)[i := vec_scale (snd ab ! i) inv_d]))"

definition gauss_clear :: "nat \<Rightarrow> nat \<Rightarrow> 'a::field row_pair \<Rightarrow> 'a row_pair" where
  "gauss_clear i k ab =
     (let d = fst ab ! k ! i
      in if d \<noteq> 0
         then ((fst ab)[k := data_sub (fst ab ! k) (vec_scale (fst ab ! i) d)],
               (snd ab)[k := data_sub (snd ab ! k) (vec_scale (snd ab ! i) d)])
         else ab)"

fun gauss_rows :: "nat \<Rightarrow> nat list \<Rightarrow> 'a::field row_pair \<Rightarrow> bool \<times> 'a row_pair" where
  "gauss_rows R [] ab = (True, ab)"
| "gauss_rows R (i # is) ab =
     (let ab = gauss_pivot R i ab
      in if fst ab ! i ! i = 0 then (False, ab)
         else gauss_rows R is (fold (gauss_clear i) [i + 1..<R] (gauss_scale i ab)))"

definition gauss_elimination_rows :: "nat \<Rightarrow> 'a::field row_pair \<Rightarrow> bool \<times> 'a row_pair" where
  "gauss_elimination_rows R ab = gauss_rows R [0..<R] ab"

definition gauss_jordan_rows :: "nat \<Rightarrow> 'a::field row_pair \<Rightarrow> bool \<times> 'a row_pair" where
  "gauss_jordan_rows R ab =
     (let (ok, ab) = gauss_elimination_rows R ab
      in if ok then (True, fold (\<lambda>i. fold (gauss_clear i) [0..<i]) (rev [1..<R]) ab) else (False, ab))"

text \<open>
  The overloads: a matrix by columns is reordered first, and the result reordered back and assigned if
  the elimination succeeds. The results are whether it did, and the two matrices behind it.
\<close>

definition gauss_overload :: "(nat \<Rightarrow> 'a::field row_pair \<Rightarrow> bool \<times> 'a row_pair) \<Rightarrow>
    'a matrix \<Rightarrow> 'a matrix \<Rightarrow> (bool \<times> 'a matrix \<times> 'a matrix) option" where
  "gauss_overload elim a b =
     Option.bind (mat_as_row_major a) (\<lambda>ta. Option.bind (mat_as_row_major b) (\<lambda>tb.
       let (ok, va, vb) = elim (mat_rows a) (mat_v ta, mat_v tb);
           ra = ta\<lparr>mat_v := va\<rparr>; rb = tb\<lparr>mat_v := vb\<rparr>
       in Option.bind (if mat_rm a then Some ra else if ok then mat_reordered ra else Some a) (\<lambda>a.
          Option.bind (if mat_rm b then Some rb else if ok then mat_reordered rb else Some b) (\<lambda>b.
            Some (ok, a, b)))))"

definition gauss_elimination :: "'a::field matrix \<Rightarrow> 'a matrix \<Rightarrow> (bool \<times> 'a matrix \<times> 'a matrix) option" where
  "gauss_elimination = gauss_overload gauss_elimination_rows"

definition gauss_jordan_elimination :: "'a::field matrix \<Rightarrow> 'a matrix \<Rightarrow> (bool \<times> 'a matrix \<times> 'a matrix) option" where
  "gauss_jordan_elimination = gauss_overload gauss_jordan_rows"

text \<open>\<^verbatim>\<open>identity\<close> and \<^verbatim>\<open>inverse_matrix\<close> of \<^verbatim>\<open>matrix_construct.cpp\<close>.\<close>

definition mat_identity :: "bool \<Rightarrow> nat \<Rightarrow> 'a::{zero,one} matrix" where
  "mat_identity rm N = mat_of_majors rm N N (map (\<lambda>i. simd_axis N i 1) [0..<N])"

definition inverse_matrix :: "'a::field matrix \<Rightarrow> 'a matrix option option" where
  "inverse_matrix m =
     map_option (\<lambda>(ok, _, i). if ok then Some i else None)
       (gauss_jordan_elimination m (mat_identity (mat_rm m) (mat_cols m)))"

section \<open>Reversible linear changes of columns\<close>

text \<open>
  What elimination does with the rows is the same linear function on every column of both matrices,
  and it can be undone.
\<close>

definition lin_iso :: "((nat \<Rightarrow> 'a::field) \<Rightarrow> nat \<Rightarrow> 'a) \<Rightarrow> bool" where
  "lin_iso T \<longleftrightarrow> (\<forall>f g. T (\<lambda>k. f k + g k) = (\<lambda>k. T f k + T g k)) \<and> (\<forall>c f. T (\<lambda>k. c * f k) = (\<lambda>k. c * T f k)) \<and> inj T"

lemma lin_iso_id: "lin_iso (\<lambda>f. f)"
  by (simp add: lin_iso_def)

lemma lin_isoD:
  assumes "lin_iso T"
  shows "T (\<lambda>k. f k + g k) = (\<lambda>k. T f k + T g k)" "T (\<lambda>k. c * f k) = (\<lambda>k. c * T f k)" "inj T"
  using assms by (simp_all add: lin_iso_def)

lemma lin_iso_comp: "lin_iso S \<Longrightarrow> lin_iso T \<Longrightarrow> lin_iso (\<lambda>f. S (T f))"
  unfolding lin_iso_def[of "\<lambda>f. S (T f)"]
  by (intro conjI allI) (simp_all only: lin_isoD(1,2), auto intro!: injI dest: injD[OF lin_isoD(3)])

lemma lin_iso_zero: "lin_iso T \<Longrightarrow> T (\<lambda>k. 0) = (\<lambda>k. 0)"
proof -
  assume T: "lin_iso T"
  have "T (\<lambda>k. 0 * 0) k = 0" for k
    by (subst lin_isoD(2)[OF T]) (rule mult_zero_left)
  then show ?thesis
    unfolding mult_zero_left by (rule ext)
qed

lemma lin_iso_sum: "lin_iso T \<Longrightarrow> T (\<lambda>k. \<Sum>j < n. f j k * x j) = (\<lambda>k. \<Sum>j < n. T (f j) k * x j)" for n :: nat
proof (induction n)
  case (Suc n)
  have "T (\<lambda>k. f n k * x n) = (\<lambda>k. T (f n) k * x n)"
    using lin_isoD(2)[OF Suc.prems, of "x n" "f n"] by (simp add: mult.commute)
  then show ?case
    using Suc lin_isoD(1)[OF Suc.prems, of "\<lambda>k. \<Sum>j < n. f j k * x j" "\<lambda>k. f n k * x n"] by simp
qed (simp add: lin_iso_zero)

lemma lin_iso_swap: "lin_iso (\<lambda>f. f(k := f i, i := f k))"
proof -
  have "inj (\<lambda>f :: nat \<Rightarrow> 'a. f(k := f i, i := f k))"
    by (rule inj_on_inverseI[where g = "\<lambda>f. f(k := f i, i := f k)"]) (auto simp: fun_eq_iff)
  then show ?thesis
    by (auto simp: lin_iso_def fun_eq_iff)
qed

lemma lin_iso_scale: "c \<noteq> 0 \<Longrightarrow> lin_iso (\<lambda>f. f(i := f i * c))"
proof -
  assume "c \<noteq> 0"
  then have "inj (\<lambda>f :: nat \<Rightarrow> 'a. f(i := f i * c))"
    by (intro inj_on_inverseI[where g = "\<lambda>f. f(i := f i * inverse c)"]) (auto simp: fun_eq_iff)
  then show ?thesis
    by (auto simp: lin_iso_def fun_eq_iff algebra_simps)
qed

lemma lin_iso_clear: "i \<noteq> k \<Longrightarrow> lin_iso (\<lambda>f. f(k := f k - f i * d))"
proof -
  assume "i \<noteq> k"
  then have "inj (\<lambda>f :: nat \<Rightarrow> 'a. f(k := f k - f i * d))"
    by (intro inj_on_inverseI[where g = "\<lambda>f. f(k := f k + f i * d)"]) (auto simp: fun_eq_iff)
  then show ?thesis
    by (auto simp: lin_iso_def fun_eq_iff algebra_simps)
qed
section \<open>Row operations\<close>

definition row_col :: "nat \<Rightarrow> 'a::zero list list \<Rightarrow> nat \<Rightarrow> nat \<Rightarrow> 'a" where
  "row_col R v j = (\<lambda>k. if k < R then v ! k ! j else 0)"

definition rows_wf :: "nat \<Rightarrow> nat \<Rightarrow> 'a list list \<Rightarrow> bool" where
  "rows_wf R C v \<longleftrightarrow> length v = R \<and> (\<forall>k < R. length (v ! k) = C)"

definition row_equiv :: "nat \<Rightarrow> nat \<Rightarrow> nat \<Rightarrow> 'a::field row_pair \<Rightarrow> 'a row_pair \<Rightarrow> bool" where
  "row_equiv R Ca Cb ab ab' \<longleftrightarrow>
     rows_wf R Ca (fst ab') \<and> rows_wf R Cb (snd ab') \<and>
     (\<exists>T. lin_iso T \<and> (\<forall>j < Ca. row_col R (fst ab') j = T (row_col R (fst ab) j)) \<and>
       (\<forall>j < Cb. row_col R (snd ab') j = T (row_col R (snd ab) j)))"

lemma row_equiv_refl: "rows_wf R Ca (fst ab) \<Longrightarrow> rows_wf R Cb (snd ab) \<Longrightarrow> row_equiv R Ca Cb ab ab"
  unfolding row_equiv_def using lin_iso_id by blast

lemma row_equiv_trans:
  assumes "row_equiv R Ca Cb ab ab'" "row_equiv R Ca Cb ab' ab''"
  shows "row_equiv R Ca Cb ab ab''"
proof -
  obtain T where T: "lin_iso T" "\<forall>j < Ca. row_col R (fst ab') j = T (row_col R (fst ab) j)"
    "\<forall>j < Cb. row_col R (snd ab') j = T (row_col R (snd ab) j)"
    using assms(1) by (auto simp: row_equiv_def)
  obtain S where S: "lin_iso S" "\<forall>j < Ca. row_col R (fst ab'') j = S (row_col R (fst ab') j)"
    "\<forall>j < Cb. row_col R (snd ab'') j = S (row_col R (snd ab') j)"
    using assms(2) by (auto simp: row_equiv_def)
  have "\<forall>j < Ca. row_col R (fst ab'') j = S (T (row_col R (fst ab) j))"
    "\<forall>j < Cb. row_col R (snd ab'') j = S (T (row_col R (snd ab) j))"
    using T S by simp_all
  then show ?thesis
    using assms(2) lin_iso_comp[OF S(1) T(1)] unfolding row_equiv_def by blast
qed

text \<open>An operation on the rows of a matrix that is a linear function on its columns.\<close>

lemma row_equivI:
  assumes "rows_wf R Ca (fst ab)" "rows_wf R Cb (snd ab)" "lin_iso T"
    and "\<And>v C. rows_wf R C v \<Longrightarrow> rows_wf R C (f v) \<and> (\<forall>j < C. row_col R (f v) j = T (row_col R v j))"
  shows "row_equiv R Ca Cb ab (f (fst ab), f (snd ab))"
  unfolding row_equiv_def using assms(3) assms(4)[OF assms(1)] assms(4)[OF assms(2)] by (auto intro!: exI[of _ T])

abbreviation pair_wf :: "nat \<Rightarrow> nat \<Rightarrow> nat \<Rightarrow> 'a row_pair \<Rightarrow> bool" where
  "pair_wf R Ca Cb ab \<equiv> rows_wf R Ca (fst ab) \<and> rows_wf R Cb (snd ab)"

lemma swap_rows_equiv:
  "pair_wf R Ca Cb ab \<Longrightarrow> k < R \<Longrightarrow> i < R \<Longrightarrow> row_equiv R Ca Cb ab (swap_rows k i (fst ab), swap_rows k i (snd ab))"
  by (rule row_equivI[where T = "\<lambda>f. f(k := f i, i := f k)"])
     (auto simp: lin_iso_swap rows_wf_def swap_rows_def row_col_def fun_eq_iff nth_list_update)

lemma vec_scale_nth [simp]: "length (vec_scale v c) = length v" "j < length v \<Longrightarrow> vec_scale v c ! j = v ! j * c"
  by (simp_all add: vec_scale_def)

lemma gauss_scale_equiv:
  "pair_wf R Ca Cb ab \<Longrightarrow> i < R \<Longrightarrow> fst ab ! i ! i \<noteq> 0 \<Longrightarrow> row_equiv R Ca Cb ab (gauss_scale i ab)"
  unfolding gauss_scale_def Let_def
  by (rule row_equivI[where T = "\<lambda>f. f(i := f i * (1 / fst ab ! i ! i))" and f = "\<lambda>v. v[i := vec_scale (v ! i) (1 / fst ab ! i ! i)]"])
     (auto simp: rows_wf_def row_col_def fun_eq_iff nth_list_update simp del: times_divide_eq_right mult_1_right intro!: lin_iso_scale)

lemma gauss_clear_equiv:
  "pair_wf R Ca Cb ab \<Longrightarrow> i < R \<Longrightarrow> k < R \<Longrightarrow> i \<noteq> k \<Longrightarrow> row_equiv R Ca Cb ab (gauss_clear i k ab)"
  unfolding gauss_clear_def Let_def
  by (auto simp: row_equiv_refl
      intro!: row_equivI[where T = "\<lambda>f. f(k := f k - f i * fst ab ! k ! i)"
          and f = "\<lambda>v. v[k := data_sub (v ! k) (vec_scale (v ! i) (fst ab ! k ! i))]"])
     (auto simp: lin_iso_clear rows_wf_def row_col_def fun_eq_iff nth_list_update)

lemma row_equiv_wf: "row_equiv R Ca Cb ab ab' \<Longrightarrow> pair_wf R Ca Cb ab'"
  by (simp add: row_equiv_def)

lemma find_bounds: "List.find P [a..<b] = Some k \<Longrightarrow> a \<le> k \<and> k < b \<and> P k"
  by (auto simp: find_Some_iff)

lemma gauss_pivot_equiv:
  "pair_wf R Ca Cb ab \<Longrightarrow> i < R \<Longrightarrow> row_equiv R Ca Cb ab (gauss_pivot R i ab)"
  by (auto simp: gauss_pivot_def row_equiv_refl dest!: find_bounds intro!: swap_rows_equiv split: option.splits)

lemma gauss_clears_equiv:
  "pair_wf R Ca Cb ab \<Longrightarrow> i < R \<Longrightarrow> set ks \<subseteq> {..<R} - {i} \<Longrightarrow> row_equiv R Ca Cb ab (fold (gauss_clear i) ks ab)"
proof (induction ks arbitrary: ab)
  case (Cons k ks)
  then have step: "row_equiv R Ca Cb ab (gauss_clear i k ab)"
    by (intro gauss_clear_equiv) auto
  then have "row_equiv R Ca Cb (gauss_clear i k ab) (fold (gauss_clear i) ks (gauss_clear i k ab))"
    using Cons row_equiv_wf[OF step] by simp
  then show ?case
    using row_equiv_trans[OF step] by simp
qed (simp add: row_equiv_refl)

lemma gauss_rows_equiv:
  "pair_wf R Ca Cb ab \<Longrightarrow> set is \<subseteq> {..<R} \<Longrightarrow> row_equiv R Ca Cb ab (snd (gauss_rows R is ab))"
proof (induction "is" arbitrary: ab)
  case (Cons i "is")
  let ?p = "gauss_pivot R i ab"
  have pivot: "row_equiv R Ca Cb ab ?p"
    using Cons.prems by (intro gauss_pivot_equiv) auto
  show ?case
  proof (cases "fst ?p ! i ! i = 0")
    case True
    then show ?thesis using pivot by (simp add: Let_def)
  next
    case False
    let ?q = "fold (gauss_clear i) [i + 1..<R] (gauss_scale i ?p)"
    have scale: "row_equiv R Ca Cb ?p (gauss_scale i ?p)"
      using Cons.prems False row_equiv_wf[OF pivot] by (intro gauss_scale_equiv) auto
    then have "row_equiv R Ca Cb (gauss_scale i ?p) ?q"
      using Cons.prems row_equiv_wf[OF scale] by (intro gauss_clears_equiv) auto
    then have q: "row_equiv R Ca Cb ab ?q"
      using pivot scale row_equiv_trans by blast
    then show ?thesis
      using Cons False row_equiv_wf[OF q] row_equiv_trans[OF q] by (simp add: Let_def)
  qed
qed (simp add: row_equiv_refl)

lemma gauss_jordan_equiv:
  assumes "pair_wf R Ca Cb ab"
  shows "row_equiv R Ca Cb ab (snd (gauss_jordan_rows R ab))"
proof -
  have elim: "row_equiv R Ca Cb ab (snd (gauss_rows R [0..<R] ab))"
    using assms by (intro gauss_rows_equiv) auto
  have upward: "pair_wf R Ca Cb ab' \<Longrightarrow> set is \<subseteq> {..<R} \<Longrightarrow>
      row_equiv R Ca Cb ab' (fold (\<lambda>i. fold (gauss_clear i) [0..<i]) is ab')" for "is" ab'
  proof (induction "is" arbitrary: ab')
    case (Cons i "is")
    then have step: "row_equiv R Ca Cb ab' (fold (gauss_clear i) [0..<i] ab')"
      by (intro gauss_clears_equiv) auto
    then show ?case
      using Cons row_equiv_wf[OF step] row_equiv_trans[OF step] by simp
  qed (simp add: row_equiv_refl)
  show ?thesis
    using elim row_equiv_trans[OF elim upward[OF row_equiv_wf[OF elim], of "rev [1..<R]"]]
    by (force simp: gauss_jordan_rows_def gauss_elimination_rows_def Let_def split: prod.splits)
qed
section \<open>The shape of the eliminated matrix\<close>

definition upper_until :: "nat \<Rightarrow> nat \<Rightarrow> 'a::field list list \<Rightarrow> bool" where
  "upper_until R i a \<longleftrightarrow> (\<forall>j < i. a ! j ! j = 1 \<and> (\<forall>k < R. j < k \<longrightarrow> a ! k ! j = 0))"

lemma row_ranges: "{Suc i..<R} \<subseteq> {..<R} - {i}" "i < R \<Longrightarrow> {0..<i} \<subseteq> {..<R} - {i}" "{0..<R} \<subseteq> {..<R :: nat}"
  by auto

lemma gauss_clear_at:
  "pair_wf R Ca Cb ab \<Longrightarrow> i < R \<Longrightarrow> m < R \<Longrightarrow> i \<noteq> m \<Longrightarrow> k < R \<Longrightarrow> j < Ca \<Longrightarrow>
   fst (gauss_clear i m ab) ! k ! j =
   (if k = m then fst ab ! k ! j - fst ab ! i ! j * fst ab ! k ! i else fst ab ! k ! j)"
  by (auto simp: gauss_clear_def Let_def rows_wf_def)

lemma gauss_clears_at:
  assumes "pair_wf R Ca Cb ab" "i < R" "set ks \<subseteq> {..<R} - {i}" "distinct ks" "k < R" "j < Ca" "i < Ca"
  shows "fst (fold (gauss_clear i) ks ab) ! k ! j =
   (if k \<in> set ks then fst ab ! k ! j - fst ab ! i ! j * fst ab ! k ! i else fst ab ! k ! j)"
  using assms
proof (induction ks arbitrary: ab)
  case (Cons m ks)
  let ?ab = "gauss_clear i m ab"
  have m: "m < R" "i \<noteq> m" "m \<notin> set ks"
    using Cons.prems by auto
  have wf: "pair_wf R Ca Cb ?ab"
    using Cons.prems m by (intro row_equiv_wf[OF gauss_clear_equiv]) auto
  have at: "fst ?ab ! k' ! j' = (if k' = m then fst ab ! k' ! j' - fst ab ! i ! j' * fst ab ! k' ! i else fst ab ! k' ! j')"
    if "k' < R" "j' < Ca" for k' j'
    using gauss_clear_at[OF Cons.prems(1,2) m(1,2) that] .
  have "fst (fold (gauss_clear i) ks ?ab) ! k ! j =
      (if k \<in> set ks then fst ?ab ! k ! j - fst ?ab ! i ! j * fst ?ab ! k ! i else fst ?ab ! k ! j)"
    using Cons.IH[OF wf] Cons.prems by auto
  then show ?case
    using Cons.prems m by (auto simp: at)
qed simp

lemma gauss_pivot_shape:
  assumes "pair_wf R Ca Cb ab" "i < R" "R \<le> Ca" "upper_until R i (fst ab)"
  shows "upper_until R i (fst (gauss_pivot R i ab)) \<and>
    (fst (gauss_pivot R i ab) ! i ! i = 0 \<longrightarrow> (\<forall>k < R. i \<le> k \<longrightarrow> fst (gauss_pivot R i ab) ! k ! i = 0))"
proof (cases "fst ab ! i ! i = 0")
  case zero: True
  show ?thesis
  proof (cases "List.find (\<lambda>k. fst ab ! k ! i \<noteq> 0) [i + 1..<R]")
    case None
    then have "i < k \<Longrightarrow> k < R \<Longrightarrow> fst ab ! k ! i = 0" for k
      by (simp add: find_None_iff)
    then show ?thesis
      using assms zero None by (auto simp: gauss_pivot_def le_less)
  next
    case (Some k)
    note k = find_bounds[OF Some]
    then show ?thesis
      using assms zero Some by (auto simp: gauss_pivot_def swap_rows_def upper_until_def rows_wf_def nth_list_update)
  qed
qed (use assms in \<open>auto simp: gauss_pivot_def\<close>)

lemma gauss_row_shape:
  assumes "pair_wf R Ca Cb ab" "i < R" "R \<le> Ca" "upper_until R i (fst ab)" "fst ab ! i ! i \<noteq> 0"
  shows "upper_until R (Suc i) (fst (fold (gauss_clear i) [i + 1..<R] (gauss_scale i ab)))"
proof -
  let ?s = "gauss_scale i ab"
  have wf: "pair_wf R Ca Cb ?s"
    using row_equiv_wf[OF gauss_scale_equiv[OF assms(1,2,5)]] .
  have s: "fst ?s ! k ! j = (if k = i then fst ab ! k ! j / fst ab ! i ! i else fst ab ! k ! j)" if "k < R" "j < Ca" for k j
    using assms that by (auto simp: gauss_scale_def Let_def rows_wf_def)
  let ?c = "fst (fold (gauss_clear i) [Suc i..<R] ?s)"
  have at: "?c ! k ! j = (if i < k then fst ?s ! k ! j - fst ?s ! i ! j * fst ?s ! k ! i else fst ?s ! k ! j)"
    if "k < R" "j < Ca" for k j
    using gauss_clears_at[OF wf assms(2), of "[Suc i..<R]" k j] assms that row_ranges(1) by auto
  have "?c ! j ! j = 1 \<and> (\<forall>k < R. j < k \<longrightarrow> ?c ! k ! j = 0)" if j: "j < Suc i" for j
  proof -
    have "j < R" "j < Ca" "i < Ca"
      using assms j by auto
    then show ?thesis
      using assms j by (auto simp: at s upper_until_def less_Suc_eq)
  qed
  then show ?thesis
    by (simp add: upper_until_def)
qed

lemma gauss_rows_shape:
  assumes "pair_wf R Ca Cb ab" "R \<le> Ca" "i \<le> R" "upper_until R i (fst ab)"
  shows "case gauss_rows R [i..<R] ab of (ok, a, b) \<Rightarrow>
    if ok then upper_until R R a
    else \<exists>r < R. upper_until R r a \<and> (\<forall>k < R. r \<le> k \<longrightarrow> a ! k ! r = 0)"
  using assms
proof (induction "R - i" arbitrary: i ab)
  case 0
  then show ?case by (auto split: prod.splits)
next
  case (Suc n)
  then have i: "i < R" "[i..<R] = i # [Suc i..<R]"
    by (simp_all add: upt_conv_Cons)
  let ?p = "gauss_pivot R i ab"
  have p: "pair_wf R Ca Cb ?p"
    using row_equiv_wf[OF gauss_pivot_equiv[OF Suc.prems(1) i(1)]] .
  have shape: "upper_until R i (fst ?p)" "fst ?p ! i ! i = 0 \<Longrightarrow> \<forall>k < R. i \<le> k \<longrightarrow> fst ?p ! k ! i = 0"
    using gauss_pivot_shape[OF Suc.prems(1) i(1) Suc.prems(2,4)] by auto
  show ?case
  proof (cases "fst ?p ! i ! i = 0")
    case True
    then show ?thesis
      using i shape by (auto simp: Let_def split: prod.splits)
  next
    case False
    let ?s = "gauss_scale i ?p"
    let ?q = "fold (gauss_clear i) [i + 1..<R] ?s"
    have s: "pair_wf R Ca Cb ?s"
      using row_equiv_wf[OF gauss_scale_equiv[OF p i(1) False]] .
    have q: "pair_wf R Ca Cb ?q"
      using i(1) by (intro row_equiv_wf[OF gauss_clears_equiv[OF s]]) auto
    have "upper_until R (Suc i) (fst ?q)"
      using gauss_row_shape[OF p i(1) Suc.prems(2) shape(1) False] .
    then show ?thesis
      using Suc.hyps(1)[of "Suc i" ?q] Suc.hyps(2) Suc.prems(2) i q False by (simp add: Let_def)
  qed
qed

text \<open>The second phase: the columns from the last one to column \<open>i\<close> are those of the identity.\<close>

definition unit_from :: "nat \<Rightarrow> nat \<Rightarrow> 'a::field list list \<Rightarrow> bool" where
  "unit_from R i a \<longleftrightarrow> (\<forall>j < R. i \<le> j \<longrightarrow> (\<forall>k < j. a ! k ! j = 0))"

lemma gauss_up_shape:
  assumes "pair_wf R Ca Cb ab" "R \<le> Ca" "upper_until R R (fst ab)" "unit_from R i (fst ab)" "i \<le> R"
  shows "upper_until R R (fst (fold (\<lambda>i. fold (gauss_clear i) [0..<i]) (rev [1..<i]) ab)) \<and>
    unit_from R 1 (fst (fold (\<lambda>i. fold (gauss_clear i) [0..<i]) (rev [1..<i]) ab))"
  using assms
proof (induction i arbitrary: ab)
  case 0
  then show ?case by (auto simp: unit_from_def)
next
  case (Suc i)
  show ?case
  proof (cases "i = 0")
    case True
    then show ?thesis using Suc.prems by simp
  next
    case False
    then have rev: "rev [1..<Suc i] = i # rev [1..<i]"
      by simp
    let ?q = "fold (gauss_clear i) [0..<i] ab"
    have i: "i < R" "i < Ca"
      using Suc.prems by auto
    have q: "pair_wf R Ca Cb ?q"
      using i by (intro row_equiv_wf[OF gauss_clears_equiv[OF Suc.prems(1)]]) auto
    have at: "fst ?q ! k ! j =
        (if k < i then fst ab ! k ! j - fst ab ! i ! j * fst ab ! k ! i else fst ab ! k ! j)" if "k < R" "j < R" for k j
      using gauss_clears_at[OF Suc.prems(1) i(1), of "[0..<i]" k j] Suc.prems(2) i that row_ranges(2) by auto
    have "upper_until R R (fst ?q)" "unit_from R i (fst ?q)"
      using Suc.prems i by (auto simp: upper_until_def unit_from_def at le_less)
    then show ?thesis
      using Suc.IH[of ?q] q Suc.prems(2) i unfolding rev by simp
  qed
qed

lemma gauss_jordan_shape:
  assumes "pair_wf R Ca Cb ab" "R \<le> Ca"
  shows "case gauss_jordan_rows R ab of (ok, a, b) \<Rightarrow>
    if ok then \<forall>k < R. \<forall>j < R. a ! k ! j = (if k = j then 1 else 0)
    else \<exists>r < R. upper_until R r a \<and> (\<forall>k < R. r \<le> k \<longrightarrow> a ! k ! r = 0)"
proof -
  obtain ok a b where e: "gauss_rows R [0..<R] ab = (ok, a, b)"
    by (metis prod_cases3)
  have shape: "if ok then upper_until R R a else \<exists>r < R. upper_until R r a \<and> (\<forall>k < R. r \<le> k \<longrightarrow> a ! k ! r = 0)"
    using gauss_rows_shape[OF assms, of 0] e by (simp add: upper_until_def)
  have wf: "pair_wf R Ca Cb (a, b)"
    using row_equiv_wf[OF gauss_rows_equiv[OF assms(1), of "[0..<R]"]] e row_ranges(3) by simp
  show ?thesis
  proof (cases ok)
    case True
    let ?u = "fold (\<lambda>i. fold (gauss_clear i) [0..<i]) (rev [1..<R]) (a, b)"
    have "upper_until R R (fst ?u) \<and> unit_from R 1 (fst ?u)"
      using gauss_up_shape[OF wf assms(2), of R] shape True by (simp add: unit_from_def)
    then have u: "upper_until R R (fst ?u)" "unit_from R 1 (fst ?u)"
      by simp_all
    have "fst ?u ! k ! j = (if k = j then 1 else 0)" if "k < R" "j < R" for k j
      using u that by (cases k j rule: linorder_cases) (auto simp: upper_until_def unit_from_def)
    moreover obtain a2 b2 where "?u = (a2, b2)"
      by fastforce
    ultimately show ?thesis
      using True by (simp add: gauss_jordan_rows_def gauss_elimination_rows_def e)
  next
    case False
    then show ?thesis
      using shape by (simp add: gauss_jordan_rows_def gauss_elimination_rows_def e)
  qed
qed
section \<open>Solutions, inverses and singular matrices\<close>

lemma null_vector:
  assumes "upper_until R r a" "r < R" "\<forall>k < R. r \<le> k \<longrightarrow> a ! k ! r = 0" "R \<le> N"
  shows "\<exists>x. x r = 1 \<and> (\<forall>k < R. (\<Sum>j < N. a ! k ! j * x j) = 0)"
proof -
  have "d \<le> r \<Longrightarrow> \<exists>x. x r = 1 \<and> (\<forall>j < r - d. x j = 0) \<and> (\<forall>k < R. r - d \<le> k \<longrightarrow> (\<Sum>j < N. a ! k ! j * x j) = 0)" for d
  proof (induction d)
    case 0
    have "(\<Sum>j < N. a ! k ! j * (if j = r then 1 else 0)) = a ! k ! r" for k
      using assms by (simp add: if_distrib[of "(*) _"] cong: if_cong)
    then show ?case
      using assms by (intro exI[of _ "\<lambda>j. if j = r then 1 else 0"]) simp
  next
    case (Suc d)
    define m where "m = r - Suc d"
    have m: "m < r" "m < N" "r - d = Suc m"
      using Suc.prems assms by (auto simp: m_def)
    obtain x where x: "x r = 1" "\<forall>j < Suc m. x j = 0" "\<forall>k < R. Suc m \<le> k \<longrightarrow> (\<Sum>j < N. a ! k ! j * x j) = 0"
      using Suc m by auto
    define s where "s = (\<Sum>j < N. a ! m ! j * x j)"
    have "(\<Sum>j < N. a ! k ! j * (x(m := - s)) j) = (\<Sum>j < N. a ! k ! j * x j + (if j = m then - s * a ! k ! m else 0))" for k
      using x(2) by (intro sum.cong) auto
    then have sum: "(\<Sum>j < N. a ! k ! j * (x(m := - s)) j) = (\<Sum>j < N. a ! k ! j * x j) - s * a ! k ! m" for k
      using m(2) by (simp add: sum.distrib)
    have diag: "a ! m ! m = 1" "k < R \<Longrightarrow> m < k \<Longrightarrow> a ! k ! m = 0" for k
      using assms(1) m(1) by (auto simp: upper_until_def)
    have "(\<Sum>j < N. a ! k ! j * (x(m := - s)) j) = 0" if "k < R" "m \<le> k" for k
    proof (cases "k = m")
      case True
      then show ?thesis unfolding sum using diag(1) by (simp add: s_def)
    next
      case False
      then show ?thesis unfolding sum using that x(3) diag(2)[of k] by simp
    qed
    then show ?case
      using x m unfolding m_def[symmetric] by (intro exI[of _ "x(m := - s)"]) auto
  qed
  from this[of r] show ?thesis
    by auto
qed

definition unit_col :: "nat \<Rightarrow> nat \<Rightarrow> 'a::field" where
  "unit_col j = (\<lambda>k. if k = j then 1 else 0)"

lemma unit_col_sum: "(\<lambda>r. \<Sum>k < N. unit_col k r * x k) = (\<lambda>r. if r < N then x r else 0)"
  by (auto simp: unit_col_def fun_eq_iff if_distrib[of "\<lambda>z. z * _"] cong: if_cong)

text \<open>The three consequences of a linear change of columns, in terms of rows.\<close>

lemma row_equiv_solves:
  assumes "row_equiv N N C (a, b) (a', b')" "\<forall>k < N. \<forall>j < N. a' ! k ! j = (if k = j then 1 else 0)" "r < N" "j < C"
  shows "(\<Sum>k < N. a ! r ! k * b' ! k ! j) = b ! r ! j"
proof -
  obtain T where T: "lin_iso T" "\<And>j. j < N \<Longrightarrow> row_col N a' j = T (row_col N a j)"
    "\<And>j. j < C \<Longrightarrow> row_col N b' j = T (row_col N b j)"
    using assms(1) by (auto simp: row_equiv_def)
  have "k < N \<Longrightarrow> row_col N a' k = unit_col k" for k
    using assms(2) by (auto simp: row_col_def unit_col_def fun_eq_iff)
  then have unit: "k < N \<Longrightarrow> T (row_col N a k) = unit_col k" for k
    using T(2)[of k] by simp
  have "T (\<lambda>r. \<Sum>k < N. row_col N a k r * b' ! k ! j) = (\<lambda>r. \<Sum>k < N. unit_col k r * b' ! k ! j)"
    unfolding lin_iso_sum[OF T(1)] by (intro ext sum.cong) (simp_all add: unit)
  also have "\<dots> = T (row_col N b j)"
    using T(3)[OF assms(4)] by (simp add: unit_col_sum row_col_def)
  finally have "(\<lambda>r. \<Sum>k < N. row_col N a k r * b' ! k ! j) = row_col N b j"
    by (rule injD[OF lin_isoD(3)[OF T(1)]])
  from fun_cong[OF this, of r] show ?thesis
    using assms(3) by (simp add: row_col_def)
qed

lemma row_equiv_left_inverse:
  assumes "row_equiv N N N (a, b) (a', b')" "\<forall>k < N. \<forall>j < N. a' ! k ! j = (if k = j then 1 else 0)"
    and "\<forall>k < N. \<forall>j < N. b ! k ! j = (if k = j then 1 else 0)" "r < N" "j < N"
  shows "(\<Sum>k < N. b' ! r ! k * a ! k ! j) = (if r = j then 1 else 0)"
proof -
  obtain T where T: "lin_iso T" "\<And>j. j < N \<Longrightarrow> row_col N a' j = T (row_col N a j)"
    "\<And>j. j < N \<Longrightarrow> row_col N b' j = T (row_col N b j)"
    using assms(1) by (auto simp: row_equiv_def)
  have unit: "k < N \<Longrightarrow> row_col N b k = unit_col k" for k
    using assms(3) by (auto simp: row_col_def unit_col_def fun_eq_iff)
  have "T (row_col N a j) = T (\<lambda>r. \<Sum>k < N. unit_col k r * a ! k ! j)"
    by (simp add: unit_col_sum row_col_def)
  also have "\<dots> = (\<lambda>r. \<Sum>k < N. row_col N b' k r * a ! k ! j)"
    unfolding lin_iso_sum[OF T(1)] by (intro ext sum.cong) (simp_all add: T(3) unit)
  finally have "row_col N a' j = (\<lambda>r. \<Sum>k < N. row_col N b' k r * a ! k ! j)"
    using T(2)[OF assms(5)] by simp
  from fun_cong[OF this, of r] show ?thesis
    using assms by (simp add: row_col_def)
qed

lemma row_equiv_null:
  assumes "row_equiv N N C (a, b) (a', b')" "\<forall>k < N. (\<Sum>j < N. a' ! k ! j * x j) = 0" "r < N"
  shows "(\<Sum>j < N. a ! r ! j * x j) = 0"
proof -
  obtain T where T: "lin_iso T" "\<And>j. j < N \<Longrightarrow> row_col N a' j = T (row_col N a j)"
    using assms(1) by (auto simp: row_equiv_def)
  have "T (\<lambda>r. \<Sum>j < N. row_col N a j r * x j) = (\<lambda>r. \<Sum>j < N. row_col N a' j r * x j)"
    unfolding lin_iso_sum[OF T(1)] by (intro ext sum.cong) (simp_all add: T(2))
  also have "\<dots> = T (\<lambda>k. 0)"
    unfolding lin_iso_zero[OF T(1)]
  proof (rule ext)
    show "(\<Sum>j < N. row_col N a' j r * x j) = 0" for r
      using assms(2) by (cases "r < N") (simp_all add: row_col_def)
  qed
  finally have "(\<lambda>r. \<Sum>j < N. row_col N a j r * x j) = (\<lambda>k. 0)"
    by (rule injD[OF lin_isoD(3)[OF T(1)]])
  from fun_cong[OF this, of r] show ?thesis
    using assms(3) by (simp add: row_col_def)
qed

section \<open>The overloads\<close>

definition mat_list :: "'a matrix \<Rightarrow> 'a list list" where
  "mat_list m = map (\<lambda>i. map (mat_at m i) [0..<mat_cols m]) [0..<mat_rows m]"

lemma mat_list_wf: "rows_wf (mat_rows m) (mat_cols m) (mat_list m)"
  by (simp add: rows_wf_def mat_list_def)

lemma mat_list_at [simp]: "i < mat_rows m \<Longrightarrow> j < mat_cols m \<Longrightarrow> mat_list m ! i ! j = mat_at m i j"
  by (simp add: mat_list_def)

lemma rows_build: "rows_wf R C v \<Longrightarrow> mat_of_majors True C R v = mat_build True C R (\<lambda>i j. v ! i ! j)"
  by (auto simp: mat_build_def rows_wf_def mat_of_majors_def intro!: nth_equalityI)

lemma mat_as_row_major_list:
  "mat_wf m \<Longrightarrow> mat_as_row_major m = Some (mat_of_majors True (mat_cols m) (mat_rows m) (mat_list m))"
proof -
  assume "mat_wf m"
  then obtain rm C R f where m: "m = mat_build rm C R f"
    by (rule mat_wf_cases)
  show ?thesis
    using rows_build[OF mat_list_wf, of m] by (simp add: m mat_simps) (auto intro!: mat_build_cong simp: mat_list_def)
qed

lemma gauss_overload_result:
  assumes "mat_wf a" "mat_wf b" "mat_rows b = mat_rows a"
    and "elim (mat_rows a) (mat_list a, mat_list b) = (ok, va, vb)"
    and "rows_wf (mat_rows a) (mat_cols a) va" "rows_wf (mat_rows a) (mat_cols b) vb"
  shows "\<exists>a' b'. gauss_overload elim a b = Some (ok, a', b') \<and>
    (ok \<longrightarrow> a' = mat_build (mat_rm a) (mat_cols a) (mat_rows a) (\<lambda>i j. va ! i ! j) \<and>
      b' = mat_build (mat_rm b) (mat_cols b) (mat_rows a) (\<lambda>i j. vb ! i ! j))"
proof -
  have upd: "mat_of_majors True C R v\<lparr>mat_v := w\<rparr> = mat_of_majors True C R w" for C R and v w :: "'a list list"
    by (simp add: mat_of_majors_def)
  show ?thesis
    using assms
    by (simp add: gauss_overload_def mat_as_row_major_list upd rows_build mat_simps Let_def)
qed
lemma mat_identity_build: "mat_identity rm N = mat_build rm N N (\<lambda>i j. if i = j then 1 else 0)"
  by (auto simp: mat_identity_def mat_build_def mat_of_majors_def simd_axis_def)

lemma gauss_jordan_result:
  assumes "mat_wf a" "mat_wf b" "mat_rows a = N" "mat_cols a = N" "mat_rows b = N" "0 < N"
  obtains ok a' b' va vb where
    "gauss_jordan_elimination a b = Some (ok, a', b')"
    "row_equiv N N (mat_cols b) (mat_list a, mat_list b) (va, vb)"
    "ok \<longrightarrow> a' = mat_identity (mat_rm a) N"
    "ok \<longrightarrow> (\<forall>k < N. \<forall>j < N. va ! k ! j = (if k = j then 1 else 0))"
    "ok \<longrightarrow> b' = mat_build (mat_rm b) (mat_cols b) N (\<lambda>i j. vb ! i ! j)"
    "\<not> ok \<longrightarrow> (\<exists>x. (\<exists>k < N. x k \<noteq> 0) \<and> (\<forall>k < N. (\<Sum>j < N. mat_at a k j * x j) = 0))"
proof -
  obtain ok va vb where e: "gauss_jordan_rows N (mat_list a, mat_list b) = (ok, va, vb)"
    by (metis prod_cases3)
  have wf: "pair_wf N N (mat_cols b) (mat_list a, mat_list b)"
    using mat_list_wf[of a] mat_list_wf[of b] assms by simp
  have equiv: "row_equiv N N (mat_cols b) (mat_list a, mat_list b) (va, vb)"
    using gauss_jordan_equiv[OF wf] e by simp
  have shape: "if ok then \<forall>k < N. \<forall>j < N. va ! k ! j = (if k = j then 1 else 0)
      else \<exists>r < N. upper_until N r va \<and> (\<forall>k < N. r \<le> k \<longrightarrow> va ! k ! r = 0)"
    using gauss_jordan_shape[OF wf] e by simp
  obtain a' b' where "gauss_jordan_elimination a b = Some (ok, a', b')"
    "ok \<longrightarrow> a' = mat_build (mat_rm a) N N (\<lambda>i j. va ! i ! j) \<and> b' = mat_build (mat_rm b) (mat_cols b) N (\<lambda>i j. vb ! i ! j)"
    using gauss_overload_result[OF assms(1,2), of gauss_jordan_rows ok va vb] e row_equiv_wf[OF equiv] assms(3-5)
    by (auto simp: gauss_jordan_elimination_def)
  moreover have "ok \<Longrightarrow> mat_build (mat_rm a) N N (\<lambda>i j. va ! i ! j) = mat_identity (mat_rm a) N"
    using shape by (auto simp: mat_identity_build intro!: mat_build_cong)
  moreover have "\<exists>x. (\<exists>k < N. x k \<noteq> 0) \<and> (\<forall>k < N. (\<Sum>j < N. mat_at a k j * x j) = 0)" if no: "\<not> ok"
  proof -
    obtain r where r: "r < N" "upper_until N r va" "\<forall>k < N. r \<le> k \<longrightarrow> va ! k ! r = 0"
      using shape no by auto
    obtain x where x: "x r = 1" "\<forall>k < N. (\<Sum>j < N. va ! k ! j * x j) = 0"
      using null_vector[OF r(2,1,3) order_refl] by auto
    have "\<forall>k < N. (\<Sum>j < N. mat_at a k j * x j) = 0"
      using row_equiv_null[OF equiv x(2)] assms(3,4) by simp
    then show ?thesis
      using x(1) r(1) by (intro exI[of _ x]) auto
  qed
  ultimately show ?thesis
    using equiv shape by (intro that[of ok a' b' va vb]) auto
qed

lemma null_vector_product:
  assumes "0 < N" "\<And>k. k < N \<Longrightarrow> (\<Sum>j < N. f k j * x j) = 0"
  shows "mat_multiply_vec simd (mat_build rm N N f) (map x [0..<N]) = Some (simd_fill N 0)"
proof -
  have "mat_multiply_vec simd (mat_build rm N N f) (map x [0..<N]) = Some (map (\<lambda>i. \<Sum>k < N. f i k * map x [0..<N] ! k) [0..<N])"
    by (rule mat_multiply_vec_build) (use assms(1) in simp_all)
  moreover have "map (\<lambda>i. \<Sum>k < N. f i k * map x [0..<N] ! k) [0..<N] = simd_fill N 0"
    using assms(2) by (intro nth_equalityI) simp_all
  ultimately show ?thesis
    by simp
qed

text \<open>
  Gauss-Jordan elimination of a square matrix \<open>a\<close> and any right sides \<open>b\<close>, whatever their orders of
  storage, never fails an assertion. When it succeeds it leaves the identity and the solution of
  \<open>a * x = b\<close>; when it does not, there is a vector other than zero that \<open>a\<close> takes to zero.
\<close>

theorem gauss_jordan_solves:
  fixes a b :: "'a::field matrix"
  assumes "mat_wf a" "mat_wf b" "mat_rows a = N" "mat_cols a = N" "mat_rows b = N" "0 < N"
  shows "case gauss_jordan_elimination a b of
      None \<Rightarrow> False
    | Some (ok, a', x) \<Rightarrow>
        if ok then a' = mat_identity (mat_rm a) N \<and> mat_multiply simd a x = mat_as_row_major b
        else \<exists>v. length v = N \<and> \<not> simd_is_zero v \<and> mat_multiply_vec simd a v = Some (simd_fill N 0)"
proof -
  obtain rm f where a: "a = mat_build rm N N f"
    using assms by (metis mat_wf_cases mat_build_sel(2,3))
  obtain rm2 C g where b: "b = mat_build rm2 C N g"
    using assms by (metis mat_wf_cases mat_build_sel(3))
  obtain ok a' b' va vb where r: "gauss_jordan_elimination a b = Some (ok, a', b')"
    "row_equiv N N (mat_cols b) (mat_list a, mat_list b) (va, vb)"
    "ok \<longrightarrow> a' = mat_identity (mat_rm a) N"
    "ok \<longrightarrow> (\<forall>k < N. \<forall>j < N. va ! k ! j = (if k = j then 1 else 0))"
    "ok \<longrightarrow> b' = mat_build (mat_rm b) (mat_cols b) N (\<lambda>i j. vb ! i ! j)"
    "\<not> ok \<longrightarrow> (\<exists>x. (\<exists>k < N. x k \<noteq> 0) \<and> (\<forall>k < N. (\<Sum>j < N. mat_at a k j * x j) = 0))"
    by (rule gauss_jordan_result[OF assms])
  show ?thesis
  proof (cases ok)
    case True
    have "(\<Sum>k < N. f i k * vb ! k ! j) = g i j" if "i < N" "j < C" for i j
      using row_equiv_solves[OF r(2) r(4)[THEN mp, OF True], of i j] that by (simp add: a b)
    then have "mat_multiply simd a b' = mat_as_row_major b"
      using assms(6) unfolding r(5)[THEN mp, OF True] by (auto simp: a b mat_simps intro!: mat_build_cong)
    then show ?thesis
      using r(1,3) True by simp
  next
    case False
    obtain x where x: "\<exists>k < N. x k \<noteq> 0" "\<forall>k < N. (\<Sum>j < N. mat_at a k j * x j) = 0"
      using r(6)[THEN mp, OF False] by auto
    let ?v = "map x [0..<N]"
    have "\<not> simd_is_zero ?v"
      using x(1) by (auto simp: simd_is_zero_iff)
    moreover have "mat_multiply_vec simd a ?v = Some (simd_fill N 0)"
      using null_vector_product[OF assms(6), of f x] x(2) by (simp add: a)
    ultimately show ?thesis
      using r(1) False by (auto intro!: exI[of _ ?v])
  qed
qed

theorem gauss_jordan_solves_witness:
  "case gauss_jordan_elimination (mat_of_majors False 2 2 [[0, 2], [1, 0]]) (mat_of_majors True 1 2 [[3], [4 :: rat]]) of
     None \<Rightarrow> False
   | Some (ok, a', x) \<Rightarrow> ok \<and> mat_multiply True (mat_of_majors False 2 2 [[0, 2], [1, 0]]) x = Some (mat_of_majors True 1 2 [[3], [4]])"
proof -
  have wf: "mat_wf (mat_of_majors False 2 2 [[0, 2], [1, 0 :: rat]])" "mat_wf (mat_of_majors True 1 2 [[3], [4 :: rat]])"
    by (auto simp: mat_wf_def mat_majors_def mat_minors_def)
  have ok: "map_option fst (gauss_jordan_elimination (mat_of_majors False 2 2 [[0, 2], [1, 0]]) (mat_of_majors True 1 2 [[3], [4 :: rat]])) = Some True"
    by code_simp
  have row: "mat_as_row_major (mat_of_majors True 1 2 [[3], [4 :: rat]]) = Some (mat_of_majors True 1 2 [[3], [4]])"
    by (simp add: mat_as_row_major_def)
  show ?thesis
    using gauss_jordan_solves[OF wf, of 2 True] ok row by (auto split: option.splits prod.splits)
qed

text \<open>
  C13. \<^verbatim>\<open>inverse_matrix\<close> decides whether a square matrix has an inverse: its result is the inverse on
  both sides, and when there is none, no matrix is a left inverse and some vector other than zero is
  taken to zero.
\<close>

theorem inverse_matrix_correct:
  fixes m :: "'a::field matrix"
  assumes "mat_wf m" "mat_rows m = N" "mat_cols m = N" "0 < N"
  shows "case inverse_matrix m of
      None \<Rightarrow> False
    | Some (Some i) \<Rightarrow> mat_multiply simd m i = Some (mat_identity True N) \<and> mat_multiply simd i m = Some (mat_identity True N)
    | Some None \<Rightarrow>
        (\<nexists>i. mat_wf i \<and> mat_rows i = N \<and> mat_cols i = N \<and> mat_multiply simd i m = Some (mat_identity True N)) \<and>
        (\<exists>v. length v = N \<and> \<not> simd_is_zero v \<and> mat_multiply_vec simd m v = Some (simd_fill N 0))"
proof -
  obtain rm f where m: "m = mat_build rm N N f"
    using assms by (metis mat_wf_cases mat_build_sel(2,3))
  let ?I = "mat_identity rm N :: 'a matrix"
  have I: "mat_wf ?I" "mat_rows ?I = N" "mat_cols ?I = N" "mat_rm ?I = rm"
    by (simp_all add: mat_identity_build)
  obtain ok a' b' va vb where r: "gauss_jordan_elimination m ?I = Some (ok, a', b')"
    "row_equiv N N (mat_cols ?I) (mat_list m, mat_list ?I) (va, vb)"
    "ok \<longrightarrow> a' = mat_identity (mat_rm m) N"
    "ok \<longrightarrow> (\<forall>k < N. \<forall>j < N. va ! k ! j = (if k = j then 1 else 0))"
    "ok \<longrightarrow> b' = mat_build (mat_rm ?I) (mat_cols ?I) N (\<lambda>i j. vb ! i ! j)"
    "\<not> ok \<longrightarrow> (\<exists>x. (\<exists>k < N. x k \<noteq> 0) \<and> (\<forall>k < N. (\<Sum>j < N. mat_at m k j * x j) = 0))"
    by (rule gauss_jordan_result[OF assms(1) I(1) assms(2,3) I(2) assms(4)])
  have at: "i < N \<Longrightarrow> j < N \<Longrightarrow> mat_list m ! i ! j = f i j" "i < N \<Longrightarrow> j < N \<Longrightarrow> mat_list ?I ! i ! j = (if i = j then 1 else 0)"
    for i j
    by (simp_all add: m mat_identity_build)
  have inv: "inverse_matrix m = Some (if ok then Some b' else None)"
    using r(1) assms(3) by (simp add: inverse_matrix_def m)
  show ?thesis
  proof (cases ok)
    case True
    note unit = r(4)[THEN mp, OF True]
    have b': "b' = mat_build rm N N (\<lambda>i j. vb ! i ! j)"
      using r(5) True I by simp
    have "(\<Sum>k < N. f i k * vb ! k ! j) = (if i = j then 1 else 0)" if "i < N" "j < N" for i j
      using row_equiv_solves[OF r(2) unit that(1), of j] that I(3) by (simp add: at)
    moreover have "(\<Sum>k < N. vb ! i ! k * f k j) = (if i = j then 1 else 0)" if "i < N" "j < N" for i j
      using row_equiv_left_inverse[OF r(2)[unfolded I(3)] unit _ that] that by (simp add: at)
    ultimately have "mat_multiply simd m b' = Some (mat_identity True N)" "mat_multiply simd b' m = Some (mat_identity True N)"
      using assms(4) by (auto simp: m b' mat_multiply_build mat_identity_build intro!: mat_build_cong)
    then show ?thesis
      using inv True by simp
  next
    case False
    obtain x where x: "\<exists>k < N. x k \<noteq> 0" "\<forall>k < N. (\<Sum>j < N. mat_at m k j * x j) = 0"
      using r(6) False by auto
    then have zero: "k < N \<Longrightarrow> (\<Sum>j < N. f k j * x j) = 0" for k
      by (simp add: m)
    have none: False if i: "mat_wf i" "mat_rows i = N" "mat_cols i = N" "mat_multiply simd i m = Some (mat_identity True N)" for i
    proof -
      obtain rm2 g where g: "i = mat_build rm2 N N g"
        using i(1-3) by (metis mat_wf_cases mat_build_sel(2,3))
      have "mat_build True N N (\<lambda>r j. \<Sum>k < N. g r k * f k j) = mat_build True N N (\<lambda>i j. if i = j then 1 else 0)"
        using i(4) assms(4) by (simp add: g m mat_multiply_build mat_identity_build)
      note left = mat_build_eqD[OF this]
      have "x r = 0" if r: "r < N" for r
      proof -
        have "x r = (\<Sum>j < N. (\<Sum>k < N. g r k * f k j) * x j)"
          using r left by (simp add: if_distrib[of "\<lambda>z. z * _"] cong: if_cong)
        also have "\<dots> = (\<Sum>k < N. g r k * (\<Sum>j < N. f k j * x j))"
          by (simp add: sum_distrib_left sum_distrib_right mult.assoc) (rule sum.swap)
        also have "\<dots> = 0"
          using zero by simp
        finally show ?thesis .
      qed
      then show False using x(1) by auto
    qed
    let ?v = "map x [0..<N]"
    have "\<not> simd_is_zero ?v"
      using x(1) by (auto simp: simd_is_zero_iff)
    moreover have "mat_multiply_vec simd m ?v = Some (simd_fill N 0)"
      using null_vector_product[OF assms(4) zero] by (simp add: m)
    ultimately show ?thesis
      using inv False none by (auto intro!: exI[of _ ?v])
  qed
qed

theorem inverse_matrix_correct_witness:
  "case inverse_matrix (mat_of_majors True 2 2 [[1, 2], [3, 4 :: rat]]) of
     Some (Some i) \<Rightarrow> mat_multiply True i (mat_of_majors True 2 2 [[1, 2], [3, 4]]) = Some (mat_identity True 2)
   | _ \<Rightarrow> False"
proof -
  have wf: "mat_wf (mat_of_majors True 2 2 [[1, 2], [3, 4 :: rat]])"
    by (auto simp: mat_wf_def mat_majors_def mat_minors_def)
  have some: "map_option (\<lambda>i. i \<noteq> None) (inverse_matrix (mat_of_majors True 2 2 [[1, 2], [3, 4 :: rat]])) = Some True"
    by code_simp
  show ?thesis
    using inverse_matrix_correct[OF wf, of 2 True] some by (auto split: option.splits)
qed

end
