(* ===== verification/Matrix_Construct.thy ===== *)
theory Matrix_Construct
  imports Matrix_Elimination
begin

text \<open>
  \<^verbatim>\<open>source/modules/eagine/math/matrix_construct.cpp\<close>: constructors of transformation matrices of
  four rows and columns, by rows or by columns (\<open>rm\<close>). A constructor object is the data it holds.
  Angles are real numbers in radians.
\<close>

section \<open>Constructors\<close>

definition translation_mat :: "bool \<Rightarrow> 'a::{zero,one} list \<Rightarrow> 'a matrix" where
  "translation_mat rm v =
     (if rm then
        mat_of_majors True 4 4 [[1, 0, 0, v ! 0], [0, 1, 0, v ! 1], [0, 0, 1, v ! 2], [0, 0, 0, 1]]
      else
        mat_of_majors False 4 4 [[1, 0, 0, 0], [0, 1, 0, 0], [0, 0, 1, 0], [v ! 0, v ! 1, v ! 2, 1]])"

definition translation_multiply :: "'a::plus list \<Rightarrow> 'a list \<Rightarrow> 'a list" where
  "translation_multiply a b = data_add a b"

definition scale_mat :: "bool \<Rightarrow> 'a::{zero,one} list \<Rightarrow> 'a matrix" where
  "scale_mat rm v =
     mat_of_majors rm 4 4 [[v ! 0, 0, 0, 0], [0, v ! 1, 0, 0], [0, 0, v ! 2, 0], [0, 0, 0, 1]]"

definition scale_multiply :: "'a::times list \<Rightarrow> 'a list \<Rightarrow> 'a list" where
  "scale_multiply a b = data_mul a b"

definition uniform_scale_mat :: "bool \<Rightarrow> 'a::{zero,one} \<Rightarrow> 'a matrix" where
  "uniform_scale_mat rm v =
     mat_of_majors rm 4 4 [[v, 0, 0, 0], [0, v, 0, 0], [0, 0, v, 0], [0, 0, 0, 1]]"

definition uniform_scale_multiply :: "'a::times \<Rightarrow> 'a \<Rightarrow> 'a" where
  "uniform_scale_multiply a b = a * b"

definition reflection_make :: "bool \<Rightarrow> 'a::{one,uminus}" where
  "reflection_make r = (if r then - 1 else 1)"

definition reflection_v :: "nat \<Rightarrow> 'a::one \<Rightarrow> nat \<Rightarrow> 'a" where
  "reflection_v I v i = (if I = i then v else 1)"

definition reflection_mat :: "bool \<Rightarrow> nat \<Rightarrow> 'a::{zero,one} \<Rightarrow> 'a matrix" where
  "reflection_mat rm I v =
     mat_of_majors rm 4 4
       [[reflection_v I v 0, 0, 0, 0], [0, reflection_v I v 1, 0, 0], [0, 0, reflection_v I v 2, 0], [0, 0, 0, 1]]"

definition reflection_multiply :: "'a::linordered_idom \<Rightarrow> 'a \<Rightarrow> 'a" where
  "reflection_multiply a b = reflection_make (a < b \<or> b < a)"

definition reflection_reorder :: "'a::linordered_idom \<Rightarrow> 'a" where
  "reflection_reorder c = reflection_make (c < 0)"

text \<open>Rotation about the axis of index \<open>I\<close>, for which the code has three overloads.\<close>

definition rotation_make :: "bool \<Rightarrow> nat \<Rightarrow> real \<Rightarrow> real \<Rightarrow> real matrix" where
  "rotation_make rm I cx sx =
     mat_of_majors rm 4 4
       (if I = 0 then [[1, 0, 0, 0], [0, cx, - sx, 0], [0, sx, cx, 0], [0, 0, 0, 1]]
        else if I = 1 then [[cx, 0, sx, 0], [0, 1, 0, 0], [- sx, 0, cx, 0], [0, 0, 0, 1]]
        else [[cx, - sx, 0, 0], [sx, cx, 0, 0], [0, 0, 1, 0], [0, 0, 0, 1]])"

definition rotation_mat :: "bool \<Rightarrow> nat \<Rightarrow> real \<Rightarrow> real matrix" where
  "rotation_mat rm I v = rotation_make rm I (cos v) (sin v * (if rm then 1 else - 1))"

definition rotation_multiply :: "real \<Rightarrow> real \<Rightarrow> real" where
  "rotation_multiply a b = a + b"

text \<open>
  Projections hold left, right, bottom, top, near and far. \<open>m20\<close>, \<open>m21\<close> and so on are named as in
  the code.
\<close>

definition ortho_mat :: "bool \<Rightarrow> 'a::field list \<Rightarrow> 'a matrix" where
  "ortho_mat rm v =
     (let x_left = v ! 0; x_right = v ! 1; y_bottom = v ! 2; y_top = v ! 3; z_near = v ! 4; z_far = v ! 5;
          m00 = 2 / (x_right - x_left);
          m11 = 2 / (y_top - y_bottom);
          m22 = - 2 / (z_far - z_near);
          m30 = - (x_right + x_left) / (x_right - x_left);
          m31 = - (y_top + y_bottom) / (y_top - y_bottom);
          m32 = - (z_far + z_near) / (z_far - z_near)
      in if rm then
           mat_of_majors True 4 4 [[m00, 0, 0, m30], [0, m11, 0, m31], [0, 0, m22, m32], [0, 0, 0, 1]]
         else
           mat_of_majors False 4 4 [[m00, 0, 0, 0], [0, m11, 0, 0], [0, 0, m22, 0], [m30, m31, m32, 1]])"

definition perspective_mat :: "bool \<Rightarrow> 'a::field list \<Rightarrow> 'a matrix" where
  "perspective_mat rm v =
     (let x_left = v ! 0; x_right = v ! 1; y_bottom = v ! 2; y_top = v ! 3; z_near = v ! 4; z_far = v ! 5;
          m00 = (2 * z_near) / (x_right - x_left);
          m11 = (2 * z_near) / (y_top - y_bottom);
          m22 = - (z_far + z_near) / (z_far - z_near);
          m20 = (x_right + x_left) / (x_right - x_left);
          m21 = (y_top + y_bottom) / (y_top - y_bottom);
          m23 = - 1;
          m32 = - (2 * z_far * z_near) / (z_far - z_near)
      in if rm then
           mat_of_majors True 4 4 [[m00, 0, m20, 0], [0, m11, m21, 0], [0, 0, m22, m32], [0, 0, m23, 0]]
         else
           mat_of_majors False 4 4 [[m00, 0, 0, 0], [0, m11, 0, 0], [m20, m21, m22, m23], [0, 0, m32, 0]])"

definition perspective_x :: "real \<Rightarrow> real \<Rightarrow> real \<Rightarrow> real \<Rightarrow> real list option" where
  "perspective_x xfov aspect z_near z_far =
     (if 0 < aspect \<and> 0 < xfov then
        let x_right = z_near * tan (xfov * (1 / 2)); x_left = - x_right;
            y_bottom = x_left / aspect; y_top = x_right / aspect
        in Some [x_left, x_right, y_bottom, y_top, z_near, z_far]
      else None)"

definition perspective_y :: "real \<Rightarrow> real \<Rightarrow> real \<Rightarrow> real \<Rightarrow> real list option" where
  "perspective_y yfov aspect z_near z_far =
     (if 0 < aspect \<and> 0 < yfov then
        let y_top = z_near * tan (yfov * (1 / 2)); y_bottom = - y_top;
            x_left = y_bottom * aspect; x_right = y_top * aspect
        in Some [x_left, x_right, y_bottom, y_top, z_near, z_far]
      else None)"

definition perspective_square :: "real \<Rightarrow> real \<Rightarrow> real \<Rightarrow> real list option" where
  "perspective_square fov z_near z_far =
     (if 0 < fov then
        let x_right = z_near * tan (fov * (1 / 2)); x_left = - x_right; y_bottom = x_left; y_top = x_right
        in Some [x_left, x_right, y_bottom, y_top, z_near, z_far]
      else None)"

text \<open>The four overloads of \<^verbatim>\<open>looking_at_y_up::_make\<close> for matrices by rows, and the operator.\<close>

definition looking_at_make_xyzt :: "bool \<Rightarrow> real list \<Rightarrow> real list \<Rightarrow> real list \<Rightarrow> real list \<Rightarrow> real matrix" where
  "looking_at_make_xyzt simd x y z t =
     mat_of_majors True 4 4
       [[x ! 0, x ! 1, x ! 2, - vec_dot simd x t], [y ! 0, y ! 1, y ! 2, - vec_dot simd y t],
        [z ! 0, z ! 1, z ! 2, - vec_dot simd z t], [0, 0, 0, 1]]"

definition looking_at_make_yzt :: "bool \<Rightarrow> real list \<Rightarrow> real list \<Rightarrow> real list \<Rightarrow> real matrix" where
  "looking_at_make_yzt simd y z t = looking_at_make_xyzt simd (vec_cross y z) y z t"

definition looking_at_make_zt :: "bool \<Rightarrow> real list \<Rightarrow> real list \<Rightarrow> real matrix" where
  "looking_at_make_zt simd z t = looking_at_make_yzt simd (vec_normalized simd (vec_cross z t)) z t"

definition looking_at_make_z :: "bool \<Rightarrow> real list \<Rightarrow> real matrix" where
  "looking_at_make_z simd z = looking_at_make_zt simd z [z ! 2, 0, - (z ! 0)]"

definition looking_at_mat :: "bool \<Rightarrow> bool \<Rightarrow> real list \<Rightarrow> real list \<Rightarrow> real matrix option" where
  "looking_at_mat simd rm e t =
     (let m = looking_at_make_z simd (vec_normalized simd (data_sub e t))
      in if rm then Some m else mat_reordered m)"

record orbiting_y_up =
  orbit_t :: "real list"
  orbit_x :: "real list"
  orbit_y :: "real list"
  orbit_z :: "real list"
  orbit_r :: real

definition orbiting_trig :: "real list \<Rightarrow> real \<Rightarrow> real \<Rightarrow> real \<Rightarrow> real \<Rightarrow> real \<Rightarrow> orbiting_y_up" where
  "orbiting_trig t rs sa ca se ce =
     (let x = [- sa, 0, - ca]; z = [ce * ca, se, ce * - sa]
      in \<lparr>orbit_t = t, orbit_x = x, orbit_y = vec_cross z x, orbit_z = z, orbit_r = rs\<rparr>)"

definition orbiting :: "real list \<Rightarrow> real \<Rightarrow> real \<Rightarrow> real \<Rightarrow> orbiting_y_up" where
  "orbiting target radius azimuth elevation =
     orbiting_trig target radius (sin azimuth) (cos azimuth) (sin elevation) (cos elevation)"

definition orbiting_make :: "bool \<Rightarrow> orbiting_y_up \<Rightarrow> real matrix" where
  "orbiting_make simd c =
     (let x = orbit_x c; y = orbit_y c; z = orbit_z c; r = orbit_r c; tv = orbit_t c
      in mat_of_majors True 4 4
           [[x ! 0, x ! 1, x ! 2, - r * vec_dot simd x z - vec_dot simd x tv],
            [y ! 0, y ! 1, y ! 2, - r * vec_dot simd y z - vec_dot simd y tv],
            [z ! 0, z ! 1, z ! 2, - r * vec_dot simd z z - vec_dot simd z tv], [0, 0, 0, 1]])"

definition orbiting_mat :: "bool \<Rightarrow> bool \<Rightarrow> orbiting_y_up \<Rightarrow> real matrix option" where
  "orbiting_mat simd rm c = (if rm then Some (orbiting_make simd c) else mat_reordered (orbiting_make simd c))"

section \<open>Products of constructors\<close>

lemma mat_of_majors_4:
  "mat_of_majors rm 4 4 [[a, b, c, d], [e, f, g, h], [i, j, k, l], [m, n, p, q]] =
   mat_build rm 4 4 (\<lambda>r s. (if rm then [[a, b, c, d], [e, f, g, h], [i, j, k, l], [m, n, p, q]] ! r ! s
     else [[a, b, c, d], [e, f, g, h], [i, j, k, l], [m, n, p, q]] ! s ! r))"
  by (simp add: mat_build_def upts)

lemma sum_4: "(\<Sum>k < 4. f k) = f 0 + f 1 + f 2 + f (3 :: nat)" for f :: "nat \<Rightarrow> 'a::comm_ring_1"
  by (simp add: eval_nat_numeral)

lemma all_less_4: "(\<forall>i < 4. P i) \<longleftrightarrow> P 0 \<and> P 1 \<and> P 2 \<and> P (3 :: nat)"
  by (auto simp: eval_nat_numeral less_Suc_eq)

lemma mat_build_4_eq: "mat_build rm 4 4 f = mat_build rm 4 4 g \<longleftrightarrow> (\<forall>i < 4. \<forall>j < 4. f i j = g i j)"
proof
  assume "mat_build rm 4 4 f = mat_build rm 4 4 g"
  from mat_build_eqD[OF this] show "\<forall>i < 4. \<forall>j < 4. f i j = g i j"
    by simp
qed (rule mat_build_cong, simp)

lemmas construct_defs = translation_mat_def scale_mat_def uniform_scale_mat_def reflection_mat_def
  rotation_mat_def rotation_make_def ortho_mat_def perspective_mat_def
lemma translation_product:
  "length a = 3 \<Longrightarrow> length b = 3 \<Longrightarrow>
   mat_multiply simd (translation_mat rm1 a) (translation_mat rm2 b) = Some (translation_mat True (translation_multiply a b))"
  by (cases rm1; cases rm2)
     (auto simp: list3 translation_mat_def translation_multiply_def mat_of_majors_4 mat_multiply_build sum_4 mat_build_4_eq
       all_less_4 add.commute)

lemma scale_product:
  "length a = 3 \<Longrightarrow> length b = 3 \<Longrightarrow>
   mat_multiply simd (scale_mat rm1 a) (scale_mat rm2 b) = Some (scale_mat True (scale_multiply a b))"
  by (cases rm1; cases rm2)
     (auto simp: list3 scale_mat_def scale_multiply_def data_mul_def mat_of_majors_4 mat_multiply_build sum_4 mat_build_4_eq
       all_less_4)

lemma uniform_scale_product:
  "mat_multiply simd (uniform_scale_mat rm1 a) (uniform_scale_mat rm2 b) =
   Some (uniform_scale_mat True (uniform_scale_multiply a (b :: 'a::comm_ring_1)))"
  by (cases rm1; cases rm2)
     (auto simp: uniform_scale_mat_def uniform_scale_multiply_def mat_of_majors_4 mat_multiply_build sum_4 mat_build_4_eq
       all_less_4)

lemma reflection_product:
  "mat_multiply simd (reflection_mat rm1 I (reflection_make r)) (reflection_mat rm2 I (reflection_make s)) =
   Some (reflection_mat True I (reflection_multiply (reflection_make r) (reflection_make s :: 'a::linordered_idom)))"
  by (cases rm1; cases rm2; cases r; cases s)
     (auto simp: reflection_mat_def reflection_v_def reflection_multiply_def reflection_make_def mat_of_majors_4
       mat_multiply_build sum_4 mat_build_4_eq all_less_4)

lemma rotation_product:
  "mat_multiply simd (rotation_mat rm1 I a) (rotation_mat rm2 I b) = Some (rotation_mat True I (rotation_multiply a b))"
  by (cases rm1; cases rm2; cases "I = 0"; cases "I = 1")
     (auto simp: rotation_mat_def rotation_make_def rotation_multiply_def mat_of_majors_4 mat_multiply_build sum_4
       mat_build_4_eq all_less_4 cos_add sin_add algebra_simps)

lemma constructors_reordered:
  "mat_reordered (translation_mat rm v) = Some (translation_mat (\<not> rm) (v :: 'a::comm_ring_1 list))"
  "mat_reordered (scale_mat rm v) = Some (scale_mat (\<not> rm) v)"
  "mat_reordered (rotation_mat rm I x) = Some (rotation_mat (\<not> rm) I x)"
  "mat_reordered (reflection_mat rm I (reflection_make r)) =
   Some (reflection_mat (\<not> rm) I (reflection_reorder (reflection_make r :: 'b::linordered_idom)))"
  "mat_reordered (ortho_mat rm w) = Some (ortho_mat (\<not> rm) (w :: 'c::field list))"
  "mat_reordered (perspective_mat rm w) = Some (perspective_mat (\<not> rm) w)"
  by (auto simp: construct_defs reflection_v_def reflection_make_def reflection_reorder_def Let_def mat_of_majors_4 mat_simps
      mat_build_4_eq all_less_4)

text \<open>
  The constructors agree with what the library multiplies when it is given two of them instead of
  their matrices: translations, scales, reflections and rotations of one kind combine to one of the same
  kind, in all orders of storage, and a constructor reordered is the reordered matrix.
\<close>

theorem constructor_products:
  fixes a b :: "'a::linordered_idom list"
  assumes "length a = 3" "length b = 3"
  shows "mat_multiply simd (translation_mat rm1 a) (translation_mat rm2 b) = Some (translation_mat True (translation_multiply a b)) \<and>
    mat_multiply simd (scale_mat rm1 a) (scale_mat rm2 b) = Some (scale_mat True (scale_multiply a b)) \<and>
    mat_multiply simd (uniform_scale_mat rm1 c) (uniform_scale_mat rm2 d) =
      Some (uniform_scale_mat True (uniform_scale_multiply c (d :: 'a))) \<and>
    mat_multiply simd (reflection_mat rm1 I (reflection_make r)) (reflection_mat rm2 I (reflection_make s)) =
      Some (reflection_mat True I (reflection_multiply (reflection_make r) (reflection_make s :: 'a))) \<and>
    mat_multiply simd (rotation_mat rm1 I x) (rotation_mat rm2 I y) = Some (rotation_mat True I (rotation_multiply x y)) \<and>
    mat_reordered (translation_mat rm1 a) = Some (translation_mat (\<not> rm1) a) \<and>
    mat_reordered (scale_mat rm1 a) = Some (scale_mat (\<not> rm1) a) \<and>
    mat_reordered (rotation_mat rm1 I x) = Some (rotation_mat (\<not> rm1) I x)"
  using assms
  by (simp add: translation_product scale_product uniform_scale_product reflection_product rotation_product
      constructors_reordered)

theorem constructor_products_witness:
  "mat_multiply True (translation_mat True [1, 2, 3]) (translation_mat False [4, 5, 6 :: int]) =
   Some (translation_mat True (translation_multiply [1, 2, 3] [4, 5, 6]))"
  using constructor_products[of "[1, 2, 3]" "[4, 5, 6 :: int]" True True False] by simp

section \<open>Projections\<close>

text \<open>The product of a matrix given by its rows and a point in homogeneous coordinates.\<close>

lemma mat_multiply_vec_4:
  "mat_multiply_vec simd (mat_build rm 4 4 f) [x, y, z, w] =
   Some (map (\<lambda>i. f i 0 * x + f i 1 * y + f i 2 * z + f i 3 * w) [0, 1, 2, 3])"
  by (simp add: mat_multiply_vec_build sum_4 upts)

text \<open>
  Both projections map the corners of the viewed volume to those of the cube from \<open>-1\<close> to \<open>1\<close>: the
  left, bottom, near corner and the right, top, far one, for which perspective coordinates are
  divided by the fourth one, the distance from the camera.
\<close>

theorem projection_corners:
  fixes l r b t n f :: "'a::field"
  assumes "l \<noteq> r" "b \<noteq> t" "n \<noteq> f" "n \<noteq> 0"
  shows "mat_multiply_vec simd (ortho_mat rm [l, r, b, t, n, f]) [l, b, - n, 1] = Some [- 1, - 1, - 1, 1] \<and>
    mat_multiply_vec simd (ortho_mat rm [l, r, b, t, n, f]) [r, t, - f, 1] = Some [1, 1, 1, 1] \<and>
    mat_multiply_vec simd (perspective_mat rm [l, r, b, t, n, f]) [l, b, - n, 1] = Some [- n, - n, - n, n] \<and>
    mat_multiply_vec simd (perspective_mat rm [l, r, b, t, n, f]) [r * (f / n), t * (f / n), - f, 1] = Some [f, f, f, f]"
proof -
  obtain w h d where size: "r = l + w" "w \<noteq> 0" "t = b + h" "h \<noteq> 0" "f = n + d" "d \<noteq> 0"
    using assms by (metis add_diff_cancel_left' diff_add_cancel diff_self add.commute right_minus_eq)
  show ?thesis
    unfolding size(1,3,5) using size(2,4,6) assms(4)
    by (cases rm)
       (simp_all add: ortho_mat_def perspective_mat_def mat_of_majors_4 mat_multiply_vec_4 Let_def divide_simps,
        simp_all add: algebra_simps)
qed

theorem projection_corners_witness:
  "mat_multiply_vec True (perspective_mat False [- 1, 1, - 1, 1, 1, 3]) [3, 3, - 3, 1] = Some [3, 3, 3, 3 :: rat]"
  using projection_corners[of "- 1" 1 "- 1" 1 1 "3 :: rat" True False] by simp

section \<open>Rotations and cameras\<close>

definition unit_axis :: "nat \<Rightarrow> real list" where
  "unit_axis I = simd_axis 3 I 1"

text \<open>
  C18. A rotation matrix does to points what the quaternion made from its axis and its angle does to
  vectors.
\<close>

theorem rotation_matches_quaternion:
  assumes "I < 3" "length v = 3" "0 \<le> eps"
  shows "case quat_from_axis simd eps (unit_axis I) angle of
      None \<Rightarrow> False
    | Some q \<Rightarrow> mat_multiply_vec simd' (rotation_mat rm I angle) (v @ [1]) = Some (quat_rotate simd q v @ [1])"
proof -
  obtain x y z where v: "v = [x, y, z]"
    using assms(2) by (auto simp: list3)
  have axis: "unit_axis I = (if I = 0 then [1, 0, 0] else if I = 1 then [0, 1, 0] else [0, 0, 1])"
    using assms(1) by (auto simp: unit_axis_def simd_axis_def upts)
  then have unit: "length (unit_axis I) = 3" "vec_dot simd (unit_axis I) (unit_axis I) = 1"
    by auto
  obtain q where q: "quat_from_axis simd eps (unit_axis I) angle = Some q"
    "quat_rotate simd q v =
      data_add (data_add (vec_scale v (cos angle)) (vec_scale (vec_cross (unit_axis I) v) (sin angle)))
        (vec_scale (unit_axis I) (vec_dot simd (unit_axis I) v * (1 - cos angle)))"
    using quat_from_axis_rotates[OF unit assms(3,2), of angle] by (auto split: option.splits)
  show ?thesis
    unfolding q(1) option.case q(2)
    by (cases rm)
       (auto simp: v axis rotation_mat_def rotation_make_def mat_of_majors_4 mat_multiply_vec_4 algebra_simps)
qed
theorem rotation_matches_quaternion_witness:
  "mat_multiply_vec True (rotation_mat False 2 pi) [1, 2, 3, 1] = Some [- 1, - 2, 3, 1]"
  using rotation_matches_quaternion[where I = 2 and v = "[1, 2, 3]" and eps = 0 and simd = True and simd' = True and rm = False and angle = pi] quat_from_axis_rotates[where axis = "[0, 0, 1]" and simd = True and eps = 0 and v = "[1, 2, 3]" and angle = pi]
  by (auto simp: unit_axis_def simd_axis_def upts split: option.splits)

lemma orbiting_make_trig:
  "orbiting_make simd (orbiting_trig [t1, t2, t3] r sa ca se ce) =
   (let X = [- sa, 0, - ca]; Z = [ce * ca, se, - (ce * sa)];
        Y = [- (se * ca), ca * ce * ca + sa * ce * sa, se * sa];
        W = (\<lambda>V. - r * (V ! 0 * Z ! 0 + V ! 1 * Z ! 1 + V ! 2 * Z ! 2) - (V ! 0 * t1 + V ! 1 * t2 + V ! 2 * t3))
    in mat_build True 4 4 (\<lambda>i j. [X @ [W X], Y @ [W Y], Z @ [W Z], [0, 0, 0, 1]] ! i ! j))"
  by (simp add: orbiting_make_def orbiting_trig_def Let_def mat_of_majors_4 mat_build_4_eq all_less_4 algebra_simps)

lemma rotation_norm:
  fixes u v w sa ca se ce :: real
  assumes "sa * sa = 1 - ca * ca" "se * se = 1 - ce * ce"
  shows "(- sa * u - ca * w)\<^sup>2 + (- (se * ca) * u + (ca * ce * ca + sa * ce * sa) * v + se * sa * w)\<^sup>2 +
    (ce * ca * u + se * v - ce * sa * w)\<^sup>2 = u\<^sup>2 + v\<^sup>2 + w\<^sup>2"
  using assms by algebra

text \<open>
  The camera of \<^verbatim>\<open>orbiting_y_up\<close> is at the distance \<open>radius\<close> from the target, which it sees
  straight ahead at that distance, and its matrix, stored by rows or by columns, does not change
  distances between points.
\<close>

theorem orbiting_camera:
  assumes "length t = 3" "length p = 3" "length q = 3" "c = orbiting t r azimuth elevation"
  shows "case orbiting_mat simd rm c of
      None \<Rightarrow> False
    | Some m \<Rightarrow>
        mat_multiply_vec simd' m (data_add t (vec_scale (orbit_z c) r) @ [1]) = Some [0, 0, 0, 1] \<and>
        mat_multiply_vec simd' m (t @ [1]) = Some [0, 0, - r, 1] \<and>
        (case (mat_multiply_vec simd' m (p @ [1]), mat_multiply_vec simd' m (q @ [1])) of
           (Some p', Some q') \<Rightarrow> vec_dot simd (data_sub p' q') (data_sub p' q') = vec_dot simd (data_sub p q) (data_sub p q)
         | _ \<Rightarrow> False)"
proof -
  define sa ca se ce where "sa = sin azimuth" and "ca = cos azimuth" and "se = sin elevation" and "ce = cos elevation"
  have trig: "sa * sa = 1 - ca * ca" "se * se = 1 - ce * ce"
    using sin_cos_squared_add[of azimuth] sin_cos_squared_add[of elevation]
    by (simp_all add: power2_eq_square sa_def ca_def se_def ce_def)
  obtain t1 t2 t3 p1 p2 p3 q1 q2 q3 where v: "t = [t1, t2, t3]" "p = [p1, p2, p3]" "q = [q1, q2, q3]"
    using assms(1-3) by (auto simp: list3)
  have c: "c = orbiting_trig [t1, t2, t3] r sa ca se ce"
    by (simp add: assms(4) orbiting_def v sa_def ca_def se_def ce_def)
  have z: "orbit_z c = [ce * ca, se, - (ce * sa)]"
    by (simp add: c orbiting_trig_def)
  have one: "ce * ca * (ce * ca) + se * se + ce * sa * (ce * sa) = 1"
    using trig by algebra
  let ?f = "\<lambda>i j. [[- sa, 0, - ca, sa * t1 + ca * t3], 
      [- (se * ca), ca * ce * ca + sa * ce * sa, se * sa, se * ca * t1 - (ca * ce * ca + sa * ce * sa) * t2 - se * sa * t3],
      [ce * ca, se, - (ce * sa), - r - (ce * ca * t1 + se * t2 - ce * sa * t3)], [0, 0, 0, 1]] ! i ! j"
  have zero: "- r * (- sa * (ce * ca) + - ca * - (ce * sa)) = 0"
    "- r * (- (se * ca) * (ce * ca) + (ca * ce * ca + sa * ce * sa) * se + se * sa * - (ce * sa)) = 0"
    by (simp_all add: algebra_simps)
  have make: "orbiting_make simd c = mat_build True 4 4 ?f"
    unfolding c orbiting_make_trig Let_def mat_build_4_eq all_less_4
    using one zero by (simp add: algebra_simps)
  then have m: "orbiting_mat simd rm c = Some (mat_build rm 4 4 ?f)"
    by (simp add: orbiting_mat_def mat_simps)
  have "mat_multiply_vec simd' (mat_build rm 4 4 ?f) (data_add t (vec_scale (orbit_z c) r) @ [1]) = Some [0, 0, 0, 1]"
  proof -
    have "- sa * (t1 + ce * ca * r) - ca * (t3 - ce * sa * r) + (sa * t1 + ca * t3) = 0"
      by algebra
    moreover have "ce * ca * (t1 + ce * ca * r) + se * (t2 + se * r) - ce * sa * (t3 - ce * sa * r) +
        (- r - (ce * ca * t1 + se * t2 - ce * sa * t3)) = 0"
      using one by algebra
    moreover have "- (se * ca) * (t1 + ce * ca * r) + (ca * ce * ca + sa * ce * sa) * (t2 + se * r) +
        se * sa * (t3 - ce * sa * r) + (se * ca * t1 - (ca * ce * ca + sa * ce * sa) * t2 - se * sa * t3) = 0"
      by algebra
    ultimately show ?thesis
      by (simp add: v z mat_multiply_vec_4)
  qed
  moreover have "mat_multiply_vec simd' (mat_build rm 4 4 ?f) (t @ [1]) = Some [0, 0, - r, 1]"
    by (simp add: v mat_multiply_vec_4 algebra_simps)
  moreover have "vec_dot simd [x1, x2, x3, 0] [x1, x2, x3, 0] = y1\<^sup>2 + y2\<^sup>2 + y3\<^sup>2"
    if "x1\<^sup>2 + x2\<^sup>2 + x3\<^sup>2 = y1\<^sup>2 + y2\<^sup>2 + y3\<^sup>2" for x1 x2 x3 y1 y2 y3
    using that by (simp add: power2_eq_square)
  ultimately show ?thesis
    using rotation_norm[OF trig, of "p1 - q1" "p3 - q3" "p2 - q2"]
    by (simp add: m v mat_multiply_vec_4 data_sub_def) (simp add: power2_eq_square algebra_simps)
qed
theorem orbiting_camera_witness:
  "case orbiting_mat True False (orbiting [0, 0, 0] 2 0 0) of
     None \<Rightarrow> False | Some m \<Rightarrow> mat_multiply_vec True m [2, 0, 0, 1] = Some [0, 0, 0, 1]"
  using orbiting_camera[where t = "[0, 0, 0]" and p = "[0, 0, 0]" and q = "[0, 0, 0]" and r = 2 and azimuth = 0
      and elevation = 0 and simd = True and simd' = True and rm = False, OF _ _ _ refl]
  by (auto simp: orbiting_def orbiting_trig_def split: option.splits)

text \<open>
  The matrix of \<^verbatim>\<open>looking_at_y_up\<close> depends only on the direction from the target to the eye: moving
  both changes nothing, because the last overload passes on a helper vector in place of the position.
  So the eye is not where the camera is.
\<close>

theorem looking_at_ignores_position:
  assumes "length e = 3" "length t = 3" "length d = 3"
  shows "looking_at_mat simd rm (data_add e d) (data_add t d) = looking_at_mat simd rm e t \<and>
    (case looking_at_mat simd True [0, 0, 5] [0, 0, 0] of
       None \<Rightarrow> False | Some m \<Rightarrow> mat_multiply_vec simd m [0, 0, 5, 1] = Some [- 1, 0, 5, 1])"
proof (rule conjI)
  have "data_sub (data_add e d) (data_add t d) = data_sub e t"
    using assms by (auto simp: list3)
  then show "looking_at_mat simd rm (data_add e d) (data_add t d) = looking_at_mat simd rm e t"
    by (simp add: looking_at_mat_def)
  have "vec_normalized simd [0, 0, 5] = [0, 0, 1]" "vec_normalized simd [0, 1, 0] = [0, 1, 0]"
    by (simp_all add: vec_normalized_scale vec_magnitude_dot)
  then show "case looking_at_mat simd True [0, 0, 5] [0, 0, 0] of
       None \<Rightarrow> False | Some m \<Rightarrow> mat_multiply_vec simd m [0, 0, 5, 1] = Some [- 1, 0, 5, 1]"
    by (simp add: looking_at_mat_def looking_at_make_z_def looking_at_make_zt_def looking_at_make_yzt_def
        looking_at_make_xyzt_def mat_of_majors_4 mat_multiply_vec_4)
qed

theorem looking_at_ignores_position_witness:
  "looking_at_mat True False (data_add [1, 2, 3] [10, 10, 10]) (data_add [4, 5, 7] [10, 10, 10]) =
   looking_at_mat True False [1, 2, 3] [4, 5, 7]"
  using looking_at_ignores_position[of "[1, 2, 3]" "[4, 5, 7]" "[10, 10, 10]" True False] by simp

end
