(* ===== verification/Curves.thy ===== *)
theory Curves
  imports Complex_Main Prelude
begin

text \<open>
  \<^verbatim>\<open>source/modules/eagine/math/curves.cpp\<close> and the binomial coefficients of \<^verbatim>\<open>functions.cpp\<close>: Bezier
  curves through lists of points of a real vector space. Parameters are real numbers; the rounding of
  floating point numbers is not modelled. Integers have 32 bits, and a calculation that leaves their
  range is undefined, \<open>None\<close>, as is a failed assertion.
\<close>

section \<open>Binomial coefficients\<close>

definition checked_int :: "int \<Rightarrow> int option" where
  "checked_int x = (if - (2 ^ 31) \<le> x \<and> x < 2 ^ 31 then Some x else None)"

function int_factorial :: "int \<Rightarrow> int option" where
  "int_factorial n = (if 0 < n then Option.bind (int_factorial (n - 1)) (\<lambda>f. checked_int (n * f)) else Some 1)"
  by pat_completeness auto
termination by (relation "measure nat") auto

declare int_factorial.simps [simp del]

definition int_binomial :: "int \<Rightarrow> int \<Rightarrow> int option" where
  "int_binomial n k =
     (if 0 \<le> n \<and> 0 \<le> k \<and> k \<le> n then
        Option.bind (int_factorial n) (\<lambda>fn. Option.bind (int_factorial k) (\<lambda>fk.
          Option.bind (int_factorial (n - k)) (\<lambda>fnk. Option.bind (checked_int (fk * fnk)) (\<lambda>d. Some (fn div d)))))
      else Some 0)"

lemma checked_int_fits: "0 \<le> x \<Longrightarrow> x \<le> fact 12 \<Longrightarrow> checked_int x = Some x"
  by (simp add: checked_int_def fact_numeral)

lemma int_factorial_fact: "n \<le> 12 \<Longrightarrow> int_factorial (int n) = Some (fact n)"
proof (induction n)
  case 0
  then show ?case by (simp add: int_factorial.simps)
next
  case (Suc n)
  have "(fact (Suc n) :: int) \<le> fact 12"
    using Suc.prems by (intro fact_mono) simp
  then have "checked_int (fact (Suc n)) = Some (fact (Suc n))"
    by (intro checked_int_fits fact_ge_zero)
  then show ?case
    using Suc by (subst int_factorial.simps) (simp add: algebra_simps)
qed

lemma int_binomial_choose:
  assumes "n \<le> 12"
  shows "int_binomial (int n) (int k) = Some (int (n choose k))"
proof (cases "k \<le> n")
  case True
  have f: "int_factorial (int n) = Some (fact n)" "int_factorial (int k) = Some (fact k)"
    "int_factorial (int n - int k) = Some (fact (n - k))"
    using int_factorial_fact[of n] int_factorial_fact[of k] int_factorial_fact[of "n - k"] assms True
    by (simp_all add: of_nat_diff)
  have eq: "(fact k * fact (n - k) :: int) * int (n choose k) = fact n"
    using binomial_fact_lemma[OF True] by (metis of_nat_fact of_nat_mult)
  have "(fact k * fact (n - k) :: int) * 1 \<le> (fact k * fact (n - k)) * int (n choose k)"
    using True by (intro mult_left_mono) (auto simp: Suc_leI zero_less_binomial)
  then have "(fact k * fact (n - k) :: int) \<le> fact 12"
    using eq fact_mono[OF assms, where 'a = int] by simp
  moreover have pos: "(0 :: int) < fact k * fact (n - k)"
    by simp
  ultimately have "checked_int (fact k * fact (n - k)) = Some (fact k * fact (n - k))"
    by (intro checked_int_fits) auto
  moreover have "(fact n :: int) div (fact k * fact (n - k)) = int (n choose k)"
    unfolding eq[symmetric] using pos by simp
  ultimately show ?thesis
    using True by (simp add: int_binomial_def f)
qed (simp add: int_binomial_def binomial_eq_0)

section \<open>One segment\<close>

definition bezier_coef :: "nat \<Rightarrow> nat \<Rightarrow> real \<Rightarrow> real option" where
  "bezier_coef m i t = map_option (\<lambda>b. t ^ i * (1 - t) ^ (m - i) * of_int b) (int_binomial (int m) (int i))"

fun bezier_calc :: "nat \<Rightarrow> nat \<Rightarrow> real \<Rightarrow> 'a::real_vector list \<Rightarrow> 'a option" where
  "bezier_calc m i t [] = Some 0"
| "bezier_calc m i t (first # rest) =
     Option.bind (bezier_coef m i t) (\<lambda>c. map_option ((+) (c *\<^sub>R first)) (bezier_calc m (i + 1) t rest))"

definition bezier :: "real \<Rightarrow> 'a::real_vector list \<Rightarrow> 'a option" where
  "bezier t p = bezier_calc (length p - 1) 0 t p"

text \<open>The reference: repeated linear interpolation (de Casteljau).\<close>

fun de_casteljau :: "real \<Rightarrow> 'a::real_vector list \<Rightarrow> 'a" where
  "de_casteljau t [] = 0"
| "de_casteljau t [p] = p"
| "de_casteljau t (p # q # ps) = (1 - t) *\<^sub>R de_casteljau t (butlast (p # q # ps)) + t *\<^sub>R de_casteljau t (q # ps)"
definition bernstein :: "nat \<Rightarrow> real \<Rightarrow> nat \<Rightarrow> real" where
  "bernstein n t j = real (n choose j) * t ^ j * (1 - t) ^ (n - j)"

lemma bernstein_Suc:
  "bernstein (Suc n) t 0 = (1 - t) * bernstein n t 0"
  "j \<le> n \<Longrightarrow> bernstein (Suc n) t (Suc j) = t * bernstein n t j + (1 - t) * bernstein n t (Suc j)"
proof -
  show "bernstein (Suc n) t 0 = (1 - t) * bernstein n t 0"
    by (simp add: bernstein_def)
  show "bernstein (Suc n) t (Suc j) = t * bernstein n t j + (1 - t) * bernstein n t (Suc j)" if "j \<le> n"
  proof (cases "j = n")
    case False
    with that have "n - j = Suc (n - Suc j)" by simp
    then show ?thesis
      by (simp add: bernstein_def algebra_simps)
  qed (simp add: bernstein_def)
qed

lemma bernstein_over: "bernstein n t (Suc n) = 0"
  by (simp add: bernstein_def)

lemma bernstein_recursion:
  fixes f :: "nat \<Rightarrow> 'a::real_vector"
  shows "(\<Sum>j\<le>Suc n. bernstein (Suc n) t j *\<^sub>R f j) =
   (1 - t) *\<^sub>R (\<Sum>j\<le>n. bernstein n t j *\<^sub>R f j) + t *\<^sub>R (\<Sum>j\<le>n. bernstein n t j *\<^sub>R f (Suc j))"
proof -
  have "(\<Sum>j\<le>n. bernstein n t (Suc j) *\<^sub>R f (Suc j)) = (\<Sum>j<n. bernstein n t (Suc j) *\<^sub>R f (Suc j))"
    by (simp add: bernstein_over flip: lessThan_Suc_atMost)
  then have eq: "bernstein n t 0 *\<^sub>R f 0 + (\<Sum>j\<le>n. bernstein n t (Suc j) *\<^sub>R f (Suc j)) = (\<Sum>j\<le>n. bernstein n t j *\<^sub>R f j)"
    by (simp add: sum.atMost_shift)
  have "(1 - t) *\<^sub>R (\<Sum>j\<le>n. bernstein n t j *\<^sub>R f j) =
      ((1 - t) * bernstein n t 0) *\<^sub>R f 0 + (\<Sum>j\<le>n. ((1 - t) * bernstein n t (Suc j)) *\<^sub>R f (Suc j))"
    by (subst eq[symmetric]) (simp add: scaleR_right_distrib scaleR_sum_right)
  moreover have "(\<Sum>j\<le>Suc n. bernstein (Suc n) t j *\<^sub>R f j) =
      ((1 - t) * bernstein n t 0) *\<^sub>R f 0 + (\<Sum>j\<le>n. (t * bernstein n t j + (1 - t) * bernstein n t (Suc j)) *\<^sub>R f (Suc j))"
    by (subst sum.atMost_Suc_shift) (simp add: bernstein_Suc)
  ultimately show ?thesis
    by (simp add: scaleR_left_distrib sum.distrib scaleR_sum_right)
qed

lemma de_casteljau_bernstein:
  "ps \<noteq> [] \<Longrightarrow> de_casteljau t ps = (\<Sum>j\<le>length ps - 1. bernstein (length ps - 1) t j *\<^sub>R ps ! j)"
proof (induction t ps rule: de_casteljau.induct)
  case (3 t p q ps)
  let ?n = "length ps"
  have more: "butlast (p # q # ps) \<noteq> []"
    by simp
  have "de_casteljau t (butlast (p # q # ps)) = (\<Sum>j\<le>?n. bernstein ?n t j *\<^sub>R (p # q # ps) ! j)"
    using 3(1)[OF more] by (simp add: nth_butlast del: butlast.simps)
  moreover have "de_casteljau t (q # ps) = (\<Sum>j\<le>?n. bernstein ?n t j *\<^sub>R (p # q # ps) ! Suc j)"
    using 3(2) by simp
  ultimately show ?case
    using bernstein_recursion[of ?n t "(!) (p # q # ps)"] by simp
qed (simp_all add: bernstein_def)

lemma bezier_calc_sum:
  "m \<le> 12 \<Longrightarrow> bezier_calc m i t ps = Some (\<Sum>j<length ps. bernstein m t (i + j) *\<^sub>R ps ! j)"
proof (induction ps arbitrary: i)
  case (Cons p ps)
  have "bezier_coef m i t = Some (bernstein m t i)"
    using Cons.prems by (simp add: bezier_coef_def int_binomial_choose bernstein_def algebra_simps)
  then show ?case
    using Cons by (simp add: sum.lessThan_Suc_shift del: sum.lessThan_Suc)
qed simp

lemma bezier_casteljau:
  "ps \<noteq> [] \<Longrightarrow> length ps \<le> 13 \<Longrightarrow> bezier t ps = Some (de_casteljau t ps)"
proof -
  assume "ps \<noteq> []" "length ps \<le> 13"
  moreover from this have "{..<length ps} = {..length ps - 1}"
    by (cases ps) auto
  ultimately show ?thesis
    by (simp add: bezier_def bezier_calc_sum de_casteljau_bernstein)
qed

lemma de_casteljau_ends:
  "ps \<noteq> [] \<Longrightarrow> de_casteljau 0 ps = hd ps" "ps \<noteq> [] \<Longrightarrow> de_casteljau 1 ps = last ps"
  by (induction ps rule: de_casteljau.induct[of "\<lambda>_. _" t for t]) auto

text \<open>A linear function that bounds the points bounds the curve: it stays in their convex hull.\<close>

lemma de_casteljau_bounds:
  "ps \<noteq> [] \<Longrightarrow> 0 \<le> t \<Longrightarrow> t \<le> 1 \<Longrightarrow> linear f \<Longrightarrow> (\<And>p. p \<in> set ps \<Longrightarrow> f p \<le> (b :: real)) \<Longrightarrow> f (de_casteljau t ps) \<le> b"
proof (induction t ps rule: de_casteljau.induct)
  case (3 t p q ps)
  have "f (de_casteljau t (butlast (p # q # ps))) \<le> b"
  proof (rule 3(1))
    show "butlast (p # q # ps) \<noteq> []"
      by simp
    show "f x \<le> b" if "x \<in> set (butlast (p # q # ps))" for x
      using 3(7) in_set_butlastD[OF that] .
  qed (rule 3(4) 3(5) 3(6))+
  moreover have "f (de_casteljau t (q # ps)) \<le> b"
  proof (rule 3(2))
    show "f x \<le> b" if "x \<in> set (q # ps)" for x
      using 3(7)[of x] that by simp
  qed (simp | rule 3(4) 3(5) 3(6))+
  ultimately have "(1 - t) * f (de_casteljau t (butlast (p # q # ps))) + t * f (de_casteljau t (q # ps)) \<le> (1 - t) * b + t * b"
    using 3(4,5) by (intro add_mono mult_left_mono) auto
  moreover have "f (de_casteljau t (p # q # ps)) =
      (1 - t) * f (de_casteljau t (butlast (p # q # ps))) + t * f (de_casteljau t (q # ps))"
    unfolding de_casteljau.simps(3) linear_add[OF 3(6)] linear_scale[OF 3(6)] by simp
  ultimately show ?case
    by (simp add: algebra_simps)
next
  case (2 t p)
  then show ?case by simp
qed simp
section \<open>Curves of several segments\<close>

record 'a bezier_curves =
  bc_order :: nat
  bc_points :: "'a list"
  bc_connected :: bool

text \<open>\<^verbatim>\<open>points.size() - 1\<close>, in 64 bits.\<close>

definition size_minus_1 :: "'a list \<Rightarrow> nat" where
  "size_minus_1 points = (length points + (2 ^ 64 - 1)) mod 2 ^ 64"

definition are_connected :: "nat \<Rightarrow> 'a list \<Rightarrow> bool" where
  "are_connected Order points \<longleftrightarrow> size_minus_1 points \<noteq> Order \<and> size_minus_1 points mod Order = 0"

definition are_separated :: "nat \<Rightarrow> 'a list \<Rightarrow> bool" where
  "are_separated Order points \<longleftrightarrow> length points mod (Order + 1) = 0"

definition points_are_ok :: "nat \<Rightarrow> 'a list \<Rightarrow> bool" where
  "points_are_ok Order points \<longleftrightarrow> points \<noteq> [] \<and> (are_connected Order points \<or> are_separated Order points)"

definition bc_make :: "nat \<Rightarrow> 'a list \<Rightarrow> 'a bezier_curves option" where
  "bc_make Order points =
     (if points_are_ok Order points
      then Some \<lparr>bc_order = Order, bc_points = points, bc_connected = are_connected Order points\<rparr> else None)"

definition bc_make_with :: "nat \<Rightarrow> 'a list \<Rightarrow> bool \<Rightarrow> 'a bezier_curves option" where
  "bc_make_with Order points conn =
     (if points_are_ok Order points \<and> are_connected Order points = conn
      then Some \<lparr>bc_order = Order, bc_points = points, bc_connected = conn\<rparr> else None)"

definition bc_segment_step :: "'a bezier_curves \<Rightarrow> nat option" where
  "bc_segment_step c =
     (if points_are_ok (bc_order c) (bc_points c)
      then Some (if bc_connected c then bc_order c else bc_order c + 1) else None)"

definition bc_segment_count :: "'a bezier_curves \<Rightarrow> nat option" where
  "bc_segment_count c =
     (if points_are_ok (bc_order c) (bc_points c)
      then Some (if bc_connected c then size_minus_1 (bc_points c) div bc_order c
                 else length (bc_points c) div (bc_order c + 1))
      else None)"

definition bc_wrap :: "real \<Rightarrow> real option" where
  "bc_wrap t =
     (let t = (if t < 0 then t + (of_int \<lfloor>\<bar>t\<bar>\<rfloor> + 1) else if 1 < t then t - of_int \<lfloor>t\<rfloor> else t)
      in if 0 \<le> t \<and> t \<le> 1 then Some t else None)"

text \<open>The segment at an offset; points behind the end are undefined.\<close>

definition bc_bezier :: "'a::real_vector bezier_curves \<Rightarrow> real \<Rightarrow> nat \<Rightarrow> 'a option" where
  "bc_bezier c t offs =
     (let p = drop offs (bc_points c)
      in if bc_order c < length p then bezier t (take (bc_order c + 1) p) else None)"

definition bc_position01 :: "real \<Rightarrow> 'a::real_vector bezier_curves \<Rightarrow> 'a option" where
  "bc_position01 t c =
     (let t = (if 1 \<le> t then 0 else t)
      in if 0 \<le> t \<and> t < 1 then
           Option.bind (bc_segment_count c) (\<lambda>count. Option.bind (bc_segment_step c) (\<lambda>sstep.
             let toffs = t * real count;
                 t_sub = toffs - of_int \<lfloor>toffs\<rfloor>;
                 poffs = nat \<lfloor>toffs\<rfloor> * sstep
             in if int poffs < int (length (bc_points c)) - int (bc_order c) then bc_bezier c t_sub poffs else None))
         else None)"

definition bc_position :: "real \<Rightarrow> 'a::real_vector bezier_curves \<Rightarrow> 'a option" where
  "bc_position t c = Option.bind (bc_wrap t) (\<lambda>t. bc_position01 t c)"

text \<open>Assignment through an output iterator and its increment.\<close>

definition bc_write :: "'a \<Rightarrow> 'a list \<times> nat \<Rightarrow> ('a list \<times> nat) option" where
  "bc_write x dp = (if snd dp < length (fst dp) then Some ((fst dp)[snd dp := x], snd dp + 1) else None)"

definition bc_finish :: "'a list \<times> nat \<Rightarrow> 'a list option" where
  "bc_finish dp = (if snd dp = length (fst dp) then Some (fst dp) else None)"

definition bc_approximate_segment ::
    "'a::real_vector bezier_curves \<Rightarrow> nat \<Rightarrow> nat \<Rightarrow> nat \<Rightarrow> 'a list \<times> nat \<Rightarrow> ('a list \<times> nat) option" where
  "bc_approximate_segment c n sstep i dp =
     map_option snd
       (for_each_opt
          (\<lambda>j (t_sub, dp). Option.bind (bc_bezier c t_sub (i * sstep)) (\<lambda>x.
             map_option (Pair (t_sub + 1 / real n)) (bc_write x dp)))
          [0..<n] (0, dp))"

definition bc_approximate :: "'a::real_vector bezier_curves \<Rightarrow> nat \<Rightarrow> 'a list option" where
  "bc_approximate c n =
     (if 0 < n then
        Option.bind (bc_segment_step c) (\<lambda>sstep. Option.bind (bc_segment_count c) (\<lambda>s.
          Option.bind (for_each_opt (bc_approximate_segment c n sstep) [0..<s] (replicate (s * n + 1) 0, 0)) (\<lambda>dp.
            Option.bind (bc_write (last (bc_points c)) dp) bc_finish)))
      else None)"

definition bc_derivative :: "'a::real_vector bezier_curves \<Rightarrow> 'a bezier_curves option" where
  "bc_derivative c =
     Option.bind (bc_segment_step c) (\<lambda>sstep. Option.bind (bc_segment_count c) (\<lambda>s.
       Option.bind
         (for_each_opt
            (\<lambda>(i, j) dp.
               let k = i * sstep + j
               in if k + 1 < length (bc_points c)
                  then bc_write (real (bc_order c) *\<^sub>R (bc_points c ! (k + 1) - bc_points c ! k)) dp else None)
            (List.product [0..<s] [0..<bc_order c]) (replicate (s * bc_order c) 0, 0)) (\<lambda>dp.
       Option.bind (bc_finish dp) (\<lambda>new_points. bc_make_with (bc_order c - 1) new_points False))))"

text \<open>\<^verbatim>\<open>cubic_bezier_loop::_make_cpoints\<close>\<close>

definition cubic_loop_cpoints :: "'a::real_vector list \<Rightarrow> real \<Rightarrow> 'a list option" where
  "cubic_loop_cpoints points r =
     (let n = length points
      in if n \<noteq> 0 then
           Option.bind
             (for_each_opt
                (\<lambda>i dp.
                   let a = (n + i - 1) mod n; b = i; c = (i + 1) mod n; d = (i + 2) mod n
                   in Option.bind (bc_write (points ! b) dp) (\<lambda>dp.
                      Option.bind (bc_write (points ! b + r *\<^sub>R (points ! c - points ! a)) dp) (\<lambda>dp.
                        bc_write (points ! c + r *\<^sub>R (points ! b - points ! d)) dp)))
                [0..<n] (replicate (n * 3 + 1) 0, 0)) (\<lambda>dp.
           Option.bind (bc_write (points ! 0) dp) bc_finish)
         else None)"

definition cubic_bezier_loop :: "'a::real_vector list \<Rightarrow> real \<Rightarrow> 'a bezier_curves option" where
  "cubic_bezier_loop points r = Option.bind (cubic_loop_cpoints points r) (bc_make 3)"

definition cubic_bezier_loop_default :: "'a::real_vector list \<Rightarrow> 'a bezier_curves option" where
  "cubic_bezier_loop_default points = cubic_bezier_loop points (1 / 3)"
section \<open>Shape of curves\<close>

lemma size_minus_1_eq: "points \<noteq> [] \<Longrightarrow> length points < 2 ^ 64 \<Longrightarrow> size_minus_1 points = length points - 1"
proof -
  assume "points \<noteq> []" "length points < 2 ^ 64"
  then have "length points + (2 ^ 64 - 1) = (length points - 1) + 2 ^ 64"
    by (cases points) simp_all
  then show ?thesis
    using \<open>length points < 2 ^ 64\<close> unfolding size_minus_1_def by (simp only: mod_add_self2 mod_less)
qed

text \<open>
  A curve that has been made has \<open>s\<close> segments, the first points of which are \<open>sstep\<close> points apart; a
  single point is taken for a connected curve of no segments.
\<close>

lemma bc_make_shape:
  assumes "bc_make Order points = Some c" "0 < Order" "length points < 2 ^ 64"
  obtains s sstep where "bc_segment_count c = Some s" "bc_segment_step c = Some sstep"
    "bc_points c = points" "bc_order c = Order" "points \<noteq> []"
    "if bc_connected c then sstep = Order \<and> length points = s * Order + 1 \<and> s \<noteq> 1
     else sstep = Order + 1 \<and> length points = s * (Order + 1) \<and> 0 < s"
    "\<forall>i < s. i * sstep + Order < length points"
proof -
  have ok: "points_are_ok Order points"
    and c: "c = \<lparr>bc_order = Order, bc_points = points, bc_connected = are_connected Order points\<rparr>"
    using assms(1) by (auto simp: bc_make_def split: if_splits)
  have ne: "points \<noteq> []"
    using ok by (simp add: points_are_ok_def)
  note size = size_minus_1_eq[OF ne assms(3)]
  show ?thesis
  proof (cases "are_connected Order points")
    case True
    let ?s = "(length points - 1) div Order"
    have "length points - 1 = ?s * Order" "length points - 1 \<noteq> Order"
      using True by (auto simp: are_connected_def size)
    moreover from this(1) have len: "length points = ?s * Order + 1"
      using ne by (cases points) simp_all
    moreover have "i < ?s \<Longrightarrow> i * Order + Order < length points" for i
      using mult_le_mono1[of "Suc i" ?s Order] len by simp
    ultimately show ?thesis
      using ok ne c True
      by (intro that[of ?s Order]) (auto simp: bc_segment_count_def bc_segment_step_def size)
  next
    case False
    let ?s = "length points div (Order + 1)"
    have sep: "length points mod (Order + 1) = 0"
      using ok False by (simp add: points_are_ok_def are_separated_def)
    have len: "length points = ?s * (Order + 1)"
      using div_mult_mod_eq[of "length points" "Order + 1"] sep by simp
    moreover have "0 < ?s"
      using len ne by (cases ?s) auto
    moreover have "i < ?s \<Longrightarrow> i * (Order + 1) + Order < length points" for i
      using mult_le_mono1[of "Suc i" ?s "Order + 1"] len by simp
    ultimately show ?thesis
      using ok ne c False
      by (intro that[of ?s "Order + 1"]) (auto simp: bc_segment_count_def bc_segment_step_def)
  qed
qed

definition segment_points :: "nat \<Rightarrow> nat \<Rightarrow> 'a list \<Rightarrow> 'a list" where
  "segment_points Order offs points = take (Order + 1) (drop offs points)"

lemma bc_bezier_casteljau:
  assumes "bc_points c = points" "bc_order c = Order" "Order \<le> 12" "offs + Order < length points"
  shows "bc_bezier c t offs = Some (de_casteljau t (segment_points Order offs points))"
proof -
  have "segment_points Order offs points \<noteq> []" "length (segment_points Order offs points) \<le> 13"
    using assms by (auto simp: segment_points_def)
  then show ?thesis
    using bezier_casteljau[of "segment_points Order offs points" t] assms
    by (simp add: bc_bezier_def segment_points_def)
qed

section \<open>Sequences of assignments\<close>

definition overwrite :: "nat \<Rightarrow> 'a list \<Rightarrow> 'a list \<Rightarrow> 'a list" where
  "overwrite p xs d = take p d @ xs @ drop (p + length xs) d"

lemma length_overwrite [simp]: "p + length xs \<le> length d \<Longrightarrow> length (overwrite p xs d) = length d"
  by (simp add: overwrite_def)

lemma overwrite_nil [simp]: "overwrite p [] d = d"
  by (simp add: overwrite_def)

lemma overwrite_overwrite:
  "p + length xs + length ys \<le> length d \<Longrightarrow> overwrite (p + length xs) ys (overwrite p xs d) = overwrite p (xs @ ys) d"
  by (simp add: overwrite_def ac_simps)

lemma bc_write_overwrite: "bc_write x (d, p) = (if p < length d then Some (overwrite p [x] d, p + 1) else None)"
  by (simp add: bc_write_def overwrite_def upd_conv_take_nth_drop)

lemma for_each_writes:
  assumes "\<And>i d p. i \<in> set is \<Longrightarrow> p + length (xs i) \<le> length d \<Longrightarrow>
      step i (d, p) = Some (overwrite p (xs i) d, p + length (xs i))"
    and "p + length (concat (map xs is)) \<le> length d"
  shows "for_each_opt step is (d, p) =
    Some (overwrite p (concat (map xs is)) d, p + length (concat (map xs is)))"
  using assms
proof (induction "is" arbitrary: d p)
  case (Cons i "is")
  have "for_each_opt step is (overwrite p (xs i) d, p + length (xs i)) =
      Some (overwrite (p + length (xs i)) (concat (map xs is)) (overwrite p (xs i) d),
        p + length (xs i) + length (concat (map xs is)))"
    by (rule Cons.IH) (use Cons.prems in auto)
  then show ?case
    using Cons.prems(1)[of i p d] Cons.prems(2) by (simp add: overwrite_overwrite)
qed simp

lemma overwrite_all: "length xs = length d \<Longrightarrow> overwrite 0 xs d = xs"
  by (simp add: overwrite_def)
section \<open>Properties\<close>

lemma int_factorial_undefined: "13 \<le> n \<Longrightarrow> int_factorial (int n) = None"
proof (induction n rule: dec_induct)
  case base
  have "int_factorial 13 = Option.bind (int_factorial (int 12)) (\<lambda>f. checked_int (13 * f))"
    by (subst int_factorial.simps) simp
  then show ?case
    using int_factorial_fact[of 12] by (simp add: checked_int_def fact_numeral)
next
  case (step n)
  then show ?case
    by (subst int_factorial.simps) simp
qed

text \<open>
  C20. The sum of points and coefficients is the curve of repeated linear interpolation, from the first
  to the last point and in their convex hull, for up to thirteen points; with more, the calculation
  of the binomial coefficients overflows.
\<close>

theorem bezier_is_casteljau:
  assumes "ps \<noteq> []"
  shows "bezier t ps = (if length ps \<le> 13 then Some (de_casteljau t ps) else None) \<and>
    de_casteljau 0 ps = hd ps \<and> de_casteljau 1 ps = last ps \<and>
    (\<forall>f b. 0 \<le> t \<and> t \<le> 1 \<and> linear f \<and> (\<forall>p \<in> set ps. f p \<le> (b :: real)) \<longrightarrow> f (de_casteljau t ps) \<le> b)"
proof (intro conjI allI impI)
  show "bezier t ps = (if length ps \<le> 13 then Some (de_casteljau t ps) else None)"
  proof (cases "length ps \<le> 13")
    case True
    then show ?thesis using bezier_casteljau[OF assms] by simp
  next
    case False
    then have "int_factorial (int (length ps - 1)) = None"
      by (intro int_factorial_undefined) simp
    then have "bezier_coef (length ps - 1) 0 t = None"
      by (simp add: bezier_coef_def int_binomial_def)
    then show ?thesis
      using False assms by (cases ps) (simp_all add: bezier_def)
  qed
qed (use assms de_casteljau_bounds[OF assms] in \<open>auto simp: de_casteljau_ends\<close>)

theorem bezier_is_casteljau_witness: "bezier (1 / 2) [0, 4, 4, 0 :: real] = Some 3"
  using bezier_is_casteljau[of "[0, 4, 4, 0 :: real]" "1 / 2"] by simp

lemma bc_wrap_range: "\<exists>t'. bc_wrap t = Some t' \<and> 0 \<le> t' \<and> t' \<le> 1 \<and> (0 \<le> t \<and> t \<le> 1 \<longrightarrow> t' = t)"
  by (simp add: bc_wrap_def Let_def) linarith

lemma bc_position01_segment:
  assumes "bc_make Order points = Some c" "0 < Order" "Order \<le> 12" "length points < 2 ^ 64" "length points \<noteq> 1"
    and "0 \<le> t" "t < 1" "bc_segment_count c = Some s" "bc_segment_step c = Some sstep"
  shows "nat \<lfloor>t * real s\<rfloor> < s \<and>
    bc_position01 t c = Some (de_casteljau (frac (t * real s)) (segment_points Order (nat \<lfloor>t * real s\<rfloor> * sstep) points))"
proof -
  obtain s' sstep' where shape: "bc_segment_count c = Some s'" "bc_segment_step c = Some sstep'"
    "bc_points c = points" "bc_order c = Order" "points \<noteq> []"
    "if bc_connected c then sstep' = Order \<and> length points = s' * Order + 1 \<and> s' \<noteq> 1
     else sstep' = Order + 1 \<and> length points = s' * (Order + 1) \<and> 0 < s'"
    "\<forall>i < s'. i * sstep' + Order < length points"
    by (rule bc_make_shape[OF assms(1,2,4)])
  have [simp]: "s' = s" "sstep' = sstep"
    using shape(1,2) assms(8,9) by simp_all
  have s: "0 < s"
    using shape(6) assms(5) by (auto split: if_splits intro: gr0I)
  let ?i = "nat \<lfloor>t * real s\<rfloor>"
  have "0 \<le> t * real s" "t * real s < real s"
    using assms(6,7) s by auto
  then have i: "?i < s"
    by linarith
  have range: "?i * sstep + Order < length points"
    using shape(7) i by simp
  have "bc_bezier c (frac (t * real s)) (?i * sstep) =
      Some (de_casteljau (frac (t * real s)) (segment_points Order (?i * sstep) points))"
    by (rule bc_bezier_casteljau[OF shape(3,4) assms(3) range])
  moreover have "int (?i * sstep) < int (length points) - int Order"
    using range by linarith
  ultimately show ?thesis
    using i assms(6-9) by (simp add: bc_position01_def Let_def shape(3,4) frac_def)
qed

lemma segment_points_subset: "set (segment_points Order offs points) \<subseteq> set points"
  unfolding segment_points_def by (meson set_drop_subset set_take_subset subset_trans)

lemma segment_points_hd: "offs < length points \<Longrightarrow> segment_points Order offs points \<noteq> [] \<and> hd (segment_points Order offs points) = points ! offs"
  by (auto simp: segment_points_def hd_drop_conv_nth)

text \<open>
  On a curve that could be made from at least two points, the position for every parameter is
  defined: no assertion fails, no point behind the end is used, the position is in the convex hull of the points, and at
  the joints of the segments it is the control point there.
\<close>

theorem curve_position:
  assumes "bc_make Order points = Some c" "0 < Order" "Order \<le> 12" "length points < 2 ^ 64" "length points \<noteq> 1"
  shows "\<exists>s sstep x. bc_segment_count c = Some s \<and> bc_segment_step c = Some sstep \<and> bc_position t c = Some x \<and>
    (\<forall>f b. linear f \<and> (\<forall>p \<in> set points. f p \<le> (b :: real)) \<longrightarrow> f x \<le> b) \<and>
    (\<forall>k < s. bc_position (real k / real s) c = Some (points ! (k * sstep)))"
proof -
  obtain s sstep where shape: "bc_segment_count c = Some s" "bc_segment_step c = Some sstep"
    "bc_points c = points" "bc_order c = Order" "points \<noteq> []"
    "if bc_connected c then sstep = Order \<and> length points = s * Order + 1 \<and> s \<noteq> 1
     else sstep = Order + 1 \<and> length points = s * (Order + 1) \<and> 0 < s"
    "\<forall>i < s. i * sstep + Order < length points"
    by (rule bc_make_shape[OF assms(1,2,4)])
  note segment = bc_position01_segment[OF assms _ _ shape(1,2)]
  obtain t' where t': "bc_wrap t = Some t'" "0 \<le> t'" "t' \<le> 1"
    using bc_wrap_range[of t] by auto
  define u where "u = (if 1 \<le> t' then 0 else t')"
  have u: "0 \<le> u" "u < 1" "bc_position t c = bc_position01 u c"
    using t' by (auto simp: u_def bc_position_def bc_position01_def)
  let ?seg = "segment_points Order (nat \<lfloor>u * real s\<rfloor> * sstep) points"
  let ?x = "de_casteljau (frac (u * real s)) ?seg"
  have x: "bc_position t c = Some ?x" and i: "nat \<lfloor>u * real s\<rfloor> < s"
    using segment[OF u(1,2)] u(3) by auto
  have seg: "?seg \<noteq> []"
    using segment_points_hd[of "nat \<lfloor>u * real s\<rfloor> * sstep" points Order] shape(7) i by fastforce
  have "f ?x \<le> b" if "linear f" "\<forall>p \<in> set points. f p \<le> b" for f and b :: real
    using de_casteljau_bounds[OF seg _ _ that(1)] that(2) segment_points_subset[of Order _ points] frac_lt_1[of "u * real s"]
    by (meson frac_ge_0 less_imp_le subsetD)
  moreover have "bc_position (real k / real s) c = Some (points ! (k * sstep))" if k: "k < s" for k
  proof -
    have "0 \<le> real k / real s" "real k / real s < 1"
      using k by auto
    moreover from this have "bc_position (real k / real s) c = bc_position01 (real k / real s) c"
      using bc_wrap_range[of "real k / real s"] by (auto simp: bc_position_def)
    ultimately show ?thesis
      using segment[of "real k / real s"] k shape(7)[rule_format, OF k] segment_points_hd[of "k * sstep" points Order]
      by (simp add: frac_def de_casteljau_ends)
  qed
  ultimately show ?thesis
    using shape(1,2) x by blast
qed

theorem curve_position_witness:
  "map_option (\<lambda>c. bc_position (1 / 2) c) (bc_make 2 [0, 1, 4, 9, 16 :: real]) = Some (Some 4)"
proof -
  obtain c where c: "bc_make 2 [0, 1, 4, 9, 16 :: real] = Some c" "bc_segment_count c = Some 2" "bc_segment_step c = Some 2"
    by (simp add: bc_make_def points_are_ok_def are_connected_def size_minus_1_def bc_segment_count_def bc_segment_step_def)
  have "\<forall>k < 2. bc_position (real k / real 2) c = Some ([0, 1, 4, 9, 16] ! (k * 2))"
    using curve_position[OF c(1), of 0] c(2,3) by auto
  from this[rule_format, of 1] show ?thesis
    using c(1) by simp
qed
lemma approximate_inner:
  assumes "0 < n" "offs + Order < length points" "bc_points c = points" "bc_order c = Order" "Order \<le> 12" "j0 + k \<le> n" "p + k \<le> length d"
  shows "for_each_opt
       (\<lambda>j (t_sub, dp). Option.bind (bc_bezier c t_sub offs) (\<lambda>x. map_option (Pair (t_sub + 1 / real n)) (bc_write x dp)))
       [j0..<j0 + k] (real j0 / real n, d, p) =
     Some (real (j0 + k) / real n,
       overwrite p (map (\<lambda>j. de_casteljau (real j / real n) (segment_points Order offs points)) [j0..<j0 + k]) d, p + k)"
  using assms(6,7)
proof (induction k arbitrary: j0 d p)
  case (Suc k)
  let ?f = "\<lambda>j. de_casteljau (real j / real n) (segment_points Order offs points)"
  have upt: "[j0..<j0 + Suc k] = j0 # [Suc j0..<Suc j0 + k]"
    by (simp add: upt_conv_Cons)
  have step: "real j0 / real n + 1 / real n = real (Suc j0) / real n"
    by (simp add: add_divide_distrib add.commute)
  have "bc_write (?f j0) (d, p) = Some (overwrite p [?f j0] d, p + 1)"
    using Suc.prems by (simp add: bc_write_overwrite)
  moreover have "overwrite (p + 1) xs (overwrite p [?f j0] d) = overwrite p (?f j0 # xs) d" if "length xs = k" for xs
    using overwrite_overwrite[of p "[?f j0]" xs d] Suc.prems that by simp
  ultimately show ?case
    using Suc.IH[of "Suc j0" "p + 1" "overwrite p [?f j0] d"] Suc.prems bc_bezier_casteljau[OF assms(3-5,2), of "real j0 / real n"]
    unfolding upt by (simp add: step del: upt_Suc)
qed simp

lemma write_last:
  "length xs + 1 = length d \<Longrightarrow> Option.bind (bc_write x (overwrite 0 xs d, length xs)) bc_finish = Some (xs @ [x])"
  by (simp add: bc_write_overwrite bc_finish_def) (simp add: overwrite_def)

text \<open>
  The approximation of a curve by \<open>n\<close> points for each segment fills its result exactly: with the
  points at the parameters \<open>0, 1/n, ..., (n-1)/n\<close> of all segments in order and the last control point.
\<close>

theorem curve_approximate:
  assumes "bc_make Order points = Some c" "0 < Order" "Order \<le> 12" "length points < 2 ^ 64" "0 < n"
  shows "\<exists>s sstep. bc_segment_count c = Some s \<and> bc_segment_step c = Some sstep \<and>
    bc_approximate c n =
      Some (concat (map (\<lambda>i. map (\<lambda>j. de_casteljau (real j / real n) (segment_points Order (i * sstep) points)) [0..<n]) [0..<s])
        @ [last points])"
proof -
  obtain s sstep where shape: "bc_segment_count c = Some s" "bc_segment_step c = Some sstep"
    "bc_points c = points" "bc_order c = Order" "points \<noteq> []"
    "if bc_connected c then sstep = Order \<and> length points = s * Order + 1 \<and> s \<noteq> 1
     else sstep = Order + 1 \<and> length points = s * (Order + 1) \<and> 0 < s"
    "\<forall>i < s. i * sstep + Order < length points"
    by (rule bc_make_shape[OF assms(1,2,4)])
  let ?row = "\<lambda>i. map (\<lambda>j. de_casteljau (real j / real n) (segment_points Order (i * sstep) points)) [0..<n]"
  let ?all = "concat (map ?row [0..<s])"
  have len: "length ?all = s * n"
    by (simp add: length_concat comp_def sum_list_triv)
  have "for_each_opt (bc_approximate_segment c n sstep) [0..<s] (replicate (s * n + 1) 0, 0) =
      Some (overwrite 0 ?all (replicate (s * n + 1) 0), 0 + length ?all)"
  proof (rule for_each_writes)
    fix i d p
    assume i: "i \<in> set [0..<s]" "p + length (?row i) \<le> length (d :: 'a list)"
    then show "bc_approximate_segment c n sstep i (d, p) = Some (overwrite p (?row i) d, p + length (?row i))"
      using approximate_inner[OF assms(5) _ shape(3,4) assms(3), of "i * sstep" 0 n p d] shape(7)
      by (simp add: bc_approximate_segment_def)
  qed (simp only: len, simp)
  then have "bc_approximate c n = Some (?all @ [last points])"
    using shape(1-3) assms(5) write_last[of ?all "replicate (s * n + 1) 0" "last points"] len
    by (simp add: bc_approximate_def del: replicate_Suc)
  then show ?thesis
    using shape(1,2) by blast
qed

theorem curve_approximate_witness:
  "\<exists>x. map_option (\<lambda>c. bc_approximate c 1) (bc_make 2 [0, 1, 4, 9, 16 :: real]) = Some (Some [0, x, 16])"
proof -
  obtain c where c: "bc_make 2 [0, 1, 4, 9, 16 :: real] = Some c" "bc_segment_count c = Some 2" "bc_segment_step c = Some 2"
    by (simp add: bc_make_def points_are_ok_def are_connected_def size_minus_1_def bc_segment_count_def bc_segment_step_def)
  show ?thesis
    using curve_approximate[OF c(1), of 1] c by (simp add: upt_rec segment_points_def de_casteljau_ends)
qed
section \<open>Derivatives\<close>

definition deltas :: "'a::real_vector list \<Rightarrow> 'a list" where
  "deltas ps = map2 (-) (tl ps) (butlast ps)"

lemma length_deltas [simp]: "length (deltas ps) = length ps - 1"
  by (simp add: deltas_def)

lemma deltas_nth: "i + 1 < length ps \<Longrightarrow> deltas ps ! i = ps ! (i + 1) - ps ! i"
  by (simp add: deltas_def nth_tl nth_butlast)

lemma deltas_parts: "deltas (butlast ps) = butlast (deltas ps)" "deltas (tl ps) = tl (deltas ps)"
  by (rule nth_equalityI; simp add: deltas_nth nth_butlast nth_tl)+

lemma de_casteljau_step:
  "1 < length ps \<Longrightarrow> de_casteljau t ps = (1 - t) *\<^sub>R de_casteljau t (butlast ps) + t *\<^sub>R de_casteljau t (tl ps)"
proof -
  assume "1 < length ps"
  then obtain p q r where "ps = p # q # r"
    by (cases ps; cases "tl ps") auto
  then show ?thesis
    by (simp only: de_casteljau.simps list.sel)
qed

lemma de_casteljau_linear:
  "length ps = length qs \<Longrightarrow> de_casteljau t (map2 (\<lambda>p q. c *\<^sub>R (p - q)) ps qs) = c *\<^sub>R (de_casteljau t ps - de_casteljau t qs)"
proof (induction "length ps" arbitrary: ps qs rule: less_induct)
  case less
  let ?d = "map2 (\<lambda>p q. c *\<^sub>R (p - q))"
  show ?case
  proof (cases "1 < length ps")
    case True
    have parts: "butlast (?d ps qs) = ?d (butlast ps) (butlast qs)" "tl (?d ps qs) = ?d (tl ps) (tl qs)"
      using less.prems by (rule_tac [!] nth_equalityI) (simp_all add: nth_butlast nth_tl)
    have IH: "de_casteljau t (?d (butlast ps) (butlast qs)) = c *\<^sub>R (de_casteljau t (butlast ps) - de_casteljau t (butlast qs))"
      "de_casteljau t (?d (tl ps) (tl qs)) = c *\<^sub>R (de_casteljau t (tl ps) - de_casteljau t (tl qs))"
      by (rule less.hyps; use less.prems True in simp)+
    have "de_casteljau t (?d ps qs) = (1 - t) *\<^sub>R de_casteljau t (butlast (?d ps qs)) + t *\<^sub>R de_casteljau t (tl (?d ps qs))"
      using less.prems True by (intro de_casteljau_step) simp
    also have "\<dots> = c *\<^sub>R (de_casteljau t ps - de_casteljau t qs)"
      using less.prems True
      unfolding parts IH by (simp add: de_casteljau_step[of ps] de_casteljau_step[of qs] algebra_simps)
    finally show ?thesis .
  next
    case False
    then show ?thesis
      using less.prems by (cases ps; cases qs) auto
  qed
qed

lemma de_casteljau_deltas:
  "1 < length ps \<Longrightarrow> de_casteljau t (deltas ps) = de_casteljau t (tl ps) - de_casteljau t (butlast ps)"
  using de_casteljau_linear[of "tl ps" "butlast ps" t 1] by (simp add: deltas_def)

lemma de_casteljau_derivative:
  fixes ps :: "'a::real_normed_vector list"
  shows "ps \<noteq> [] \<Longrightarrow>
    ((\<lambda>t. de_casteljau t ps) has_vector_derivative (real (length ps - 1) *\<^sub>R de_casteljau t (deltas ps))) (at t)"
proof (induction "length ps" arbitrary: ps rule: less_induct)
  case less
  show ?case
  proof (cases "1 < length ps")
    case True
    let ?n = "real (length ps - 2)" and ?D = "deltas ps"
    have less_ne: "butlast ps \<noteq> []" "tl ps \<noteq> []"
      using True by (cases ps; auto)+
    have A: "((\<lambda>t. de_casteljau t (butlast ps)) has_vector_derivative ?n *\<^sub>R de_casteljau t (butlast ?D)) (at t)"
      using less(1)[of "butlast ps"] True less_ne by (simp add: deltas_parts numeral_2_eq_2)
    have B: "((\<lambda>t. de_casteljau t (tl ps)) has_vector_derivative ?n *\<^sub>R de_casteljau t (tl ?D)) (at t)"
      using less(1)[of "tl ps"] True less_ne by (simp add: deltas_parts numeral_2_eq_2)
    have "((\<lambda>t. (1 - t) *\<^sub>R de_casteljau t (butlast ps) + t *\<^sub>R de_casteljau t (tl ps)) has_vector_derivative
        ((1 - t) *\<^sub>R (?n *\<^sub>R de_casteljau t (butlast ?D)) + (- 1) *\<^sub>R de_casteljau t (butlast ps)) +
        (t *\<^sub>R (?n *\<^sub>R de_casteljau t (tl ?D)) + 1 *\<^sub>R de_casteljau t (tl ps))) (at t)"
      by (intro has_vector_derivative_add has_vector_derivative_scaleR A B) (auto intro!: derivative_eq_intros)
    moreover have "((1 - t) *\<^sub>R (?n *\<^sub>R de_casteljau t (butlast ?D)) + (- 1) *\<^sub>R de_casteljau t (butlast ps)) +
        (t *\<^sub>R (?n *\<^sub>R de_casteljau t (tl ?D)) + 1 *\<^sub>R de_casteljau t (tl ps)) =
        real (length ps - 1) *\<^sub>R de_casteljau t ?D"
    proof (cases "length ps = 2")
      case True
      then show ?thesis
        using de_casteljau_deltas[of ps t] by simp
    next
      case False
      then have "de_casteljau t ?D = (1 - t) *\<^sub>R de_casteljau t (butlast ?D) + t *\<^sub>R de_casteljau t (tl ?D)"
        using True by (intro de_casteljau_step) simp
      then have "?n *\<^sub>R de_casteljau t ?D = (1 - t) *\<^sub>R (?n *\<^sub>R de_casteljau t (butlast ?D)) + t *\<^sub>R (?n *\<^sub>R de_casteljau t (tl ?D))"
        by (simp only: scaleR_right_distrib scaleR_scaleR mult.commute)
      moreover have "real (length ps - 1) = ?n + 1"
        using True by simp
      ultimately show ?thesis
        using de_casteljau_deltas[OF True, of t] by (simp only: scaleR_left_distrib scaleR_one) simp
    qed
    moreover have "(\<lambda>t. de_casteljau t ps) = (\<lambda>t. (1 - t) *\<^sub>R de_casteljau t (butlast ps) + t *\<^sub>R de_casteljau t (tl ps))"
      by (intro ext de_casteljau_step[OF True])
    ultimately show ?thesis
      by (simp only:)
  next
    case False
    then show ?thesis
      using less.prems by (cases ps) (auto simp: deltas_def)
  qed
qed

lemma concat_singletons: "concat (map (\<lambda>x. [f x]) xs) = map f xs"
  by (induction xs) simp_all

lemma concat_part:
  assumes "\<And>i. i < s \<Longrightarrow> length (f i) = n" "k < s"
  shows "take n (drop (k * n) (concat (map f [0..<s]))) = f k"
proof -
  have prefix: "m \<le> s \<Longrightarrow> length (concat (map f [0..<m])) = m * n" for m
    by (induction m) (simp_all add: assms(1))
  have "[0..<s] = [0..<k] @ k # [Suc k..<s]"
    using assms(2) by (metis less_imp_le_nat upt_add_eq_append upt_conv_Cons le_add_diff_inverse zero_le add_0)
  then show ?thesis
    using assms prefix[of k] by simp
qed

lemma derivative_connected:
  assumes "length new = s * Order" "2 \<le> Order" "s * Order < 2 ^ 64" "s \<noteq> 0"
  shows "are_connected (Order - 1) new \<longleftrightarrow> s \<noteq> 1 \<and> (s - 1) mod (Order - 1) = 0" "points_are_ok (Order - 1) new"
proof -
  have ne: "new \<noteq> []"
    using assms by auto
  have size: "size_minus_1 new = s * Order - 1"
    using size_minus_1_eq[OF ne] assms by simp
  obtain m where m: "Order = Suc (Suc m)"
    using assms(2) by (metis Suc_le_D numeral_2_eq_2 Suc_le_mono)
  obtain r where r: "s = Suc r"
    using assms(4) by (cases s) auto
  have "s * Order - 1 = s * (Order - 1) + (s - 1)"
    by (simp add: m r)
  then have "(s * Order - 1) mod (Order - 1) = (s - 1) mod (Order - 1)"
    by simp
  moreover have "s * Order - 1 = Order - 1 \<longleftrightarrow> s = 1"
    by (auto simp: m r)
  ultimately show "are_connected (Order - 1) new \<longleftrightarrow> s \<noteq> 1 \<and> (s - 1) mod (Order - 1) = 0"
    by (simp add: are_connected_def size)
  show "points_are_ok (Order - 1) new"
    using ne assms(1,2) by (simp add: points_are_ok_def are_separated_def)
qed

text \<open>
  C26. Where its assertions hold, \<^verbatim>\<open>derivative\<close> gives the curve of the derivatives of all segments. They
  fail when the number of segments is such that the new points could be those of a connected curve
  (for cubic curves when it is odd and not one), and for a single point.
\<close>

theorem curve_derivative:
  fixes points :: "'a::real_normed_vector list"
  assumes "bc_make Order points = Some c" "2 \<le> Order" "Order \<le> 12" "length points < 2 ^ 64"
  shows "\<exists>s sstep. bc_segment_count c = Some s \<and> bc_segment_step c = Some sstep \<and>
    (case bc_derivative c of
       None \<Rightarrow> s = 0 \<or> s \<noteq> 1 \<and> (s - 1) mod (Order - 1) = 0
     | Some d \<Rightarrow> s \<noteq> 0 \<and> (s = 1 \<or> (s - 1) mod (Order - 1) \<noteq> 0) \<and> \<not> bc_connected d \<and> bc_segment_count d = Some s \<and>
         (\<forall>i < s. \<forall>t. ((\<lambda>t. de_casteljau t (segment_points Order (i * sstep) points)) has_vector_derivative
           de_casteljau t (segment_points (Order - 1) (i * Order) (bc_points d))) (at t)))"
proof -
  obtain s sstep where shape: "bc_segment_count c = Some s" "bc_segment_step c = Some sstep"
    "bc_points c = points" "bc_order c = Order" "points \<noteq> []"
    "if bc_connected c then sstep = Order \<and> length points = s * Order + 1 \<and> s \<noteq> 1
     else sstep = Order + 1 \<and> length points = s * (Order + 1) \<and> 0 < s"
    "\<forall>i < s. i * sstep + Order < length points"
    using assms(2) by (rule_tac bc_make_shape[OF assms(1) _ assms(4)]) auto
  let ?delta = "\<lambda>i j. real Order *\<^sub>R (points ! (i * sstep + j + 1) - points ! (i * sstep + j))"
  let ?new = "concat (map (\<lambda>i. map (?delta i) [0..<Order]) [0..<s])"
  let ?step = "\<lambda>(i, j) dp. let k = i * sstep + j
      in if k + 1 < length (bc_points c)
         then bc_write (real (bc_order c) *\<^sub>R (bc_points c ! (k + 1) - bc_points c ! k)) dp else None"
  have len: "length ?new = s * Order"
    by (simp add: length_concat comp_def sum_list_triv)
  have flat: "concat (map (\<lambda>x. [case_prod ?delta x]) (List.product [0..<s] [0..<Order])) = ?new"
    unfolding concat_singletons by (simp add: product_concat_map map_concat comp_def)
  have "for_each_opt ?step (List.product [0..<s] [0..<Order]) (replicate (s * Order) 0, 0) =
      Some (overwrite 0 (concat (map (\<lambda>x. [case_prod ?delta x]) (List.product [0..<s] [0..<Order]))) (replicate (s * Order) 0),
        0 + length (concat (map (\<lambda>x. [case_prod ?delta x]) (List.product [0..<s] [0..<Order]))))"
  proof (rule for_each_writes)
    fix x d p
    assume x: "x \<in> set (List.product [0..<s] [0..<Order])" "p + length [case_prod ?delta x] \<le> length (d :: 'a list)"
    obtain i j where ij: "x = (i, j)" "i < s" "j < Order"
      using x(1) by auto
    have "i * sstep + j + 1 < length points"
      using shape(7) ij by fastforce
    then show "?step x (d, p) = Some (overwrite p [case_prod ?delta x] d, p + length [case_prod ?delta x])"
      using x(2) by (simp add: ij shape(3,4) bc_write_overwrite Let_def)
  qed (simp add: flat len)
  then have deriv: "bc_derivative c = bc_make_with (Order - 1) ?new False"
    unfolding flat using shape(1,2,4) len by (simp add: bc_derivative_def bc_finish_def overwrite_all)
  have part: "((\<lambda>t. de_casteljau t (segment_points Order (i * sstep) points)) has_vector_derivative
      de_casteljau t (segment_points (Order - 1) (i * Order) ?new)) (at t)" if i: "i < s" for i t
  proof -
    let ?seg = "segment_points Order (i * sstep) points"
    have seg: "length ?seg = Order + 1" "\<And>j. j \<le> Order \<Longrightarrow> ?seg ! j = points ! (i * sstep + j)"
      using shape(7) i by (fastforce simp: segment_points_def)+
    have "segment_points (Order - 1) (i * Order) ?new = map (?delta i) [0..<Order]"
      unfolding segment_points_def
      using assms(2) concat_part[where f = "\<lambda>i. map (?delta i) [0..<Order]" and n = Order, OF _ i] by simp
    also have "\<dots> = map2 (\<lambda>p q. real Order *\<^sub>R (p - q)) (tl ?seg) (butlast ?seg)"
      by (rule nth_equalityI) (simp_all add: seg nth_tl nth_butlast)
    finally have "de_casteljau t (segment_points (Order - 1) (i * Order) ?new) = real Order *\<^sub>R de_casteljau t (deltas ?seg)"
      using de_casteljau_linear[of "tl ?seg" "butlast ?seg" t "real Order"] de_casteljau_deltas[of ?seg t] seg(1) assms(2) by simp
    then show ?thesis
      using de_casteljau_derivative[of ?seg t] seg(1) by fastforce
  qed
  show ?thesis
  proof (cases "s = 0")
    case True
    then show ?thesis
      using shape(1,2) deriv by (simp add: bc_make_with_def points_are_ok_def)
  next
    case False
    have "s * Order < 2 ^ 64"
      using shape(6) assms(4) by (auto split: if_splits)
    note conn = derivative_connected[OF len assms(2) this False]
    show ?thesis
    proof (cases "are_connected (Order - 1) ?new")
      case True
      then show ?thesis
        using shape(1,2) deriv conn by (simp add: bc_make_with_def)
    next
      case no: False
      have "bc_derivative c = Some \<lparr>bc_order = Order - 1, bc_points = ?new, bc_connected = False\<rparr>"
        unfolding deriv using no conn(2) by (simp add: bc_make_with_def)
      moreover have "bc_segment_count \<lparr>bc_order = Order - 1, bc_points = ?new, bc_connected = False\<rparr> = Some s"
        using conn(2) len assms(2) by (simp add: bc_segment_count_def)
      ultimately show ?thesis
        using shape(1,2) no conn(1) False part by auto
    qed
  qed
qed

lemma curve_derivative_witness:
  "case bc_derivative \<lparr>bc_order = 3, bc_points = [0, 1, 4, (9 :: real)], bc_connected = False\<rparr> of
     None \<Rightarrow> False | Some d \<Rightarrow> bc_segment_count d = Some 1"
proof -
  have "bc_make 3 [0, 1, 4, (9 :: real)] = Some \<lparr>bc_order = 3, bc_points = [0, 1, 4, 9], bc_connected = False\<rparr>"
    by (simp add: bc_make_def points_are_ok_def are_connected_def are_separated_def size_minus_1_def)
  from curve_derivative[OF this] show ?thesis
    by (auto simp: bc_segment_count_def points_are_ok_def are_separated_def split: option.splits)
qed

end
