(* ===== verification/Spec2Isabelle.thy ===== *)
theory Spec2Isabelle
  imports Base64 Identifier String_List Network_Sort Flat_Map Stack_Allocator Sudoku_Tiling Trie Serial_Formats Edit_Distance Object_Pool String_Path Matrix_Construct Curves
begin

text \<open>
  Verification of EAGine-core, the C++ library of common tools of the EAGine projects. All source
  paths below are relative to \<^verbatim>\<open>src/source/modules/eagine/\<close>.

  \<^bold>\<open>The program.\<close> The library is a set of modules layered on each other: \<^verbatim>\<open>memory\<close> has spans (a pointer
  and a size), algorithms on them, packed bit storage and allocators; \<^verbatim>\<open>identifier\<close> packs short
  names into integers with the bit storage of \<^verbatim>\<open>memory\<close>; \<^verbatim>\<open>string\<close> has encodings (base64, multi-byte
  sequences) and a list of strings in one string, whose element headers are multi-byte sequences;
  \<^verbatim>\<open>container\<close> has sorted-vector sets and maps, vectors of bounded size and chunked lists;
  \<^verbatim>\<open>utility\<close> has sorting networks, a sudoku solver and other tools, which use the
  containers; \<^verbatim>\<open>serialization\<close> writes values through a backend (the format) to a data sink and reads
  them back from a data source; \<^verbatim>\<open>math\<close> has vectors, quaternions, matrices and curves, on top of the
  vectors of numbers of \<^verbatim>\<open>simd\<close>. The other modules connect these to the operating system, to other
  libraries and to the user.

  \<^bold>\<open>Modelling conventions.\<close> A span or container is the list of its elements, an iterator the position
  in it, a byte an 8-bit word, an unsigned integer a word of its width, \<^verbatim>\<open>span_size_t\<close> a natural
  number where the code never makes it negative (an integer otherwise). Operations that change an
  object return it. A failed assertion, an access outside a container, and a \<^verbatim>\<open>false\<close> or empty
  \<^verbatim>\<open>optionally_valid\<close> are \<open>None\<close>, in separate layers where the code distinguishes them.
  Template parameters are arguments: sizes are numbers, comparisons are functions, of which
  \<^verbatim>\<open>std::less\<close> and \<^verbatim>\<open>std::greater\<close> are interpretations of the locale \<open>strict_compare\<close>. A default
  constructed value is an argument \<open>d\<close>. Loops that may not end are partial functions into
  \<open>option\<close>; all other loops are proved to terminate. Functions outside of the repository (random
  numbers, the standard streams) are arguments.

  \<^bold>\<open>The theories.\<close>
  \<^item> \<open>Prelude\<close>: types of bytes and integers, collections of facts, lemmas on lists and words.
  \<^item> \<open>Span_Algorithm\<close> (\<^verbatim>\<open>memory/span_algorithm.cpp\<close>): sub-ranges, searches, splitting, writing.
    The searches find the first and the last occurrence; the visitors of delimited parts pass parts
    that make the span again and do not return for an empty delimiter.
  \<^item> \<open>Bit_Density\<close> (\<^verbatim>\<open>memory/bit_density.cpp\<close>) and \<open>Base64\<close> (\<^verbatim>\<open>string/base64.cpp\<close>): regrouping of bits
    between getters and putters, with the locales of getters and putters that consume and produce
    streams; encoding and decoding are inverse, on containers and on spans.
  \<^item> \<open>Byteset\<close> (\<^verbatim>\<open>memory/byteset.cpp\<close>) and \<open>Biteset\<close> (\<^verbatim>\<open>memory/biteset.cpp\<close>): big-endian bytes and
    packed elements of \<open>B\<close> bits; reading after writing, construction, iteration, limits of the width.
  \<^item> \<open>Identifier\<close> (\<^verbatim>\<open>identifier/identifier.cpp\<close>): names of at most ten characters in 64 bits, on top of
    \<open>Biteset\<close>; round trip, injectivity, increment, decimal names.
  \<^item> \<open>Multi_Byte\<close> (\<^verbatim>\<open>string/multi_byte.cpp\<close>): the extension of UTF-8 to 31 bits with encoding and
    decoding of code points and sequences of them.
  \<^item> \<open>String_List\<close> (\<^verbatim>\<open>string/list.cpp\<close>): lists of strings, each between a header and a footer with its
    size; the two ends, visitors, iterators in both directions, splitting and joining.
  \<^item> \<open>Std_Algorithm\<close>: the parts of the standard library the containers use (binary searches, sorting,
    insertion into and removal from vectors), specified once under the locale \<open>strict_compare\<close>,
    the locale \<open>op_refinement\<close> of a simulation between two machines that run operations, and
    \<open>op_simulation\<close>, where the specification is a relation because the code leaves a result open.
  \<^item> \<open>Network_Sort\<close> (\<^verbatim>\<open>utility/network_sort.cpp\<close>): the tables and generated networks; sortedness by
    the zero-one principle and evaluation of all zero-one inputs as decision trees.
  \<^item> \<open>Flat_Set\<close>, \<open>Flat_Map\<close> (\<^verbatim>\<open>container/flat_set.cpp\<close>, \<^verbatim>\<open>flat_map.cpp\<close>): sorted vectors refine sets and
    maps. The locales \<open>set_interface\<close> and \<open>map_interface\<close> state what clients rely on.
  \<^item> \<open>Static_Vector\<close>, \<open>Chunk_List\<close> (\<^verbatim>\<open>container/static_vector.cpp\<close>, \<^verbatim>\<open>chunk_list.cpp\<close>): the first
    refines lists of bounded length together with the old elements behind the end, which a growing
    \<^verbatim>\<open>resize\<close> brings back; the second uses it for its chunks and refines all lists, the elements
    that a growing \<^verbatim>\<open>resize\<close> adds being any.
  \<^item> \<open>Stack_Allocator\<close> (\<^verbatim>\<open>memory/stack_allocator.cpp\<close>, \<^verbatim>\<open>align.cpp\<close>, \<^verbatim>\<open>address.cpp\<close>): the allocator as a
    step relation with its live blocks and the bytes that truncation cut off; disjointness, when the
    return of all blocks frees the whole store, intact headers, the allocator without headers.
  \<^item> \<open>Sudoku\<close>, \<open>Sudoku_Solver\<close>, \<open>Sudoku_Tiling\<close> (\<^verbatim>\<open>utility/sudoku.cpp\<close>): boards whose cells are sets of
    glyphs, the depth-first solver on a chunk list and the tiling of the plane by boards in a flat
    map. Calculating alternatives keeps every completion of a board; so the solver finds a solution
    exactly if there is one. Every tiling that can be reached shares blocks between neighbours.
  \<^item> \<open>Trie\<close> (\<^verbatim>\<open>container/trie.cpp\<close>): string dictionaries as vectors of nodes. Under the locale
    \<open>budget_refinement\<close> (as long as the indices suffice) every run of operations gives the answers of
    a map; traversals report what is stored but end with undefined behaviour.
  \<^item> \<open>Serial_Data\<close> (\<^verbatim>\<open>serialization/result.cpp\<close>, \<^verbatim>\<open>interface.cpp\<close>, \<^verbatim>\<open>block.cpp\<close>, \<^verbatim>\<open>iostream.cpp\<close>,
    \<^verbatim>\<open>implementation.cpp\<close>): data sinks with transactions and data sources, over memory and over
    streams. Backends use them through the locales \<open>data_sink\<close> and \<open>data_source\<close>.
  \<^item> \<open>Serialization\<close> (\<^verbatim>\<open>serialization/write.cpp\<close>, \<^verbatim>\<open>read.cpp\<close>): values of nested types and their
    serializers; under the locale \<open>serial_format\<close>, reading undoes writing. \<open>Portable_Backend\<close>
    (\<^verbatim>\<open>portable_backend.cpp\<close>) is the text format, and \<open>Serial_Formats\<close> shows that it is such a format
    over every sink and source, and which values are not read back.
  \<^item> \<open>Edit_Distance\<close> (\<^verbatim>\<open>memory/edit_distance.cpp\<close>): the row-by-row table of distances; it holds the least
    cost of any edits, and the default distance is a metric.
  \<^item> \<open>Small_Vector\<close> and \<open>Object_Pool\<close> (\<^verbatim>\<open>container/small_vector.cpp\<close>, \<^verbatim>\<open>object_pool.cpp\<close>): vectors that
    leave their static storage when it is full, by insertion or by \<^verbatim>\<open>resize\<close>, refine lists; the pool of reusable objects keeps the
    objects of its clients apart and unchanged.
  \<^item> \<open>String_Path\<close> (\<^verbatim>\<open>string/path.cpp\<close>): paths on top of \<open>String_List\<close>; they refine lists of names.
  \<^item> \<open>Simd\<close> (\<^verbatim>\<open>simd/ops.cpp\<close>, \<^verbatim>\<open>types/simd_data.cpp\<close>), \<open>Vector_Math\<close> (\<^verbatim>\<open>math/vector.cpp\<close>,
    \<^verbatim>\<open>quaternion.cpp\<close>): vectors of numbers and quaternions; the sums for compiler vectors are the
    sums, quaternions of a unit axis and an angle rotate.
  \<^item> \<open>Matrix_Math\<close>, \<open>Matrix_Elimination\<close> (\<^verbatim>\<open>math/matrix.cpp\<close>), \<open>Matrix_Construct\<close>
    (\<^verbatim>\<open>math/matrix_construct.cpp\<close>): matrices in both orders of storage, independent of it; Gauss-Jordan
    elimination finds the inverse exactly if there is one; rotations agree with quaternions,
    projections and cameras with what they are to show.
  \<^item> \<open>Curves\<close> (\<^verbatim>\<open>math/curves.cpp\<close>, \<^verbatim>\<open>functions.cpp\<close>): Bezier curves are those of repeated linear
    interpolation; positions, approximation and derivatives of curves of several segments.

  \<^bold>\<open>Bounds.\<close> No theorem is about a bounded approximation of a loop. The limits that appear in
  statements are those of the code: ten characters of an identifier, elements of at most 49 bits,
  sequences of at most six bytes, the sizes of the sorting tables, glyphs that fit into 32 bits,
  Bezier curves of at most thirteen points.

  \<^bold>\<open>Not modelled.\<close> Input and output, processes, threads and clocks of the operating system
  (\<^verbatim>\<open>runtime\<close>, \<^verbatim>\<open>main_ctx\<close>, \<^verbatim>\<open>resource\<close>, \<^verbatim>\<open>app\<close>), log and console output (\<^verbatim>\<open>logging\<close>, \<^verbatim>\<open>console\<close>,
  \<^verbatim>\<open>progress\<close>), parsers of other libraries (\<^verbatim>\<open>value_tree\<close>), the rounding of floating point numbers (in \<^verbatim>\<open>math\<close> and \<^verbatim>\<open>simd\<close> the numbers
  are exact), colours, coordinates and intersections of \<^verbatim>\<open>math\<close>, types
  that exist only at compile time (\<^verbatim>\<open>units\<close>, \<^verbatim>\<open>reflection\<close>, \<^verbatim>\<open>c_api\<close>), and memory management of
  containers (capacities, reference counts, destructors).
\<close>

end
